(* ===== verification/Prelude.thy ===== *)
theory Prelude
  imports Complex_Main "HOL-Library.Multiset"
begin

text \<open>
  Shared vocabulary of the development.

  \<^item> Fallible code returns a sum: \<open>Inl\<close> is the thrown error, \<open>Inr\<close> the returned value;
    \<open>bindE\<close> sequences two such computations and \<open>foldE\<close> runs a throwing loop body over a list.
  \<^item> JavaScript numbers that matter here are finite and are read as exact rationals;
    \<open>isSafeInteger\<close> is the test \<open>Number.isSafeInteger\<close> makes.
  \<^item> \<open>js_index\<close>, \<open>indexOf\<close>, \<open>spliceAt\<close> are the array primitives with their out-of-range results.
  \<^item> The locale \<open>checked_fold\<close> is the contract every replayed projection of the repository obeys:
    a step that may throw and that keeps an invariant. Surfaces, traces and inboxes interpret it.
\<close>

named_theorems result_simps \<open>equations and inversions for fallible computations\<close>
named_theorems array_simps \<open>facts about the JavaScript array primitives\<close>

section \<open>Fallible computations\<close>

fun bindE :: "'e + 'a \<Rightarrow> ('a \<Rightarrow> 'e + 'b) \<Rightarrow> 'e + 'b" where
  "bindE (Inl e) f = Inl e"
| "bindE (Inr a) f = f a"

lemma bindE_Inr_iff [result_simps]: "bindE m f = Inr b \<longleftrightarrow> (\<exists>a. m = Inr a \<and> f a = Inr b)"
  by (cases m) auto

lemma bindE_Inl_iff [result_simps]:
  "bindE m f = Inl e \<longleftrightarrow> m = Inl e \<or> (\<exists>a. m = Inr a \<and> f a = Inl e)"
  by (cases m) auto

lemma bindE_assoc: "bindE (bindE m f) g = bindE m (\<lambda>a. bindE (f a) g)"
  by (cases m) auto

lemma bindE_cong [fundef_cong]:
  "m = m' \<Longrightarrow> (\<And>a. m' = Inr a \<Longrightarrow> f a = f' a) \<Longrightarrow> bindE m f = bindE m' f'"
  by (cases m') auto

lemma Inr_if_iff [result_simps]:
  "(if c then Inl e else m) = Inr b \<longleftrightarrow> \<not> c \<and> m = Inr b"
  by simp

lemma isl_iff: "isl m \<longleftrightarrow> (\<exists>e. m = Inl e)"
  by (cases m) auto

fun foldE :: "('s \<Rightarrow> 'x \<Rightarrow> 'e + 's) \<Rightarrow> 's \<Rightarrow> 'x list \<Rightarrow> 'e + 's" where
  "foldE f s [] = Inr s"
| "foldE f s (x # xs) = bindE (f s x) (\<lambda>s'. foldE f s' xs)"

lemma foldE_append: "foldE f s (xs @ ys) = bindE (foldE f s xs) (\<lambda>s'. foldE f s' ys)"
  by (induction xs arbitrary: s) (auto simp: bindE_assoc)

lemma foldE_append_Inr:
  "foldE f s xs = Inr s' \<Longrightarrow> foldE f s (xs @ ys) = foldE f s' ys"
  by (simp add: foldE_append)

lemma foldE_prefix:
  "foldE f s (xs @ ys) = Inr t \<Longrightarrow> \<exists>s'. foldE f s xs = Inr s' \<and> foldE f s' ys = Inr t"
  by (auto simp: foldE_append result_simps)

lemma foldE_snoc_Inr:
  "foldE f s (xs @ [x]) = Inr t \<longleftrightarrow> (\<exists>s'. foldE f s xs = Inr s' \<and> f s' x = Inr t)"
  by (auto simp: foldE_append result_simps)

fun mapE :: "('x \<Rightarrow> 'e + 'y) \<Rightarrow> 'x list \<Rightarrow> 'e + 'y list" where
  "mapE f [] = Inr []"
| "mapE f (x # xs) = bindE (f x) (\<lambda>y. bindE (mapE f xs) (\<lambda>ys. Inr (y # ys)))"

lemma mapE_Inr: "mapE f xs = Inr ys \<longleftrightarrow> list_all2 (\<lambda>x y. f x = Inr y) xs ys"
  by (induction xs arbitrary: ys) (auto simp: result_simps list_all2_Cons1)

lemma mapE_total: "(\<And>x. x \<in> set xs \<Longrightarrow> f x = Inr (g x)) \<Longrightarrow> mapE f xs = Inr (map g xs)"
  by (induction xs) auto

lemma mapE_cong: "(\<And>x. x \<in> set xs \<Longrightarrow> f x = g x) \<Longrightarrow> mapE f xs = mapE g xs"
  by (induction xs) auto

text \<open>
  The contract of a replayed projection: a throwing step over the events of a log, an
  initial state, and an invariant of the state that mentions how many events were replayed.
\<close>

locale checked_fold =
  fixes step :: "'s \<Rightarrow> 'x \<Rightarrow> 'e + 's"
    and start :: 's
    and inv :: "'x list \<Rightarrow> 's \<Rightarrow> bool"
  assumes inv_start: "inv [] start"
    and inv_step: "\<lbrakk>foldE step start xs = Inr s; inv xs s; step s x = Inr t\<rbrakk> \<Longrightarrow> inv (xs @ [x]) t"
begin

lemma replay_inv: "foldE step start xs = Inr s \<Longrightarrow> inv xs s"
proof (induction xs arbitrary: s rule: rev_induct)
  case Nil
  then show ?case using inv_start by auto
next
  case (snoc x xs)
  then obtain s' where "foldE step start xs = Inr s'" "step s' x = Inr s"
    by (auto simp: foldE_snoc_Inr)
  with snoc.IH show ?case by (blast intro: inv_step)
qed

lemma replay_prefix_inv:
  "foldE step start (xs @ ys) = Inr t \<Longrightarrow> \<exists>s. foldE step start xs = Inr s \<and> inv xs s"
  using foldE_prefix [of step start xs ys t] replay_inv by blast

end

section \<open>Numbers\<close>

definition maxSafe :: int where
  "maxSafe = 9007199254740991"

definition isInteger :: "rat \<Rightarrow> bool" where
  "isInteger x \<longleftrightarrow> of_int \<lfloor>x\<rfloor> = x"

definition isSafeInteger :: "rat \<Rightarrow> bool" where
  "isSafeInteger x \<longleftrightarrow> isInteger x \<and> \<bar>x\<bar> \<le> of_int maxSafe"

lemma isInteger_of_int [simp]: "isInteger (of_int i)"
  by (simp add: isInteger_def)

lemma isSafeInteger_of_int [simp]: "isSafeInteger (of_int i) \<longleftrightarrow> \<bar>i\<bar> \<le> maxSafe"
  unfolding isSafeInteger_def by (metis isInteger_of_int of_int_abs of_int_le_iff)

lemma isInteger_floor: "isInteger x \<Longrightarrow> of_int \<lfloor>x\<rfloor> = x"
  by (simp add: isInteger_def)

lemma isSafeInteger_isInteger: "isSafeInteger x \<Longrightarrow> isInteger x"
  by (simp add: isSafeInteger_def)

lemma isInteger_add: "isInteger x \<Longrightarrow> isInteger y \<Longrightarrow> isInteger (x + y)"
  unfolding isInteger_def by (metis floor_of_int of_int_add)

lemma isInteger_diff: "isInteger x \<Longrightarrow> isInteger y \<Longrightarrow> isInteger (x - y)"
  unfolding isInteger_def by (metis floor_of_int of_int_diff)

section \<open>Arrays\<close>

definition js_index :: "'a list \<Rightarrow> int \<Rightarrow> 'a option" where
  "js_index xs i = (if 0 \<le> i \<and> i < int (length xs) then Some (xs ! nat i) else None)"

lemma js_index_Some [array_simps]:
  "js_index xs i = Some x \<longleftrightarrow> 0 \<le> i \<and> i < int (length xs) \<and> xs ! nat i = x"
  by (auto simp: js_index_def)

lemma js_index_append1 [array_simps]: "i < int (length xs) \<Longrightarrow> js_index (xs @ ys) i = js_index xs i"
  by (auto simp: js_index_def nth_append nat_less_iff)

lemma js_index_nat: "k < length xs \<Longrightarrow> js_index xs (int k) = Some (xs ! k)"
  by (simp add: js_index_def)

lemma js_index_snoc: "js_index (xs @ [x]) (int (length xs)) = Some x"
  by (simp add: js_index_def)

fun indexOf :: "'a list \<Rightarrow> 'a \<Rightarrow> nat option" where
  "indexOf [] x = None"
| "indexOf (y # ys) x = (if y = x then Some 0 else map_option Suc (indexOf ys x))"

lemma indexOf_Some [array_simps]:
  "indexOf xs x = Some i \<longleftrightarrow> i < length xs \<and> xs ! i = x \<and> x \<notin> set (take i xs)"
proof (induction xs arbitrary: i)
  case Nil
  show ?case by simp
next
  case (Cons y ys)
  then show ?case by (cases i) auto
qed

lemma indexOf_None [array_simps]: "indexOf xs x = None \<longleftrightarrow> x \<notin> set xs"
  by (induction xs) auto

lemma indexOf_distinct: "distinct xs \<Longrightarrow> i < length xs \<Longrightarrow> indexOf xs (xs ! i) = Some i"
  by (auto simp: array_simps in_set_conv_nth nth_eq_iff_index_eq)

fun findIndex :: "('a \<Rightarrow> bool) \<Rightarrow> 'a list \<Rightarrow> nat option" where
  "findIndex p [] = None"
| "findIndex p (x # xs) = (if p x then Some 0 else map_option Suc (findIndex p xs))"

lemma findIndex_Some [array_simps]:
  "findIndex p xs = Some i \<Longrightarrow> i < length xs \<and> p (xs ! i)"
proof (induction xs arbitrary: i)
  case Nil
  then show ?case by simp
next
  case (Cons y ys)
  then show ?case by (cases i) (auto split: if_splits)
qed

lemma findIndex_None [array_simps]: "findIndex p xs = None \<longleftrightarrow> (\<forall>x \<in> set xs. \<not> p x)"
  by (induction xs) auto

definition findLast :: "('a \<Rightarrow> bool) \<Rightarrow> 'a list \<Rightarrow> 'a option" where
  "findLast p xs = find p (rev xs)"

lemma findLast_snoc [simp]: "findLast p (xs @ [x]) = (if p x then Some x else findLast p xs)"
  by (simp add: findLast_def)

lemma findLast_Nil [simp]: "findLast p [] = None"
  by (simp add: findLast_def)

lemma findLast_append:
  "findLast p (xs @ ys) = (case findLast p ys of None \<Rightarrow> findLast p xs | Some y \<Rightarrow> Some y)"
  by (induction ys rule: rev_induct) (simp_all add: append_assoc [symmetric] del: append_assoc)

lemma findLast_Some: "findLast p xs = Some x \<Longrightarrow> x \<in> set xs \<and> p x"
  by (induction xs rule: rev_induct) (auto split: if_splits)

text \<open>\<open>Array.prototype.splice\<close> at an in-range position: what stays, and what is removed.\<close>

definition spliceAt :: "nat \<Rightarrow> nat \<Rightarrow> 'a list \<Rightarrow> 'a list \<Rightarrow> 'a list" where
  "spliceAt i n ins xs = take i xs @ ins @ drop (i + n) xs"

definition splicedOut :: "nat \<Rightarrow> nat \<Rightarrow> 'a list \<Rightarrow> 'a list" where
  "splicedOut i n xs = take n (drop i xs)"

lemma splice_parts: "xs = take i xs @ splicedOut i n xs @ drop (i + n) xs"
  by (metis add.commute append_take_drop_id drop_drop splicedOut_def)

lemma mset_spliceAt:
  "mset (spliceAt i n ins xs) + mset (splicedOut i n xs) = mset xs + mset ins"
proof -
  have "mset xs = mset (take i xs @ splicedOut i n xs @ drop (i + n) xs)"
    using splice_parts [of xs i n] by simp
  then show ?thesis by (simp add: spliceAt_def)
qed

lemma set_spliceAt_subset: "set (spliceAt i n ins xs) \<subseteq> set xs \<union> set ins"
  by (auto simp: spliceAt_def dest: in_set_takeD in_set_dropD)

lemma length_splicedOut: "i + n \<le> length xs \<Longrightarrow> length (splicedOut i n xs) = n"
  by (simp add: splicedOut_def)

lemma distinct_mset_subseteq:
  assumes "mset xs \<subseteq># mset ys" "distinct ys"
  shows "distinct xs"
proof -
  have "count (mset xs) a = (if a \<in> set xs then 1 else 0)" for a
  proof (cases "a \<in> set xs")
    case True
    then have "0 < count (mset xs) a" by (simp add: count_greater_zero_iff)
    moreover have "count (mset xs) a \<le> count (mset ys) a"
      by (rule mset_subset_eq_count [OF assms(1)])
    moreover have "count (mset ys) a \<le> 1"
      using assms(2) unfolding distinct_count_atmost_1 by (cases "a \<in> set ys") auto
    ultimately have "count (mset xs) a = 1" by linarith
    with True show ?thesis by simp
  next
    case False
    then show ?thesis by (simp add: count_eq_zero_iff)
  qed
  then show ?thesis unfolding distinct_count_atmost_1 by blast
qed

section \<open>Association lists used as ordered maps\<close>

text \<open>
  A JavaScript \<open>Map\<close> keeps insertion order: \<open>set\<close> on a present key keeps its place,
  on an absent key appends; \<open>delete\<close> removes.
\<close>

fun map_set :: "'k \<Rightarrow> 'v \<Rightarrow> ('k \<times> 'v) list \<Rightarrow> ('k \<times> 'v) list" where
  "map_set k v [] = [(k, v)]"
| "map_set k v ((k', v') # m) = (if k' = k then (k, v) # m else (k', v') # map_set k v m)"

definition map_delete :: "'k \<Rightarrow> ('k \<times> 'v) list \<Rightarrow> ('k \<times> 'v) list" where
  "map_delete k m = filter (\<lambda>p. fst p \<noteq> k) m"

lemma map_of_map_set [simp]: "map_of (map_set k v m) = (map_of m)(k \<mapsto> v)"
  by (induction m) auto

lemma keys_map_set [simp]: "fst ` set (map_set k v m) = insert k (fst ` set m)"
  by (simp add: dom_map_of_conv_image_fst [symmetric])

lemma distinct_map_set: "distinct (map fst m) \<Longrightarrow> distinct (map fst (map_set k v m))"
proof (induction m)
  case Nil
  then show ?case by simp
next
  case (Cons p m)
  obtain k' v' where "p = (k', v')" by force
  moreover have "set (map fst (map_set k v m)) = insert k (set (map fst m))"
    using keys_map_set [of k v m] by simp
  ultimately show ?case using Cons by auto
qed

lemma map_of_map_delete [simp]: "map_of (map_delete k m) = (map_of m)(k := None)"
  by (induction m) (auto simp: map_delete_def fun_eq_iff)

lemma distinct_map_delete: "distinct (map fst m) \<Longrightarrow> distinct (map fst (map_delete k m))"
  by (induction m) (auto simp: map_delete_def)

lemma map_delete_absent: "k \<notin> fst ` set m \<Longrightarrow> map_delete k m = m"
  by (induction m) (auto simp: map_delete_def)

lemma set_map_delete: "set (map_delete k m) = {p \<in> set m. fst p \<noteq> k}"
  by (auto simp: map_delete_def)

lemma keys_map_delete [simp]: "fst ` set (map_delete k m) = fst ` set m - {k}"
  by (auto simp: map_delete_def)

lemma set_map_set_subset: "set (map_set k v m) \<subseteq> insert (k, v) (set m)"
  by (induction m) (auto split: if_splits)

section \<open>Decimal text of an integer\<close>

fun digits_of :: "nat \<Rightarrow> string" where
  "digits_of n = (if n < 10 then [char_of (48 + n)] else digits_of (n div 10) @ [char_of (48 + n mod 10)])"

declare digits_of.simps [simp del]

definition text_of_int :: "int \<Rightarrow> string" where
  "text_of_int i = (if i < 0 then CHR ''-'' # digits_of (nat (- i)) else digits_of (nat i))"

end
