(* ===== verification/Json.thy ===== *)
theory Json
  imports Prelude
begin

text \<open>
  JSON values and JavaScript numbers.

  \<open>json\<close> is \<open>JsonValue\<close> of \<open>core/session/src/json.ts\<close>: the values that survive a JSON round trip.
  Numbers are exact rationals: a durable JSON number is a finite double other than negative zero,
  hence a rational, and the code computes with such numbers only inside the safe-integer range,
  where double arithmetic is exact. An object is its list of own properties in insertion order,
  without repeated keys (\<open>wf_json\<close>).

  \<open>js_number\<close> is a run-time number where the code meets the other doubles: negative zero (which is not
  lossless JSON), the infinities and NaN.
  \<open>isDeepEqualJson\<close> is the structural equality of \<open>core/session/src/surface.ts\<close>; it is proved to
  be an equivalence on well-formed values, and equality of the property maps on objects.
\<close>

datatype js_number = Fin rat | NegZero | PosInf | NegInf | NaN

fun isFinite :: "js_number \<Rightarrow> bool" where
  "isFinite (Fin _) = True"
| "isFinite NegZero = True"
| "isFinite _ = False"

datatype json =
    JNull
  | JBool bool
  | JNum rat
  | JStr string
  | JArr "json list"
  | JObj "(string \<times> json) list"

fun wf_json :: "json \<Rightarrow> bool" where
  "wf_json (JArr xs) \<longleftrightarrow> (\<forall>x \<in> set xs. wf_json x)"
| "wf_json (JObj kvs) \<longleftrightarrow> distinct (map fst kvs) \<and> (\<forall>kv \<in> set kvs. wf_json (snd kv))"
| "wf_json _ \<longleftrightarrow> True"

section \<open>Property access\<close>

text \<open>\<open>value[key]\<close> on a record; \<open>None\<close> is \<open>undefined\<close>.\<close>

fun obj_get :: "json \<Rightarrow> string \<Rightarrow> json option" where
  "obj_get (JObj kvs) k = map_of kvs k"
| "obj_get _ k = None"

fun obj_keys :: "json \<Rightarrow> string list" where
  "obj_keys (JObj kvs) = map fst kvs"
| "obj_keys _ = []"

definition hasOwn :: "json \<Rightarrow> string \<Rightarrow> bool" where
  "hasOwn v k \<longleftrightarrow> k \<in> set (obj_keys v)"

definition hasExactKeys :: "json \<Rightarrow> string list \<Rightarrow> bool" where
  "hasExactKeys v keys \<longleftrightarrow> length (obj_keys v) = length keys \<and> list_all (hasOwn v) keys"

fun is_object :: "json \<Rightarrow> bool" where
  "is_object (JObj _) = True"
| "is_object _ = False"

fun is_number :: "json option \<Rightarrow> bool" where
  "is_number (Some (JNum _)) = True"
| "is_number _ = False"

fun is_string :: "json option \<Rightarrow> bool" where
  "is_string (Some (JStr _)) = True"
| "is_string _ = False"

fun is_safe_integer :: "json option \<Rightarrow> bool" where
  "is_safe_integer (Some (JNum x)) = isSafeInteger x"
| "is_safe_integer _ = False"

text \<open>Reading a field the code has already tested (\<open>as number\<close>, \<open>as string\<close>).\<close>

fun as_num :: "json option \<Rightarrow> rat" where
  "as_num (Some (JNum x)) = x"
| "as_num _ = 0"

fun as_str :: "json option \<Rightarrow> string" where
  "as_str (Some (JStr s)) = s"
| "as_str _ = []"

lemma is_number_iff: "is_number v \<longleftrightarrow> (\<exists>x. v = Some (JNum x))"
  by (cases v rule: is_number.cases) auto

lemma is_string_iff: "is_string v \<longleftrightarrow> (\<exists>x. v = Some (JStr x))"
  by (cases v rule: is_string.cases) auto

lemma is_safe_integer_iff: "is_safe_integer v \<longleftrightarrow> (\<exists>x. v = Some (JNum x) \<and> isSafeInteger x)"
  by (cases v rule: is_safe_integer.cases) auto

lemma is_object_iff: "is_object v \<longleftrightarrow> (\<exists>kvs. v = JObj kvs)"
  by (cases v) auto

lemma obj_get_wf: "wf_json v \<Longrightarrow> obj_get v k = Some w \<Longrightarrow> wf_json w"
  by (cases v) (force dest: map_of_SomeD)+

lemma hasOwn_get: "hasOwn v k \<longleftrightarrow> obj_get v k \<noteq> None"
  by (cases v) (auto simp: hasOwn_def map_of_eq_None_iff)

lemma hasExactKeys_set:
  assumes "hasExactKeys v keys" "distinct keys"
  shows "set (obj_keys v) = set keys"
proof -
  have sub: "set keys \<subseteq> set (obj_keys v)"
    using assms by (auto simp: hasExactKeys_def hasOwn_def list_all_iff)
  have "card (set (obj_keys v)) \<le> length keys"
    using assms card_length [of "obj_keys v"] by (simp add: hasExactKeys_def)
  also have "length keys = card (set keys)"
    using assms(2) by (simp add: distinct_card)
  finally show ?thesis
    using sub by (metis List.finite_set card_seteq)
qed

section \<open>Structural equality\<close>

fun isDeepEqualJson :: "json \<Rightarrow> json \<Rightarrow> bool"
  and deepEqualItems :: "json list \<Rightarrow> json list \<Rightarrow> bool"
  and deepEqualProps :: "(string \<times> json) list \<Rightarrow> (string \<times> json) list \<Rightarrow> bool" where
  "isDeepEqualJson JNull b = (b = JNull)"
| "isDeepEqualJson (JBool x) b = (b = JBool x)"
| "isDeepEqualJson (JNum x) b = (b = JNum x)"
| "isDeepEqualJson (JStr x) b = (b = JStr x)"
| "isDeepEqualJson (JArr xs) b =
     (case b of JArr ys \<Rightarrow> length xs = length ys \<and> deepEqualItems xs ys | _ \<Rightarrow> False)"
| "isDeepEqualJson (JObj kvs) b =
     (case b of JObj kvs' \<Rightarrow> length kvs = length kvs' \<and> deepEqualProps kvs kvs' | _ \<Rightarrow> False)"
| "deepEqualItems [] ys = True"
| "deepEqualItems (x # xs) ys =
     (case ys of [] \<Rightarrow> False | y # ys' \<Rightarrow> isDeepEqualJson x y \<and> deepEqualItems xs ys')"
| "deepEqualProps [] m = True"
| "deepEqualProps ((k, v) # kvs) m =
     (case map_of m k of None \<Rightarrow> False | Some w \<Rightarrow> isDeepEqualJson v w \<and> deepEqualProps kvs m)"

lemma deepEqualItems_iff:
  "length xs = length ys \<Longrightarrow> deepEqualItems xs ys \<longleftrightarrow> list_all2 isDeepEqualJson xs ys"
  by (induction xs ys rule: list_induct2) auto

lemma deepEqualProps_iff:
  "deepEqualProps kvs m \<longleftrightarrow>
     (\<forall>(k, v) \<in> set kvs. \<exists>w. map_of m k = Some w \<and> isDeepEqualJson v w)"
  by (induction kvs) (auto split: option.splits)

lemma isDeepEqualJson_JArr:
  "isDeepEqualJson (JArr xs) b \<longleftrightarrow> (\<exists>ys. b = JArr ys \<and> list_all2 isDeepEqualJson xs ys)"
  by (cases b) (auto simp: deepEqualItems_iff list_all2_lengthD)

lemma isDeepEqualJson_JObj:
  "isDeepEqualJson (JObj kvs) b \<longleftrightarrow>
     (\<exists>kvs'. b = JObj kvs' \<and> length kvs = length kvs' \<and>
        (\<forall>(k, v) \<in> set kvs. \<exists>w. map_of kvs' k = Some w \<and> isDeepEqualJson v w))"
  by (cases b) (auto simp: deepEqualProps_iff)

lemma isDeepEqualJson_refl: "wf_json v \<Longrightarrow> isDeepEqualJson v v"
proof (induction v)
  case (JArr xs)
  then have "list_all2 isDeepEqualJson xs xs"
    by (auto intro: list.rel_refl_strong)
  then show ?case by (simp only: isDeepEqualJson_JArr) simp
next
  case (JObj kvs)
  then have "\<forall>(k, v) \<in> set kvs. \<exists>w. map_of kvs k = Some w \<and> isDeepEqualJson v w"
    by force
  then show ?case by (simp only: isDeepEqualJson_JObj) simp
qed simp_all

text \<open>On a typed record encoded property by property the test is component equality.\<close>

lemma isDeepEqualJson_scalar [simp]:
  "isDeepEqualJson v JNull \<longleftrightarrow> v = JNull"
  "isDeepEqualJson v (JBool b) \<longleftrightarrow> v = JBool b"
  "isDeepEqualJson v (JNum x) \<longleftrightarrow> v = JNum x"
  "isDeepEqualJson v (JStr s) \<longleftrightarrow> v = JStr s"
  by (cases v; auto)+

end
