(* ===== verification/Json_Walk.thy ===== *)
theory Json_Walk
  imports Json
begin

text \<open>
  Lossless-JSON validation and detached snapshots: \<open>core/session/src/json.ts\<close>.

  The candidate is a value over a heap of JavaScript objects, so sharing, cycles, holes, symbol keys,
  hidden properties and foreign prototypes are all there. \<open>walkLoop\<close> is the explicit task stack of
  \<open>walkJsonValue\<close>, one \<open>walkTask\<close> per iteration; in detach mode it allocates its targets on the same heap.
  It is a partial function whose value \<open>None\<close> is a loop that never ends, and \<open>Some None\<close> is the
  \<open>undefined\<close> the code returns. \<open>represents\<close> is the specification: the finite JSON tree a value unfolds to.

  A property read is a read of the heap: accessors, and proxies that answer differently each time, are
  not modelled.
\<close>

section \<open>The heap\<close>

text \<open>
  A prototype with what the code asks of it: whether it is an array, its own \<open>constructor\<close> when that is a
  function, and its own prototype. \<open>ct_text\<close> is the source text of the constructor, \<open>None\<close> when asking throws.
\<close>

record ctor =
  ct_name :: string
  ct_prototype :: bool
  ct_text :: "string option"

datatype proto = NoProto | Proto (pr_isArray: bool) (pr_ctor: "ctor option") (pr_parent: proto)

type_synonym addr = nat

text \<open>\<open>VOther\<close> is a bigint, a symbol or a function.\<close>

datatype jsval = VNull | VBool bool | VNum js_number | VStr string | VRef addr | VUndefined | VOther

text \<open>
  An array has its indexed slots, a hole being \<open>None\<close>, and the number of its other own keys besides
  \<open>length\<close>. Any other object has its own keys in order, a symbol being \<open>None\<close>, each with its
  enumerability and value.
\<close>

datatype hobj =
    HArr proto "jsval option list" nat
  | HObj proto "(string option \<times> bool \<times> jsval) list"

type_synonym heap = "hobj list"

section \<open>Prototypes\<close>

definition hasIntrinsicConstructor :: "proto \<Rightarrow> string \<Rightarrow> bool" where
  "hasIntrinsicConstructor p name =
     (case p of
        Proto _ (Some c) _ \<Rightarrow>
          ct_name c = name \<and> ct_prototype c
            \<and> ct_text c = Some (''function '' @ name @ ''() { [native code] }'')
      | _ \<Rightarrow> False)"

definition isIntrinsicObjectPrototype :: "proto \<Rightarrow> bool" where
  "isIntrinsicObjectPrototype p \<longleftrightarrow>
     (case p of Proto _ _ parent \<Rightarrow> parent = NoProto | NoProto \<Rightarrow> False)
       \<and> hasIntrinsicConstructor p ''Object''"

definition hasPlainArrayPrototype :: "proto \<Rightarrow> bool" where
  "hasPlainArrayPrototype p \<longleftrightarrow>
     (case p of
        Proto isArray _ parent \<Rightarrow>
          isArray \<and> hasIntrinsicConstructor p ''Array''
            \<and> parent \<noteq> NoProto \<and> isIntrinsicObjectPrototype parent
      | NoProto \<Rightarrow> False)"

definition hasPlainObjectPrototype :: "proto \<Rightarrow> bool" where
  "hasPlainObjectPrototype p \<longleftrightarrow> p = NoProto \<or> isIntrinsicObjectPrototype p"

text \<open>The prototypes of the literals \<open>{}\<close> and \<open>[]\<close>.\<close>

definition nativeCtor :: "string \<Rightarrow> ctor" where
  "nativeCtor name = \<lparr>ct_name = name, ct_prototype = True,
     ct_text = Some (''function '' @ name @ ''() { [native code] }'')\<rparr>"

definition objectProto :: proto where
  "objectProto = Proto False (Some (nativeCtor ''Object'')) NoProto"

definition arrayProto :: proto where
  "arrayProto = Proto True (Some (nativeCtor ''Array'')) objectProto"

lemma plain_protos [simp]: "hasPlainArrayPrototype arrayProto" "hasPlainObjectPrototype objectProto"
  by (simp_all add: hasPlainArrayPrototype_def hasPlainObjectPrototype_def isIntrinsicObjectPrototype_def
      hasIntrinsicConstructor_def arrayProto_def objectProto_def nativeCtor_def)

section \<open>The walk\<close>

definition enumerableStringKeys :: "(string option \<times> bool \<times> jsval) list \<Rightarrow> string list option" where
  "enumerableStringKeys props =
     (if list_ex (\<lambda>(key, enumerable, _). key = None \<or> \<not> enumerable) props then None
      else Some (map (\<lambda>p. the (fst p)) props))"

text \<open>\<open>Reflect.ownKeys(array).length\<close>: the filled slots, \<open>length\<close> itself and the extra keys.\<close>

definition arrayOwnKeys :: "jsval option list \<Rightarrow> nat \<Rightarrow> nat" where
  "arrayOwnKeys items extra = length (filter (\<lambda>x. x \<noteq> None) items) + 1 + extra"

datatype dest = DRoot | DIndex addr nat | DKey addr string

datatype task =
    Visit jsval "dest option"
  | ArrayItem addr nat "addr option"
  | ObjectProperty addr string "addr option"
  | Leave addr

record walk =
  wk_heap :: heap
  wk_tasks :: "task list"
  wk_ancestors :: "addr set"
  wk_root :: "jsval option"

definition storeItem :: "nat \<Rightarrow> jsval \<Rightarrow> jsval option list \<Rightarrow> jsval option list" where
  "storeItem i v items =
     (if i < length items then items[i := Some v]
      else items @ replicate (i - length items) None @ [Some v])"

definition assign :: "dest option \<Rightarrow> jsval \<Rightarrow> walk \<Rightarrow> walk" where
  "assign d v w =
     (case d of
        None \<Rightarrow> w
      | Some DRoot \<Rightarrow> w\<lparr>wk_root := Some v\<rparr>
      | Some (DIndex a i) \<Rightarrow>
          (case wk_heap w ! a of
             HArr p items extra \<Rightarrow> w\<lparr>wk_heap := (wk_heap w)[a := HArr p (storeItem i v items) extra]\<rparr>
           | HObj _ _ \<Rightarrow> w)
      | Some (DKey a k) \<Rightarrow>
          (case wk_heap w ! a of
             HObj p props \<Rightarrow> w\<lparr>wk_heap := (wk_heap w)[a := HObj p (map_set (Some k) (True, v) props)]\<rparr>
           | HArr _ _ _ \<Rightarrow> w))"

text \<open>
  Allocating a target in detach mode: the fresh object is assigned to its destination at once and filled
  by the tasks pushed for its parts.
\<close>

definition allocate :: "bool \<Rightarrow> hobj \<Rightarrow> dest option \<Rightarrow> walk \<Rightarrow> walk \<times> addr option" where
  "allocate detach obj d w =
     (if detach then
        let a = length (wk_heap w) in (assign d (VRef a) (w\<lparr>wk_heap := wk_heap w @ [obj]\<rparr>), Some a)
      else (w, None))"

fun itemTasks :: "addr \<Rightarrow> nat \<Rightarrow> nat \<Rightarrow> addr option \<Rightarrow> task list" where
  "itemTasks a i 0 target = []"
| "itemTasks a i (Suc n) target = ArrayItem a i target # itemTasks a (Suc i) n target"

definition propertyTasks :: "addr \<Rightarrow> string list \<Rightarrow> addr option \<Rightarrow> task list" where
  "propertyTasks a keys target = map (\<lambda>k. ObjectProperty a k target) keys"

text \<open>An array: the checks, then the pushes. \<open>None\<close> is \<open>return undefined\<close>.\<close>

definition visitArray ::
    "bool \<Rightarrow> addr \<Rightarrow> proto \<Rightarrow> jsval option list \<Rightarrow> nat \<Rightarrow> dest option \<Rightarrow> walk \<Rightarrow> walk option" where
  "visitArray detach a p items extra d w =
     (if \<not> hasPlainArrayPrototype p then None
      else if arrayOwnKeys items extra \<noteq> length items + 1 then None
      else
        let (w', target) = allocate detach (HArr arrayProto [] 0) d w in
        Some (w'\<lparr>wk_ancestors := insert a (wk_ancestors w'),
                 wk_tasks := itemTasks a 0 (length items) target @ Leave a # wk_tasks w'\<rparr>))"

definition visitObject ::
    "bool \<Rightarrow> addr \<Rightarrow> proto \<Rightarrow> (string option \<times> bool \<times> jsval) list \<Rightarrow> dest option \<Rightarrow> walk \<Rightarrow> walk option" where
  "visitObject detach a p props d w =
     (if \<not> hasPlainObjectPrototype p then None
      else
        (case enumerableStringKeys props of
           None \<Rightarrow> None
         | Some keys \<Rightarrow>
             let (w', target) = allocate detach (HObj objectProto []) d w in
             Some (w'\<lparr>wk_ancestors := insert a (wk_ancestors w'),
                      wk_tasks := propertyTasks a keys target @ Leave a # wk_tasks w'\<rparr>)))"

text \<open>One iteration. The popped task is no longer on the stack of \<open>w\<close>.\<close>

fun walkTask :: "bool \<Rightarrow> task \<Rightarrow> walk \<Rightarrow> walk option" where
  "walkTask detach (Leave a) w = Some (w\<lparr>wk_ancestors := wk_ancestors w - {a}\<rparr>)"
| "walkTask detach (ArrayItem a i target) w =
     (case wk_heap w ! a of
        HArr _ items _ \<Rightarrow>
          (case items ! i of
             None \<Rightarrow> None
           | Some v \<Rightarrow> Some (w\<lparr>wk_tasks := Visit v (map_option (\<lambda>t. DIndex t i) target) # wk_tasks w\<rparr>))
      | HObj _ _ \<Rightarrow> None)"
| "walkTask detach (ObjectProperty a k target) w =
     (case wk_heap w ! a of
        HObj _ props \<Rightarrow>
          (let v = (case map_of props (Some k) of Some (_, v) \<Rightarrow> v | None \<Rightarrow> VUndefined) in
           Some (w\<lparr>wk_tasks := Visit v (map_option (\<lambda>t. DKey t k) target) # wk_tasks w\<rparr>))
      | HArr _ _ _ \<Rightarrow> None)"
| "walkTask detach (Visit v d) w =
     (case v of
        VNull \<Rightarrow> Some (assign d v w)
      | VBool _ \<Rightarrow> Some (assign d v w)
      | VStr _ \<Rightarrow> Some (assign d v w)
      | VNum x \<Rightarrow> if \<not> isFinite x \<or> x = NegZero then None else Some (assign d v w)
      | VUndefined \<Rightarrow> None
      | VOther \<Rightarrow> None
      | VRef a \<Rightarrow>
          if a \<in> wk_ancestors w then None
          else
            (case wk_heap w ! a of
               HArr p items extra \<Rightarrow> visitArray detach a p items extra d w
             | HObj p props \<Rightarrow> visitObject detach a p props d w))"

partial_function (option) walkLoop :: "bool \<Rightarrow> walk \<Rightarrow> walk option option" where
  [code]: "walkLoop detach w =
     (case wk_tasks w of
        [] \<Rightarrow> Some (Some w)
      | t # ts \<Rightarrow>
          (case walkTask detach t (w\<lparr>wk_tasks := ts\<rparr>) of
             None \<Rightarrow> Some None
           | Some w' \<Rightarrow> walkLoop detach w'))"

definition walkJsonValue :: "heap \<Rightarrow> jsval \<Rightarrow> bool \<Rightarrow> walk option option" where
  "walkJsonValue h v detach =
     walkLoop detach \<lparr>wk_heap = h, wk_tasks = [Visit v (if detach then Some DRoot else None)],
       wk_ancestors = {}, wk_root = None\<rparr>"

text \<open>
  The snapshot with the heap it leaves behind; a walk that completed without a root would answer
  \<open>undefined\<close> too.
\<close>

definition snapshotJsonValue :: "heap \<Rightarrow> jsval \<Rightarrow> (jsval \<times> heap) option option" where
  "snapshotJsonValue h v =
     map_option (\<lambda>r. Option.bind r (\<lambda>w. map_option (\<lambda>x. (x, wk_heap w)) (wk_root w)))
       (walkJsonValue h v True)"

definition isJsonValue :: "heap \<Rightarrow> jsval \<Rightarrow> bool option" where
  "isJsonValue h v = map_option (\<lambda>r. r \<noteq> None) (walkJsonValue h v False)"

section \<open>What a value is as JSON\<close>

inductive represents :: "heap \<Rightarrow> jsval \<Rightarrow> json \<Rightarrow> bool" where
  rep_null: "represents h VNull JNull"
| rep_bool: "represents h (VBool b) (JBool b)"
| rep_num: "represents h (VNum (Fin x)) (JNum x)"
| rep_str: "represents h (VStr s) (JStr s)"
| rep_arr: "\<lbrakk>a < length h; h ! a = HArr p items 0; hasPlainArrayPrototype p;
     list_all2 (\<lambda>item j. \<exists>v. item = Some v \<and> represents h v j) items js\<rbrakk>
   \<Longrightarrow> represents h (VRef a) (JArr js)"
| rep_obj: "\<lbrakk>a < length h; h ! a = HObj p props; hasPlainObjectPrototype p;
     list_all2 (\<lambda>prop kv. fst prop = Some (fst kv) \<and> fst (snd prop) \<and> represents h (snd (snd prop)) (snd kv))
       props kvs\<rbrakk>
   \<Longrightarrow> represents h (VRef a) (JObj kvs)"

inductive_cases represents_VRef: "represents h (VRef a) j"
inductive_cases represents_scalar:
  "represents h VNull j" "represents h (VBool b) j" "represents h (VNum x) j"
  "represents h (VStr s) j" "represents h VUndefined j" "represents h VOther j"

text \<open>Every reference names an object, and an object's string keys are distinct.\<close>

fun known :: "heap \<Rightarrow> jsval \<Rightarrow> bool" where
  "known h (VRef a) \<longleftrightarrow> a < length h"
| "known h _ \<longleftrightarrow> True"

fun wf_obj :: "heap \<Rightarrow> hobj \<Rightarrow> bool" where
  "wf_obj h (HArr p items extra) \<longleftrightarrow> (\<forall>v. Some v \<in> set items \<longrightarrow> known h v)"
| "wf_obj h (HObj p props) \<longleftrightarrow>
     distinct (filter (\<lambda>k. k \<noteq> None) (map fst props)) \<and> (\<forall>(k, e, v) \<in> set props. known h v)"

definition wf_heap :: "heap \<Rightarrow> bool" where
  "wf_heap h \<longleftrightarrow> (\<forall>obj \<in> set h. wf_obj h obj)"

section \<open>The reference traversal\<close>

lemma enter_smaller:
  "\<not> (a \<in> A \<or> n \<le> a) \<Longrightarrow> card ({..<n} - insert a A) < card ({..<n} - A)"
  for n :: nat
  by (subst Diff_insert, rule card_Diff1_less) simp_all

text \<open>
  The recursive reading of a value, with the objects above it. It ends because an object is entered at most
  once on any path.
\<close>

function reify :: "heap \<Rightarrow> addr set \<Rightarrow> jsval \<Rightarrow> json option" where
  "reify h A v =
     (case v of
        VNull \<Rightarrow> Some JNull
      | VBool b \<Rightarrow> Some (JBool b)
      | VNum x \<Rightarrow> (case x of Fin q \<Rightarrow> Some (JNum q) | _ \<Rightarrow> None)
      | VStr s \<Rightarrow> Some (JStr s)
      | VUndefined \<Rightarrow> None
      | VOther \<Rightarrow> None
      | VRef a \<Rightarrow>
          if a \<in> A \<or> length h \<le> a then None
          else
            (case h ! a of
               HArr p items extra \<Rightarrow>
                 if hasPlainArrayPrototype p \<and> arrayOwnKeys items extra = length items + 1 then
                   map_option JArr
                     (those (map (\<lambda>item. case item of None \<Rightarrow> None | Some w \<Rightarrow> reify h (insert a A) w) items))
                 else None
             | HObj p props \<Rightarrow>
                 if hasPlainObjectPrototype p \<and> enumerableStringKeys props \<noteq> None then
                   map_option JObj
                     (those (map (\<lambda>(k, e, w). map_option (Pair (the k)) (reify h (insert a A) w)) props))
                 else None))"
  by pat_completeness auto
termination
  by (relation "measure (\<lambda>(h, A, v). card ({..<length h} - A))") (simp_all add: enter_smaller [simplified] del: card_Diff_insert)

declare reify.simps [simp del]

lemma reify_scalar [simp]:
  "reify h A VNull = Some JNull" "reify h A (VBool b) = Some (JBool b)" "reify h A (VStr s) = Some (JStr s)"
  "reify h A (VNum (Fin x)) = Some (JNum x)" "reify h A (VNum NegZero) = None" "reify h A (VNum PosInf) = None"
  "reify h A (VNum NegInf) = None" "reify h A (VNum NaN) = None" "reify h A VUndefined = None" "reify h A VOther = None"
  by (simp_all add: reify.simps [of h A])

lemma those_map_Some: "those (map f xs) = Some ys \<longleftrightarrow> list_all2 (\<lambda>x y. f x = Some y) xs ys"
  by (induction xs arbitrary: ys) (auto simp: list_all2_Cons1 split: option.splits)

lemma arrayOwnKeys_dense: "None \<notin> set items \<Longrightarrow> arrayOwnKeys items extra = length items + 1 + extra"
  by (induction items) (auto simp: arrayOwnKeys_def simp del: not_None_eq dest: not_sym)

lemma enumerableStringKeys_Some:
  "enumerableStringKeys props = Some keys
     \<longleftrightarrow> list_all2 (\<lambda>prop k. fst prop = Some k \<and> fst (snd prop)) props keys"
proof (induction props arbitrary: keys)
  case Nil
  then show ?case by (auto simp: enumerableStringKeys_def)
next
  case (Cons p props)
  then have IH: "enumerableStringKeys props = Some ks
      \<longleftrightarrow> list_all2 (\<lambda>prop k. fst prop = Some k \<and> fst (snd prop)) props ks" for ks .
  show ?case
    unfolding list_all2_Cons1 IH [symmetric]
    by (cases p) (auto simp: enumerableStringKeys_def)
qed

lemma enumerableStringKeys_all:
  "enumerableStringKeys props \<noteq> None \<longleftrightarrow> (\<forall>prop \<in> set props. fst prop \<noteq> None \<and> fst (snd prop))"
  by (force simp: enumerableStringKeys_def list_ex_iff)

lemma enumerableStringKeys_keys: "enumerableStringKeys props = Some keys \<Longrightarrow> keys = map (\<lambda>p. the (fst p)) props"
  by (auto simp: enumerableStringKeys_def split: if_splits)

lemma list_all2_det:
  assumes "list_all2 P xs ys" "list_all2 Q xs zs" "\<And>x y z. x \<in> set xs \<Longrightarrow> P x y \<Longrightarrow> Q x z \<Longrightarrow> y = z"
  shows "ys = zs"
proof (rule nth_equalityI)
  show "length ys = length zs"
    using list_all2_lengthD [OF assms(1)] list_all2_lengthD [OF assms(2)] by simp
  show "ys ! i = zs ! i" if "i < length ys" for i
    using assms(1,2) that by (intro assms(3) [of "xs ! i"]) (auto simp: list_all2_conv_all_nth)
qed

lemma list_all2_left: "list_all2 P xs ys \<Longrightarrow> x \<in> set xs \<Longrightarrow> \<exists>y \<in> set ys. P x y"
  by (metis in_set_conv_nth list_all2_conv_all_nth)

lemma represents_det: "represents h v j \<Longrightarrow> represents h v j' \<Longrightarrow> j = j'"
proof (induction arbitrary: j' rule: represents.induct)
  case (rep_arr a h p items js)
  from rep_arr.prems rep_arr.hyps obtain js'
    where j': "j' = JArr js'" "list_all2 (\<lambda>item j. \<exists>v. item = Some v \<and> represents h v j) items js'"
    by (auto elim: represents_VRef)
  have "js = js'"
    by (rule list_all2_det [OF rep_arr.IH j'(2)]) auto
  then show ?case by (simp add: j')
next
  case (rep_obj a h p props kvs)
  from rep_obj.prems rep_obj.hyps obtain kvs'
    where j': "j' = JObj kvs'" "list_all2 (\<lambda>prop kv. fst prop = Some (fst kv) \<and> fst (snd prop)
      \<and> represents h (snd (snd prop)) (snd kv)) props kvs'"
    by (auto elim: represents_VRef)
  have "kvs = kvs'"
    by (rule list_all2_det [OF rep_obj.IH j'(2)]) (auto intro: prod_eqI)
  then show ?case by (simp add: j')
qed (auto elim: represents_scalar)

lemma reify_array:
  assumes "a \<notin> A" "a < length h" "h ! a = HArr p items extra"
  shows "reify h A (VRef a) =
    (if hasPlainArrayPrototype p \<and> arrayOwnKeys items extra = length items + 1
     then map_option JArr
       (those (map (\<lambda>item. case item of None \<Rightarrow> None | Some w \<Rightarrow> reify h (insert a A) w) items))
     else None)"
  using assms by (subst reify.simps) simp

lemma reify_object:
  assumes "a \<notin> A" "a < length h" "h ! a = HObj p props"
  shows "reify h A (VRef a) =
    (if hasPlainObjectPrototype p \<and> enumerableStringKeys props \<noteq> None
     then map_option JObj (those (map (\<lambda>(k, e, w). map_option (Pair (the k)) (reify h (insert a A) w)) props))
     else None)"
  using assms by (subst reify.simps) simp

lemma reify_entered: "reify h A (VRef a) = Some j \<Longrightarrow> a \<notin> A \<and> a < length h"
  by (subst (asm) reify.simps) (auto split: if_splits)

lemma reify_ref: "reify h A (VRef a) = Some j \<Longrightarrow> (\<exists>js. j = JArr js) \<or> (\<exists>kvs. j = JObj kvs)"
  by (frule reify_entered, cases "h ! a") (auto simp: reify_array reify_object split: if_splits)

lemma reify_num: "reify h A (VNum x) = (case x of Fin q \<Rightarrow> Some (JNum q) | _ \<Rightarrow> None)"
  by (cases x) simp_all

lemma reify_scalarE:
  "reify h A v = Some JNull \<Longrightarrow> (v = VNull \<Longrightarrow> P) \<Longrightarrow> P"
  "reify h A v = Some (JBool b) \<Longrightarrow> (v = VBool b \<Longrightarrow> P) \<Longrightarrow> P"
  "reify h A v = Some (JNum x) \<Longrightarrow> (v = VNum (Fin x) \<Longrightarrow> P) \<Longrightarrow> P"
  "reify h A v = Some (JStr s) \<Longrightarrow> (v = VStr s \<Longrightarrow> P) \<Longrightarrow> P"
  "reify h A v = Some (JArr js) \<Longrightarrow> (\<And>a. v = VRef a \<Longrightarrow> P) \<Longrightarrow> P"
  "reify h A v = Some (JObj kvs) \<Longrightarrow> (\<And>a. v = VRef a \<Longrightarrow> P) \<Longrightarrow> P"
  by (cases v; auto simp: reify_num dest: reify_ref split: js_number.splits)+

lemma reify_sound: "reify h A v = Some j \<Longrightarrow> represents h v j"
proof (induction j arbitrary: A v)
  case (JArr js)
  then obtain a where v: "v = VRef a" by (auto elim: reify_scalarE)
  with JArr.prems have a: "a \<notin> A" "a < length h" by (auto dest: reify_entered)
  with v JArr.prems obtain p items extra where obj: "h ! a = HArr p items extra"
    by (cases "h ! a") (auto simp: reify_object split: if_splits)
  with a v JArr.prems have plain: "hasPlainArrayPrototype p" "arrayOwnKeys items extra = length items + 1"
    and items: "list_all2 (\<lambda>item j. (case item of None \<Rightarrow> None | Some w \<Rightarrow> reify h (insert a A) w) = Some j) items js"
    by (auto simp: reify_array those_map_Some split: if_splits)
  have all: "list_all2 (\<lambda>item j. \<exists>v. item = Some v \<and> represents h v j) items js"
    by (rule list.rel_mono_strong [OF items]) (auto split: option.splits intro: JArr.IH)
  then have "None \<notin> set items" by (auto simp: list_all2_conv_all_nth in_set_conv_nth)
  with plain obj have "h ! a = HArr p items 0" by (simp add: arrayOwnKeys_dense)
  with all a plain v show ?case by (auto intro: rep_arr)
next
  case (JObj kvs)
  then obtain a where v: "v = VRef a" by (auto elim: reify_scalarE)
  with JObj.prems have a: "a \<notin> A" "a < length h" by (auto dest: reify_entered)
  with v JObj.prems obtain p props where obj: "h ! a = HObj p props"
    by (cases "h ! a") (auto simp: reify_array split: if_splits)
  with a v JObj.prems obtain keys where plain: "hasPlainObjectPrototype p" "enumerableStringKeys props = Some keys"
    and props: "list_all2 (\<lambda>(k, e, w) kv. map_option (Pair (the k)) (reify h (insert a A) w) = Some kv) props kvs"
    by (auto simp: reify_object those_map_Some case_prod_unfold split: if_splits)
  have "list_all2 (\<lambda>prop kv. fst prop = Some (fst kv) \<and> fst (snd prop) \<and> represents h (snd (snd prop)) (snd kv)) props kvs"
  proof (rule list.rel_mono_strong [OF props], goal_cases)
    case (1 x kv)
    moreover from 1(1) plain(2) have "fst x \<noteq> None" "fst (snd x)"
      using enumerableStringKeys_all [of props] by auto
    ultimately show ?case
      by (auto intro: JObj.IH [of kv] simp: snds.simps)
  qed
  with obj a plain v show ?case by (auto intro: rep_obj)
qed (auto elim!: reify_scalarE intro: represents.intros)

lemma size_item: "j \<in> set js \<Longrightarrow> size j < size (JArr js)"
  by (induction js) auto

lemma size_prop: "kv \<in> set kvs \<Longrightarrow> size (snd kv) < size (JObj kvs)"
  by (induction kvs) auto

lemma reify_complete:
  "represents h v j \<Longrightarrow> (\<And>a ja. a \<in> A \<Longrightarrow> represents h (VRef a) ja \<Longrightarrow> size j < size ja) \<Longrightarrow> reify h A v = Some j"
proof (induction arbitrary: A rule: represents.induct)
  case (rep_arr a h p items js)
  note step = represents.rep_arr [OF rep_arr.hyps list.rel_mono_strong [OF rep_arr.IH]]
  have rep: "represents h (VRef a) (JArr js)" by (rule step) auto
  then have "a \<notin> A" using rep_arr.prems by blast
  have "list_all2 (\<lambda>item j. (case item of None \<Rightarrow> None | Some w \<Rightarrow> reify h (insert a A) w) = Some j) items js"
  proof (rule list.rel_mono_strong [OF rep_arr.IH], goal_cases)
    case (1 item j)
    have "size j < size (JArr js)" using 1(2) by (rule size_item)
    then have "size j < size ja" if "b \<in> insert a A" "represents h (VRef b) ja" for b ja
      using that represents_det [OF rep] rep_arr.prems by fastforce
    with 1(3) show ?case by auto
  qed
  moreover have "None \<notin> set items"
    using rep_arr.IH by (auto simp: list_all2_conv_all_nth in_set_conv_nth)
  ultimately show ?case
    using \<open>a \<notin> A\<close> rep_arr.hyps by (simp add: reify_array those_map_Some arrayOwnKeys_dense)
next
  case (rep_obj a h p props kvs)
  note step = represents.rep_obj [OF rep_obj.hyps list.rel_mono_strong [OF rep_obj.IH]]
  have rep: "represents h (VRef a) (JObj kvs)" by (rule step) auto
  then have "a \<notin> A" using rep_obj.prems by blast
  have "list_all2 (\<lambda>x kv. (case x of (k, e, w) \<Rightarrow> map_option (Pair (the k)) (reify h (insert a A) w)) = Some kv) props kvs"
  proof (rule list.rel_mono_strong [OF rep_obj.IH], goal_cases)
    case (1 x kv)
    have "size (snd kv) < size (JObj kvs)" using 1(2) by (rule size_prop)
    then have "size (snd kv) < size ja" if "b \<in> insert a A" "represents h (VRef b) ja" for b ja
      using that represents_det [OF rep] rep_obj.prems by fastforce
    with 1(3) show ?case by (cases x; cases kv) auto
  qed
  moreover have "enumerableStringKeys props \<noteq> None"
    unfolding enumerableStringKeys_all by (auto dest!: list_all2_left [OF rep_obj.IH])
  ultimately show ?case
    using \<open>a \<notin> A\<close> rep_obj.hyps by (simp add: reify_object those_map_Some)
qed simp_all

section \<open>The walk is the traversal\<close>

abbreviation walking :: "heap \<Rightarrow> task list \<Rightarrow> addr set \<Rightarrow> jsval option \<Rightarrow> walk" where
  "walking h ts A r \<equiv> \<lparr>wk_heap = h, wk_tasks = ts, wk_ancestors = A, wk_root = r\<rparr>"

lemma walkLoop_Nil [simp]: "walkLoop detach (walking h [] A r) = Some (Some (walking h [] A r))"
  by (subst walkLoop.simps) simp

lemma walkLoop_Cons:
  "walkLoop detach (walking h (t # ts) A r) =
     (case walkTask detach t (walking h ts A r) of None \<Rightarrow> Some None | Some w \<Rightarrow> walkLoop detach w)"
  by (subst walkLoop.simps) simp

lemma walk_leave: "walkLoop detach (walking h (Leave a # ts) A r) = walkLoop detach (walking h ts (A - {a}) r)"
  by (simp add: walkLoop_Cons)

lemma walk_item:
  "h ! a = HArr p items extra \<Longrightarrow> walkLoop detach (walking h (ArrayItem a i t # ts) A r) =
    (case items ! i of None \<Rightarrow> Some None
     | Some v \<Rightarrow> walkLoop detach (walking h (Visit v (map_option (\<lambda>t. DIndex t i) t) # ts) A r))"
  by (simp add: walkLoop_Cons split: option.split)

lemma walk_prop:
  "h ! a = HObj p props \<Longrightarrow> map_of props (Some k) = Some (e, v) \<Longrightarrow>
    walkLoop detach (walking h (ObjectProperty a k t # ts) A r)
      = walkLoop detach (walking h (Visit v (map_option (\<lambda>t. DKey t k) t) # ts) A r)"
  by (simp add: walkLoop_Cons)

lemma walk_seen: "a \<in> A \<Longrightarrow> walkLoop detach (walking h (Visit (VRef a) d # ts) A r) = Some None"
  by (simp add: walkLoop_Cons)

lemma walk_array:
  "a \<notin> A \<Longrightarrow> h ! a = HArr p items extra \<Longrightarrow> walkLoop detach (walking h (Visit (VRef a) d # ts) A r) =
    (case visitArray detach a p items extra d (walking h ts A r) of None \<Rightarrow> Some None | Some w \<Rightarrow> walkLoop detach w)"
  by (simp add: walkLoop_Cons)

lemma walk_object:
  "a \<notin> A \<Longrightarrow> h ! a = HObj p props \<Longrightarrow> walkLoop detach (walking h (Visit (VRef a) d # ts) A r) =
    (case visitObject detach a p props d (walking h ts A r) of None \<Rightarrow> Some None | Some w \<Rightarrow> walkLoop detach w)"
  by (simp add: walkLoop_Cons)

lemma walk_scalar:
  assumes "\<And>a. v \<noteq> VRef a"
  shows "walkLoop detach (walking h (Visit v d # ts) A r) =
    (case reify h0 B v of None \<Rightarrow> Some None | Some _ \<Rightarrow> walkLoop detach (assign d v (walking h ts A r)))"
  using assms by (cases v) (auto simp: walkLoop_Cons reify_num split: js_number.splits)

lemma wf_heap_obj: "wf_heap h \<Longrightarrow> a < length h \<Longrightarrow> wf_obj h (h ! a)"
  by (simp add: wf_heap_def)

lemma wf_props_get:
  assumes "wf_obj h (HObj p props)" "(Some k, e, v) \<in> set props"
  shows "map_of props (Some k) = Some (e, v)"
proof -
  have "distinct (filter (\<lambda>k. k \<noteq> None) (map fst props)) \<Longrightarrow> (Some k, e, v) \<in> set props
      \<Longrightarrow> map_of props (Some k) = Some (e, v)"
    by (induction props) (force split: if_splits)+
  with assms show ?thesis by simp
qed

text \<open>The parts of an object in the order the tasks visit them, and the verdict on each.\<close>

abbreviation itemVerdicts :: "heap \<Rightarrow> addr set \<Rightarrow> jsval option list \<Rightarrow> json list option" where
  "itemVerdicts h A items \<equiv> those (map (\<lambda>item. case item of None \<Rightarrow> None | Some w \<Rightarrow> reify h A w) items)"

abbreviation propVerdicts ::
    "heap \<Rightarrow> addr set \<Rightarrow> (string option \<times> bool \<times> jsval) list \<Rightarrow> (string \<times> json) list option" where
  "propVerdicts h A props \<equiv> those (map (\<lambda>(k, e, w). map_option (Pair (the k)) (reify h A w)) props)"

abbreviation keysOf :: "(string option \<times> bool \<times> jsval) list \<Rightarrow> string list" where
  "keysOf props \<equiv> map (\<lambda>p. the (fst p)) props"

subsection \<open>Checking without a snapshot\<close>

definition checks :: "heap \<Rightarrow> addr set \<Rightarrow> jsval \<Rightarrow> bool" where
  "checks h A v \<longleftrightarrow> (\<forall>ts r. walkLoop False (walking h (Visit v None # ts) A r) =
     (case reify h A v of None \<Rightarrow> Some None | Some _ \<Rightarrow> walkLoop False (walking h ts A r)))"

lemma checksD:
  "checks h A v \<Longrightarrow> walkLoop False (walking h (Visit v None # ts) A r) =
     (case reify h A v of None \<Rightarrow> Some None | Some _ \<Rightarrow> walkLoop False (walking h ts A r))"
  by (simp add: checks_def)

lemma check_items:
  assumes "h ! a = HArr p items extra" "i + n = length items"
    and "\<And>w. Some w \<in> set items \<Longrightarrow> checks h A w"
  shows "walkLoop False (walking h (itemTasks a i n None @ ts) A r) =
    (case itemVerdicts h A (drop i items) of None \<Rightarrow> Some None | Some _ \<Rightarrow> walkLoop False (walking h ts A r))"
  using assms(2)
proof (induction n arbitrary: i)
  case 0
  then show ?case by simp
next
  case (Suc n)
  then have drop: "drop i items = items ! i # drop (Suc i) items" by (simp add: Cons_nth_drop_Suc)
  have "checks h A w" if "items ! i = Some w" for w
    using assms(3) [of w] that Suc.prems by (metis add_Suc_right le_add1 less_eq_Suc_le nth_mem order.trans not_less_eq_eq)
  then show ?case
    using Suc assms(1)
    by (cases "items ! i") (auto simp: drop walk_item [OF assms(1)] checksD split: option.splits)
qed

lemma check_props:
  assumes "h ! a = HObj p props"
    and "\<And>k e w. (k, e, w) \<in> set rest \<Longrightarrow> \<exists>key. k = Some key \<and> map_of props k = Some (e, w) \<and> checks h A w"
  shows "walkLoop False (walking h (propertyTasks a (keysOf rest) None @ ts) A r) =
    (case propVerdicts h A rest of None \<Rightarrow> Some None | Some _ \<Rightarrow> walkLoop False (walking h ts A r))"
  using assms(2)
proof (induction rest)
  case Nil
  then show ?case by (simp add: propertyTasks_def)
next
  case (Cons x rest)
  obtain k e w where x: "x = (k, e, w)" by (cases x)
  with Cons.prems [of k e w] obtain key
    where key: "k = Some key" "map_of props (Some key) = Some (e, w)" "checks h A w" by auto
  have IH: "walkLoop False (walking h (propertyTasks a (keysOf rest) None @ ts) A r) =
      (case propVerdicts h A rest of None \<Rightarrow> Some None | Some _ \<Rightarrow> walkLoop False (walking h ts A r))"
    using Cons.prems by (intro Cons.IH) auto
  have "propertyTasks a (keysOf (x # rest)) None = ObjectProperty a key None # propertyTasks a (keysOf rest) None"
    by (simp add: propertyTasks_def x key(1))
  then show ?case
    by (cases "reify h A w"; cases "propVerdicts h A rest")
      (simp_all add: x walk_prop [OF assms(1) key(2)] checksD [OF key(3)] IH)
qed

lemma check_visit: "wf_heap h \<Longrightarrow> known h v \<Longrightarrow> checks h A v"
proof (induction h A v rule: reify.induct)
  case (1 h A v)
  show ?case
  proof (cases "\<exists>a. v = VRef a")
    case False
    then have "\<And>a. v \<noteq> VRef a" by blast
    then have "walkLoop False (walking h (Visit v None # ts) A r) =
        (case reify h A v of None \<Rightarrow> Some None | Some _ \<Rightarrow> walkLoop False (assign None v (walking h ts A r)))"
      for ts r by (rule walk_scalar)
    then show ?thesis by (simp add: checks_def assign_def split: option.split)
  next
    case True
    then obtain a where v: "v = VRef a" by blast
    with 1 have a: "a < length h" and wf: "wf_obj h (h ! a)" by (auto intro: wf_heap_obj)
    show ?thesis
    proof (cases "a \<in> A")
      case True
      then show ?thesis by (simp add: v checks_def walk_seen reify.simps [of h A "VRef a"])
    next
      case False
      show ?thesis
      proof (cases "h ! a")
        case (HArr p items extra)
        have parts: "checks h (insert a A) w"
          if "hasPlainArrayPrototype p" "arrayOwnKeys items extra = length items + 1" "Some w \<in> set items" for w
          using wf that by (intro 1(1) [OF v _ HArr _ that(3) refl 1(3)]) (auto simp: HArr False a not_le)
        show ?thesis
          unfolding checks_def v walk_array [OF False HArr] reify_array [OF False a HArr]
          using check_items [OF HArr _ parts, of 0 "length items"] False
          by (auto simp: visitArray_def allocate_def walk_leave split: option.splits)
      next
        case (HObj p props)
        have parts: "\<exists>key. k = Some key \<and> map_of props k = Some (e, w) \<and> checks h (insert a A) w"
          if ok: "hasPlainObjectPrototype p" "enumerableStringKeys props \<noteq> None" and kew: "(k, e, w) \<in> set props"
          for k e w
        proof -
          from ok(2) kew obtain key where k: "k = Some key"
            using enumerableStringKeys_all [of props] by force
          moreover have "checks h (insert a A) w"
            using wf kew by (intro 1(2) [OF v _ HObj _ kew refl refl 1(3)]) (use ok a in \<open>auto simp: HObj False not_le\<close>)
          ultimately show ?thesis using wf_props_get wf HObj kew by simp
        qed
        show ?thesis
        proof (cases "hasPlainObjectPrototype p \<and> enumerableStringKeys props \<noteq> None")
          case True
          then have keys: "enumerableStringKeys props = Some (keysOf props)"
            by (auto dest: enumerableStringKeys_keys)
          have "walkLoop False (walking h (propertyTasks a (keysOf props) None @ ts) (insert a A) r) =
              (case propVerdicts h (insert a A) props of None \<Rightarrow> Some None
               | Some _ \<Rightarrow> walkLoop False (walking h ts (insert a A) r))" for ts r
            using True by (intro check_props [OF HObj] parts) auto
          with True show ?thesis
            using \<open>a \<notin> A\<close> unfolding checks_def v walk_object [OF False HObj] reify_object [OF False a HObj]
            by (simp add: visitObject_def allocate_def walk_leave keys split: option.split)
        next
          case bad: False
          then show ?thesis
            unfolding checks_def v walk_object [OF False HObj] reify_object [OF False a HObj]
            by (auto simp: visitObject_def)
        qed
      qed
    qed
  qed
qed

subsection \<open>Snapshots\<close>

text \<open>
  What an assignment does to the heap, and where a snapshot may be put: never into an object of the source.
\<close>

fun storeIn :: "dest \<Rightarrow> jsval \<Rightarrow> heap \<Rightarrow> heap" where
  "storeIn DRoot v h = h"
| "storeIn (DIndex a i) v h =
     (case h ! a of HArr p items extra \<Rightarrow> h[a := HArr p (storeItem i v items) extra] | _ \<Rightarrow> h)"
| "storeIn (DKey a k) v h =
     (case h ! a of HObj p props \<Rightarrow> h[a := HObj p (map_set (Some k) (True, v) props)] | _ \<Rightarrow> h)"

fun rootAfter :: "dest \<Rightarrow> jsval \<Rightarrow> jsval option \<Rightarrow> jsval option" where
  "rootAfter DRoot v r = Some v"
| "rootAfter _ v r = r"

fun targets :: "nat \<Rightarrow> nat \<Rightarrow> dest \<Rightarrow> bool" where
  "targets n m DRoot \<longleftrightarrow> True"
| "targets n m (DIndex a i) \<longleftrightarrow> n \<le> a \<and> a < m"
| "targets n m (DKey a k) \<longleftrightarrow> n \<le> a \<and> a < m"

lemma assign_walking:
  "assign (Some d) v (walking h ts A r) = walking (storeIn d v h) ts A (rootAfter d v r)"
  by (cases d) (auto simp: assign_def split: hobj.splits)

lemma storeIn_length [simp]: "length (storeIn d v h) = length h"
  by (cases d) (auto split: hobj.splits)

lemma storeIn_prefix:
  assumes "targets (length h) (length (h @ new)) d"
  shows "\<exists>new'. storeIn d v (h @ new) = h @ new' \<and> length new' = length new"
  using assms by (cases d) (auto simp: nth_append list_update_append split: hobj.splits)

lemma storeIn_alloc:
  assumes "targets (length h) (length (h @ new)) d"
  shows "storeIn d v (h @ new @ x) = storeIn d v (h @ new) @ x"
  using assms by (cases d) (auto simp: nth_append list_update_append split: hobj.splits)

text \<open>A value lives wholly in \<open>ext\<close>, whatever the first \<open>n\<close> objects of the heap are.\<close>

definition settled :: "nat \<Rightarrow> heap \<Rightarrow> jsval \<Rightarrow> json \<Rightarrow> bool" where
  "settled n ext v j \<longleftrightarrow> (\<forall>X. length X = n \<longrightarrow> represents (X @ ext) v j)"

lemma represents_extend: "represents h v j \<Longrightarrow> represents (h @ x) v j"
proof (induction rule: represents.induct)
  case (rep_arr a h p items js)
  show ?case
    by (rule represents.rep_arr [of _ _ p items])
      (use rep_arr in \<open>auto simp: nth_append elim: list.rel_mono_strong\<close>)
next
  case (rep_obj a h p props kvs)
  show ?case
    by (rule represents.rep_obj [of _ _ p props])
      (use rep_obj in \<open>auto simp: nth_append elim: list.rel_mono_strong\<close>)
qed (auto intro: represents.intros)

lemma settled_extend: "settled n ext v j \<Longrightarrow> settled n (ext @ ext2) v j"
  by (metis append_assoc represents_extend settled_def)

lemma settled_later: "settled (n + length m) ext v j \<Longrightarrow> settled n (m @ ext) v j"
  by (simp add: settled_def flip: append_assoc)

lemma settled_scalar: "reify h A v = Some j \<Longrightarrow> (\<And>a. v \<noteq> VRef a) \<Longrightarrow> settled n ext v j"
  by (cases v) (auto simp: settled_def reify_num intro: represents.intros split: js_number.splits)

text \<open>
  Visiting \<open>v\<close> with any heap grown from \<open>h\<close>: either the walk stops with \<open>undefined\<close>, or it comes
  back to the tasks below with the snapshot assigned and everything it allocated appended.
\<close>

definition snaps :: "heap \<Rightarrow> addr set \<Rightarrow> jsval \<Rightarrow> bool" where
  "snaps h A v \<longleftrightarrow> (\<forall>new d ts r. targets (length h) (length (h @ new)) d \<longrightarrow>
     (case reify h A v of
        None \<Rightarrow> walkLoop True (walking (h @ new) (Visit v (Some d) # ts) A r) = Some None
      | Some j \<Rightarrow> \<exists>w ext. settled (length (h @ new)) ext w j \<and>
          walkLoop True (walking (h @ new) (Visit v (Some d) # ts) A r)
            = walkLoop True (walking (storeIn d w (h @ new) @ ext) ts A (rootAfter d w r))))"

lemma snapsD_None:
  "snaps h A v \<Longrightarrow> reify h A v = None \<Longrightarrow> targets (length h) (length (h @ new)) d
    \<Longrightarrow> walkLoop True (walking (h @ new) (Visit v (Some d) # ts) A r) = Some None"
  by (simp add: snaps_def)

lemma snapsD_Some:
  "snaps h A v \<Longrightarrow> reify h A v = Some j \<Longrightarrow> targets (length h) (length (h @ new)) d
    \<Longrightarrow> \<exists>w ext. settled (length (h @ new)) ext w j \<and>
          walkLoop True (walking (h @ new) (Visit v (Some d) # ts) A r)
            = walkLoop True (walking (storeIn d w (h @ new) @ ext) ts A (rootAfter d w r))"
  by (simp add: snaps_def)

text \<open>The array under construction after \<open>length ws\<close> items.\<close>

abbreviation arrayHeap :: "heap \<Rightarrow> heap \<Rightarrow> jsval list \<Rightarrow> heap \<Rightarrow> heap" where
  "arrayHeap h new ws ext \<equiv> h @ new @ HArr arrayProto (map Some ws) 0 # ext"

lemma storeItem_end: "storeItem (length ws) w (map Some ws) = map Some (ws @ [w])"
  by (simp add: storeItem_def)

lemma settled_all_extend:
  "list_all2 (settled n ext) ws js \<Longrightarrow> list_all2 (settled n (ext @ ext2)) ws js"
  by (erule list.rel_mono_strong) (rule settled_extend)

lemma snap_items:
  assumes "h ! a = HArr p items extra" "a < length h" "i + n = length items" "length ws = i"
    and "\<And>w. Some w \<in> set items \<Longrightarrow> snaps h A w"
    and "list_all2 (settled (Suc (length (h @ new))) ext) ws js"
  shows "case itemVerdicts h A (drop i items) of
      None \<Rightarrow> walkLoop True (walking (arrayHeap h new ws ext)
        (itemTasks a i n (Some (length (h @ new))) @ ts) A r) = Some None
    | Some js' \<Rightarrow> \<exists>ws' ext2. list_all2 (settled (Suc (length (h @ new))) ext2) ws' (js @ js') \<and>
        walkLoop True (walking (arrayHeap h new ws ext) (itemTasks a i n (Some (length (h @ new))) @ ts) A r)
          = walkLoop True (walking (arrayHeap h new ws' ext2) ts A r)"
  using assms(3,4,6)
proof (induction n arbitrary: i ws js ext)
  case 0
  then show ?case by auto
next
  case (Suc n)
  then have drop: "drop i items = items ! i # drop (Suc i) items" by (simp add: Cons_nth_drop_Suc)
  have at: "arrayHeap h new ws ext ! a = HArr p items extra"
    using assms(1,2) by (simp add: nth_append)
  show ?case
  proof (cases "items ! i")
    case None
    then show ?thesis by (simp add: drop walk_item [OF at])
  next
    case (Some v)
    then have v: "snaps h A v" using assms(5) [of v] Suc.prems by (metis add_Suc_right le_add1 less_Suc_eq_le nth_mem)
    let ?new = "new @ HArr arrayProto (map Some ws) 0 # ext"
    let ?d = "DIndex (length (h @ new)) i"
    have d: "targets (length h) (length (h @ ?new)) ?d" by simp
    show ?thesis
    proof (cases "reify h A v")
      case None
      with snapsD_None [OF v None d] Some show ?thesis by (simp add: drop walk_item [OF at])
    next
      case (Some j)
      from snapsD_Some [OF v Some d, where r = r and ts = "itemTasks a (Suc i) n (Some (length (h @ new))) @ ts"]
      obtain w m where w: "settled (length (h @ ?new)) m w j"
        and walk: "walkLoop True (walking (h @ ?new) (Visit v (Some ?d) # itemTasks a (Suc i) n (Some (length (h @ new))) @ ts) A r)
          = walkLoop True (walking (storeIn ?d w (h @ ?new) @ m) (itemTasks a (Suc i) n (Some (length (h @ new))) @ ts) A r)"
        by auto
      have store: "storeIn ?d w (h @ ?new) @ m = arrayHeap h new (ws @ [w]) (ext @ m)"
        using Suc.prems(2) storeItem_end [of ws w] by (simp add: nth_append list_update_append)
      have "settled (Suc (length (h @ new)) + length ext) m w j" using w by (simp add: ac_simps)
      then have "settled (Suc (length (h @ new))) (ext @ m) w j" by (rule settled_later)
      then have "list_all2 (settled (Suc (length (h @ new))) (ext @ m)) (ws @ [w]) (js @ [j])"
        using settled_all_extend [OF Suc.prems(3)] by (simp add: list_all2_appendI)
      note IH = Suc.IH [of "Suc i" "ws @ [w]" "ext @ m" "js @ [j]", OF _ _ this]
      show ?thesis
        using IH Suc.prems \<open>items ! i = Some v\<close> walk store Some
        by (auto simp: drop walk_item [OF at] split: option.splits)
    qed
  qed
qed

text \<open>The object under construction with the properties \<open>kws\<close> so far.\<close>

abbreviation objectHeap :: "heap \<Rightarrow> heap \<Rightarrow> (string \<times> jsval) list \<Rightarrow> heap \<Rightarrow> heap" where
  "objectHeap h new kws ext \<equiv> h @ new @ HObj objectProto (map (\<lambda>(k, w). (Some k, True, w)) kws) # ext"

abbreviation settledProp :: "nat \<Rightarrow> heap \<Rightarrow> string \<times> jsval \<Rightarrow> string \<times> json \<Rightarrow> bool" where
  "settledProp n ext kw kv \<equiv> fst kw = fst kv \<and> settled n ext (snd kw) (snd kv)"

lemma map_set_fresh: "k \<notin> fst ` set m \<Longrightarrow> map_set k v m = m @ [(k, v)]"
  by (induction m) auto

lemma snap_props:
  assumes "h ! a = HObj p props" "a < length h"
    and "\<And>k e w. (k, e, w) \<in> set rest \<Longrightarrow> \<exists>key. k = Some key \<and> map_of props k = Some (e, w) \<and> snaps h A w"
    and "list_all2 (settledProp (Suc (length (h @ new))) ext) kws kvs"
    and "distinct (map fst kws @ keysOf rest)"
  shows "case propVerdicts h A rest of
      None \<Rightarrow> walkLoop True (walking (objectHeap h new kws ext)
        (propertyTasks a (keysOf rest) (Some (length (h @ new))) @ ts) A r) = Some None
    | Some kvs' \<Rightarrow> \<exists>kws' ext'. list_all2 (settledProp (Suc (length (h @ new))) ext') kws' (kvs @ kvs') \<and>
        walkLoop True (walking (objectHeap h new kws ext)
            (propertyTasks a (keysOf rest) (Some (length (h @ new))) @ ts) A r)
          = walkLoop True (walking (objectHeap h new kws' ext') ts A r)"
  using assms(3,4,5)
proof (induction rest arbitrary: kws kvs ext)
  case Nil
  then show ?case by (auto simp: propertyTasks_def)
next
  case (Cons x rest)
  obtain k e v where x: "x = (k, e, v)" by (cases x)
  with Cons.prems(1) [of k e v] obtain key
    where key: "k = Some key" "map_of props (Some key) = Some (e, v)" "snaps h A v" by auto
  have at: "objectHeap h new kws ext ! a = HObj p props"
    using assms(1,2) by (simp add: nth_append)
  let ?t = "length (h @ new)"
  let ?new = "new @ HObj objectProto (map (\<lambda>(k, w). (Some k, True, w)) kws) # ext"
  let ?d = "DKey ?t key"
  let ?ts = "propertyTasks a (keysOf rest) (Some ?t) @ ts"
  have d: "targets (length h) (length (h @ ?new)) ?d" by simp
  have tasks: "propertyTasks a (keysOf (x # rest)) (Some ?t) @ ts = ObjectProperty a key (Some ?t) # ?ts"
    by (simp add: propertyTasks_def x key(1))
  show ?case
  proof (cases "reify h A v")
    case None
    with snapsD_None [OF key(3) None d, where ts = "?ts" and r = r] show ?thesis
      by (simp only: tasks walk_prop [OF at key(2)]) (simp add: x)
  next
    case (Some j)
    from snapsD_Some [OF key(3) Some d, where r = r and ts = ?ts]
    obtain w m where w: "settled (length (h @ ?new)) m w j"
      and walk: "walkLoop True (walking (h @ ?new) (Visit v (Some ?d) # ?ts) A r)
        = walkLoop True (walking (storeIn ?d w (h @ ?new) @ m) ?ts A r)"
      by auto
    have "Some key \<notin> fst ` set (map (\<lambda>(k, w). (Some k, True, w)) kws)"
      using Cons.prems(3) by (force simp: x key(1))
    then have store: "storeIn ?d w (h @ ?new) @ m = objectHeap h new (kws @ [(key, w)]) (ext @ m)"
      by (simp add: nth_append list_update_append map_set_fresh)
    have "settled (Suc ?t + length ext) m w j" using w by (simp add: ac_simps)
    then have "settled (Suc ?t) (ext @ m) w j" by (rule settled_later)
    moreover have "list_all2 (settledProp (Suc ?t) (ext @ m)) kws kvs"
      using Cons.prems(2) by (rule list.rel_mono_strong) (auto intro: settled_extend)
    ultimately have "list_all2 (settledProp (Suc ?t) (ext @ m)) (kws @ [(key, w)]) (kvs @ [(key, j)])"
      by (simp add: list_all2_appendI)
    note IH = Cons.IH [OF _ this]
    have "case propVerdicts h A rest of
      None \<Rightarrow> walkLoop True (walking (objectHeap h new (kws @ [(key, w)]) (ext @ m)) ?ts A r) = Some None
    | Some kvs' \<Rightarrow> \<exists>kws' ext'. list_all2 (settledProp (Suc ?t) ext') kws' ((kvs @ [(key, j)]) @ kvs') \<and>
        walkLoop True (walking (objectHeap h new (kws @ [(key, w)]) (ext @ m)) ?ts A r)
          = walkLoop True (walking (objectHeap h new kws' ext') ts A r)"
      using Cons.prems(1,3) by (intro IH) (auto simp: x key(1))
    moreover have "walkLoop True (walking (objectHeap h new kws ext) (ObjectProperty a key (Some ?t) # ?ts) A r)
        = walkLoop True (walking (objectHeap h new (kws @ [(key, w)]) (ext @ m)) ?ts A r)"
      unfolding walk_prop [OF at key(2)] using walk store by simp
    ultimately show ?thesis
      unfolding tasks by (cases "propVerdicts h A rest") (simp_all add: x key(1) Some)
  qed
qed

lemma represents_snapshot_array:
  assumes "list_all2 (settled (Suc n) ext) ws js"
  shows "settled n (HArr arrayProto (map Some ws) 0 # ext) (VRef n) (JArr js)"
  unfolding settled_def
proof (intro allI impI)
  fix X :: heap
  assume n: "length X = n"
  have "list_all2 (\<lambda>w j. represents (X @ HArr arrayProto (map Some ws) 0 # ext) w j) ws js"
  proof (rule list.rel_mono_strong [OF assms])
    fix w j
    assume "settled (Suc n) ext w j"
    then have "represents ((X @ [HArr arrayProto (map Some ws) 0]) @ ext) w j"
      using n unfolding settled_def by (metis length_append_singleton)
    then show "represents (X @ HArr arrayProto (map Some ws) 0 # ext) w j" by simp
  qed
  with n show "represents (X @ HArr arrayProto (map Some ws) 0 # ext) (VRef n) (JArr js)"
    by (intro rep_arr [of n _ arrayProto "map Some ws"]) (auto simp: list.rel_map nth_append)
qed

lemma represents_snapshot_object:
  assumes "list_all2 (settledProp (Suc n) ext) kws kvs"
  shows "settled n (HObj objectProto (map (\<lambda>(k, w). (Some k, True, w)) kws) # ext) (VRef n) (JObj kvs)"
  unfolding settled_def
proof (intro allI impI)
  fix X :: heap
  assume n: "length X = n"
  let ?o = "HObj objectProto (map (\<lambda>(k, w). (Some k, True, w)) kws)"
  have "list_all2 (\<lambda>kw kv. fst kw = fst kv \<and> represents (X @ ?o # ext) (snd kw) (snd kv)) kws kvs"
  proof (rule list.rel_mono_strong [OF assms])
    fix kw kv
    assume s: "settledProp (Suc n) ext kw kv"
    then have "represents ((X @ [?o]) @ ext) (snd kw) (snd kv)"
      using n unfolding settled_def by (metis length_append_singleton)
    with s show "fst kw = fst kv \<and> represents (X @ ?o # ext) (snd kw) (snd kv)" by simp
  qed
  with n show "represents (X @ ?o # ext) (VRef n) (JObj kvs)"
    by (intro rep_obj [of n _ objectProto "map (\<lambda>(k, w). (Some k, True, w)) kws"])
      (auto simp: list.rel_map nth_append case_prod_unfold)
qed

lemma snap_array:
  assumes a: "a \<notin> A" "a < length h" "h ! a = HArr p items extra"
    and plain: "hasPlainArrayPrototype p" "arrayOwnKeys items extra = length items + 1"
    and parts: "\<And>w. Some w \<in> set items \<Longrightarrow> snaps h (insert a A) w"
  shows "snaps h A (VRef a)"
  unfolding snaps_def
proof (intro allI impI)
  fix new d ts r
  assume d: "targets (length h) (length (h @ new)) d"
  let ?n = "length (h @ new)"
  have at: "(h @ new) ! a = HArr p items extra" using a by (simp add: nth_append)
  obtain new' where new': "storeIn d (VRef ?n) (h @ new) = h @ new'" "length new' = length new"
    using storeIn_prefix [OF d] by blast
  have grown: "storeIn d (VRef (length h + length new)) (h @ new @ x) = h @ new' @ x" for x
    using storeIn_alloc [OF d, of "VRef ?n" x] new'(1) by simp
  have start: "walkLoop True (walking (h @ new) (Visit (VRef a) (Some d) # ts) A r)
      = walkLoop True (walking (arrayHeap h new' [] []) (itemTasks a 0 (length items) (Some ?n) @ Leave a # ts)
          (insert a A) (rootAfter d (VRef ?n) r))"
    unfolding walk_array [OF a(1) at]
    by (simp add: visitArray_def allocate_def assign_walking plain grown Let_def)
  have items: "case itemVerdicts h (insert a A) items of
      None \<Rightarrow> walkLoop True (walking (arrayHeap h new' [] [])
        (itemTasks a 0 (length items) (Some ?n) @ Leave a # ts) (insert a A) (rootAfter d (VRef ?n) r)) = Some None
    | Some js \<Rightarrow> \<exists>ws ext. list_all2 (settled (Suc ?n) ext) ws js \<and>
        walkLoop True (walking (arrayHeap h new' [] [])
            (itemTasks a 0 (length items) (Some ?n) @ Leave a # ts) (insert a A) (rootAfter d (VRef ?n) r))
          = walkLoop True (walking (arrayHeap h new' ws ext) (Leave a # ts) (insert a A) (rootAfter d (VRef ?n) r))"
    using snap_items [OF a(3,2), where i = 0 and n = "length items" and ws = "[]" and A = "insert a A" and new = new'
        and ext = "[]" and js = "[]" and ts = "Leave a # ts" and r = "rootAfter d (VRef ?n) r"] parts
    by (simp add: new'(2) split: option.splits)
  show "case reify h A (VRef a) of
        None \<Rightarrow> walkLoop True (walking (h @ new) (Visit (VRef a) (Some d) # ts) A r) = Some None
      | Some j \<Rightarrow> \<exists>w ext. settled ?n ext w j \<and>
          walkLoop True (walking (h @ new) (Visit (VRef a) (Some d) # ts) A r)
            = walkLoop True (walking (storeIn d w (h @ new) @ ext) ts A (rootAfter d w r))"
  proof (cases "itemVerdicts h (insert a A) items")
    case None
    with items start show ?thesis by (simp add: reify_array [OF a] plain)
  next
    case (Some js)
    with items obtain ws ext where ws: "list_all2 (settled (Suc ?n) ext) ws js"
      and walk: "walkLoop True (walking (arrayHeap h new' [] [])
            (itemTasks a 0 (length items) (Some ?n) @ Leave a # ts) (insert a A) (rootAfter d (VRef ?n) r))
          = walkLoop True (walking (arrayHeap h new' ws ext) (Leave a # ts) (insert a A) (rootAfter d (VRef ?n) r))"
      by auto
    note settled = represents_snapshot_array [OF ws]
    have "walkLoop True (walking (h @ new) (Visit (VRef a) (Some d) # ts) A r)
        = walkLoop True (walking (storeIn d (VRef ?n) (h @ new) @ HArr arrayProto (map Some ws) 0 # ext) ts A
            (rootAfter d (VRef ?n) r))"
      unfolding start walk walk_leave using a(1) new'(1) by simp
    with settled Some show ?thesis by (auto simp: reify_array [OF a] plain)
  qed
qed

lemma snap_object:
  assumes a: "a \<notin> A" "a < length h" "h ! a = HObj p props"
    and plain: "hasPlainObjectPrototype p" "enumerableStringKeys props = Some (keysOf props)"
    and parts: "\<And>k e w. (k, e, w) \<in> set props \<Longrightarrow>
      \<exists>key. k = Some key \<and> map_of props k = Some (e, w) \<and> snaps h (insert a A) w"
    and keys: "distinct (keysOf props)"
  shows "snaps h A (VRef a)"
  unfolding snaps_def
proof (intro allI impI)
  fix new d ts r
  assume d: "targets (length h) (length (h @ new)) d"
  let ?n = "length (h @ new)"
  have at: "(h @ new) ! a = HObj p props" using a by (simp add: nth_append)
  obtain new' where new': "storeIn d (VRef ?n) (h @ new) = h @ new'" "length new' = length new"
    using storeIn_prefix [OF d] by blast
  have grown: "storeIn d (VRef (length h + length new)) (h @ new @ x) = h @ new' @ x" for x
    using storeIn_alloc [OF d, of "VRef ?n" x] new'(1) by simp
  have start: "walkLoop True (walking (h @ new) (Visit (VRef a) (Some d) # ts) A r)
      = walkLoop True (walking (objectHeap h new' [] []) (propertyTasks a (keysOf props) (Some ?n) @ Leave a # ts)
          (insert a A) (rootAfter d (VRef ?n) r))"
    unfolding walk_object [OF a(1) at]
    by (simp add: visitObject_def allocate_def assign_walking plain grown Let_def)
  have props: "case propVerdicts h (insert a A) props of
      None \<Rightarrow> walkLoop True (walking (objectHeap h new' [] [])
        (propertyTasks a (keysOf props) (Some ?n) @ Leave a # ts) (insert a A) (rootAfter d (VRef ?n) r)) = Some None
    | Some kvs \<Rightarrow> \<exists>kws ext. list_all2 (settledProp (Suc ?n) ext) kws kvs \<and>
        walkLoop True (walking (objectHeap h new' [] [])
            (propertyTasks a (keysOf props) (Some ?n) @ Leave a # ts) (insert a A) (rootAfter d (VRef ?n) r))
          = walkLoop True (walking (objectHeap h new' kws ext) (Leave a # ts) (insert a A) (rootAfter d (VRef ?n) r))"
    using snap_props [OF a(3,2) parts, where rest = props and new = new' and kws = "[]" and kvs = "[]" and ext = "[]"
        and ts = "Leave a # ts" and r = "rootAfter d (VRef ?n) r"] keys
    by (simp add: new'(2) split: option.splits)
  show "case reify h A (VRef a) of
        None \<Rightarrow> walkLoop True (walking (h @ new) (Visit (VRef a) (Some d) # ts) A r) = Some None
      | Some j \<Rightarrow> \<exists>w ext. settled ?n ext w j \<and>
          walkLoop True (walking (h @ new) (Visit (VRef a) (Some d) # ts) A r)
            = walkLoop True (walking (storeIn d w (h @ new) @ ext) ts A (rootAfter d w r))"
  proof (cases "propVerdicts h (insert a A) props")
    case None
    with props start show ?thesis by (simp add: reify_object [OF a] plain)
  next
    case (Some kvs)
    with props obtain kws ext where kws: "list_all2 (settledProp (Suc ?n) ext) kws kvs"
      and walk: "walkLoop True (walking (objectHeap h new' [] [])
            (propertyTasks a (keysOf props) (Some ?n) @ Leave a # ts) (insert a A) (rootAfter d (VRef ?n) r))
          = walkLoop True (walking (objectHeap h new' kws ext) (Leave a # ts) (insert a A) (rootAfter d (VRef ?n) r))"
      by auto
    note settled = represents_snapshot_object [OF kws]
    have "walkLoop True (walking (h @ new) (Visit (VRef a) (Some d) # ts) A r)
        = walkLoop True (walking (storeIn d (VRef ?n) (h @ new)
            @ HObj objectProto (map (\<lambda>(k, w). (Some k, True, w)) kws) # ext) ts A (rootAfter d (VRef ?n) r))"
      unfolding start walk walk_leave using a(1) new'(1) by simp
    with settled Some show ?thesis by (auto simp: reify_object [OF a] plain)
  qed
qed

lemma distinct_keysOf:
  assumes "enumerableStringKeys props \<noteq> None" "distinct (filter (\<lambda>k. k \<noteq> None) (map fst props))"
  shows "distinct (keysOf props)"
proof -
  have "map fst props = map Some (keysOf props)"
    using assms(1) unfolding enumerableStringKeys_all by (auto intro: map_cong)
  moreover have "filter (\<lambda>k. k \<noteq> None) (map Some ks) = map Some ks" for ks :: "string list"
    by (induction ks) auto
  ultimately have "distinct (map Some (keysOf props))" using assms(2) by (simp only:)
  then show ?thesis unfolding distinct_map [of Some] by (rule conjunct1)
qed

lemma snap_visit: "wf_heap h \<Longrightarrow> known h v \<Longrightarrow> snaps h A v"
proof (induction h A v rule: reify.induct)
  case (1 h A v)
  show ?case
  proof (cases "\<exists>a. v = VRef a")
    case False
    then have no_ref: "\<And>a. v \<noteq> VRef a" by blast
    have "walkLoop True (walking (h @ new) (Visit v (Some d) # ts) A r) =
        (case reify h A v of None \<Rightarrow> Some None
         | Some _ \<Rightarrow> walkLoop True (assign (Some d) v (walking (h @ new) ts A r)))" for new d ts r
      by (rule walk_scalar [OF no_ref])
    then show ?thesis
      unfolding snaps_def using settled_scalar [OF _ no_ref, where ext = "[]"]
      by (auto simp: assign_walking split: option.split intro!: exI [of _ v] exI [of _ "[]"])
  next
    case True
    then obtain a where v: "v = VRef a" by blast
    with 1 have a: "a < length h" and wf: "wf_obj h (h ! a)" by (auto intro: wf_heap_obj)
    show ?thesis
    proof (cases "a \<in> A")
      case True
      then show ?thesis by (simp add: v snaps_def walk_seen reify.simps [of h A "VRef a"])
    next
      case False
      show ?thesis
      proof (cases "h ! a")
        case (HArr p items extra)
        show ?thesis
        proof (cases "hasPlainArrayPrototype p \<and> arrayOwnKeys items extra = length items + 1")
          case True
          have "snaps h (insert a A) w" if "Some w \<in> set items" for w
            using wf that True by (intro 1(1) [OF v _ HArr _ that refl 1(3)]) (auto simp: HArr False a not_le)
          with True show ?thesis unfolding v by (intro snap_array [OF False a HArr]) auto
        next
          case bad: False
          have "(h @ new) ! a = HArr p items extra" for new using HArr a by (simp add: nth_append)
          from walk_array [OF False this] bad show ?thesis
            unfolding snaps_def v reify_array [OF False a HArr] by (auto simp: visitArray_def)
        qed
      next
        case (HObj p props)
        show ?thesis
        proof (cases "hasPlainObjectPrototype p \<and> enumerableStringKeys props \<noteq> None")
          case True
          then have keys: "enumerableStringKeys props = Some (keysOf props)"
            by (auto dest: enumerableStringKeys_keys)
          have "\<exists>key. k = Some key \<and> map_of props k = Some (e, w) \<and> snaps h (insert a A) w"
            if kew: "(k, e, w) \<in> set props" for k e w
          proof -
            from True kew obtain key where k: "k = Some key"
              using enumerableStringKeys_all [of props] by force
            moreover have "snaps h (insert a A) w"
              using wf kew by (intro 1(2) [OF v _ HObj _ kew refl refl 1(3)]) (use True a in \<open>auto simp: HObj False not_le\<close>)
            ultimately show ?thesis using wf_props_get wf HObj kew by simp
          qed
          moreover have "distinct (keysOf props)"
            using True wf unfolding HObj by (intro distinct_keysOf) auto
          ultimately show ?thesis
            unfolding v using True keys by (intro snap_object [OF False a HObj]) auto
        next
          case bad: False
          have "(h @ new) ! a = HObj p props" for new using HObj a by (simp add: nth_append)
          from walk_object [OF False this] bad show ?thesis
            unfolding snaps_def v reify_object [OF False a HObj] by (auto simp: visitObject_def)
        qed
      qed
    qed
  qed
qed

lemma reify_exact: "wf_heap h \<Longrightarrow> reify h {} v = Some j \<longleftrightarrow> represents h v j"
  using reify_sound reify_complete [of h v j "{}"] by auto

lemma isJsonValue_iff:
  assumes "wf_heap h" "known h v"
  shows "isJsonValue h v = Some (\<exists>j. represents h v j)"
proof -
  have "walkJsonValue h v False = (case reify h {} v of None \<Rightarrow> Some None | Some _ \<Rightarrow> Some (Some (walking h [] {} None)))"
    unfolding walkJsonValue_def using checksD [OF check_visit [OF assms], where ts = "[]" and r = None] by (simp split: option.split)
  then show ?thesis
    using reify_exact [OF assms(1), of v] by (cases "reify h {} v") (auto simp: isJsonValue_def)
qed

section \<open>Properties\<close>

text \<open>C34.
  The snapshot is exact and detached: on any heap, shared, cyclic or exotic, \<open>snapshotJsonValue\<close> returns;
  it answers \<open>undefined\<close> exactly when the value has no JSON unfolding, and otherwise leaves every object of
  the source as it was and returns a value made of new objects only that unfolds to the same JSON tree,
  whatever is done to the source afterwards.
\<close>

theorem snapshot_exact:
  assumes "wf_heap h" "known h v"
  shows "\<exists>r. snapshotJsonValue h v = Some r \<and>
    (case r of
       None \<Rightarrow> \<nexists>j. represents h v j
     | Some (w, h') \<Rightarrow> \<exists>j new. represents h v j \<and> h' = h @ new \<and>
         (\<forall>source. length source = length h \<longrightarrow> represents (source @ new) w j))"
proof (cases "reify h {} v")
  case None
  with snapsD_None [OF snap_visit [OF assms] None, of "[]" DRoot "[]" None]
  have "snapshotJsonValue h v = Some None"
    by (simp add: snapshotJsonValue_def walkJsonValue_def)
  moreover have "\<nexists>j. represents h v j" using None reify_exact [OF assms(1), of v] by (metis option.distinct(1))
  ultimately show ?thesis by simp
next
  case (Some j)
  from snapsD_Some [OF snap_visit [OF assms] Some, of "[]" DRoot "[]" None] obtain w new
    where "settled (length h) new w j" "snapshotJsonValue h v = Some (Some (w, h @ new))"
    by (auto simp: snapshotJsonValue_def walkJsonValue_def)
  with Some reify_exact [OF assms(1)] show ?thesis by (fastforce simp: settled_def)
qed

text \<open>A record read twice by an array, and the snapshot of it: two separate records.\<close>

definition sampleShared :: heap where
  "sampleShared = [HObj objectProto [(Some ''k'', True, VNum (Fin 1))], HArr arrayProto [Some (VRef 0), Some (VRef 0)] 0]"

theorem snapshot_exact_witness:
  "\<exists>w new. snapshotJsonValue sampleShared (VRef 1) = Some (Some (w, sampleShared @ new))
    \<and> represents (sampleShared @ new) w (JArr [JObj [(''k'', JNum 1)], JObj [(''k'', JNum 1)]])"
proof -
  have wf: "wf_heap sampleShared" by (simp add: sampleShared_def wf_heap_def)
  have "represents sampleShared (VRef 0) (JObj [(''k'', JNum 1)])"
    by (rule rep_obj) (auto simp: sampleShared_def intro: rep_num)
  then have rep: "represents sampleShared (VRef 1) (JArr [JObj [(''k'', JNum 1)], JObj [(''k'', JNum 1)]])"
    by (intro rep_arr [of 1 sampleShared arrayProto "[Some (VRef 0), Some (VRef 0)]"]) (simp_all add: sampleShared_def)
  have "known sampleShared (VRef 1)" by (simp add: sampleShared_def)
  from snapshot_exact [OF wf this] rep obtain w j new
    where "snapshotJsonValue sampleShared (VRef 1) = Some (Some (w, sampleShared @ new))"
      "represents sampleShared (VRef 1) j" "represents (sampleShared @ new) w j"
    by (auto split: option.splits)
  with represents_det [OF rep] show ?thesis by blast
qed

text \<open>C35.
  The check always ends, and decides: on any heap, cycles included, \<open>isJsonValue\<close> returns, and says whether
  the value has a JSON unfolding; so it agrees with the snapshotter.
\<close>

theorem isJsonValue_decides:
  assumes "wf_heap h" "known h v"
  shows "isJsonValue h v = Some (\<exists>j. represents h v j)"
  using assms by (rule isJsonValue_iff)

definition sampleCycle :: heap where
  "sampleCycle = [HArr arrayProto [Some (VRef 0)] 0]"

theorem isJsonValue_decides_witness: "isJsonValue sampleCycle (VRef 0) = Some False"
proof -
  have wf: "wf_heap sampleCycle" by (simp add: sampleCycle_def wf_heap_def)
  have "reify sampleCycle {} (VRef 0) = None"
    by (simp add: sampleCycle_def reify.simps [of _ "{}"] reify.simps [of _ "{0}"])
  then have "\<nexists>j. represents sampleCycle (VRef 0) j"
    using reify_exact [OF wf, of "VRef 0"] by (metis option.distinct(1))
  with isJsonValue_decides [OF wf, of "VRef 0"] show ?thesis by (simp add: sampleCycle_def)
qed

end
