(* ===== verification/Events.thy ===== *)
theory Events
  imports Json
begin

text \<open>
  The shared vocabulary: messages, content blocks and stream chunks of \<open>llm/llm/src/types.ts\<close> and
  \<open>message.ts\<close>, and the session events of \<open>core/session/src/types.ts\<close> with the members that
  \<open>core/agent\<close> and \<open>llm/llm-retry\<close> merge into \<open>SessionEventMap\<close>.

  A discriminated union is a datatype with the source's tags as constructors. The unions that
  TypeScript leaves open for plugins keep one catch-all constructor carrying the tag and the JSON
  payload. Ids are strings, turn, step and sequence numbers are integers. \<open>surfaceOp\<close> and
  \<open>sourceEventSeqs\<close> stay raw JSON in an event, because the surface validates them at run time.
\<close>

section \<open>Content and messages\<close>

type_synonym call_id = string
type_synonym message_id = string

datatype content_block =
    TextBlock string
  | ReasoningBlock string
  | ImageBlock json
  | ToolCallBlock call_id string string
  | ToolResultBlock call_id "content_block list" "bool option"
  | PluginBlock string json

fun block_type :: "content_block \<Rightarrow> string" where
  "block_type (TextBlock _) = ''text''"
| "block_type (ReasoningBlock _) = ''reasoning''"
| "block_type (ImageBlock _) = ''image''"
| "block_type (ToolCallBlock _ _ _) = ''tool-call''"
| "block_type (ToolResultBlock _ _ _) = ''tool-result''"
| "block_type (PluginBlock t _) = t"

fun is_tool_call :: "content_block \<Rightarrow> bool" where
  "is_tool_call (ToolCallBlock _ _ _) = True"
| "is_tool_call _ = False"

fun tool_call_id :: "content_block \<Rightarrow> call_id option" where
  "tool_call_id (ToolCallBlock i _ _) = Some i"
| "tool_call_id _ = None"

datatype message_role = RoleSystem | RoleUser | RoleAssistant

datatype message_source =
    UserSource
  | PluginSource string json
  | ModelSource string string "json option"
  | ToolSource call_id
  | OtherSource string json

record message =
  msg_id :: message_id
  msg_role :: message_role
  msg_content :: "content_block list"
  msg_source :: message_source

text \<open>
  A tool-result message is a user message from a tool source whose content is exactly one
  tool-result block: \<open>tr_callId\<close> is \<open>source.callId\<close>, the other fields are \<open>content[0]\<close>.
\<close>

record tool_result_message =
  tr_id :: message_id
  tr_callId :: call_id
  tr_toolCallId :: call_id
  tr_content :: "content_block list"
  tr_isError :: "bool option"

definition tool_result_as_message :: "tool_result_message \<Rightarrow> message" where
  "tool_result_as_message m =
     \<lparr>msg_id = tr_id m, msg_role = RoleUser,
      msg_content = [ToolResultBlock (tr_toolCallId m) (tr_content m) (tr_isError m)],
      msg_source = ToolSource (tr_callId m)\<rparr>"

section \<open>Failures, usage and stream chunks\<close>

record llm_failure =
  lf_message :: string
  lf_code :: string
  lf_status :: "js_number option"
  lf_providerRetryAfterMs :: "js_number option"
  lf_requestId :: "string option"

datatype finish_reason =
    FinishStop
  | FinishToolCalls
  | FinishMaxTokens
  | FinishAborted llm_failure
  | FinishError llm_failure
  | FinishOther string json

record token_usage =
  inputTokens :: rat
  outputTokens :: rat
  cacheReadTokens :: "rat option"
  cacheWriteTokens :: "rat option"
  reasoningTokens :: "rat option"

record replay_envelope =
  re_response :: json
  re_blocks :: "json list option"

datatype stream_chunk =
    BlockStart int string
  | TextDelta int string
  | ReasoningDelta int string
  | ToolCallDelta int call_id "string option" string
  | BlockEnd int content_block
  | UsageChunk token_usage
  | FinishChunk finish_reason "replay_envelope option"

section \<open>Request headers\<close>

record call_config =
  cc_provider :: string
  cc_model :: string
  cc_reasoningEffort :: "string option"
  cc_temperature :: "rat option"
  cc_maxTokens :: "rat option"
  cc_stop :: "string list option"

text \<open>The two markers are \<open>true\<close> or absent.\<close>

record adapter_defaults =
  ad_reasoningEffort :: bool
  ad_maxTokens :: bool

record epoch_header =
  eh_config :: call_config
  eh_adapterDefaults :: "adapter_defaults option"
  eh_system :: "string option"
  eh_tools :: "json list option"

record request_context =
  rc_provider :: string
  rc_model :: string
  rc_contextWindow :: "rat option"

section \<open>Session events\<close>

datatype cancel_cause = CauseUser | CauseParent | CauseHook string | CauseDisposed | CauseLegacy

datatype turn_end_reason =
    EndCompleted
  | EndAborted cancel_cause
  | EndBlocked
  | EndError llm_failure
  | EndMaxTokens
  | EndInterrupted
  | EndOther string json

datatype inbox_target = NextTurn | NextStep

record inbox_splice =
  sp_target :: inbox_target
  sp_start :: int
  sp_removedCount :: "int option"
  sp_inserted :: "message list"
  sp_canceled :: bool

datatype retry_mode = RetryNormal int | RetryAlways

record retry_data =
  rd_retryId :: string
  rd_turn :: int
  rd_step :: int
  rd_provider :: string
  rd_mode :: retry_mode
  rd_policyKey :: string
  rd_retry :: int
  rd_delayMs :: js_number
  rd_failure :: llm_failure

datatype event_data =
    TurnStart int
  | TurnEnd int turn_end_reason
  | StepStart int int
  | StepEnd int int
  | UserMessage message
  | AssistantChunk int int stream_chunk
  | AssistantMessage int int message "token_usage option" bool
  | ToolCall int int call_id string string
  | ToolResult int int tool_result_message "(string \<times> string) option" "json option"
  | TodoWrite json
  | RequestHeader epoch_header string
  | RequestContext request_context
  | EndSeed
  | InboxSpliced inbox_splice
  | LlmRetry retry_data
  | LlmRetryStarted string int int int
  | PluginEvent string json

fun event_type :: "event_data \<Rightarrow> string" where
  "event_type (TurnStart _) = ''turn/start''"
| "event_type (TurnEnd _ _) = ''turn/end''"
| "event_type (StepStart _ _) = ''step/start''"
| "event_type (StepEnd _ _) = ''step/end''"
| "event_type (UserMessage _) = ''user/message''"
| "event_type (AssistantChunk _ _ _) = ''assistant/chunk''"
| "event_type (AssistantMessage _ _ _ _ _) = ''assistant/message''"
| "event_type (ToolCall _ _ _ _ _) = ''tool/call''"
| "event_type (ToolResult _ _ _ _ _) = ''tool/result''"
| "event_type (TodoWrite _) = ''todo/write''"
| "event_type (RequestHeader _ _) = ''request/header''"
| "event_type (RequestContext _) = ''request/context''"
| "event_type EndSeed = ''session/end-seed''"
| "event_type (InboxSpliced _) = ''agent/inbox/spliced''"
| "event_type (LlmRetry _) = ''llm/retry''"
| "event_type (LlmRetryStarted _ _ _ _) = ''llm/retry-started''"
| "event_type (PluginEvent t _) = t"

record session_event =
  ev_seq :: int
  ev_time :: int
  ev_data :: event_data
  ev_surfaceOp :: "json option"
  ev_sourceEventSeqs :: "json option"
  ev_ignorable :: bool

abbreviation ev_type :: "session_event \<Rightarrow> string" where
  "ev_type e \<equiv> event_type (ev_data e)"

text \<open>Encodings of the JSON values the code writes into events.\<close>

definition op_append :: json where
  "op_append = JStr ''append''"

definition op_replace :: "int \<Rightarrow> int \<Rightarrow> json" where
  "op_replace a b = JObj [(''op'', JStr ''replace''), (''start'', JNum (of_int a)), (''end'', JNum (of_int b))]"

definition seqs_json :: "int list \<Rightarrow> json" where
  "seqs_json ns = JArr (map (\<lambda>n. JNum (of_int n)) ns)"

end
