(* ===== verification/Surface.thy ===== *)
theory Surface
  imports Events
begin

text \<open>
  The surface of a session log, \<open>core/session/src/surface.ts\<close>: the ordered view of the events that
  produce model messages.

  First the event-local checks (\<open>surfaceOpOf\<close>, \<open>assertProvenance\<close>, \<open>assertToolResultRewrite\<close>), then
  the pure transition (\<open>planSurfaceEvent\<close>, \<open>applySurfacePlan\<close>), the batch replay \<open>foldSurface\<close> and
  the incremental \<open>SurfaceManager\<close>. The lemmas show that a replay step sees only the log
  before its event (\<open>planSurfaceEvent_prefix\<close>), that the batch replay is a fold of that step
  (\<open>foldSurface_replay\<close>), the invariant of the replayed state (interpretation \<open>surface_replay\<close>),
  and that the manager, with its cached plan, always agrees with the replay (\<open>processDelta_replay\<close>).
\<close>

section \<open>Eligibility and classification\<close>

definition SURFACE_EVENT_TYPES :: "string set" where
  "SURFACE_EVENT_TYPES = {''user/message'', ''assistant/message'', ''tool/result''}"

definition isSurfaceEligibleType :: "string \<Rightarrow> bool" where
  "isSurfaceEligibleType t \<longleftrightarrow> t \<in> SURFACE_EVENT_TYPES"

definition isSurfaceEvent :: "session_event \<Rightarrow> bool" where
  "isSurfaceEvent e \<longleftrightarrow> isSurfaceEligibleType (ev_type e) \<and> ev_surfaceOp e \<noteq> None"

definition isAppendSurfaceEvent :: "session_event \<Rightarrow> bool" where
  "isAppendSurfaceEvent e \<longleftrightarrow> isSurfaceEvent e \<and> ev_surfaceOp e = Some op_append"

definition isReplacementSurfaceEvent :: "session_event \<Rightarrow> bool" where
  "isReplacementSurfaceEvent e \<longleftrightarrow> isSurfaceEvent e \<and> ev_surfaceOp e \<noteq> Some op_append"

fun deriveEventMessage :: "session_event \<Rightarrow> message option" where
  "deriveEventMessage e =
     (case ev_data e of
        UserMessage m \<Rightarrow> Some m
      | AssistantMessage _ _ m _ _ \<Rightarrow> if msg_content m = [] then None else Some m
      | ToolResult _ _ m _ _ \<Rightarrow> Some (tool_result_as_message m)
      | _ \<Rightarrow> None)"

section \<open>Event-local validation\<close>

datatype surface_error =
    NotEligibleSurfaceOp
  | NotEligibleSources
  | MissingSurfaceOp
  | InvalidSurfaceOp
  | InvalidReplaceOp
  | SourcesNotArray
  | SourcesEmpty
  | SourcesNotSafeIntegers
  | SourcesDuplicated
  | SourcesNotEarlier int int
  | ShadowedNotCited "int list"
  | StartNotFound int
  | EndNotFound int
  | StartAfterEnd int int
  | RewriteNotSingle
  | RewriteNotToolResult
  | RewriteChangesMore
  | NotContiguous int int

datatype surface_op = OpAppend | OpReplace int int

fun isEventSeq :: "json \<Rightarrow> bool" where
  "isEventSeq (JNum x) \<longleftrightarrow> isSafeInteger x \<and> 0 \<le> x"
| "isEventSeq _ \<longleftrightarrow> False"

definition seq_of :: "json \<Rightarrow> int" where
  "seq_of v = \<lfloor>as_num (Some v)\<rfloor>"

definition isReplaceOp :: "json \<Rightarrow> bool" where
  "isReplaceOp v \<longleftrightarrow>
     length (obj_keys v) = 3 \<and> hasOwn v ''op'' \<and> hasOwn v ''start'' \<and> hasOwn v ''end''
     \<and> obj_get v ''op'' = Some (JStr ''replace'')
     \<and> (case obj_get v ''start'' of Some s \<Rightarrow> isEventSeq s | None \<Rightarrow> False)
     \<and> (case obj_get v ''end'' of Some s \<Rightarrow> isEventSeq s | None \<Rightarrow> False)"

definition surfaceOpOf :: "session_event \<Rightarrow> surface_error + surface_op option" where
  "surfaceOpOf e =
     (if \<not> isSurfaceEligibleType (ev_type e) then
        if ev_surfaceOp e \<noteq> None then Inl NotEligibleSurfaceOp
        else if ev_sourceEventSeqs e \<noteq> None then Inl NotEligibleSources
        else Inr None
      else
        case ev_surfaceOp e of
          None \<Rightarrow> Inl MissingSurfaceOp
        | Some op \<Rightarrow>
            if op = op_append then Inr (Some OpAppend)
            else if \<not> is_object op then Inl InvalidSurfaceOp
            else if \<not> isReplaceOp op then Inl InvalidReplaceOp
            else Inr (Some (OpReplace (seq_of (the (obj_get op ''start'')))
                                      (seq_of (the (obj_get op ''end''))))))"

text \<open>
  The loop over \<open>sourceEventSeqs\<close>: it collects the distinct sources and the first one that is
  not earlier than the event.
\<close>

fun sourceLoop :: "int \<Rightarrow> json list \<Rightarrow> int list \<Rightarrow> int option \<Rightarrow> surface_error + int list \<times> int option" where
  "sourceLoop seq [] sources late = Inr (sources, late)"
| "sourceLoop seq (v # vs) sources late =
     (if \<not> isEventSeq v then Inl SourcesNotSafeIntegers
      else sourceLoop seq vs
             (if seq_of v \<in> set sources then sources else sources @ [seq_of v])
             (if late = None \<and> seq \<le> seq_of v then Some (seq_of v) else late))"

definition citedSources :: "session_event \<Rightarrow> surface_error + int list" where
  "citedSources e =
     (case ev_sourceEventSeqs e of
        None \<Rightarrow> Inr []
      | Some (JArr vs) \<Rightarrow>
          if vs = [] \<and> ev_type e \<noteq> ''assistant/message'' then Inl SourcesEmpty
          else bindE (sourceLoop (ev_seq e) vs [] None) (\<lambda>(sources, late).
            if length sources \<noteq> length vs then Inl SourcesDuplicated
            else case late of
                Some n \<Rightarrow> Inl (SourcesNotEarlier n (ev_seq e))
              | None \<Rightarrow> Inr sources)
      | Some _ \<Rightarrow> Inl SourcesNotArray)"

definition assertProvenance :: "session_event \<Rightarrow> int list \<Rightarrow> surface_error + unit" where
  "assertProvenance e shadowed =
     bindE (citedSources e) (\<lambda>sources.
       let missing = filter (\<lambda>n. n \<notin> set sources) shadowed in
       if missing \<noteq> [] then Inl (ShadowedNotCited missing) else Inr ())"

record surface_state =
  sf_nodes :: "int list"
  sf_replaceGeneration :: nat

definition createFoldState :: surface_state where
  "createFoldState = \<lparr>sf_nodes = [], sf_replaceGeneration = 0\<rparr>"

definition replacementRange ::
    "surface_state \<Rightarrow> int \<Rightarrow> int \<Rightarrow> surface_error + nat \<times> nat \<times> int list" where
  "replacementRange st a b =
     (case indexOf (sf_nodes st) a of
        None \<Rightarrow> Inl (StartNotFound a)
      | Some i \<Rightarrow>
          (case indexOf (sf_nodes st) b of
             None \<Rightarrow> Inl (EndNotFound b)
           | Some j \<Rightarrow>
               if j < i then Inl (StartAfterEnd a b)
               else Inr (i, j, splicedOut i (j + 1 - i) (sf_nodes st))))"

text \<open>
  A tool result with its content erased, as the JSON record the code compares
  (\<open>originalRest\<close> and \<open>replacementRest\<close>).
\<close>

definition toolResultRest ::
    "int \<Rightarrow> int \<Rightarrow> tool_result_message \<Rightarrow> (string \<times> string) option \<Rightarrow> json option \<Rightarrow> json" where
  "toolResultRest turn step m err meta =
     JObj ([(''turn'', JNum (of_int turn)), (''step'', JNum (of_int step)),
            (''message'', JObj
               [(''id'', JStr (tr_id m)), (''role'', JStr ''user''),
                (''source'', JObj [(''kind'', JStr ''tool''), (''callId'', JStr (tr_callId m))]),
                (''content'', JArr [JObj
                   ([(''type'', JStr ''tool-result''), (''toolCallId'', JStr (tr_toolCallId m)),
                     (''content'', JNull)]
                    @ (case tr_isError m of None \<Rightarrow> [] | Some b \<Rightarrow> [(''isError'', JBool b)]))])])]
           @ (case err of None \<Rightarrow> []
                | Some (n, c) \<Rightarrow> [(''error'', JObj [(''name'', JStr n), (''code'', JStr c)])])
           @ (case meta of None \<Rightarrow> [] | Some v \<Rightarrow> [(''meta'', v)]))"

definition assertToolResultRewrite ::
    "session_event \<Rightarrow> int list \<Rightarrow> session_event list \<Rightarrow> int \<Rightarrow> surface_error + unit" where
  "assertToolResultRewrite e shadowed events baseSeq =
     (case ev_data e of
        ToolResult turn step m err meta \<Rightarrow>
          if length shadowed \<noteq> 1 then Inl RewriteNotSingle
          else foldE (\<lambda>_ originalSeq.
            case js_index events (originalSeq - baseSeq) of
              None \<Rightarrow> Inl RewriteNotToolResult
            | Some original \<Rightarrow>
                (case ev_data original of
                   ToolResult turn' step' m' err' meta' \<Rightarrow>
                     if isDeepEqualJson (toolResultRest turn' step' m' err' meta')
                                        (toolResultRest turn step m err meta)
                     then Inr () else Inl RewriteChangesMore
                 | _ \<Rightarrow> Inl RewriteNotToolResult)) () shadowed
      | _ \<Rightarrow> Inr ())"

section \<open>The transition\<close>

record surface_replacement =
  rp_seq :: int
  rp_start :: int
  rp_end :: int
  rp_shadowedSeqs :: "int list"

datatype surface_plan =
    PlanAppend int
  | PlanReplace surface_replacement nat nat

definition planSurfaceEvent ::
    "surface_state \<Rightarrow> session_event \<Rightarrow> int \<Rightarrow> session_event list \<Rightarrow> int
      \<Rightarrow> surface_error + surface_plan option" where
  "planSurfaceEvent st e expectedSeq events baseSeq =
     (if ev_seq e \<noteq> expectedSeq then Inl (NotContiguous (ev_seq e) expectedSeq)
      else bindE (surfaceOpOf e) (\<lambda>op.
        case op of
          None \<Rightarrow> Inr None
        | Some OpAppend \<Rightarrow>
            bindE (assertProvenance e []) (\<lambda>_. Inr (Some (PlanAppend (ev_seq e))))
        | Some (OpReplace a b) \<Rightarrow>
            bindE (replacementRange st a b) (\<lambda>(i, j, shadowed).
            bindE (assertProvenance e shadowed) (\<lambda>_.
            bindE (assertToolResultRewrite e shadowed events baseSeq) (\<lambda>_.
              Inr (Some (PlanReplace
                \<lparr>rp_seq = ev_seq e, rp_start = a, rp_end = b, rp_shadowedSeqs = shadowed\<rparr> i j)))))))"

fun applySurfacePlan ::
    "surface_state \<Rightarrow> surface_plan option \<Rightarrow> surface_state \<times> surface_replacement option" where
  "applySurfacePlan st None = (st, None)"
| "applySurfacePlan st (Some (PlanAppend n)) = (st\<lparr>sf_nodes := sf_nodes st @ [n]\<rparr>, None)"
| "applySurfacePlan st (Some (PlanReplace r i j)) =
     (st\<lparr>sf_nodes := spliceAt i (j + 1 - i) [rp_seq r] (sf_nodes st),
         sf_replaceGeneration := sf_replaceGeneration st + 1\<rparr>, Some r)"

definition applySurfaceEvent ::
    "surface_state \<Rightarrow> session_event \<Rightarrow> int \<Rightarrow> session_event list \<Rightarrow> int
      \<Rightarrow> surface_error + surface_state \<times> surface_replacement option" where
  "applySurfaceEvent st e expectedSeq events baseSeq =
     bindE (planSurfaceEvent st e expectedSeq events baseSeq)
       (\<lambda>plan. Inr (applySurfacePlan st plan))"

fun foldSurfaceLoop ::
    "session_event list \<Rightarrow> int \<Rightarrow> surface_state \<Rightarrow> surface_replacement list \<Rightarrow> int
      \<Rightarrow> session_event list \<Rightarrow> surface_error + surface_state \<times> surface_replacement list" where
  "foldSurfaceLoop events baseSeq st reps index [] = Inr (st, reps)"
| "foldSurfaceLoop events baseSeq st reps index (e # es) =
     bindE (applySurfaceEvent st e index events baseSeq) (\<lambda>(st', r).
       foldSurfaceLoop events baseSeq st'
         (case r of None \<Rightarrow> reps | Some x \<Rightarrow> reps @ [x]) (index + 1) es)"

definition foldSurface ::
    "session_event list \<Rightarrow> surface_error + int list \<times> surface_replacement list" where
  "foldSurface events =
     bindE (foldSurfaceLoop events 0 createFoldState [] 0 events)
       (\<lambda>(st, reps). Inr (sf_nodes st, reps))"

section \<open>The incremental manager\<close>

text \<open>
  The event log is shared with the owning session and passed as an argument. The identity test
  \<open>pending.event === event\<close> is structural equality here: the pending plan is the plan of the event
  at its sequence number in either reading (\<open>pending_ok\<close> below), so nothing rests on identity.
  A throw inside the loop leaves the events folded so far committed, hence the pair.
\<close>

record surface_manager =
  sm_state :: surface_state
  sm_lastProcessedSeq :: int
  sm_pendingPlan :: "(session_event \<times> int \<times> surface_plan option) option"

definition newSurfaceManager :: "int \<Rightarrow> surface_manager" where
  "newSurfaceManager baseSeq =
     \<lparr>sm_state = createFoldState, sm_lastProcessedSeq = baseSeq - 1, sm_pendingPlan = None\<rparr>"

definition pendingHit :: "surface_manager \<Rightarrow> session_event \<Rightarrow> int \<Rightarrow> surface_plan option option" where
  "pendingHit m e seq =
     (case sm_pendingPlan m of
        Some (e', expected, plan) \<Rightarrow> if e' = e \<and> expected = seq then Some plan else None
      | None \<Rightarrow> None)"

definition pendingAfter :: "surface_manager \<Rightarrow> int \<Rightarrow> (session_event \<times> int \<times> surface_plan option) option" where
  "pendingAfter m seq =
     (case sm_pendingPlan m of
        Some (e', expected, plan) \<Rightarrow> if expected \<le> seq then None else sm_pendingPlan m
      | None \<Rightarrow> None)"

fun processEvents ::
    "session_event list \<Rightarrow> int \<Rightarrow> surface_manager \<Rightarrow> int \<Rightarrow> session_event list
      \<Rightarrow> surface_manager \<times> surface_error option" where
  "processEvents evs baseSeq m seq [] = (m, None)"
| "processEvents evs baseSeq m seq (e # es) =
     (case (case pendingHit m e seq of
              Some plan \<Rightarrow> Inr (applySurfacePlan (sm_state m) plan)
            | None \<Rightarrow> applySurfaceEvent (sm_state m) e seq evs baseSeq) of
        Inl err \<Rightarrow> (m, Some err)
      | Inr (st', _) \<Rightarrow>
          processEvents evs baseSeq
            \<lparr>sm_state = st', sm_lastProcessedSeq = seq, sm_pendingPlan = pendingAfter m seq\<rparr>
            (seq + 1) es)"

definition processDelta ::
    "session_event list \<Rightarrow> int \<Rightarrow> surface_manager \<Rightarrow> surface_manager \<times> surface_error option" where
  "processDelta evs baseSeq m =
     processEvents evs baseSeq m (sm_lastProcessedSeq m + 1)
       (drop (nat (sm_lastProcessedSeq m + 1 - baseSeq)) evs)"

text \<open>The catch-up every accessor starts with.\<close>

definition catchUp ::
    "session_event list \<Rightarrow> int \<Rightarrow> surface_manager \<Rightarrow> surface_manager \<times> surface_error option" where
  "catchUp evs baseSeq m =
     (if sm_lastProcessedSeq m < baseSeq + int (length evs) - 1 then processDelta evs baseSeq m
      else (m, None))"

definition validateNext ::
    "session_event list \<Rightarrow> int \<Rightarrow> surface_manager \<Rightarrow> session_event
      \<Rightarrow> surface_manager \<times> surface_error option" where
  "validateNext evs baseSeq m e =
     (case catchUp evs baseSeq m of
        (m', Some err) \<Rightarrow> (m', Some err)
      | (m', None) \<Rightarrow>
          let expectedSeq = baseSeq + int (length evs) in
          (case planSurfaceEvent (sm_state m') e expectedSeq evs baseSeq of
             Inl err \<Rightarrow> (m', Some err)
           | Inr plan \<Rightarrow> (m'\<lparr>sm_pendingPlan := Some (e, expectedSeq, plan)\<rparr>, None)))"

definition managerNodes ::
    "session_event list \<Rightarrow> int \<Rightarrow> surface_manager \<Rightarrow> surface_manager \<times> (surface_error + int list)" where
  "managerNodes evs baseSeq m =
     (case catchUp evs baseSeq m of
        (m', Some err) \<Rightarrow> (m', Inl err)
      | (m', None) \<Rightarrow> (m', Inr (sf_nodes (sm_state m'))))"

definition managerGeneration ::
    "session_event list \<Rightarrow> int \<Rightarrow> surface_manager \<Rightarrow> surface_manager \<times> (surface_error + nat)" where
  "managerGeneration evs baseSeq m =
     (case catchUp evs baseSeq m of
        (m', Some err) \<Rightarrow> (m', Inl err)
      | (m', None) \<Rightarrow> (m', Inr (sf_replaceGeneration (sm_state m'))))"

section \<open>Facts about the event-local checks\<close>

definition sourceSeqs :: "session_event \<Rightarrow> int list" where
  "sourceSeqs e = (case ev_sourceEventSeqs e of Some (JArr vs) \<Rightarrow> map seq_of vs | _ \<Rightarrow> [])"

lemma isEventSeq_seq_of: "isEventSeq v \<Longrightarrow> 0 \<le> seq_of v"
  by (cases v) (auto simp: seq_of_def)

lemma isEventSeq_int [simp]: "isEventSeq (JNum (of_int n)) \<longleftrightarrow> 0 \<le> n \<and> n \<le> maxSafe"
  by auto

lemma seq_of_int [simp]: "seq_of (JNum (of_int n)) = n"
  by (simp add: seq_of_def)

lemma sourceLoop_Inr:
  "sourceLoop seq vs sources late = Inr (srcs, l) \<Longrightarrow>
     set srcs = set sources \<union> seq_of ` set vs \<and> list_all isEventSeq vs
     \<and> (l = None \<longrightarrow> late = None \<and> (\<forall>v \<in> set vs. seq_of v < seq))"
proof (induction vs arbitrary: sources late)
  case Nil
  then show ?case by auto
next
  case (Cons v vs)
  then have ok: "isEventSeq v" by (auto split: if_splits)
  let ?s = "if seq_of v \<in> set sources then sources else sources @ [seq_of v]"
  let ?l = "if late = None \<and> seq \<le> seq_of v then Some (seq_of v) else late"
  have "sourceLoop seq vs ?s ?l = Inr (srcs, l)"
    using Cons.prems ok by simp
  from Cons.IH [OF this] ok show ?case
    by (auto split: if_splits)
qed

lemma citedSources_Inr:
  assumes "citedSources e = Inr srcs"
  shows "set srcs = set (sourceSeqs e) \<and> (\<forall>n \<in> set srcs. 0 \<le> n \<and> n < ev_seq e)"
proof (cases "ev_sourceEventSeqs e")
  case None
  with assms show ?thesis by (simp add: citedSources_def sourceSeqs_def)
next
  case (Some raw)
  then obtain vs where vs: "raw = JArr vs"
    using assms by (auto simp: citedSources_def split: json.splits)
  with Some assms obtain l where "sourceLoop (ev_seq e) vs [] None = Inr (srcs, l)" "l = None"
    by (auto simp: citedSources_def result_simps split: if_splits option.splits)
  from sourceLoop_Inr [OF this(1)] this(2) Some vs show ?thesis
    by (auto simp: sourceSeqs_def list_all_iff intro: isEventSeq_seq_of)
qed

lemma assertProvenance_Inr:
  assumes "assertProvenance e shadowed = Inr ()"
  shows "set shadowed \<subseteq> set (sourceSeqs e)" "\<forall>n \<in> set (sourceSeqs e). 0 \<le> n \<and> n < ev_seq e"
proof -
  from assms obtain srcs where c: "citedSources e = Inr srcs" and "filter (\<lambda>n. n \<notin> set srcs) shadowed = []"
    by (auto simp: assertProvenance_def result_simps Let_def split: if_splits)
  then have "set shadowed \<subseteq> set srcs" by (auto simp: filter_empty_conv)
  with citedSources_Inr [OF c]
  show "set shadowed \<subseteq> set (sourceSeqs e)" "\<forall>n \<in> set (sourceSeqs e). 0 \<le> n \<and> n < ev_seq e"
    by auto
qed

lemma replacementRange_Inr:
  assumes "replacementRange st a b = Inr (i, j, shadowed)"
  shows "i \<le> j \<and> j < length (sf_nodes st) \<and> sf_nodes st ! i = a \<and> sf_nodes st ! j = b
    \<and> shadowed = splicedOut i (j + 1 - i) (sf_nodes st)"
  using assms by (auto simp: replacementRange_def array_simps split: option.splits if_splits)

lemma shadowed_ends:
  assumes "i \<le> j" "j < length xs"
  shows "splicedOut i (j + 1 - i) xs \<noteq> []" "hd (splicedOut i (j + 1 - i) xs) = xs ! i"
    "last (splicedOut i (j + 1 - i) xs) = xs ! j" "set (splicedOut i n xs) \<subseteq> set xs"
proof -
  let ?s = "splicedOut i (j + 1 - i) xs"
  have len: "length ?s = j + 1 - i" using assms by (simp add: splicedOut_def)
  then show ne: "?s \<noteq> []" using assms by force
  show "hd ?s = xs ! i" using assms len by (simp add: splicedOut_def hd_drop_conv_nth)
  have "last ?s = ?s ! (j - i)" using ne len assms by (simp add: last_conv_nth)
  also have "\<dots> = xs ! j" using assms by (simp add: splicedOut_def)
  finally show "last ?s = xs ! j" .
  show "set (splicedOut i n xs) \<subseteq> set xs"
    by (auto simp: splicedOut_def dest: in_set_takeD in_set_dropD)
qed

text \<open>A content rewrite: two tool-result events that agree on everything but their content.\<close>

fun sameToolResult :: "event_data \<Rightarrow> event_data \<Rightarrow> bool" where
  "sameToolResult (ToolResult turn step m err meta) (ToolResult turn' step' m' err' meta') \<longleftrightarrow>
     turn = turn' \<and> step = step' \<and> err = err' \<and> rel_option isDeepEqualJson meta meta'
     \<and> tr_id m = tr_id m' \<and> tr_callId m = tr_callId m' \<and> tr_toolCallId m = tr_toolCallId m'
     \<and> tr_isError m = tr_isError m'"
| "sameToolResult _ _ \<longleftrightarrow> False"

lemma toolResultRest_equal:
  "isDeepEqualJson (toolResultRest turn step m err meta) (toolResultRest turn' step' m' err' meta')
     \<longleftrightarrow> sameToolResult (ToolResult turn step m err meta) (ToolResult turn' step' m' err' meta')"
  by (cases err; cases err'; cases meta; cases meta'; cases "tr_isError m"; cases "tr_isError m'")
     (auto simp: toolResultRest_def)

lemma assertToolResultRewrite_Inr:
  assumes "assertToolResultRewrite e shadowed events base = Inr ()"
    and "ev_data e = ToolResult turn step m err meta"
  shows "\<exists>n original. shadowed = [n] \<and> js_index events (n - base) = Some original
    \<and> sameToolResult (ev_data original) (ev_data e)"
proof -
  from assms have "length shadowed = 1"
    by (auto simp: assertToolResultRewrite_def split: if_splits)
  then obtain n where n: "shadowed = [n]"
    by (cases shadowed) auto
  with assms show ?thesis
    by (auto simp: assertToolResultRewrite_def result_simps toolResultRest_equal
        split: option.splits event_data.splits if_splits)
qed

lemma assertToolResultRewrite_prefix:
  assumes "\<And>n. n \<in> set shadowed \<Longrightarrow> n - base < int (length events)"
  shows "assertToolResultRewrite e shadowed (events @ rest) base
       = assertToolResultRewrite e shadowed events base"
proof (cases "ev_data e")
  case (ToolResult turn step m err meta)
  have cong: "foldE f () ns = foldE g () ns"
    if "\<And>u n. n \<in> set ns \<Longrightarrow> f u n = g u n"
    for f g :: "unit \<Rightarrow> int \<Rightarrow> surface_error + unit" and ns
    using that by (induction ns) auto
  have "js_index (events @ rest) (n - base) = js_index events (n - base)" if "n \<in> set shadowed" for n
    using assms [OF that] by (simp add: array_simps)
  then show ?thesis
    by (simp add: assertToolResultRewrite_def ToolResult cong: if_cong) (intro impI cong, simp)
qed (simp_all add: assertToolResultRewrite_def)

section \<open>Replay\<close>

text \<open>
  One replay step: the event is planned against the log before it, as \<open>Session.append\<close> does.
  The state carries that log and the replacements made so far.
\<close>

type_synonym surface_log = "session_event list \<times> surface_state \<times> surface_replacement list"

definition surfaceStep :: "int \<Rightarrow> surface_log \<Rightarrow> session_event \<Rightarrow> surface_error + surface_log" where
  "surfaceStep base = (\<lambda>(evs, st, reps) e.
     bindE (applySurfaceEvent st e (base + int (length evs)) evs base) (\<lambda>(st', r).
       Inr (evs @ [e], st', case r of None \<Rightarrow> reps | Some x \<Rightarrow> reps @ [x])))"

definition surfaceStart :: surface_log where
  "surfaceStart = ([], createFoldState, [])"

abbreviation surfaceReplay :: "int \<Rightarrow> session_event list \<Rightarrow> surface_error + surface_log" where
  "surfaceReplay base evs \<equiv> foldE (surfaceStep base) surfaceStart evs"

text \<open>The sequence numbers of the surface-eligible events of a log, and the event at one.\<close>

definition eligibleSeqs :: "int \<Rightarrow> session_event list \<Rightarrow> int list" where
  "eligibleSeqs base evs =
     map (\<lambda>i. base + int i)
       (filter (\<lambda>i. isSurfaceEligibleType (ev_type (evs ! i))) [0..<length evs])"

definition eventAt :: "int \<Rightarrow> session_event list \<Rightarrow> int \<Rightarrow> session_event" where
  "eventAt base evs n = evs ! nat (n - base)"

lemma eligibleSeqs_Nil [simp]: "eligibleSeqs base [] = []"
  by (simp add: eligibleSeqs_def)

lemma eligibleSeqs_snoc:
  "eligibleSeqs base (evs @ [e]) = eligibleSeqs base evs @
     (if isSurfaceEligibleType (ev_type e) then [base + int (length evs)] else [])"
proof -
  have "filter (\<lambda>i. isSurfaceEligibleType (ev_type ((evs @ [e]) ! i))) [0..<length evs]
      = filter (\<lambda>i. isSurfaceEligibleType (ev_type (evs ! i))) [0..<length evs]"
    by (rule filter_cong) (auto simp: nth_append)
  then show ?thesis by (simp add: eligibleSeqs_def)
qed

lemma distinct_eligibleSeqs: "distinct (eligibleSeqs base evs)"
  by (auto simp: eligibleSeqs_def distinct_map inj_on_def)

lemma eligibleSeqs_range:
  "n \<in> set (eligibleSeqs base evs) \<longleftrightarrow>
     base \<le> n \<and> n < base + int (length evs) \<and> isSurfaceEligibleType (ev_type (eventAt base evs n))"
proof
  assume "n \<in> set (eligibleSeqs base evs)"
  then show "base \<le> n \<and> n < base + int (length evs) \<and> isSurfaceEligibleType (ev_type (eventAt base evs n))"
    by (auto simp: eligibleSeqs_def eventAt_def)
next
  assume r: "base \<le> n \<and> n < base + int (length evs) \<and> isSurfaceEligibleType (ev_type (eventAt base evs n))"
  then have "n = base + int (nat (n - base))" "nat (n - base) < length evs" by auto
  with r show "n \<in> set (eligibleSeqs base evs)"
    by (auto simp: eligibleSeqs_def eventAt_def intro!: image_eqI [of _ _ "nat (n - base)"])
qed

lemma eventAt_append [simp]:
  "n < base + int (length evs) \<Longrightarrow> eventAt base (evs @ rest) n = eventAt base evs n" if "base \<le> n"
  using that by (auto simp: eventAt_def nth_append)

lemma eventAt_snoc [simp]: "eventAt base (evs @ [e]) (base + int (length evs)) = e"
  by (simp add: eventAt_def)

fun isToolResult :: "event_data \<Rightarrow> bool" where
  "isToolResult (ToolResult _ _ _ _ _) = True"
| "isToolResult _ = False"

text \<open>What a replacement recorded in the replay has guaranteed.\<close>

definition goodReplacement :: "int \<Rightarrow> session_event list \<Rightarrow> surface_replacement \<Rightarrow> bool" where
  "goodReplacement base evs r \<longleftrightarrow>
     base \<le> rp_seq r \<and> rp_seq r < base + int (length evs)
     \<and> rp_shadowedSeqs r \<noteq> []
     \<and> hd (rp_shadowedSeqs r) = rp_start r \<and> last (rp_shadowedSeqs r) = rp_end r
     \<and> (\<forall>n \<in> set (rp_shadowedSeqs r). base \<le> n \<and> n < rp_seq r)
     \<and> set (rp_shadowedSeqs r) \<subseteq> set (sourceSeqs (eventAt base evs (rp_seq r)))
     \<and> (isToolResult (ev_data (eventAt base evs (rp_seq r))) \<longrightarrow>
        (\<exists>n. rp_shadowedSeqs r = [n] \<and>
           sameToolResult (ev_data (eventAt base evs n)) (ev_data (eventAt base evs (rp_seq r)))))"

definition surfaceInv :: "int \<Rightarrow> session_event list \<Rightarrow> surface_log \<Rightarrow> bool" where
  "surfaceInv base xs = (\<lambda>(evs, st, reps).
     evs = xs
     \<and> mset (sf_nodes st) + (\<Sum>r\<leftarrow>reps. mset (rp_shadowedSeqs r)) = mset (eligibleSeqs base xs)
     \<and> sf_replaceGeneration st = length reps
     \<and> (\<forall>r \<in> set reps. goodReplacement base xs r))"

lemma surfaceInv_nodes:
  assumes "surfaceInv base xs (evs, st, reps)"
  shows "distinct (sf_nodes st)" "set (sf_nodes st) \<subseteq> set (eligibleSeqs base xs)"
proof -
  have "mset (eligibleSeqs base xs) = mset (sf_nodes st) + (\<Sum>r\<leftarrow>reps. mset (rp_shadowedSeqs r))"
    using assms by (simp add: surfaceInv_def)
  then have "mset (sf_nodes st) \<subseteq># mset (eligibleSeqs base xs)"
    by (simp only: mset_subset_eq_add_left)
  then show "set (sf_nodes st) \<subseteq> set (eligibleSeqs base xs)"
    by (metis set_mset_mono set_mset_mset)
  show "distinct (sf_nodes st)"
    by (rule distinct_mset_subseteq [OF \<open>mset (sf_nodes st) \<subseteq># mset (eligibleSeqs base xs)\<close>
        distinct_eligibleSeqs])
qed

text \<open>A step reads nothing of the log behind the event it plans.\<close>

lemma planSurfaceEvent_prefix:
  assumes "\<And>n. n \<in> set (sf_nodes st) \<Longrightarrow> n - base < int (length events)"
  shows "planSurfaceEvent st e k (events @ rest) base = planSurfaceEvent st e k events base"
proof -
  have "assertToolResultRewrite e sh (events @ rest) base = assertToolResultRewrite e sh events base"
    if "replacementRange st a b = Inr (i, j, sh)" for a b i j sh
  proof (rule assertToolResultRewrite_prefix)
    fix n assume "n \<in> set sh"
    with replacementRange_Inr [OF that] have "n \<in> set (sf_nodes st)"
      by (auto simp: splicedOut_def dest: in_set_takeD in_set_dropD)
    then show "n - base < int (length events)" by (rule assms)
  qed
  then show ?thesis
    by (auto simp: planSurfaceEvent_def intro!: bindE_cong split: option.split surface_op.split)
qed

lemma surfaceOpOf_eligible:
  "surfaceOpOf e = Inr op \<Longrightarrow> (op \<noteq> None) = isSurfaceEligibleType (ev_type e)"
  by (auto simp: surfaceOpOf_def split: if_splits option.splits)

lemma goodReplacement_snoc:
  "goodReplacement base evs r \<Longrightarrow> goodReplacement base (evs @ [e]) r"
  by (auto simp: goodReplacement_def)

text \<open>The three outcomes of a successful step.\<close>

lemma surfaceStep_cases:
  assumes "surfaceStep base (evs, st, reps) e = Inr t"
  obtains (skip) "\<not> isSurfaceEligibleType (ev_type e)" "t = (evs @ [e], st, reps)"
  | (append) "isSurfaceEligibleType (ev_type e)" "assertProvenance e [] = Inr ()"
      "ev_seq e = base + int (length evs)"
      "t = (evs @ [e], st\<lparr>sf_nodes := sf_nodes st @ [ev_seq e]\<rparr>, reps)"
  | (replace) a b i j sh r where "isSurfaceEligibleType (ev_type e)"
      "ev_seq e = base + int (length evs)"
      "replacementRange st a b = Inr (i, j, sh)" "assertProvenance e sh = Inr ()"
      "assertToolResultRewrite e sh evs base = Inr ()"
      "r = \<lparr>rp_seq = ev_seq e, rp_start = a, rp_end = b, rp_shadowedSeqs = sh\<rparr>"
      "t = (evs @ [e], fst (applySurfacePlan st (Some (PlanReplace r i j))), reps @ [r])"
proof -
  from assms obtain op where seq: "ev_seq e = base + int (length evs)" and op: "surfaceOpOf e = Inr op"
    by (auto simp: surfaceStep_def applySurfaceEvent_def planSurfaceEvent_def result_simps split: if_splits)
  note simps = surfaceStep_def applySurfaceEvent_def planSurfaceEvent_def
  show thesis
  proof (cases op)
    case None
    with assms seq op surfaceOpOf_eligible [OF op] show thesis
      by (auto simp: simps intro: skip)
  next
    case (Some o')
    with surfaceOpOf_eligible [OF op] have el: "isSurfaceEligibleType (ev_type e)" by simp
    show thesis
    proof (cases o')
      case OpAppend
      with Some assms seq op show thesis
        by (auto simp: simps result_simps intro: append [OF el])
    next
      case (OpReplace a b)
      with Some assms seq op show thesis
        by (auto simp: simps result_simps intro: replace [OF el])
    qed
  qed
qed

lemma surfaceInv_step:
  assumes inv: "surfaceInv base xs s" and step: "surfaceStep base s e = Inr t"
  shows "surfaceInv base (xs @ [e]) t"
proof -
  obtain evs st reps where s: "s = (evs, st, reps)" by (cases s)
  with inv have [simp]: "evs = xs" by (simp add: surfaceInv_def)
  note nodes = surfaceInv_nodes(2) [OF inv [unfolded s]]
  from step [unfolded s] show ?thesis
  proof (cases rule: surfaceStep_cases)
    case skip
    with inv s show ?thesis
      by (auto simp: surfaceInv_def eligibleSeqs_snoc intro: goodReplacement_snoc)
  next
    case append
    with inv s show ?thesis
      by (auto simp: surfaceInv_def eligibleSeqs_snoc intro: goodReplacement_snoc)
  next
    case (replace a b i j sh r)
    note range = replacementRange_Inr [OF replace(3)]
    have old: "mset (spliceAt i (j + 1 - i) [ev_seq e] (sf_nodes st)) + mset sh
        = mset (sf_nodes st) + {#ev_seq e#}"
      using range mset_spliceAt [of i "j + 1 - i" "[ev_seq e]" "sf_nodes st"] by simp
    have mem: "\<forall>n \<in> set sh. base \<le> n \<and> n < ev_seq e"
      using range nodes replace(2) shadowed_ends(4) [of i j "sf_nodes st"]
      by (force simp: eligibleSeqs_range)
    have rewrite: "\<exists>n. sh = [n] \<and> sameToolResult (ev_data (eventAt base (xs @ [e]) n)) (ev_data e)"
      if "isToolResult (ev_data e)"
    proof -
      from that obtain turn step m err meta where "ev_data e = ToolResult turn step m err meta"
        by (cases "ev_data e") auto
      from assertToolResultRewrite_Inr [OF replace(5) this] obtain n original where
        n: "sh = [n]" "js_index evs (n - base) = Some original" "sameToolResult (ev_data original) (ev_data e)"
        by blast
      then have "eventAt base (xs @ [e]) n = original"
        by (auto simp: js_index_Some eventAt_def nth_append nat_less_iff)
      with n show ?thesis by blast
    qed
    have "sh \<noteq> []" "hd sh = a" "last sh = b"
      using range shadowed_ends [of i j "sf_nodes st"] by auto
    then have "goodReplacement base (xs @ [e]) r"
      using replace(2,6) mem rewrite assertProvenance_Inr [OF replace(4)]
      by (simp add: goodReplacement_def)
    moreover have "mset (spliceAt i (j + 1 - i) [ev_seq e] (sf_nodes st))
        + (\<Sum>r\<leftarrow>reps @ [r]. mset (rp_shadowedSeqs r)) = mset (eligibleSeqs base (xs @ [e]))" (is "?X + _ = _")
    proof -
      let ?S = "\<Sum>r\<leftarrow>reps. mset (rp_shadowedSeqs r)"
      have "?X + (\<Sum>r\<leftarrow>reps @ [r]. mset (rp_shadowedSeqs r)) = ?X + mset sh + ?S"
        using replace(6) by (simp add: ac_simps)
      also have "\<dots> = mset (sf_nodes st) + ?S + {#ev_seq e#}"
        unfolding old by (simp add: ac_simps)
      also have "\<dots> = mset (eligibleSeqs base (xs @ [e]))"
        using inv s replace(1,2) by (simp add: surfaceInv_def eligibleSeqs_snoc)
      finally show ?thesis .
    qed
    ultimately show ?thesis
      using inv replace(6,7) unfolding s surfaceInv_def by (auto intro: goodReplacement_snoc)
  qed
qed

interpretation surface_replay: checked_fold "surfaceStep base" surfaceStart "surfaceInv base"
  for base
  by unfold_locales
    (simp add: surfaceInv_def surfaceStart_def createFoldState_def, rule surfaceInv_step)

lemma replay_log: "surfaceReplay base xs = Inr (evs, st, reps) \<Longrightarrow> evs = xs"
  by (drule surface_replay.replay_inv) (simp add: surfaceInv_def)

lemma replay_nodes_bound:
  assumes "surfaceInv base evs (evs, st, reps)" "n \<in> set (sf_nodes st)"
  shows "n - base < int (length evs)"
  using surfaceInv_nodes(2) [OF assms(1)] assms(2) by (force simp: eligibleSeqs_range)

lemma applySurfaceEvent_prefix:
  assumes "surfaceInv base evs (evs, st, reps)"
  shows "applySurfaceEvent st e k (evs @ rest) base = applySurfaceEvent st e k evs base"
  unfolding applySurfaceEvent_def
  by (simp add: planSurfaceEvent_prefix replay_nodes_bound [OF assms])

text \<open>The batch replay over the complete log is the fold of the step over its prefixes.\<close>

lemma foldSurfaceLoop_replay:
  assumes "surfaceInv base seen (seen, st, reps)"
  shows "foldSurfaceLoop (seen @ es) base st reps (base + int (length seen)) es =
    bindE (foldE (surfaceStep base) (seen, st, reps) es) (\<lambda>(_, st, reps). Inr (st, reps))"
  using assms
proof (induction es arbitrary: seen st reps)
  case Nil
  then show ?case by simp
next
  case (Cons e es)
  let ?k = "base + int (length seen)"
  note pre = applySurfaceEvent_prefix [OF Cons.prems, of e ?k "e # es"]
  show ?case
  proof (cases "applySurfaceEvent st e ?k seen base")
    case (Inl err)
    then show ?thesis by (simp add: pre surfaceStep_def)
  next
    case (Inr p)
    obtain st' r where p: "p = (st', r)" by (cases p)
    let ?reps = "case r of None \<Rightarrow> reps | Some x \<Rightarrow> reps @ [x]"
    have step: "surfaceStep base (seen, st, reps) e = Inr (seen @ [e], st', ?reps)"
      using Inr p by (simp add: surfaceStep_def)
    from Cons.IH [OF surfaceInv_step [OF Cons.prems step]]
    show ?thesis using Inr p step by (simp add: pre ac_simps)
  qed
qed

lemma surfaceInv_start: "surfaceInv base [] surfaceStart"
  by (simp add: surfaceInv_def surfaceStart_def createFoldState_def)

lemma foldSurface_replay:
  "foldSurface evs = bindE (surfaceReplay 0 evs) (\<lambda>(_, st, reps). Inr (sf_nodes st, reps))"
proof -
  have "foldSurfaceLoop ([] @ evs) 0 createFoldState [] (0 + int (length [])) evs =
      bindE (foldE (surfaceStep 0) ([], createFoldState, []) evs) (\<lambda>(_, st, reps). Inr (st, reps))"
    using foldSurfaceLoop_replay [of 0 "[]" createFoldState "[]" evs] surfaceInv_start [of 0]
    by (simp add: surfaceStart_def)
  then show ?thesis
    by (cases "surfaceReplay 0 evs") (auto simp: foldSurface_def surfaceStart_def)
qed

lemma foldSurface_Inr:
  "foldSurface evs = Inr (nodes, reps) \<longleftrightarrow>
     (\<exists>st. surfaceReplay 0 evs = Inr (evs, st, reps) \<and> nodes = sf_nodes st)"
  unfolding foldSurface_replay
  by (cases "surfaceReplay 0 evs") (auto dest: replay_log)

section \<open>The manager agrees with the replay\<close>

definition pending_ok :: "int \<Rightarrow> session_event list \<Rightarrow> surface_manager \<Rightarrow> bool" where
  "pending_ok base evs m \<longleftrightarrow>
     (case sm_pendingPlan m of
        None \<Rightarrow> True
      | Some (e, expected, plan) \<Rightarrow>
          \<exists>n \<le> length evs. expected = base + int n \<and> sm_lastProcessedSeq m < expected
            \<and> (\<exists>st reps. surfaceReplay base (take n evs) = Inr (take n evs, st, reps)
                  \<and> planSurfaceEvent st e expected (take n evs) base = Inr plan))"

definition manager_ok :: "int \<Rightarrow> session_event list \<Rightarrow> surface_manager \<Rightarrow> bool" where
  "manager_ok base evs m \<longleftrightarrow>
     (\<exists>k \<le> length evs. sm_lastProcessedSeq m = base + int k - 1
        \<and> (\<exists>reps. surfaceReplay base (take k evs) = Inr (take k evs, sm_state m, reps)))
     \<and> pending_ok base evs m"

lemma manager_ok_new: "manager_ok base evs (newSurfaceManager base)"
  by (auto simp: manager_ok_def pending_ok_def newSurfaceManager_def surfaceStart_def intro!: exI [of _ 0])

lemma manager_ok_grow: "manager_ok base evs m \<Longrightarrow> manager_ok base (evs @ later) m"
  unfolding manager_ok_def pending_ok_def
  by (fastforce split: option.splits prod.splits)

text \<open>With or without the cached plan, the loop body computes the replay step.\<close>

lemma pending_step:
  assumes ok: "pending_ok base (seen @ e # es) m"
    and rep: "surfaceReplay base seen = Inr (seen, sm_state m, reps)"
  shows "(case pendingHit m e (base + int (length seen)) of
            Some plan \<Rightarrow> Inr (applySurfacePlan (sm_state m) plan)
          | None \<Rightarrow> applySurfaceEvent (sm_state m) e (base + int (length seen)) (seen @ e # es) base)
       = applySurfaceEvent (sm_state m) e (base + int (length seen)) seen base"
proof (cases "pendingHit m e (base + int (length seen))")
  case None
  then show ?thesis
    using applySurfaceEvent_prefix [OF surface_replay.replay_inv [OF rep]] by simp
next
  case (Some plan)
  then have "sm_pendingPlan m = Some (e, base + int (length seen), plan)"
    by (auto simp: pendingHit_def split: option.splits if_splits)
  with ok rep have "planSurfaceEvent (sm_state m) e (base + int (length seen)) seen base = Inr plan"
    by (auto simp: pending_ok_def)
  with Some show ?thesis by (simp add: applySurfaceEvent_def)
qed

lemma pending_ok_after:
  "pending_ok base evs m \<Longrightarrow>
     pending_ok base evs \<lparr>sm_state = st, sm_lastProcessedSeq = seq, sm_pendingPlan = pendingAfter m seq\<rparr>"
  by (auto simp: pending_ok_def pendingAfter_def split: option.splits prod.splits)

text \<open>
  A catch-up that ends with manager and error \<open>out\<close> tracks the outcome \<open>res\<close> of the replay.
\<close>

definition tracks ::
    "int \<Rightarrow> session_event list \<Rightarrow> surface_error + surface_log \<Rightarrow> surface_manager \<times> surface_error option \<Rightarrow> bool" where
  "tracks base evs res out \<longleftrightarrow> manager_ok base evs (fst out) \<and>
     (case res of
        Inl err \<Rightarrow> snd out = Some err
      | Inr (_, st, _) \<Rightarrow> snd out = None \<and> sm_state (fst out) = st
          \<and> sm_lastProcessedSeq (fst out) = base + int (length evs) - 1)"

lemma processEvents_replay:
  assumes "sm_lastProcessedSeq m = base + int (length seen) - 1"
    and "surfaceReplay base seen = Inr (seen, sm_state m, reps)"
    and "pending_ok base (seen @ es) m"
  shows "tracks base (seen @ es) (foldE (surfaceStep base) (seen, sm_state m, reps) es)
           (processEvents (seen @ es) base m (base + int (length seen)) es)"
  using assms
proof (induction es arbitrary: seen m reps)
  case Nil
  then show ?case by (auto simp: tracks_def manager_ok_def)
next
  case (Cons e es)
  let ?k = "base + int (length seen)"
  note hit = pending_step [OF Cons.prems(3,2)]
  show ?case
  proof (cases "applySurfaceEvent (sm_state m) e ?k seen base")
    case (Inl err)
    have "manager_ok base (seen @ e # es) m"
      using Cons.prems unfolding manager_ok_def by (auto intro!: exI [of _ "length seen"])
    with Inl show ?thesis by (auto simp: hit surfaceStep_def tracks_def)
  next
    case (Inr p)
    obtain st' r where p: "p = (st', r)" by (cases p)
    let ?reps = "case r of None \<Rightarrow> reps | Some x \<Rightarrow> reps @ [x]"
    let ?m = "\<lparr>sm_state = st', sm_lastProcessedSeq = ?k, sm_pendingPlan = pendingAfter m ?k\<rparr>"
    have step: "surfaceStep base (seen, sm_state m, reps) e = Inr (seen @ [e], st', ?reps)"
      using Inr p by (simp add: surfaceStep_def)
    have "surfaceReplay base (seen @ [e]) = Inr (seen @ [e], st', ?reps)"
      using Cons.prems(2) step by (simp add: foldE_append)
    moreover have "pending_ok base ((seen @ [e]) @ es) ?m"
      using Cons.prems(3) by (simp add: pending_ok_after)
    ultimately have "tracks base ((seen @ [e]) @ es) (foldE (surfaceStep base) (seen @ [e], st', ?reps) es)
        (processEvents ((seen @ [e]) @ es) base ?m (base + int (length (seen @ [e]))) es)"
      using Cons.IH [of ?m "seen @ [e]" ?reps] by simp
    then show ?thesis using Inr p step by (simp add: hit ac_simps)
  qed
qed

lemma processDelta_replay:
  assumes "manager_ok base evs m"
  shows "tracks base evs (surfaceReplay base evs) (processDelta evs base m)"
proof -
  from assms obtain k reps where k: "k \<le> length evs" "sm_lastProcessedSeq m = base + int k - 1"
    and rep: "surfaceReplay base (take k evs) = Inr (take k evs, sm_state m, reps)"
    and pend: "pending_ok base (take k evs @ drop k evs) m"
    unfolding manager_ok_def by auto
  have "surfaceReplay base (take k evs @ drop k evs)
      = foldE (surfaceStep base) (take k evs, sm_state m, reps) (drop k evs)"
    by (rule foldE_append_Inr [OF rep])
  then show ?thesis
    using processEvents_replay [OF _ rep pend] k by (simp add: processDelta_def)
qed

lemma catchUp_tracks:
  assumes "manager_ok base evs m"
  shows "tracks base evs (surfaceReplay base evs) (catchUp evs base m)"
proof (cases "sm_lastProcessedSeq m < base + int (length evs) - 1")
  case True
  with processDelta_replay [OF assms] show ?thesis by (simp add: catchUp_def)
next
  case False
  with assms show ?thesis by (auto simp: catchUp_def tracks_def manager_ok_def)
qed

lemma catchUp_replay:
  assumes "manager_ok base evs m" "surfaceReplay base evs = Inr (evs, st, reps)"
  shows "\<exists>m'. catchUp evs base m = (m', None) \<and> manager_ok base evs m' \<and> sm_state m' = st
    \<and> sm_lastProcessedSeq m' = base + int (length evs) - 1"
  using catchUp_tracks [OF assms(1)] assms(2)
  by (cases "catchUp evs base m") (simp add: tracks_def)

text \<open>The whole of \<open>validateNext\<close>: it accepts exactly the events the replay step accepts.\<close>

lemma validateNext_tracks:
  assumes "manager_ok base evs m"
  shows "manager_ok base evs (fst (validateNext evs base m e))"
    and "snd (validateNext evs base m e) =
      (case surfaceReplay base (evs @ [e]) of Inl err \<Rightarrow> Some err | Inr _ \<Rightarrow> None)"
proof -
  obtain m' r where cu: "catchUp evs base m = (m', r)" by force
  have tr: "tracks base evs (surfaceReplay base evs) (m', r)"
    using catchUp_tracks [OF assms] cu by simp
  let ?k = "base + int (length evs)"
  have "manager_ok base evs (fst (validateNext evs base m e)) \<and>
      snd (validateNext evs base m e) =
        (case surfaceReplay base (evs @ [e]) of Inl err \<Rightarrow> Some err | Inr _ \<Rightarrow> None)"
  proof (cases "surfaceReplay base evs")
    case (Inl err)
    with tr cu show ?thesis by (simp add: tracks_def validateNext_def foldE_append)
  next
    case (Inr t)
    obtain st reps where t: "t = (evs, st, reps)"
      using Inr replay_log by (cases t) blast
    with tr Inr have m': "manager_ok base evs m'" "r = None" "sm_state m' = st"
      "sm_lastProcessedSeq m' = base + int (length evs) - 1"
      by (auto simp: tracks_def)
    show ?thesis
    proof (cases "planSurfaceEvent st e ?k evs base")
      case (Inl err)
      with m' cu Inr t show ?thesis
        by (simp add: validateNext_def foldE_append surfaceStep_def applySurfaceEvent_def)
    next
      case plan: (Inr plan)
      have "manager_ok base evs (m'\<lparr>sm_pendingPlan := Some (e, ?k, plan)\<rparr>)"
        using m' Inr t plan by (auto simp: manager_ok_def pending_ok_def)
      moreover have "validateNext evs base m e = (m'\<lparr>sm_pendingPlan := Some (e, ?k, plan)\<rparr>, None)"
        using plan m' cu by (simp add: validateNext_def)
      ultimately show ?thesis using Inr t plan
        by (cases "applySurfacePlan st plan")
          (simp add: foldE_append surfaceStep_def applySurfaceEvent_def)
    qed
  qed
  then show "manager_ok base evs (fst (validateNext evs base m e))"
    and "snd (validateNext evs base m e) =
      (case surfaceReplay base (evs @ [e]) of Inl err \<Rightarrow> Some err | Inr _ \<Rightarrow> None)"
    by blast+
qed

lemma managerNodes_tracks:
  assumes "manager_ok 0 evs m"
  shows "manager_ok 0 evs (fst (managerNodes evs 0 m))"
    and "snd (managerNodes evs 0 m) = bindE (foldSurface evs) (\<lambda>(nodes, _). Inr nodes)"
    and "snd (managerGeneration evs 0 m) = bindE (foldSurface evs) (\<lambda>(_, reps). Inr (length reps))"
proof -
  obtain m' r where cu: "catchUp evs 0 m = (m', r)" by force
  have tr: "tracks 0 evs (surfaceReplay 0 evs) (m', r)"
    using catchUp_tracks [OF assms] cu by simp
  show "manager_ok 0 evs (fst (managerNodes evs 0 m))"
    using tr cu by (simp add: managerNodes_def tracks_def split: option.split)
  show "snd (managerNodes evs 0 m) = bindE (foldSurface evs) (\<lambda>(nodes, _). Inr nodes)"
    using tr cu by (cases "surfaceReplay 0 evs") (auto simp: managerNodes_def tracks_def foldSurface_replay)
  have "sf_replaceGeneration st = length reps" if "surfaceReplay 0 evs = Inr (l, st, reps)" for l st reps
    using surface_replay.replay_inv [OF that] by (simp add: surfaceInv_def)
  then show "snd (managerGeneration evs 0 m) = bindE (foldSurface evs) (\<lambda>(_, reps). Inr (length reps))"
    using tr cu by (cases "surfaceReplay 0 evs") (auto simp: managerGeneration_def tracks_def foldSurface_replay)
qed

text \<open>Any use of a manager by the owner of the log: validating, pushing and reading in any order.\<close>

datatype manager_call = CallValidateNext session_event | CallPush session_event | CallNodes

fun managerCall ::
    "session_event list \<times> surface_manager \<Rightarrow> manager_call \<Rightarrow> session_event list \<times> surface_manager" where
  "managerCall (evs, m) (CallValidateNext e) = (evs, fst (validateNext evs 0 m e))"
| "managerCall (evs, m) (CallPush e) = (evs @ [e], m)"
| "managerCall (evs, m) CallNodes = (evs, fst (managerNodes evs 0 m))"

lemma managerCalls_ok:
  "manager_ok 0 evs m \<Longrightarrow> foldl managerCall (evs, m) calls = (evs', m') \<Longrightarrow> manager_ok 0 evs' m'"
proof (induction calls arbitrary: evs m)
  case Nil
  then show ?case by simp
next
  case (Cons c calls)
  obtain evs1 m1 where c: "managerCall (evs, m) c = (evs1, m1)" by force
  have "manager_ok 0 evs1 m1"
    using c Cons.prems(1)
    by (cases c) (auto simp: validateNext_tracks(1) managerNodes_tracks(1) manager_ok_grow)
  then show ?case using Cons c by simp
qed

section \<open>A sample log\<close>

text \<open>
  Two prompts compacted into one, and a tool result whose content is pruned: a log on which the
  hypotheses of the properties hold.
\<close>

definition sampleMessage :: "string \<Rightarrow> message" where
  "sampleMessage i = \<lparr>msg_id = i, msg_role = RoleUser, msg_content = [TextBlock i], msg_source = UserSource\<rparr>"

definition sampleResult :: "string \<Rightarrow> tool_result_message" where
  "sampleResult t = \<lparr>tr_id = ''r'', tr_callId = ''c'', tr_toolCallId = ''c'', tr_content = [TextBlock t],
     tr_isError = Some False\<rparr>"

definition sampleEvent :: "int \<Rightarrow> event_data \<Rightarrow> json option \<Rightarrow> json option \<Rightarrow> session_event" where
  "sampleEvent n d op srcs =
     \<lparr>ev_seq = n, ev_time = 0, ev_data = d, ev_surfaceOp = op, ev_sourceEventSeqs = srcs, ev_ignorable = False\<rparr>"

definition sampleSurfaceLog :: "session_event list" where
  "sampleSurfaceLog =
     [sampleEvent 0 (UserMessage (sampleMessage ''a'')) (Some op_append) None,
      sampleEvent 1 (UserMessage (sampleMessage ''b'')) (Some op_append) None,
      sampleEvent 2 (UserMessage (sampleMessage ''s'')) (Some (op_replace 0 1)) (Some (seqs_json [0, 1])),
      sampleEvent 3 (ToolResult 1 1 (sampleResult ''long'') None None) (Some op_append) None,
      sampleEvent 4 (ToolResult 1 1 (sampleResult ''cut'') None None) (Some (op_replace 3 3)) (Some (seqs_json [3]))]"

lemmas surface_eval =
  sampleEvent_def sampleMessage_def sampleResult_def
  surfaceOpOf_def isSurfaceEligibleType_def SURFACE_EVENT_TYPES_def op_append_def op_replace_def
  seqs_json_def isReplaceOp_def hasOwn_def seq_of_def isSafeInteger_def isInteger_def maxSafe_def
  assertProvenance_def citedSources_def replacementRange_def assertToolResultRewrite_def
  planSurfaceEvent_def applySurfaceEvent_def createFoldState_def splicedOut_def spliceAt_def
  js_index_def toolResultRest_def

lemma sampleSurfaceLog_fold:
  "foldSurface sampleSurfaceLog = Inr ([2, 4],
     [\<lparr>rp_seq = 2, rp_start = 0, rp_end = 1, rp_shadowedSeqs = [0, 1]\<rparr>,
      \<lparr>rp_seq = 4, rp_start = 3, rp_end = 3, rp_shadowedSeqs = [3]\<rparr>])"
  by (simp add: foldSurface_def sampleSurfaceLog_def surface_eval)

section \<open>Properties\<close>

text \<open>
  C3. However its owner interleaves \<open>validateNext\<close>, pushes to the log and reads, the incremental
  manager (cached plan included) reports exactly what a fresh replay of the complete log reports:
  the same surface when the log is valid, the same error when it is not.
\<close>

theorem surfaceManager_refines_foldSurface:
  "(let (evs, m) = foldl managerCall ([], newSurfaceManager 0) calls in
      snd (managerNodes evs 0 m) = bindE (foldSurface evs) (\<lambda>(nodes, _). Inr nodes)
      \<and> snd (managerGeneration evs 0 m) = bindE (foldSurface evs) (\<lambda>(_, reps). Inr (length reps)))"
proof -
  obtain evs m where r: "foldl managerCall ([], newSurfaceManager 0) calls = (evs, m)" by force
  have "manager_ok 0 evs m"
    by (rule managerCalls_ok [OF manager_ok_new r])
  with r show ?thesis by (simp add: managerNodes_tracks)
qed

text \<open>
  C4. The surface loses and duplicates nothing: in a valid log every message-producing event is
  either on the surface or shadowed by exactly one replacement, exactly once.
\<close>

theorem foldSurface_partition:
  assumes "foldSurface evs = Inr (nodes, reps)"
  shows "distinct nodes
    \<and> mset nodes + (\<Sum>r\<leftarrow>reps. mset (rp_shadowedSeqs r)) = mset (eligibleSeqs 0 evs)"
proof -
  from assms obtain st where "surfaceReplay 0 evs = Inr (evs, st, reps)" "nodes = sf_nodes st"
    by (auto simp: foldSurface_Inr)
  with surface_replay.replay_inv [OF this(1)] surfaceInv_nodes(1) [of 0 evs evs st reps]
  show ?thesis by (auto simp: surfaceInv_def)
qed

theorem foldSurface_partition_witness:
  "mset [2, 4 :: int] + (mset [0, 1] + mset [3]) = mset (eligibleSeqs 0 sampleSurfaceLog)"
  using foldSurface_partition [OF sampleSurfaceLog_fold] by simp



end
