(* ===== verification/Session_Validation.thy ===== *)
theory Session_Validation
  imports Events
begin

text \<open>
  The run-time validators of \<open>core/session/src/index.ts\<close> at the seed, restore and append boundaries:
  the creation header, the event envelope, and the message shapes replay relies on. They read raw
  JSON records. \<open>event_json\<close> is the JSON record of a typed event (\<open>SessionEvent\<close> of \<open>types.ts\<close>), the
  value the validators see; it is \<open>None\<close> when a number in it is not finite or is negative zero, which is the one way
  a typed payload fails to be lossless JSON.
\<close>

section \<open>The JSON record of an event\<close>

definition opt_prop :: "string \<Rightarrow> json option \<Rightarrow> (string \<times> json) list" where
  "opt_prop k v = (case v of None \<Rightarrow> [] | Some x \<Rightarrow> [(k, x)])"

definition num_json :: "int \<Rightarrow> json" where
  "num_json i = JNum (of_int i)"

fun js_number_json :: "js_number \<Rightarrow> json option" where
  "js_number_json (Fin x) = Some (JNum x)"
| "js_number_json _ = None"

fun content_block_json :: "content_block \<Rightarrow> json" where
  "content_block_json (TextBlock t) = JObj [(''type'', JStr ''text''), (''text'', JStr t)]"
| "content_block_json (ReasoningBlock t) = JObj [(''type'', JStr ''reasoning''), (''text'', JStr t)]"
| "content_block_json (ImageBlock a) = JObj [(''type'', JStr ''image''), (''attachment'', a)]"
| "content_block_json (ToolCallBlock i n a) =
     JObj [(''type'', JStr ''tool-call''), (''id'', JStr i), (''name'', JStr n), (''arguments'', JStr a)]"
| "content_block_json (ToolResultBlock i bs err) =
     JObj ([(''type'', JStr ''tool-result''), (''toolCallId'', JStr i),
            (''content'', JArr (map content_block_json bs))] @ opt_prop ''isError'' (map_option JBool err))"
| "content_block_json (PluginBlock t v) = JObj [(''type'', JStr t), (''payload'', v)]"

fun role_json :: "message_role \<Rightarrow> json" where
  "role_json RoleSystem = JStr ''system''"
| "role_json RoleUser = JStr ''user''"
| "role_json RoleAssistant = JStr ''assistant''"

fun source_json :: "message_source \<Rightarrow> json" where
  "source_json UserSource = JObj [(''kind'', JStr ''user'')]"
| "source_json (PluginSource p v) =
     JObj [(''kind'', JStr ''plugin''), (''plugin'', JStr p), (''form'', v)]"
| "source_json (ModelSource p m r) =
     JObj ([(''kind'', JStr ''model''), (''provider'', JStr p), (''model'', JStr m)] @ opt_prop ''replayState'' r)"
| "source_json (ToolSource c) = JObj [(''kind'', JStr ''tool''), (''callId'', JStr c)]"
| "source_json (OtherSource k v) = JObj [(''kind'', JStr k), (''payload'', v)]"

definition message_json :: "message \<Rightarrow> json" where
  "message_json m = JObj [(''id'', JStr (msg_id m)), (''role'', role_json (msg_role m)),
     (''content'', JArr (map content_block_json (msg_content m))), (''source'', source_json (msg_source m))]"

definition failure_json :: "llm_failure \<Rightarrow> json option" where
  "failure_json f =
     (if (\<exists>n. lf_status f = Some n \<and> js_number_json n = None)
         \<or> (\<exists>n. lf_providerRetryAfterMs f = Some n \<and> js_number_json n = None) then None
      else Some (JObj ([(''message'', JStr (lf_message f)), (''code'', JStr (lf_code f))]
        @ opt_prop ''status'' (Option.bind (lf_status f) js_number_json)
        @ opt_prop ''providerRetryAfterMs'' (Option.bind (lf_providerRetryAfterMs f) js_number_json)
        @ opt_prop ''requestId'' (map_option JStr (lf_requestId f)))))"

fun cause_json :: "cancel_cause \<Rightarrow> json" where
  "cause_json CauseUser = JObj [(''kind'', JStr ''user'')]"
| "cause_json CauseParent = JObj [(''kind'', JStr ''parent'')]"
| "cause_json (CauseHook r) = JObj [(''kind'', JStr ''hook''), (''reason'', JStr r)]"
| "cause_json CauseDisposed = JObj [(''kind'', JStr ''disposed'')]"
| "cause_json CauseLegacy = JObj [(''kind'', JStr ''legacy'')]"

fun end_reason_json :: "turn_end_reason \<Rightarrow> json option" where
  "end_reason_json EndCompleted = Some (JObj [(''kind'', JStr ''completed'')])"
| "end_reason_json (EndAborted c) = Some (JObj [(''kind'', JStr ''aborted''), (''reason'', cause_json c)])"
| "end_reason_json EndBlocked = Some (JObj [(''kind'', JStr ''blocked'')])"
| "end_reason_json (EndError f) =
     map_option (\<lambda>v. JObj [(''kind'', JStr ''error''), (''error'', v)]) (failure_json f)"
| "end_reason_json EndMaxTokens = Some (JObj [(''kind'', JStr ''max-tokens'')])"
| "end_reason_json EndInterrupted = Some (JObj [(''kind'', JStr ''interrupted'')])"
| "end_reason_json (EndOther k v) = Some (JObj [(''kind'', JStr k), (''payload'', v)])"

definition usage_json :: "token_usage \<Rightarrow> json" where
  "usage_json u = JObj ([(''inputTokens'', JNum (inputTokens u)), (''outputTokens'', JNum (outputTokens u))]
     @ opt_prop ''cacheReadTokens'' (map_option JNum (cacheReadTokens u))
     @ opt_prop ''cacheWriteTokens'' (map_option JNum (cacheWriteTokens u))
     @ opt_prop ''reasoningTokens'' (map_option JNum (reasoningTokens u)))"

fun finish_json :: "finish_reason \<Rightarrow> json option" where
  "finish_json FinishStop = Some (JObj [(''kind'', JStr ''stop'')])"
| "finish_json FinishToolCalls = Some (JObj [(''kind'', JStr ''tool-calls'')])"
| "finish_json FinishMaxTokens = Some (JObj [(''kind'', JStr ''max-tokens'')])"
| "finish_json (FinishAborted f) =
     map_option (\<lambda>v. JObj [(''kind'', JStr ''aborted''), (''failure'', v)]) (failure_json f)"
| "finish_json (FinishError f) =
     map_option (\<lambda>v. JObj [(''kind'', JStr ''error''), (''failure'', v)]) (failure_json f)"
| "finish_json (FinishOther k v) = Some (JObj [(''kind'', JStr k), (''payload'', v)])"

definition replay_json :: "replay_envelope \<Rightarrow> json" where
  "replay_json r = JObj ([(''response'', re_response r)] @ opt_prop ''blocks'' (map_option JArr (re_blocks r)))"

fun chunk_json :: "stream_chunk \<Rightarrow> json option" where
  "chunk_json (BlockStart i t) =
     Some (JObj [(''type'', JStr ''block-start''), (''index'', num_json i), (''blockType'', JStr t)])"
| "chunk_json (TextDelta i t) =
     Some (JObj [(''type'', JStr ''text-delta''), (''index'', num_json i), (''text'', JStr t)])"
| "chunk_json (ReasoningDelta i t) =
     Some (JObj [(''type'', JStr ''reasoning-delta''), (''index'', num_json i), (''text'', JStr t)])"
| "chunk_json (ToolCallDelta i c n a) =
     Some (JObj ([(''type'', JStr ''tool-call-delta''), (''index'', num_json i), (''id'', JStr c)]
       @ opt_prop ''name'' (map_option JStr n) @ [(''argumentsDelta'', JStr a)]))"
| "chunk_json (BlockEnd i b) =
     Some (JObj [(''type'', JStr ''block-end''), (''index'', num_json i), (''block'', content_block_json b)])"
| "chunk_json (UsageChunk u) = Some (JObj [(''type'', JStr ''usage''), (''usage'', usage_json u)])"
| "chunk_json (FinishChunk r s) =
     map_option (\<lambda>v. JObj ([(''type'', JStr ''finish''), (''reason'', v)]
       @ opt_prop ''replayState'' (map_option replay_json s))) (finish_json r)"

definition call_config_json :: "call_config \<Rightarrow> json" where
  "call_config_json c = JObj ([(''provider'', JStr (cc_provider c)), (''model'', JStr (cc_model c))]
     @ opt_prop ''reasoningEffort'' (map_option JStr (cc_reasoningEffort c))
     @ opt_prop ''temperature'' (map_option JNum (cc_temperature c))
     @ opt_prop ''maxTokens'' (map_option JNum (cc_maxTokens c))
     @ opt_prop ''stop'' (map_option (\<lambda>ss. JArr (map JStr ss)) (cc_stop c)))"

definition adapter_defaults_json :: "adapter_defaults \<Rightarrow> json" where
  "adapter_defaults_json d = JObj
     ((if ad_reasoningEffort d then [(''reasoningEffort'', JBool True)] else [])
      @ (if ad_maxTokens d then [(''maxTokens'', JBool True)] else []))"

definition epoch_header_json :: "epoch_header \<Rightarrow> json" where
  "epoch_header_json h = JObj ([(''config'', call_config_json (eh_config h))]
     @ opt_prop ''adapterDefaults'' (map_option adapter_defaults_json (eh_adapterDefaults h))
     @ opt_prop ''system'' (map_option JStr (eh_system h))
     @ opt_prop ''tools'' (map_option JArr (eh_tools h)))"

definition splice_json :: "inbox_splice \<Rightarrow> json" where
  "splice_json p = JObj ([(''target'', JStr (case sp_target p of NextTurn \<Rightarrow> ''next-turn'' | NextStep \<Rightarrow> ''next-step'')),
     (''start'', num_json (sp_start p))]
     @ opt_prop ''removedCount'' (map_option num_json (sp_removedCount p))
     @ [(''inserted'', JArr (map message_json (sp_inserted p)))]
     @ (if sp_canceled p then [(''outcome'', JStr ''canceled'')] else []))"

definition retry_json :: "retry_data \<Rightarrow> json option" where
  "retry_json r =
     Option.bind (js_number_json (rd_delayMs r)) (\<lambda>d. map_option (\<lambda>f. JObj
       ([(''retryId'', JStr (rd_retryId r)), (''turn'', num_json (rd_turn r)), (''step'', num_json (rd_step r)),
         (''provider'', JStr (rd_provider r)),
         (''mode'', JStr (case rd_mode r of RetryNormal _ \<Rightarrow> ''normal'' | RetryAlways \<Rightarrow> ''always'')),
         (''policyKey'', JStr (rd_policyKey r)), (''retry'', num_json (rd_retry r))]
        @ (case rd_mode r of RetryNormal n \<Rightarrow> [(''maxRetries'', num_json n)] | RetryAlways \<Rightarrow> [])
        @ [(''delayMs'', d), (''failure'', f)])) (failure_json (rd_failure r)))"

fun data_json :: "event_data \<Rightarrow> json option" where
  "data_json (TurnStart t) = Some (JObj [(''turn'', num_json t)])"
| "data_json (TurnEnd t r) =
     map_option (\<lambda>v. JObj [(''turn'', num_json t), (''reason'', v)]) (end_reason_json r)"
| "data_json (StepStart t s) = Some (JObj [(''turn'', num_json t), (''step'', num_json s)])"
| "data_json (StepEnd t s) = Some (JObj [(''turn'', num_json t), (''step'', num_json s)])"
| "data_json (UserMessage m) = Some (message_json m)"
| "data_json (AssistantChunk t s c) =
     map_option (\<lambda>v. JObj [(''turn'', num_json t), (''step'', num_json s), (''chunk'', v)]) (chunk_json c)"
| "data_json (AssistantMessage t s m u i) = Some (JObj
     ([(''turn'', num_json t), (''step'', num_json s), (''message'', message_json m)]
      @ opt_prop ''usage'' (map_option usage_json u)
      @ (if i then [(''interrupted'', JBool True)] else [])))"
| "data_json (ToolCall t s c n a) = Some (JObj [(''turn'', num_json t), (''step'', num_json s),
     (''callId'', JStr c), (''name'', JStr n), (''arguments'', JStr a)])"
| "data_json (ToolResult t s m err meta) = Some (JObj
     ([(''turn'', num_json t), (''step'', num_json s), (''message'', message_json (tool_result_as_message m))]
      @ opt_prop ''error'' (map_option (\<lambda>(n, c). JObj [(''name'', JStr n), (''code'', JStr c)]) err)
      @ opt_prop ''meta'' meta))"
| "data_json (TodoWrite v) = Some (JObj [(''todos'', v)])"
| "data_json (RequestHeader h r) = Some (JObj [(''header'', epoch_header_json h), (''reason'', JStr r)])"
| "data_json (RequestContext c) = Some (JObj
     ([(''provider'', JStr (rc_provider c)), (''model'', JStr (rc_model c))]
      @ opt_prop ''contextWindow'' (map_option JNum (rc_contextWindow c))))"
| "data_json EndSeed = Some (JObj [])"
| "data_json (InboxSpliced p) = Some (splice_json p)"
| "data_json (LlmRetry r) = retry_json r"
| "data_json (LlmRetryStarted i t s n) = Some (JObj [(''retryId'', JStr i), (''turn'', num_json t),
     (''step'', num_json s), (''retry'', num_json n)])"
| "data_json (PluginEvent t v) = Some v"

definition event_json :: "session_event \<Rightarrow> json option" where
  "event_json e = map_option (\<lambda>d. JObj
     ([(''type'', JStr (ev_type e)), (''seq'', num_json (ev_seq e)), (''time'', num_json (ev_time e)), (''data'', d)]
      @ opt_prop ''surfaceOp'' (ev_surfaceOp e)
      @ opt_prop ''sourceEventSeqs'' (ev_sourceEventSeqs e)
      @ (if ev_ignorable e then [(''ignorable'', JBool True)] else []))) (data_json (ev_data e))"

section \<open>Validators\<close>

datatype validation_error =
    LegacyHeaderDelta
  | LegacyFallbackReason
  | InvalidEnvelope
  | LacksProviderModel
  | InvalidReasoningEffort
  | InvalidAdapterDefaults
  | LacksIdentifiedMessage
  | WrongMessageRole
  | InvalidMessageSource
  | InvalidMessageContent
  | NotModelSource
  | NotToolSource
  | NotOneToolResult
  | MismatchedCallIds

definition non_empty_string :: "json option \<Rightarrow> bool" where
  "non_empty_string v \<longleftrightarrow> (case v of Some (JStr s) \<Rightarrow> s \<noteq> [] | _ \<Rightarrow> False)"

fun is_array :: "json option \<Rightarrow> bool" where
  "is_array (Some (JArr _)) = True"
| "is_array _ = False"

fun array_items :: "json option \<Rightarrow> json list" where
  "array_items (Some (JArr xs)) = xs"
| "array_items _ = []"

text \<open>\<open>typeof v === 'object' \<and> v !== null\<close>: records and arrays; property reads on an array give
  \<open>undefined\<close> for the names used here.\<close>

fun is_object_like :: "json option \<Rightarrow> bool" where
  "is_object_like (Some (JObj _)) = True"
| "is_object_like (Some (JArr _)) = True"
| "is_object_like _ = False"

definition get :: "json option \<Rightarrow> string \<Rightarrow> json option" where
  "get v k = Option.bind v (\<lambda>w. obj_get w k)"

definition hasProviderModel :: "json option \<Rightarrow> bool" where
  "hasProviderModel v \<longleftrightarrow> is_object_like v
     \<and> non_empty_string (get v ''provider'') \<and> non_empty_string (get v ''model'')"

definition assertMessageEventShape :: "json \<Rightarrow> validation_error + unit" where
  "assertMessageEventShape event =
     (let type = obj_get event ''type'' in
      if type \<notin> {Some (JStr ''user/message''), Some (JStr ''assistant/message''), Some (JStr ''tool/result'')}
      then Inr ()
      else
        let data = obj_get event ''data'';
            message = (if type = Some (JStr ''user/message'') then data else get data ''message'') in
        if \<not> is_object_like message \<or> \<not> non_empty_string (get message ''id'') then Inl LacksIdentifiedMessage
        else if get message ''role''
            \<noteq> Some (JStr (if type = Some (JStr ''assistant/message'') then ''assistant'' else ''user''))
        then Inl WrongMessageRole
        else
          let source = get message ''source'' in
          if \<not> is_object_like source \<or> \<not> non_empty_string (get source ''kind'') then Inl InvalidMessageSource
          else if \<not> is_array (get message ''content'') then Inl InvalidMessageContent
          else if type = Some (JStr ''assistant/message'') then
            if get source ''kind'' \<noteq> Some (JStr ''model'') \<or> \<not> hasProviderModel source
            then Inl NotModelSource else Inr ()
          else if type \<noteq> Some (JStr ''tool/result'') then Inr ()
          else if get source ''kind'' \<noteq> Some (JStr ''tool'') \<or> \<not> non_empty_string (get source ''callId'')
          then Inl NotToolSource
          else
            let content = array_items (get message ''content'') in
            (case content of
               [block] \<Rightarrow>
                 if \<not> is_object_like (Some block) \<or> obj_get block ''type'' \<noteq> Some (JStr ''tool-result'')
                    \<or> \<not> is_array (obj_get block ''content'') then Inl NotOneToolResult
                 else if obj_get block ''toolCallId'' \<noteq> get source ''callId'' then Inl MismatchedCallIds
                 else Inr ()
             | _ \<Rightarrow> Inl NotOneToolResult))"

definition assertAdapterDefaults :: "json option \<Rightarrow> json option \<Rightarrow> validation_error + unit" where
  "assertAdapterDefaults v config =
     (case v of
        None \<Rightarrow> Inr ()
      | Some (JObj kvs) \<Rightarrow>
          if (\<exists>kv \<in> set kvs. fst kv \<notin> {''reasoningEffort'', ''maxTokens''})
             \<or> (\<exists>kv \<in> set kvs. snd kv \<noteq> JBool True)
             \<or> map_of kvs ''reasoningEffort'' = Some (JBool True) \<and> get config ''reasoningEffort'' = None
             \<or> map_of kvs ''maxTokens'' = Some (JBool True) \<and> get config ''maxTokens'' = None
          then Inl InvalidAdapterDefaults else Inr ()
      | Some _ \<Rightarrow> Inl InvalidAdapterDefaults)"

definition assertCurrentLlmShape :: "json \<Rightarrow> validation_error + unit" where
  "assertCurrentLlmShape event =
     bindE
       (if obj_get event ''type'' = Some (JStr ''request/header'') then
          let header = get (obj_get event ''data'') ''header'';
              config = get header ''config'' in
          if \<not> hasProviderModel config then Inl LacksProviderModel
          else if get config ''reasoningEffort'' \<noteq> None \<and> \<not> non_empty_string (get config ''reasoningEffort'')
          then Inl InvalidReasoningEffort
          else assertAdapterDefaults (get header ''adapterDefaults'') config
        else Inr ())
       (\<lambda>_. assertMessageEventShape event)"

definition ENVELOPE_KEYS :: "string list" where
  "ENVELOPE_KEYS = [''type'', ''seq'', ''time'', ''data'', ''surfaceOp'', ''sourceEventSeqs'', ''ignorable'']"

definition assertSessionEventEnvelope :: "json \<Rightarrow> validation_error + unit" where
  "assertSessionEventEnvelope event =
     (let type = obj_get event ''type''; seq = obj_get event ''seq''; time = obj_get event ''time'' in
      if type = Some (JStr ''request/header-delta'') then Inl LegacyHeaderDelta
      else if \<not> list_all (\<lambda>k. k \<in> set ENVELOPE_KEYS) (obj_keys event) then Inl InvalidEnvelope
      else if \<not> is_string type \<or> \<not> is_safe_integer seq \<or> as_num seq < 0 \<or> \<not> is_safe_integer time
           \<or> obj_get event ''data'' = None
           \<or> obj_get event ''ignorable'' \<noteq> None \<and> obj_get event ''ignorable'' \<noteq> Some (JBool True)
      then Inl InvalidEnvelope
      else if as_str type \<in> {''request/header'', ''user/message'', ''assistant/message'', ''tool/result''}
      then assertCurrentLlmShape event else Inr ())"

definition assertSupportedRequestHeader :: "string \<Rightarrow> json \<Rightarrow> validation_error + unit" where
  "assertSupportedRequestHeader type data =
     (if type = ''request/header-delta'' then Inl LegacyHeaderDelta
      else if type = ''request/header'' \<and> is_object data \<and> obj_get data ''reason'' = Some (JStr ''fallback'')
      then Inl LegacyFallbackReason
      else Inr ())"

section \<open>The creation header\<close>

record session_header =
  sh_version :: int
  sh_id :: string
  sh_createdAt :: int
  sh_cwd :: "string option"
  sh_parentSession :: "string option"
  sh_seedLength :: "int option"
  sh_subagent :: bool
  sh_delegationDepth :: "int option"
  sh_agentPreset :: "string option"

definition header_json :: "session_header \<Rightarrow> json" where
  "header_json h = JObj ([(''version'', num_json (sh_version h)), (''id'', JStr (sh_id h)),
      (''createdAt'', num_json (sh_createdAt h))]
     @ opt_prop ''cwd'' (map_option JStr (sh_cwd h))
     @ opt_prop ''parentSession'' (map_option JStr (sh_parentSession h))
     @ opt_prop ''seedLength'' (map_option num_json (sh_seedLength h))
     @ (if sh_subagent h then [(''origin'', JStr ''subagent'')] else [])
     @ opt_prop ''delegationDepth'' (map_option num_json (sh_delegationDepth h))
     @ opt_prop ''agentPreset'' (map_option JStr (sh_agentPreset h)))"

datatype header_error =
    HeaderNotRecord
  | HeaderVersion
  | HeaderId
  | HeaderCreatedAt
  | HeaderCwdNotString
  | HeaderCwdNotAbsolute
  | HeaderParentSession
  | HeaderSeedLength
  | HeaderOrigin
  | HeaderDelegationDepth
  | HeaderAgentPreset

definition SESSION_FORMAT_VERSION :: int where
  "SESSION_FORMAT_VERSION = 0"

definition non_negative_safe :: "json option \<Rightarrow> bool" where
  "non_negative_safe v \<longleftrightarrow> is_safe_integer v \<and> 0 \<le> as_num v"

text \<open>\<open>isAbsolute\<close> of \<open>node:path\<close> depends on the platform and is a parameter.\<close>

definition validateSessionHeader :: "(string \<Rightarrow> bool) \<Rightarrow> string \<Rightarrow> json \<Rightarrow> header_error + json" where
  "validateSessionHeader isAbsolute sid input =
     (let f = obj_get input in
      if \<not> is_object input then Inl HeaderNotRecord
      else if f ''version'' \<noteq> Some (num_json SESSION_FORMAT_VERSION) then Inl HeaderVersion
      else if f ''id'' \<noteq> Some (JStr sid) then Inl HeaderId
      else if \<not> non_negative_safe (f ''createdAt'') then Inl HeaderCreatedAt
      else if f ''cwd'' \<noteq> None \<and> \<not> is_string (f ''cwd'') then Inl HeaderCwdNotString
      else if f ''cwd'' \<noteq> None \<and> \<not> isAbsolute (as_str (f ''cwd'')) then Inl HeaderCwdNotAbsolute
      else if f ''parentSession'' \<noteq> None \<and> \<not> is_string (f ''parentSession'') then Inl HeaderParentSession
      else if f ''seedLength'' \<noteq> None \<and> \<not> non_negative_safe (f ''seedLength'') then Inl HeaderSeedLength
      else if f ''origin'' \<noteq> None \<and> f ''origin'' \<noteq> Some (JStr ''subagent'') then Inl HeaderOrigin
      else if f ''delegationDepth'' \<noteq> None \<and> \<not> non_negative_safe (f ''delegationDepth'')
      then Inl HeaderDelegationDepth
      else if f ''agentPreset'' \<noteq> None \<and> \<not> is_string (f ''agentPreset'') then Inl HeaderAgentPreset
      else Inr input)"

section \<open>What the validators accept\<close>

lemma non_empty_string_simps [simp]:
  "non_empty_string (Some (JStr s)) \<longleftrightarrow> s \<noteq> []"
  "\<not> non_empty_string None"
  by (simp_all add: non_empty_string_def)

lemma get_simps [simp]:
  "get None k = None"
  "get (Some v) k = obj_get v k"
  by (simp_all add: get_def)

lemma map_of_opt_prop [simp]:
  "map_of (opt_prop k v @ rest) k' = (if k' = k \<and> v \<noteq> None then v else map_of rest k')"
  "map_of (opt_prop k v) k' = (if k' = k then v else None)"
  by (auto simp: opt_prop_def split: option.split)

lemma keys_opt_prop [simp]: "map fst (opt_prop k v) = (if v = None then [] else [k])"
  by (simp add: opt_prop_def split: option.split)

lemma num_json_safe [simp]:
  "is_safe_integer (Some (num_json i)) \<longleftrightarrow> \<bar>i\<bar> \<le> maxSafe"
  "as_num (Some (num_json i)) = of_int i"
  "non_negative_safe (Some (num_json i)) \<longleftrightarrow> 0 \<le> i \<and> i \<le> maxSafe"
  "num_json i = num_json j \<longleftrightarrow> i = j"
  by (auto simp: num_json_def non_negative_safe_def)

lemma map_of_if_append:
  "map_of ((if c then xs else []) @ rest) k = (if c then map_of (xs @ rest) k else map_of rest k)"
  by simp

lemma obj_get_header_json:
  "obj_get (header_json h) ''version'' = Some (num_json (sh_version h))"
  "obj_get (header_json h) ''id'' = Some (JStr (sh_id h))"
  "obj_get (header_json h) ''createdAt'' = Some (num_json (sh_createdAt h))"
  "obj_get (header_json h) ''cwd'' = map_option JStr (sh_cwd h)"
  "obj_get (header_json h) ''parentSession'' = map_option JStr (sh_parentSession h)"
  "obj_get (header_json h) ''seedLength'' = map_option num_json (sh_seedLength h)"
  "obj_get (header_json h) ''origin'' = (if sh_subagent h then Some (JStr ''subagent'') else None)"
  "obj_get (header_json h) ''delegationDepth'' = map_option num_json (sh_delegationDepth h)"
  "obj_get (header_json h) ''agentPreset'' = map_option JStr (sh_agentPreset h)"
  by (simp_all add: header_json_def map_of_if_append del: map_of_append)

lemma option_string_ok: "map_option JStr v \<noteq> None \<and> \<not> is_string (map_option JStr v) \<longleftrightarrow> False"
  by (cases v) simp_all

lemma option_nat_ok:
  "map_option num_json v \<noteq> None \<and> \<not> non_negative_safe (map_option num_json v)
     \<longleftrightarrow> \<not> (\<forall>n. v = Some n \<longrightarrow> 0 \<le> n \<and> n \<le> maxSafe)"
  by (cases v) simp_all

lemma option_path_ok:
  "map_option JStr v \<noteq> None \<and> \<not> ok (as_str (map_option JStr v)) \<longleftrightarrow> \<not> (\<forall>d. v = Some d \<longrightarrow> ok d)"
  by (cases v) simp_all

text \<open>A header that the store or a fork writes passes validation, and only such a header does.\<close>

lemma validateSessionHeader_typed:
  "validateSessionHeader isAbsolute sid (header_json h) = Inr (header_json h) \<longleftrightarrow>
     sh_version h = SESSION_FORMAT_VERSION \<and> sh_id h = sid
     \<and> 0 \<le> sh_createdAt h \<and> sh_createdAt h \<le> maxSafe
     \<and> (\<forall>d. sh_cwd h = Some d \<longrightarrow> isAbsolute d)
     \<and> (\<forall>n. sh_seedLength h = Some n \<longrightarrow> 0 \<le> n \<and> n \<le> maxSafe)
     \<and> (\<forall>n. sh_delegationDepth h = Some n \<longrightarrow> 0 \<le> n \<and> n \<le> maxSafe)"
proof -
  have "is_object (header_json h)" by (simp add: header_json_def)
  then show ?thesis
    unfolding validateSessionHeader_def Let_def Inr_if_iff obj_get_header_json
      option_string_ok option_nat_ok option_path_ok
    by auto
qed

section \<open>Typed events\<close>

text \<open>
  The same conditions on a typed event: what a \<open>SessionEvent\<close> must satisfy beyond its type for the
  seed and restore boundary to take it.
\<close>

fun source_kind :: "message_source \<Rightarrow> string" where
  "source_kind UserSource = ''user''"
| "source_kind (PluginSource _ _) = ''plugin''"
| "source_kind (ModelSource _ _ _) = ''model''"
| "source_kind (ToolSource _) = ''tool''"
| "source_kind (OtherSource k _) = k"

definition validatedTypes :: "string set" where
  "validatedTypes = {''request/header'', ''request/header-delta'', ''user/message'', ''assistant/message'', ''tool/result''}"

fun goodData :: "event_data \<Rightarrow> bool" where
  "goodData (UserMessage m) \<longleftrightarrow>
     msg_id m \<noteq> [] \<and> msg_role m = RoleUser \<and> source_kind (msg_source m) \<noteq> []"
| "goodData (AssistantMessage _ _ m _ _) \<longleftrightarrow>
     msg_id m \<noteq> [] \<and> msg_role m = RoleAssistant
     \<and> (\<exists>p n r. msg_source m = ModelSource p n r \<and> p \<noteq> [] \<and> n \<noteq> [])"
| "goodData (ToolResult _ _ m _ _) \<longleftrightarrow>
     tr_id m \<noteq> [] \<and> tr_callId m \<noteq> [] \<and> tr_toolCallId m = tr_callId m"
| "goodData (RequestHeader h reason) \<longleftrightarrow> reason \<noteq> ''fallback''
     \<and> cc_provider (eh_config h) \<noteq> [] \<and> cc_model (eh_config h) \<noteq> [] \<and> cc_reasoningEffort (eh_config h) \<noteq> Some []
     \<and> (\<forall>d. eh_adapterDefaults h = Some d \<longrightarrow>
          (ad_reasoningEffort d \<longrightarrow> cc_reasoningEffort (eh_config h) \<noteq> None)
          \<and> (ad_maxTokens d \<longrightarrow> cc_maxTokens (eh_config h) \<noteq> None))"
| "goodData _ \<longleftrightarrow> True"

text \<open>\<open>PluginEvent\<close> stands for the types this development does not name.\<close>

fun tagged :: "event_data \<Rightarrow> bool" where
  "tagged (PluginEvent t _) \<longleftrightarrow> t \<notin> validatedTypes"
| "tagged _ \<longleftrightarrow> True"

definition goodEvent :: "session_event \<Rightarrow> bool" where
  "goodEvent e \<longleftrightarrow> goodData (ev_data e) \<and> data_json (ev_data e) \<noteq> None
     \<and> 0 \<le> ev_seq e \<and> ev_seq e \<le> maxSafe \<and> \<bar>ev_time e\<bar> \<le> maxSafe"

lemma source_json_get:
  "obj_get (source_json src) ''kind'' = Some (JStr (source_kind src))"
  "is_object (source_json src)"
  by (cases src; simp)+

lemma is_object_like_Some [simp]: "is_object v \<Longrightarrow> is_object_like (Some v)"
  by (cases v) auto

lemma message_json_get [simp]:
  "obj_get (message_json m) ''id'' = Some (JStr (msg_id m))"
  "obj_get (message_json m) ''role'' = Some (role_json (msg_role m))"
  "obj_get (message_json m) ''content'' = Some (JArr (map content_block_json (msg_content m)))"
  "obj_get (message_json m) ''source'' = Some (source_json (msg_source m))"
  "is_object (message_json m)"
  by (simp_all add: message_json_def)

lemma role_json_eq [simp]:
  "role_json r = JStr ''user'' \<longleftrightarrow> r = RoleUser"
  "role_json r = JStr ''assistant'' \<longleftrightarrow> r = RoleAssistant"
  by (cases r; simp)+

lemma event_json_get:
  assumes "event_json e = Some v"
  shows "obj_get v ''type'' = Some (JStr (ev_type e))"
    "obj_get v ''seq'' = Some (num_json (ev_seq e))"
    "obj_get v ''time'' = Some (num_json (ev_time e))"
    "obj_get v ''data'' = data_json (ev_data e)"
    "obj_get v ''ignorable'' = (if ev_ignorable e then Some (JBool True) else None)"
    "set (obj_keys v) \<subseteq> set ENVELOPE_KEYS"
  using assms
  by (auto simp: event_json_def map_of_if_append ENVELOPE_KEYS_def opt_prop_def simp del: map_of_append
      split: option.splits if_splits)

text \<open>The message checks on the three message-carrying events.\<close>

lemma assertMessageEventShape_user:
  assumes "obj_get v ''type'' = Some (JStr ''user/message'')" "obj_get v ''data'' = Some (message_json m)"
  shows "assertMessageEventShape v = Inr () \<longleftrightarrow> goodData (UserMessage m)"
  using assms source_json_get [of "msg_source m"]
  by (auto simp: assertMessageEventShape_def Let_def)

lemma hasProviderModel_source:
  "source_kind src = ''model'' \<and> hasProviderModel (Some (source_json src))
     \<longleftrightarrow> (\<exists>p n r. src = ModelSource p n r \<and> p \<noteq> [] \<and> n \<noteq> [])"
  by (cases src) (auto simp: hasProviderModel_def)

lemma assertMessageEventShape_assistant:
  assumes "obj_get v ''type'' = Some (JStr ''assistant/message'')" "obj_get v ''data'' = Some d"
    "obj_get d ''message'' = Some (message_json m)"
  shows "assertMessageEventShape v = Inr () \<longleftrightarrow> goodData (AssistantMessage turn step m u i)"
proof -
  have "assertMessageEventShape v = Inr () \<longleftrightarrow> msg_id m \<noteq> [] \<and> msg_role m = RoleAssistant
      \<and> source_kind (msg_source m) \<noteq> [] \<and> source_kind (msg_source m) = ''model''
      \<and> hasProviderModel (Some (source_json (msg_source m)))"
    using assms source_json_get [of "msg_source m"]
    by (auto simp: assertMessageEventShape_def Let_def)
  then show ?thesis using hasProviderModel_source [of "msg_source m"] by auto
qed

lemma assertMessageEventShape_tool:
  assumes "obj_get v ''type'' = Some (JStr ''tool/result'')" "obj_get v ''data'' = Some d"
    "obj_get d ''message'' = Some (message_json (tool_result_as_message m))"
  shows "assertMessageEventShape v = Inr () \<longleftrightarrow> goodData (ToolResult turn step m err meta)"
  using assms
  by (auto simp: assertMessageEventShape_def Let_def tool_result_as_message_def)

text \<open>The request header checks.\<close>

lemma epoch_header_get:
  "obj_get (epoch_header_json h) ''config'' = Some (call_config_json (eh_config h))"
  "obj_get (epoch_header_json h) ''adapterDefaults'' = map_option adapter_defaults_json (eh_adapterDefaults h)"
  "obj_get (call_config_json c) ''provider'' = Some (JStr (cc_provider c))"
  "obj_get (call_config_json c) ''model'' = Some (JStr (cc_model c))"
  "obj_get (call_config_json c) ''reasoningEffort'' = map_option JStr (cc_reasoningEffort c)"
  "obj_get (call_config_json c) ''maxTokens'' = map_option JNum (cc_maxTokens c)"
  "is_object (call_config_json c)"
  by (simp_all add: epoch_header_json_def call_config_json_def del: map_of_append)

lemma assertAdapterDefaults_typed:
  "assertAdapterDefaults (map_option adapter_defaults_json ad) (Some (call_config_json c)) = Inr () \<longleftrightarrow>
     (\<forall>d. ad = Some d \<longrightarrow> (ad_reasoningEffort d \<longrightarrow> cc_reasoningEffort c \<noteq> None)
        \<and> (ad_maxTokens d \<longrightarrow> cc_maxTokens c \<noteq> None))"
  by (cases ad) (auto simp: assertAdapterDefaults_def adapter_defaults_json_def epoch_header_get)

lemma non_empty_effort:
  "v = None \<or> non_empty_string (map_option JStr v) \<longleftrightarrow> v \<noteq> Some []"
  by (cases v) auto

lemma assertCurrentLlmShape_header:
  assumes "obj_get v ''type'' = Some (JStr ''request/header'')" "obj_get v ''data'' = Some d"
    "obj_get d ''header'' = Some (epoch_header_json h)"
  shows "assertCurrentLlmShape v = Inr () \<longleftrightarrow> goodData (RequestHeader h ''initial'')"
proof -
  have "assertMessageEventShape v = Inr ()"
    using assms by (simp add: assertMessageEventShape_def)
  moreover have "hasProviderModel (Some (call_config_json (eh_config h)))
      \<longleftrightarrow> cc_provider (eh_config h) \<noteq> [] \<and> cc_model (eh_config h) \<noteq> []"
    by (simp add: hasProviderModel_def epoch_header_get)
  ultimately show ?thesis
    using assms
    by (simp add: assertCurrentLlmShape_def Let_def result_simps epoch_header_get
        non_empty_effort assertAdapterDefaults_typed)
qed

lemma envelope_typed:
  assumes "event_json e = Some v" "tagged (ev_data e)"
  shows "assertSessionEventEnvelope v = Inr ()
      \<and> assertSupportedRequestHeader (ev_type e) (the (obj_get v ''data'')) = Inr () \<longleftrightarrow> goodEvent e"
proof -
  note g = event_json_get [OF assms(1)]
  have "data_json (ev_data e) \<noteq> None" using assms(1) by (auto simp: event_json_def)
  then obtain d where d: "data_json (ev_data e) = Some d" by blast
  have keys: "list_all (\<lambda>k. k \<in> set ENVELOPE_KEYS) (obj_keys v)"
    using g(6) by (auto simp: list_all_iff)
  have type: "ev_type e \<noteq> ''request/header-delta''"
    using assms(2) by (cases "ev_data e") (auto simp: validatedTypes_def)
  have env: "assertSessionEventEnvelope v = Inr () \<longleftrightarrow>
      0 \<le> ev_seq e \<and> ev_seq e \<le> maxSafe \<and> \<bar>ev_time e\<bar> \<le> maxSafe
      \<and> (ev_type e \<in> {''request/header'', ''user/message'', ''assistant/message'', ''tool/result''}
          \<longrightarrow> assertCurrentLlmShape v = Inr ())"
    using g d keys type by (auto simp: assertSessionEventEnvelope_def Let_def)
  have shape: "assertCurrentLlmShape v = assertMessageEventShape v" if "ev_type e \<noteq> ''request/header''"
    using that g(1) by (simp add: assertCurrentLlmShape_def)
  have "(ev_type e \<in> {''request/header'', ''user/message'', ''assistant/message'', ''tool/result''}
          \<longrightarrow> assertCurrentLlmShape v = Inr ())
      \<and> assertSupportedRequestHeader (ev_type e) d = Inr () \<longleftrightarrow> goodData (ev_data e)"
  proof (cases "ev_data e")
    case (UserMessage m)
    with d g shape show ?thesis
      using assertMessageEventShape_user [of v m] by (simp add: assertSupportedRequestHeader_def)
  next
    case (AssistantMessage t n m u i)
    with d g shape show ?thesis
      using assertMessageEventShape_assistant [of v d m t n u i]
      by (auto simp: assertSupportedRequestHeader_def)
  next
    case (ToolResult t n m err meta)
    with d g shape show ?thesis
      using assertMessageEventShape_tool [of v d m t n err meta]
      by (auto simp: assertSupportedRequestHeader_def)
  next
    case (RequestHeader h r)
    with d have "obj_get d ''header'' = Some (epoch_header_json h)" "obj_get d ''reason'' = Some (JStr r)"
      "is_object d" by auto
    with RequestHeader d g show ?thesis
      using assertCurrentLlmShape_header [of v d h] by (auto simp: assertSupportedRequestHeader_def)
  next
    case (PluginEvent t w)
    with assms(2) show ?thesis by (auto simp: assertSupportedRequestHeader_def validatedTypes_def)
  qed (use d in \<open>auto simp: assertSupportedRequestHeader_def\<close>)
  with env d g(4) show ?thesis by (auto simp: goodEvent_def)
qed

end
