(* ===== verification/Session_Log.thy ===== *)
theory Session_Log
  imports Surface Session_Validation
begin

text \<open>
  The event-sourced session, class \<open>Session\<close> of \<open>core/session/src/index.ts\<close>, with the request-header
  fold of \<open>request-header.ts\<close> and the fork seed of \<open>SessionStore\<close>.

  The log is the only state that matters; everything else the object holds is a cache over it (the
  surface manager, the events snapshot, the header and context folds, the derived messages). The
  lemmas show that no interleaving of appends (accepted, rejected or vetoed) and reads can make a
  cache differ from the recomputation over the log (\<open>session_ok\<close>).

  \<open>Date.now()\<close>, \<open>isAbsolute\<close> and the verdict of the synchronous dispatch listeners are arguments.
  Deep-freezing has no counterpart: values are immutable here.
\<close>

section \<open>Request headers\<close>

definition canonicalHeader :: "epoch_header \<Rightarrow> epoch_header" where
  "canonicalHeader h =
     \<lparr>eh_config = eh_config h,
      eh_adapterDefaults =
        (case eh_adapterDefaults h of
           Some d \<Rightarrow> if ad_reasoningEffort d \<or> ad_maxTokens d then Some d else None
         | None \<Rightarrow> None),
      eh_system = (case eh_system h of Some s \<Rightarrow> if s \<noteq> [] then Some s else None | None \<Rightarrow> None),
      eh_tools = (case eh_tools h of Some ts \<Rightarrow> if ts \<noteq> [] then Some ts else None | None \<Rightarrow> None)\<rparr>"

text \<open>
  \<open>callConfigEquals\<close> of \<open>llm/llm/src/call-config.ts\<close>; the stop lists compare element by element.
  \<open>sameSchema\<close> compares the JSON texts of two schemas: equal texts of two JSON values mean equal
  values with the same key order, which is equality of \<open>json\<close>.
\<close>

definition callConfigEquals :: "call_config \<Rightarrow> call_config \<Rightarrow> bool" where
  "callConfigEquals a b \<longleftrightarrow>
     cc_provider a = cc_provider b \<and> cc_model a = cc_model b
     \<and> cc_reasoningEffort a = cc_reasoningEffort b \<and> cc_temperature a = cc_temperature b
     \<and> cc_maxTokens a = cc_maxTokens b
     \<and> (case (cc_stop a, cc_stop b) of
          (Some xs, Some ys) \<Rightarrow> length xs = length ys \<and> list_all2 (=) xs ys
        | (None, None) \<Rightarrow> True
        | _ \<Rightarrow> False)"

definition sameSchema :: "json \<Rightarrow> json \<Rightarrow> bool" where
  "sameSchema a b \<longleftrightarrow> a = b"

definition headerEquals :: "epoch_header \<Rightarrow> epoch_header \<Rightarrow> bool" where
  "headerEquals a b \<longleftrightarrow>
     (let marker = (\<lambda>f h. case eh_adapterDefaults h of Some d \<Rightarrow> f d | None \<Rightarrow> False);
          tools = (\<lambda>h. case eh_tools h of Some ts \<Rightarrow> ts | None \<Rightarrow> []) in
      callConfigEquals (eh_config a) (eh_config b)
      \<and> marker ad_reasoningEffort a = marker ad_reasoningEffort b
      \<and> marker ad_maxTokens a = marker ad_maxTokens b
      \<and> eh_system a = eh_system b
      \<and> length (tools a) = length (tools b) \<and> list_all2 sameSchema (tools a) (tools b))"

fun foldRequestHeader :: "session_event list \<Rightarrow> epoch_header option \<Rightarrow> epoch_header option" where
  "foldRequestHeader [] from = from"
| "foldRequestHeader (e # es) from =
     foldRequestHeader es
       (case ev_data e of RequestHeader h _ \<Rightarrow> Some (canonicalHeader h) | _ \<Rightarrow> from)"

section \<open>The session object\<close>

datatype session_error =
    SeedNotJson nat
  | SeedEnvelope nat validation_error
  | SeedUnsupported nat validation_error
  | SeedNotContiguous nat int
  | SeedSurface nat surface_error
  | BadSessionHeader header_error
  | DataNotJson
  | UnsupportedHeader validation_error
  | MetadataNotJson
  | AppendReentered
  | SurfaceRejected surface_error
  | DispatchVetoed

record session =
  ss_header :: session_header
  ss_firstLiveSeq :: nat
  ss_log :: "session_event list"
  ss_surface :: surface_manager
  ss_eventsSnapshot :: "session_event list option"
  ss_headerFold :: "epoch_header option"
  ss_headerFoldSeq :: nat
  ss_contextFold :: "request_context option"
  ss_contextFoldSeq :: nat
  ss_derived :: "message list"
  ss_derivedNodes :: nat
  ss_derivedGeneration :: nat

text \<open>
  The surface metadata an append is called with. \<open>OpaqueIntent\<close> is metadata that
  \<open>snapshotJsonValue\<close> refuses. \<open>attachment\<close> is the store entry of the session, if any: its
  \<open>appending\<close> flag, and whether a synchronous dispatch listener rejects the event.
\<close>

datatype surface_intent = NoIntent | Intent "json option" "json option" | OpaqueIntent

fun surfaceMetadataSnapshot :: "surface_intent \<Rightarrow> (json option \<times> json option) option" where
  "surfaceMetadataSnapshot NoIntent = Some (None, None)"
| "surfaceMetadataSnapshot (Intent op srcs) = Some (op, srcs)"
| "surfaceMetadataSnapshot OpaqueIntent = None"

record attachment =
  at_appending :: bool
  at_veto :: "session_event \<Rightarrow> bool"

definition appendEvent ::
    "session \<Rightarrow> attachment option \<Rightarrow> int \<Rightarrow> event_data \<Rightarrow> surface_intent
      \<Rightarrow> session \<times> (session_error + session_event)" where
  "appendEvent s entry now d intent =
     (case data_json d of
        None \<Rightarrow> (s, Inl DataNotJson)
      | Some dataSnapshot \<Rightarrow>
          (case assertSupportedRequestHeader (event_type d) dataSnapshot of
             Inl err \<Rightarrow> (s, Inl (UnsupportedHeader err))
           | Inr _ \<Rightarrow>
               (case surfaceMetadataSnapshot intent of
                  None \<Rightarrow> (s, Inl MetadataNotJson)
                | Some (op, srcs) \<Rightarrow>
                    if (case entry of Some a \<Rightarrow> at_appending a | None \<Rightarrow> False)
                    then (s, Inl AppendReentered)
                    else
                      let event = \<lparr>ev_seq = int (length (ss_log s)), ev_time = now, ev_data = d,
                                   ev_surfaceOp = op, ev_sourceEventSeqs = srcs, ev_ignorable = False\<rparr> in
                      (case validateNext (ss_log s) 0 (ss_surface s) event of
                         (m, Some err) \<Rightarrow> (s\<lparr>ss_surface := m\<rparr>, Inl (SurfaceRejected err))
                       | (m, None) \<Rightarrow>
                           if (case entry of Some a \<Rightarrow> at_veto a event | None \<Rightarrow> False)
                           then (s\<lparr>ss_surface := m\<rparr>, Inl DispatchVetoed)
                           else (s\<lparr>ss_surface := m, ss_log := ss_log s @ [event],
                                   ss_eventsSnapshot := None\<rparr>, Inr event)))))"

section \<open>Construction from a seed\<close>

datatype seed_mode = Snapshot | Restore

text \<open>
  The seed loop of the constructor. Restored events are values parsed from JSON, so \<open>event_json\<close>
  is defined on them and the two modes differ only in copying and freezing, which values here
  do not need.
\<close>

fun seedLoop ::
    "nat \<Rightarrow> session_event list \<Rightarrow> surface_manager \<Rightarrow> session_event list
      \<Rightarrow> session_error + session_event list \<times> surface_manager" where
  "seedLoop index slog m [] = Inr (slog, m)"
| "seedLoop index slog m (e # es) =
     (case event_json e of
        None \<Rightarrow> Inl (SeedNotJson index)
      | Some snapshot \<Rightarrow>
          (case assertSessionEventEnvelope snapshot of
             Inl err \<Rightarrow> Inl (SeedEnvelope index err)
           | Inr _ \<Rightarrow>
               (case assertSupportedRequestHeader (ev_type e) (the (obj_get snapshot ''data'')) of
                  Inl err \<Rightarrow> Inl (SeedUnsupported index err)
                | Inr _ \<Rightarrow>
                    if ev_seq e \<noteq> int index then Inl (SeedNotContiguous index (ev_seq e))
                    else
                      (case validateNext slog 0 m e of
                         (_, Some err) \<Rightarrow> Inl (SeedSurface index err)
                       | (m', None) \<Rightarrow> seedLoop (index + 1) (slog @ [e]) m' es))))"

definition validatedHeader ::
    "(string \<Rightarrow> bool) \<Rightarrow> string \<Rightarrow> session_header \<Rightarrow> session_error + session_header" where
  "validatedHeader isAbsolute sid h =
     (case validateSessionHeader isAbsolute sid (header_json h) of
        Inl err \<Rightarrow> Inl (BadSessionHeader err)
      | Inr _ \<Rightarrow> Inr h)"

definition minimalHeader :: "string \<Rightarrow> int \<Rightarrow> session_header" where
  "minimalHeader sid now =
     \<lparr>sh_version = SESSION_FORMAT_VERSION, sh_id = sid, sh_createdAt = now, sh_cwd = None,
      sh_parentSession = None, sh_seedLength = None, sh_subagent = False,
      sh_delegationDepth = None, sh_agentPreset = None\<rparr>"

text \<open>The object after its field initialisers ran, with the log and surface of the seed loop.\<close>

definition freshSession :: "session_header \<Rightarrow> session_event list \<Rightarrow> surface_manager \<Rightarrow> session" where
  "freshSession h slog m =
     \<lparr>ss_header = h, ss_firstLiveSeq = length slog, ss_log = slog, ss_surface = m,
      ss_eventsSnapshot = None, ss_headerFold = None, ss_headerFoldSeq = 0,
      ss_contextFold = None, ss_contextFoldSeq = 0,
      ss_derived = [], ss_derivedNodes = 0, ss_derivedGeneration = 0\<rparr>"

definition newSession ::
    "(string \<Rightarrow> bool) \<Rightarrow> string \<Rightarrow> int \<Rightarrow> seed_mode \<Rightarrow> session_event list option
      \<Rightarrow> session_header option \<Rightarrow> session_error + session" where
  "newSession isAbsolute sid now mode seed header =
     bindE
       (if mode = Restore then
          (case header of
             None \<Rightarrow> Inl (BadSessionHeader HeaderNotRecord)
           | Some h \<Rightarrow> map_sum id Some (validatedHeader isAbsolute sid h))
        else Inr None) (\<lambda>restoredHeader.
     bindE (seedLoop 0 [] (newSurfaceManager 0) (case seed of Some es \<Rightarrow> es | None \<Rightarrow> []))
       (\<lambda>(slog, m).
     bindE
       (case restoredHeader of
          Some h \<Rightarrow> Inr h
        | None \<Rightarrow> validatedHeader isAbsolute sid
                    (case header of Some h \<Rightarrow> h | None \<Rightarrow> minimalHeader sid now)) (\<lambda>h.
     let s = freshSession h slog m in
     if seed \<noteq> None \<and> (slog = [] \<or> ev_type (last slog) \<noteq> ''session/end-seed'')
     then (case appendEvent s None now EndSeed NoIntent of
             (_, Inl err) \<Rightarrow> Inl err
           | (s', Inr _) \<Rightarrow> Inr s')
     else Inr s)))"

section \<open>Cached reads\<close>

definition events :: "session \<Rightarrow> session \<times> session_event list" where
  "events s =
     (case ss_eventsSnapshot s of
        Some es \<Rightarrow> (s, es)
      | None \<Rightarrow> (s\<lparr>ss_eventsSnapshot := Some (ss_log s)\<rparr>, ss_log s))"

definition requestHeader :: "session \<Rightarrow> session \<times> epoch_header option" where
  "requestHeader s =
     (let s' = (if ss_headerFoldSeq s < length (ss_log s)
                then s\<lparr>ss_headerFold :=
                         foldRequestHeader (drop (ss_headerFoldSeq s) (ss_log s)) (ss_headerFold s),
                       ss_headerFoldSeq := length (ss_log s)\<rparr>
                else s)
      in (s', ss_headerFold s'))"

fun contextStep :: "request_context option \<Rightarrow> session_event \<Rightarrow> request_context option" where
  "contextStep c e = (case ev_data e of RequestContext r \<Rightarrow> Some r | _ \<Rightarrow> c)"

definition requestContext :: "session \<Rightarrow> session \<times> request_context option" where
  "requestContext s =
     (let s' = (if ss_contextFoldSeq s < length (ss_log s)
                then s\<lparr>ss_contextFold :=
                         foldl contextStep (ss_contextFold s) (drop (ss_contextFoldSeq s) (ss_log s)),
                       ss_contextFoldSeq := length (ss_log s)\<rparr>
                else s)
      in (s', ss_contextFold s'))"

text \<open>The projection of surface nodes; \<open>this.log[seq]\<close> is always in range (\<open>replay_nodes_bound\<close>).\<close>

definition nodeMessages :: "session_event list \<Rightarrow> int list \<Rightarrow> message list" where
  "nodeMessages slog nodes =
     List.map_filter (\<lambda>n. Option.bind (js_index slog n) deriveEventMessage) nodes"

definition deriveMessages :: "session \<Rightarrow> session \<times> (surface_error + message list)" where
  "deriveMessages s =
     (case managerNodes (ss_log s) 0 (ss_surface s) of
        (m, Inl err) \<Rightarrow> (s\<lparr>ss_surface := m\<rparr>, Inl err)
      | (m, Inr nodes) \<Rightarrow>
          (case managerGeneration (ss_log s) 0 m of
             (m', Inl err) \<Rightarrow> (s\<lparr>ss_surface := m'\<rparr>, Inl err)
           | (m', Inr generation) \<Rightarrow>
               let s1 = (if generation \<noteq> ss_derivedGeneration s
                         then s\<lparr>ss_surface := m', ss_derived := [], ss_derivedNodes := 0,
                                ss_derivedGeneration := generation\<rparr>
                         else s\<lparr>ss_surface := m'\<rparr>);
                   s2 = s1\<lparr>ss_derived := ss_derived s1
                             @ nodeMessages (ss_log s) (drop (ss_derivedNodes s1) nodes),
                           ss_derivedNodes := length nodes\<rparr>
               in (s2, Inr (ss_derived s2))))"

section \<open>Fork seeds\<close>

datatype fork_error = InvalidBoundary | OpenTurn int

fun isTurnBoundary :: "event_data \<Rightarrow> bool" where
  "isTurnBoundary (TurnStart _) = True"
| "isTurnBoundary (TurnEnd _ _) = True"
| "isTurnBoundary _ = False"

text \<open>A requested boundary is an arbitrary number; the code tests \<open>Number.isSafeInteger\<close>.\<close>

definition forkSeed :: "session_event list \<Rightarrow> rat option \<Rightarrow> fork_error + session_event list" where
  "forkSeed evs requested =
     (if requested = None \<and> evs = [] then Inr []
      else
        let boundary = (case requested of Some b \<Rightarrow> b | None \<Rightarrow> of_int (ev_seq (last evs))) in
        if \<not> isSafeInteger boundary \<or> boundary < 0 then Inl InvalidBoundary
        else if of_nat (length evs) \<le> boundary then Inl InvalidBoundary
        else
          let b = nat \<lfloor>boundary\<rfloor> in
          if of_int (ev_seq (evs ! b)) \<noteq> boundary then Inl InvalidBoundary
          else
            (case map_option ev_data (findLast (\<lambda>e. isTurnBoundary (ev_data e)) (take (b + 1) evs)) of
               Some (TurnStart t) \<Rightarrow> Inl (OpenTurn t)
             | _ \<Rightarrow> Inr (take (b + 1) evs)))"

section \<open>Facts about the folds\<close>

lemma foldRequestHeader_append:
  "foldRequestHeader (xs @ ys) from = foldRequestHeader ys (foldRequestHeader xs from)"
  by (induction xs arbitrary: "from") simp_all

lemma canonicalHeader_idem [simp]: "canonicalHeader (canonicalHeader h) = canonicalHeader h"
  by (simp add: canonicalHeader_def split: option.split)

lemma callConfigEquals_iff [simp]: "callConfigEquals a b \<longleftrightarrow> a = (b :: call_config)"
  by (auto simp: callConfigEquals_def list.rel_eq dest: list_all2_lengthD split: option.splits)

lemma sameSchema_eq [simp]: "sameSchema = (=)"
  by (simp add: sameSchema_def fun_eq_iff)

lemma replay_prefix_nodes:
  assumes "surfaceReplay 0 (xs @ ys) = Inr (evs', st', reps')" "surfaceReplay 0 xs = Inr (evs, st, reps)"
  shows "length reps \<le> length reps' \<and>
    (length reps' = length reps \<longrightarrow> (\<exists>zs. sf_nodes st' = sf_nodes st @ zs))"
  using assms(1)
proof (induction ys arbitrary: evs' st' reps' rule: rev_induct)
  case Nil
  with assms(2) show ?case by simp
next
  case (snoc y ys)
  from snoc.prems have "foldE (surfaceStep 0) surfaceStart ((xs @ ys) @ [y]) = Inr (evs', st', reps')"
    by simp
  then obtain t where t: "surfaceReplay 0 (xs @ ys) = Inr t" "surfaceStep 0 t y = Inr (evs', st', reps')"
    unfolding foldE_snoc_Inr by blast
  obtain evs1 st1 reps1 where t': "t = (evs1, st1, reps1)" by (cases t)
  note IH = snoc.IH [OF t(1) [unfolded t']]
  from t(2) [unfolded t'] show ?case
    by (cases rule: surfaceStep_cases) (use IH in \<open>auto\<close>)
qed

lemma nodeMessages_prefix:
  assumes "foldSurface xs = Inr (nodes, reps)"
  shows "nodeMessages (xs @ ys) nodes = nodeMessages xs nodes"
proof -
  from assms obtain st where r: "surfaceReplay 0 xs = Inr (xs, st, reps)" "nodes = sf_nodes st"
    by (auto simp: foldSurface_Inr)
  have "Option.bind (js_index (xs @ ys) n) f = Option.bind (js_index xs n) f"
    if "n \<in> set nodes" for n and f :: "session_event \<Rightarrow> message option"
    using replay_nodes_bound [OF surface_replay.replay_inv [OF r(1)]] that r(2)
    by (simp add: js_index_append1)
  then show ?thesis
    unfolding nodeMessages_def by (induction nodes) (auto split: option.split)
qed

lemma nodeMessages_append [simp]:
  "nodeMessages xs (ns @ ms) = nodeMessages xs ns @ nodeMessages xs ms"
  by (simp add: nodeMessages_def List.map_filter_def)

section \<open>The caches never drift\<close>

definition derived_ok :: "session \<Rightarrow> bool" where
  "derived_ok s \<longleftrightarrow> (\<exists>k nodes reps. k \<le> length (ss_log s)
     \<and> foldSurface (take k (ss_log s)) = Inr (nodes, reps)
     \<and> ss_derivedGeneration s = length reps \<and> ss_derivedNodes s = length nodes
     \<and> ss_derived s = nodeMessages (take k (ss_log s)) nodes)"

lemma derived_ok_update [simp]:
  "derived_ok (s\<lparr>ss_surface := m\<rparr>) = derived_ok s"
  "derived_ok (s\<lparr>ss_eventsSnapshot := es\<rparr>) = derived_ok s"
  "derived_ok (s\<lparr>ss_headerFold := h, ss_headerFoldSeq := n\<rparr>) = derived_ok s"
  "derived_ok (s\<lparr>ss_contextFold := c, ss_contextFoldSeq := n\<rparr>) = derived_ok s"
  by (simp_all add: derived_ok_def)

definition session_ok :: "session \<Rightarrow> bool" where
  "session_ok s \<longleftrightarrow>
     isl (foldSurface (ss_log s)) = False
     \<and> manager_ok 0 (ss_log s) (ss_surface s)
     \<and> (ss_eventsSnapshot s = None \<or> ss_eventsSnapshot s = Some (ss_log s))
     \<and> ss_headerFoldSeq s \<le> length (ss_log s)
     \<and> ss_headerFold s = foldRequestHeader (take (ss_headerFoldSeq s) (ss_log s)) None
     \<and> ss_contextFoldSeq s \<le> length (ss_log s)
     \<and> ss_contextFold s = foldl contextStep None (take (ss_contextFoldSeq s) (ss_log s))
     \<and> derived_ok s"

lemma derived_ok_grow:
  assumes "derived_ok s" "ss_log s' = ss_log s @ later" "ss_derived s' = ss_derived s"
    "ss_derivedNodes s' = ss_derivedNodes s" "ss_derivedGeneration s' = ss_derivedGeneration s"
  shows "derived_ok s'"
proof -
  from assms(1) obtain k nodes reps where "k \<le> length (ss_log s)"
    "foldSurface (take k (ss_log s)) = Inr (nodes, reps)" "ss_derivedGeneration s = length reps"
    "ss_derivedNodes s = length nodes" "ss_derived s = nodeMessages (take k (ss_log s)) nodes"
    unfolding derived_ok_def by blast
  with assms(2-) show ?thesis
    unfolding derived_ok_def by (intro exI [of _ k] exI [of _ nodes] exI [of _ reps]) simp
qed

lemma foldSurface_ok_iff: "\<not> isl (foldSurface xs) \<longleftrightarrow> \<not> isl (surfaceReplay 0 xs)"
  by (cases "surfaceReplay 0 xs") (auto simp: foldSurface_replay)

text \<open>\<open>appendEvent\<close> in one lemma: it either adds exactly one event to the log, or leaves the log alone.\<close>

lemma append_cases:
  assumes "appendEvent s entry now d intent = (s', r)"
  obtains (rejected) err m where "r = Inl err" "s' = s\<lparr>ss_surface := m\<rparr>"
      "m = ss_surface s \<or> (\<exists>e. m = fst (validateNext (ss_log s) 0 (ss_surface s) e))"
  | (accepted) e op srcs m where "r = Inr e" "validateNext (ss_log s) 0 (ss_surface s) e = (m, None)"
      "e = \<lparr>ev_seq = int (length (ss_log s)), ev_time = now, ev_data = d,
            ev_surfaceOp = op, ev_sourceEventSeqs = srcs, ev_ignorable = False\<rparr>"
      "surfaceMetadataSnapshot intent = Some (op, srcs)"
      "s' = s\<lparr>ss_surface := m, ss_log := ss_log s @ [e], ss_eventsSnapshot := None\<rparr>"
proof -
  have same: "s = s\<lparr>ss_surface := ss_surface s\<rparr>" by simp
  show thesis
  proof (cases "\<exists>j u op srcs. data_json d = Some j
      \<and> assertSupportedRequestHeader (event_type d) j = Inr u
      \<and> surfaceMetadataSnapshot intent = Some (op, srcs)
      \<and> \<not> (case entry of Some a \<Rightarrow> at_appending a | None \<Rightarrow> False)")
    case False
    then have "s' = s \<and> isl r"
      using assms unfolding appendEvent_def by (auto split: option.splits sum.splits if_splits)
    with rejected same show thesis by (metis isl_def)
  next
    case True
    then obtain j u op srcs where ok: "data_json d = Some j"
      "assertSupportedRequestHeader (event_type d) j = Inr u"
      "surfaceMetadataSnapshot intent = Some (op, srcs)"
      "\<not> (case entry of Some a \<Rightarrow> at_appending a | None \<Rightarrow> False)" by blast
    let ?e = "\<lparr>ev_seq = int (length (ss_log s)), ev_time = now, ev_data = d,
            ev_surfaceOp = op, ev_sourceEventSeqs = srcs, ev_ignorable = False\<rparr>"
    obtain m verr where v: "validateNext (ss_log s) 0 (ss_surface s) ?e = (m, verr)" by force
    then have m: "m = fst (validateNext (ss_log s) 0 (ss_surface s) ?e)" by simp
    show thesis
    proof (cases verr)
      case (Some err)
      with assms ok v have "r = Inl (SurfaceRejected err)" "s' = s\<lparr>ss_surface := m\<rparr>"
        by (auto simp: appendEvent_def Let_def)
      from rejected [OF this] m show thesis by blast
    next
      case None
      show thesis
      proof (cases "case entry of Some a \<Rightarrow> at_veto a ?e | None \<Rightarrow> False")
        case True
        with assms ok v None have "r = Inl DispatchVetoed" "s' = s\<lparr>ss_surface := m\<rparr>"
          by (auto simp: appendEvent_def Let_def)
        from rejected [OF this] m show thesis by blast
      next
        case False
        with assms ok v None have "r = Inr ?e"
          "s' = s\<lparr>ss_surface := m, ss_log := ss_log s @ [?e], ss_eventsSnapshot := None\<rparr>"
          by (auto simp: appendEvent_def Let_def)
        from accepted [OF this(1) v [unfolded None] refl ok(3) this(2)] show thesis .
      qed
    qed
  qed
qed

lemma append_ok:
  assumes "session_ok s" "appendEvent s entry now d intent = (s', r)"
  shows "session_ok s'"
  using assms(2)
proof (cases rule: append_cases)
  case (rejected err m)
  with assms(1) have "manager_ok 0 (ss_log s) m"
    by (auto simp: session_ok_def validateNext_tracks(1))
  moreover have "derived_ok s'"
    by (rule derived_ok_grow [of s s' "[]"]) (use assms(1) rejected in \<open>auto simp: session_ok_def\<close>)
  ultimately show ?thesis
    using assms(1) rejected by (simp add: session_ok_def)
next
  case (accepted e op srcs m)
  have ok: "manager_ok 0 (ss_log s) (ss_surface s)" using assms(1) by (simp add: session_ok_def)
  have "\<not> isl (surfaceReplay 0 (ss_log s @ [e]))"
    using validateNext_tracks(2) [OF ok, of e] accepted(2)
    by (cases "surfaceReplay 0 (ss_log s @ [e])") auto
  moreover have "manager_ok 0 (ss_log s @ [e]) m"
    using validateNext_tracks(1) [OF ok, of e] accepted(2) by (simp add: manager_ok_grow)
  moreover have "derived_ok s'"
    by (rule derived_ok_grow [of s s' "[e]"]) (use assms(1) accepted in \<open>auto simp: session_ok_def\<close>)
  ultimately show ?thesis
    using assms(1) accepted by (simp add: session_ok_def foldSurface_ok_iff)
qed

lemma session_ok_replay:
  assumes "session_ok s"
  obtains nodes reps where "foldSurface (ss_log s) = Inr (nodes, reps)"
  using assms by (cases "foldSurface (ss_log s)") (auto simp: session_ok_def)

lemma events_ok:
  assumes "session_ok s" "events s = (s', es)"
  shows "session_ok s' \<and> ss_log s' = ss_log s \<and> es = ss_log s"
  using assms by (auto simp: events_def session_ok_def split: option.splits)

lemma requestHeader_ok:
  assumes "session_ok s" "requestHeader s = (s', h)"
  shows "session_ok s' \<and> ss_log s' = ss_log s \<and> h = foldRequestHeader (ss_log s) None"
proof -
  let ?n = "ss_headerFoldSeq s"
  have "foldRequestHeader (take ?n (ss_log s) @ drop ?n (ss_log s)) None
      = foldRequestHeader (drop ?n (ss_log s)) (ss_headerFold s)"
    using assms(1) unfolding session_ok_def foldRequestHeader_append by simp
  then have new: "foldRequestHeader (drop ?n (ss_log s)) (ss_headerFold s) = foldRequestHeader (ss_log s) None"
    by simp
  show ?thesis
  proof (cases "?n < length (ss_log s)")
    case True
    with assms(2) new have "s' = s\<lparr>ss_headerFold := foldRequestHeader (ss_log s) None,
        ss_headerFoldSeq := length (ss_log s)\<rparr>" "h = foldRequestHeader (ss_log s) None"
      by (auto simp: requestHeader_def)
    with assms(1) show ?thesis by (simp add: session_ok_def)
  next
    case False
    with assms show ?thesis by (auto simp: requestHeader_def session_ok_def)
  qed
qed

lemma requestContext_ok:
  assumes "session_ok s" "requestContext s = (s', c)"
  shows "session_ok s' \<and> ss_log s' = ss_log s \<and> c = foldl contextStep None (ss_log s)"
proof -
  let ?n = "ss_contextFoldSeq s"
  have "foldl contextStep None (take ?n (ss_log s) @ drop ?n (ss_log s))
      = foldl contextStep (ss_contextFold s) (drop ?n (ss_log s))"
    using assms(1) unfolding session_ok_def foldl_append by simp
  then have new: "foldl contextStep (ss_contextFold s) (drop ?n (ss_log s)) = foldl contextStep None (ss_log s)"
    by simp
  show ?thesis
  proof (cases "?n < length (ss_log s)")
    case True
    with assms(2) new have "s' = s\<lparr>ss_contextFold := foldl contextStep None (ss_log s),
        ss_contextFoldSeq := length (ss_log s)\<rparr>" "c = foldl contextStep None (ss_log s)"
      by (auto simp: requestContext_def)
    with assms(1) show ?thesis by (simp add: session_ok_def)
  next
    case False
    with assms show ?thesis by (auto simp: requestContext_def session_ok_def)
  qed
qed

text \<open>
  The derived-message cache: as long as no replacement was folded since it was built, the surface
  it was built from is a prefix of the current one.
\<close>

lemma derived_prefix:
  assumes "derived_ok s" "foldSurface (ss_log s) = Inr (nodes, reps)" "ss_derivedGeneration s = length reps"
  shows "nodeMessages (ss_log s) nodes =
    ss_derived s @ nodeMessages (ss_log s) (drop (ss_derivedNodes s) nodes)"
proof -
  let ?L = "ss_log s"
  from assms(1) obtain k ns rs where k: "k \<le> length ?L" "foldSurface (take k ?L) = Inr (ns, rs)"
    "ss_derivedGeneration s = length rs" "ss_derivedNodes s = length ns"
    "ss_derived s = nodeMessages (take k ?L) ns"
    unfolding derived_ok_def by blast
  obtain st where st: "surfaceReplay 0 (take k ?L @ drop k ?L) = Inr (?L, st, reps)" "nodes = sf_nodes st"
    using assms(2) by (auto simp: foldSurface_Inr)
  obtain st0 where st0: "surfaceReplay 0 (take k ?L) = Inr (take k ?L, st0, rs)" "ns = sf_nodes st0"
    using k(2) by (auto simp: foldSurface_Inr)
  from replay_prefix_nodes [OF st(1) st0(1)] k(3) assms(3) st(2) st0(2)
  obtain zs where zs: "nodes = ns @ zs" by auto
  have "nodeMessages (take k ?L @ drop k ?L) ns = nodeMessages (take k ?L) ns"
    by (rule nodeMessages_prefix [OF k(2)])
  with zs k show ?thesis by simp
qed

lemma deriveMessages_ok:
  assumes "session_ok s" "deriveMessages s = (s', r)"
  shows "session_ok s' \<and> ss_log s' = ss_log s
    \<and> r = bindE (foldSurface (ss_log s)) (\<lambda>(nodes, _). Inr (nodeMessages (ss_log s) nodes))"
proof -
  let ?L = "ss_log s"
  obtain nodes reps where f: "foldSurface ?L = Inr (nodes, reps)"
    by (rule session_ok_replay [OF assms(1)])
  have m0: "manager_ok 0 ?L (ss_surface s)" and d: "derived_ok s"
    using assms(1) by (simp_all add: session_ok_def)
  obtain m where m: "managerNodes ?L 0 (ss_surface s) = (m, Inr nodes)" "manager_ok 0 ?L m"
    using managerNodes_tracks(1,2) [OF m0] f by (cases "managerNodes ?L 0 (ss_surface s)") auto
  obtain m' where m': "managerGeneration ?L 0 m = (m', Inr (length reps))" "manager_ok 0 ?L m'"
    using managerNodes_tracks(1,3) [OF m(2)] f
    by (cases "managerGeneration ?L 0 m"; cases "catchUp ?L 0 m")
       (auto simp: managerNodes_def managerGeneration_def split: option.splits)
  have new: "derived_ok t" if "ss_log t = ?L" "ss_derived t = nodeMessages ?L nodes"
    "ss_derivedNodes t = length nodes" "ss_derivedGeneration t = length reps" for t
    unfolding derived_ok_def
    using that f by (intro exI [of _ "length ?L"] exI [of _ nodes] exI [of _ reps]) simp
  have "session_ok s' \<and> ss_log s' = ?L \<and> r = Inr (nodeMessages ?L nodes)"
  proof (cases "ss_derivedGeneration s = length reps")
    case True
    with assms(2) m(1) m' derived_prefix [OF d f True]
    have "s' = s\<lparr>ss_surface := m', ss_derived := nodeMessages ?L nodes, ss_derivedNodes := length nodes\<rparr>"
      "r = Inr (nodeMessages ?L nodes)"
      by (auto simp: deriveMessages_def Let_def)
    with True assms(1) m' show ?thesis by (auto simp: session_ok_def intro: new)
  next
    case False
    with assms(2) m(1) m'
    have "s' = s\<lparr>ss_surface := m', ss_derived := nodeMessages ?L nodes, ss_derivedNodes := length nodes,
          ss_derivedGeneration := length reps\<rparr>"
      "r = Inr (nodeMessages ?L nodes)"
      by (auto simp: deriveMessages_def Let_def)
    with assms(1) m' show ?thesis by (auto simp: session_ok_def intro: new)
  qed
  with f show ?thesis by simp
qed

lemma deriveMessages_value:
  assumes "session_ok s" "foldSurface (ss_log s) = Inr (nodes, reps)"
  shows "snd (deriveMessages s) = Inr (nodeMessages (ss_log s) nodes)"
proof -
  have "snd (deriveMessages s) = bindE (foldSurface (ss_log s)) (\<lambda>(nodes, _). Inr (nodeMessages (ss_log s) nodes))"
    using deriveMessages_ok [OF assms(1) surjective_pairing] by blast
  with assms(2) show ?thesis by simp
qed

section \<open>Any use of a session\<close>

datatype session_call =
    CallAppend "attachment option" int event_data surface_intent
  | CallEvents
  | CallRequestHeader
  | CallRequestContext
  | CallDeriveMessages

fun sessionCall :: "session \<Rightarrow> session_call \<Rightarrow> session" where
  "sessionCall s (CallAppend entry now d intent) = fst (appendEvent s entry now d intent)"
| "sessionCall s CallEvents = fst (events s)"
| "sessionCall s CallRequestHeader = fst (requestHeader s)"
| "sessionCall s CallRequestContext = fst (requestContext s)"
| "sessionCall s CallDeriveMessages = fst (deriveMessages s)"

lemma sessionCall_ok:
  assumes "session_ok s"
  shows "session_ok (sessionCall s c) \<and> (\<exists>later. ss_log (sessionCall s c) = ss_log s @ later)"
proof (cases c)
  case (CallAppend entry now d intent)
  obtain s' r where a: "appendEvent s entry now d intent = (s', r)" by force
  then have "\<exists>later. ss_log s' = ss_log s @ later"
    by (cases rule: append_cases) auto
  with a CallAppend append_ok [OF assms a] show ?thesis by simp
next
  case CallEvents
  with events_ok [OF assms] show ?thesis by (cases "events s") auto
next
  case CallRequestHeader
  with requestHeader_ok [OF assms] show ?thesis by (cases "requestHeader s") auto
next
  case CallRequestContext
  with requestContext_ok [OF assms] show ?thesis by (cases "requestContext s") auto
next
  case CallDeriveMessages
  with deriveMessages_ok [OF assms] show ?thesis by (cases "deriveMessages s") auto
qed

lemma sessionCalls_ok:
  "session_ok s \<Longrightarrow> session_ok (foldl sessionCall s calls)
    \<and> (\<exists>later. ss_log (foldl sessionCall s calls) = ss_log s @ later)"
proof (induction calls arbitrary: s)
  case Nil
  then show ?case by simp
next
  case (Cons c calls)
  with sessionCall_ok [OF Cons.prems, of c] show ?case by force
qed

section \<open>What a seed must be\<close>

definition seed_event_ok :: "session_event \<Rightarrow> bool" where
  "seed_event_ok e \<longleftrightarrow>
     (case event_json e of
        None \<Rightarrow> False
      | Some v \<Rightarrow> assertSessionEventEnvelope v = Inr ()
          \<and> assertSupportedRequestHeader (ev_type e) (the (obj_get v ''data'')) = Inr ())"

lemma seed_event_ok_typed:
  assumes "tagged (ev_data e)"
  shows "seed_event_ok e \<longleftrightarrow> goodEvent e"
proof (cases "event_json e")
  case None
  then show ?thesis by (auto simp: seed_event_ok_def goodEvent_def event_json_def)
next
  case (Some v)
  from envelope_typed [OF this assms] Some show ?thesis by (simp add: seed_event_ok_def)
qed

lemma seedLoop_Inr:
  assumes "seedLoop (length slog) slog m es = Inr (slog', m')" "manager_ok 0 slog m"
    "\<not> isl (surfaceReplay 0 slog)"
  shows "slog' = slog @ es \<and> manager_ok 0 slog' m' \<and> \<not> isl (surfaceReplay 0 slog')
    \<and> (\<forall>e \<in> set es. seed_event_ok e)"
  using assms
proof (induction es arbitrary: slog m)
  case Nil
  then show ?case by simp
next
  case (Cons e es)
  from Cons.prems(1) obtain m1 where e: "seed_event_ok e" "validateNext slog 0 m e = (m1, None)"
    and rest: "seedLoop (length (slog @ [e])) (slog @ [e]) m1 es = Inr (slog', m')"
    by (auto simp: seed_event_ok_def split: option.splits sum.splits prod.splits if_splits)
  note v = validateNext_tracks [OF Cons.prems(2), of e]
  have "manager_ok 0 (slog @ [e]) m1"
    using v(1) e(2) by (simp add: manager_ok_grow)
  moreover have "\<not> isl (surfaceReplay 0 (slog @ [e]))"
    using v(2) e(2) by (cases "surfaceReplay 0 (slog @ [e])") auto
  ultimately show ?case
    using Cons.IH [OF rest] e(1) by auto
qed

lemma seedLoop_accepts:
  assumes "\<not> isl (surfaceReplay 0 (slog @ es))" "manager_ok 0 slog m" "\<forall>e \<in> set es. seed_event_ok e"
  shows "\<exists>m'. seedLoop (length slog) slog m es = Inr (slog @ es, m')"
  using assms
proof (induction es arbitrary: slog m)
  case Nil
  then show ?case by simp
next
  case (Cons e es)
  from Cons.prems(1) obtain u where "surfaceReplay 0 ((slog @ [e]) @ es) = Inr u"
    by (cases "surfaceReplay 0 (slog @ e # es)") auto
  then obtain t' where t': "surfaceReplay 0 (slog @ [e]) = Inr t'"
    by (blast dest: foldE_prefix)
  then obtain t where t: "surfaceReplay 0 slog = Inr t" "surfaceStep 0 t e = Inr t'"
    unfolding foldE_snoc_Inr by blast
  obtain evs st reps where st: "t = (evs, st, reps)" by (cases t)
  have seq: "ev_seq e = int (length slog)"
    using t st replay_log [of 0 slog evs st reps]
    by (auto simp: surfaceStep_def applySurfaceEvent_def planSurfaceEvent_def result_simps split: if_splits)
  obtain m1 where m1: "validateNext slog 0 m e = (m1, None)" "manager_ok 0 (slog @ [e]) m1"
    using validateNext_tracks [OF Cons.prems(2), of e] t'
    by (cases "validateNext slog 0 m e") (auto simp: manager_ok_grow)
  from Cons.prems obtain m' where "seedLoop (length (slog @ [e])) (slog @ [e]) m1 es = Inr (slog @ e # es, m')"
    using Cons.IH [of "slog @ [e]" m1] m1(2) by auto
  with m1 seq Cons.prems(3) show ?case
    by (auto simp: seed_event_ok_def split: option.splits)
qed

text \<open>The end-seed marker is always accepted.\<close>

lemma append_EndSeed:
  assumes "session_ok s"
  shows "\<exists>s' e. appendEvent s None now EndSeed NoIntent = (s', Inr e) \<and> ss_log s' = ss_log s @ [e]
    \<and> ev_data e = EndSeed \<and> ss_firstLiveSeq s' = ss_firstLiveSeq s \<and> ss_header s' = ss_header s"
proof -
  let ?e = "\<lparr>ev_seq = int (length (ss_log s)), ev_time = now, ev_data = EndSeed,
            ev_surfaceOp = None, ev_sourceEventSeqs = None, ev_ignorable = False\<rparr>"
  have ok: "manager_ok 0 (ss_log s) (ss_surface s)" using assms by (simp add: session_ok_def)
  obtain nodes reps where "foldSurface (ss_log s) = Inr (nodes, reps)"
    by (rule session_ok_replay [OF assms])
  then obtain st where "surfaceReplay 0 (ss_log s) = Inr (ss_log s, st, reps)"
    by (auto simp: foldSurface_Inr)
  then have "\<not> isl (surfaceReplay 0 (ss_log s @ [?e]))"
    by (simp add: foldE_append surfaceStep_def applySurfaceEvent_def planSurfaceEvent_def surfaceOpOf_def
        isSurfaceEligibleType_def SURFACE_EVENT_TYPES_def)
  then obtain m where "validateNext (ss_log s) 0 (ss_surface s) ?e = (m, None)"
    using validateNext_tracks(2) [OF ok, of ?e]
    by (cases "validateNext (ss_log s) 0 (ss_surface s) ?e"; cases "surfaceReplay 0 (ss_log s @ [?e])") auto
  then show ?thesis
    by (simp add: appendEvent_def assertSupportedRequestHeader_def Let_def)
qed

lemma freshSession_simps [simp]:
  "ss_log (freshSession h slog m) = slog" "ss_firstLiveSeq (freshSession h slog m) = length slog"
  "ss_header (freshSession h slog m) = h"
  by (simp_all add: freshSession_def)

lemma session_ok_fresh:
  assumes "manager_ok 0 slog m" "\<not> isl (surfaceReplay 0 slog)"
  shows "session_ok (freshSession h slog m)"
proof -
  have "foldSurface [] = Inr ([], [])" by (simp add: foldSurface_def createFoldState_def)
  then show ?thesis
    using assms by (auto simp: freshSession_def session_ok_def derived_ok_def foldSurface_ok_iff nodeMessages_def
        intro!: exI [of _ 0])
qed

lemma newSession_cases:
  assumes "newSession isAbsolute sid now mode seed header = Inr s"
  obtains (plain) "ss_log s = (case seed of Some es \<Rightarrow> es | None \<Rightarrow> [])" "session_ok s"
      "seed \<noteq> None \<longrightarrow> ss_log s \<noteq> [] \<and> ev_type (last (ss_log s)) = ''session/end-seed''"
      "ss_firstLiveSeq s = length (ss_log s)"
  | (marked) es e where "seed = Some es" "ss_log s = es @ [e]" "ev_data e = EndSeed" "session_ok s"
      "ss_firstLiveSeq s = length es"
proof -
  let ?es = "case seed of Some es \<Rightarrow> es | None \<Rightarrow> []"
  from assms obtain p h where loop: "seedLoop 0 [] (newSurfaceManager 0) ?es = Inr p"
    and fin: "(case p of (slog, m) \<Rightarrow>
     let s = freshSession h slog m in
     if seed \<noteq> None \<and> (slog = [] \<or> ev_type (last slog) \<noteq> ''session/end-seed'')
     then (case appendEvent s None now EndSeed NoIntent of
             (_, Inl err) \<Rightarrow> Inl err
           | (s', Inr _) \<Rightarrow> Inr s')
     else Inr s) = Inr s"
    unfolding newSession_def bindE_Inr_iff by (auto simp: result_simps)
  obtain slog m where p: "p = (slog, m)" by (cases p)
  have l: "slog = ?es" "manager_ok 0 slog m" "\<not> isl (surfaceReplay 0 slog)"
    using seedLoop_Inr [of "[]" "newSurfaceManager 0" ?es slog m] loop p
    by (auto simp: manager_ok_new surfaceStart_def)
  let ?s0 = "freshSession h slog m"
  have ok: "session_ok ?s0"
    by (rule session_ok_fresh [OF l(2,3)])
  show thesis
  proof (cases "seed \<noteq> None \<and> (slog = [] \<or> ev_type (last slog) \<noteq> ''session/end-seed'')")
    case True
    obtain s' e where a: "appendEvent ?s0 None now EndSeed NoIntent = (s', Inr e)" "ss_log s' = slog @ [e]"
      "ev_data e = EndSeed" "ss_firstLiveSeq s' = length slog"
      using append_EndSeed [OF ok, of now] by auto
    with True fin p have "s = s'" by (simp add: Let_def)
    moreover have "session_ok s'" by (rule append_ok [OF ok a(1)])
    ultimately show thesis
      using marked a True l(1) by (cases seed) auto
  next
    case False
    with fin p have "s = ?s0" by (auto simp: Let_def split: if_splits)
    with plain ok l(1) False show thesis by auto
  qed
qed

lemma newSession_ok: "newSession isAbsolute sid now mode seed header = Inr s \<Longrightarrow> session_ok s"
  by (erule newSession_cases) simp_all

text \<open>A well-formed log, with a valid header, can always be opened again.\<close>

lemma newSession_accepts:
  assumes "\<not> isl (foldSurface es)" "\<forall>e \<in> set es. seed_event_ok e"
    "validateSessionHeader isAbsolute sid (header_json h) = Inr (header_json h)"
  shows "\<exists>s. newSession isAbsolute sid now mode (Some es) (Some h) = Inr s"
proof -
  obtain m where m: "seedLoop 0 [] (newSurfaceManager 0) es = Inr (es, m)"
    using seedLoop_accepts [of "[]" es "newSurfaceManager 0"] assms(1,2)
    by (auto simp: manager_ok_new foldSurface_ok_iff)
  then have "manager_ok 0 es m" "\<not> isl (surfaceReplay 0 es)"
    using seedLoop_Inr [of "[]" "newSurfaceManager 0" es es m] by (auto simp: manager_ok_new surfaceStart_def)
  then show ?thesis
    using m assms(3) append_EndSeed [OF session_ok_fresh [of es m h], of now]
    by (auto simp: newSession_def validatedHeader_def Let_def)
qed

section \<open>The log as a service\<close>

text \<open>
  What the owners of durable projections (inboxes, retry state, the agent driver) rely on: an append
  either adds one event carrying their data at the next sequence number, or changes nothing.
\<close>

locale event_log =
  fixes app :: "'s \<Rightarrow> event_data \<Rightarrow> 's \<times> ('e + session_event)"
    and contents :: "'s \<Rightarrow> session_event list"
    and valid :: "'s \<Rightarrow> bool"
  assumes app_Inr: "\<lbrakk>valid s; app s d = (s', Inr e)\<rbrakk> \<Longrightarrow>
      contents s' = contents s @ [e] \<and> ev_data e = d \<and> ev_seq e = int (length (contents s))"
    and app_Inl: "\<lbrakk>valid s; app s d = (s', Inl err)\<rbrakk> \<Longrightarrow> contents s' = contents s"
    and app_valid: "\<lbrakk>valid s; app s d = (s', r)\<rbrakk> \<Longrightarrow> valid s'"
begin

lemma app_data:
  assumes "valid s" "app s d = (s', r)"
  shows "map ev_data (contents s') = map ev_data (contents s) @ (if isl r then [] else [d])"
  using assms app_Inr [OF assms(1), of d s'] app_Inl [OF assms(1), of d s'] by (cases r) auto

text \<open>A projection that is a fold over the events agrees with the log after every append.\<close>

lemma app_fold:
  assumes "valid s" "app s d = (s', Inr e)" "foldE f st (map ev_data (contents s)) = Inr p" "f p d = Inr p'"
  shows "foldE f st (map ev_data (contents s')) = Inr p'"
  using assms app_data [OF assms(1,2)] by (simp add: foldE_append)

end

interpretation session_log:
  event_log "\<lambda>s d. appendEvent s entry now d intent" ss_log session_ok
  for entry now intent
proof unfold_locales
  fix s d s' e
  assume "appendEvent s entry now d intent = (s', Inr e)"
  then show "ss_log s' = ss_log s @ [e] \<and> ev_data e = d \<and> ev_seq e = int (length (ss_log s))"
    by (cases rule: append_cases) auto
next
  fix s d s' err
  assume "appendEvent s entry now d intent = (s', Inl err)"
  then show "ss_log s' = ss_log s" by (cases rule: append_cases) auto
next
  fix s d s' r
  assume "session_ok s" "appendEvent s entry now d intent = (s', r)"
  then show "session_ok s'" by (rule append_ok)
qed

text \<open>Appending an event that carries no message leaves the derived messages alone.\<close>

lemma derived_EndSeed:
  assumes "session_ok s" "session_ok s'" "ss_log s' = ss_log s @ [e]" "ev_data e = EndSeed"
  shows "snd (deriveMessages s') = snd (deriveMessages s)"
proof -
  obtain nodes reps where f: "foldSurface (ss_log s) = Inr (nodes, reps)"
    by (rule session_ok_replay [OF assms(1)])
  then obtain st where st: "surfaceReplay 0 (ss_log s) = Inr (ss_log s, st, reps)" "nodes = sf_nodes st"
    by (auto simp: foldSurface_Inr)
  obtain nodes' reps' where f': "foldSurface (ss_log s') = Inr (nodes', reps')"
    by (rule session_ok_replay [OF assms(2)])
  then obtain st' where st': "surfaceReplay 0 (ss_log s @ [e]) = Inr (ss_log s', st', reps')" "nodes' = sf_nodes st'"
    using assms(3) by (auto simp: foldSurface_Inr)
  have "surfaceStep 0 (ss_log s, st, reps) e = Inr (ss_log s', st', reps')"
    using st' st(1) unfolding foldE_snoc_Inr by auto
  then have "nodes' = nodes"
    using assms(4) st(2) st'(2)
    by (cases rule: surfaceStep_cases) (auto simp: isSurfaceEligibleType_def SURFACE_EVENT_TYPES_def)
  moreover have "nodeMessages (ss_log s') nodes = nodeMessages (ss_log s) nodes"
    using nodeMessages_prefix [OF f] assms(3) by simp
  ultimately show ?thesis
    by (simp only: deriveMessages_value [OF assms(1) f] deriveMessages_value [OF assms(2) f'])
qed

lemma forkSeed_Inr:
  assumes "forkSeed evs requested = Inr seed"
  obtains n where "seed = take n evs"
    "\<And>e t. findLast (\<lambda>e. isTurnBoundary (ev_data e)) seed = Some e \<Longrightarrow> ev_data e \<noteq> TurnStart t"
proof (cases "requested = None \<and> evs = []")
  case True
  with assms that [of 0] show thesis by (simp add: forkSeed_def)
next
  case False
  define boundary where "boundary = (case requested of Some b \<Rightarrow> b | None \<Rightarrow> of_int (ev_seq (last evs)))"
  let ?seed = "take (nat \<lfloor>boundary\<rfloor> + 1) evs"
  have "(case map_option ev_data (findLast (\<lambda>e. isTurnBoundary (ev_data e)) ?seed) of
           Some (TurnStart t) \<Rightarrow> Inl (OpenTurn t) | _ \<Rightarrow> Inr ?seed) = Inr seed"
    using assms False unfolding forkSeed_def boundary_def [symmetric] Let_def
    by (simp only: if_False Inr_if_iff)
  then have "seed = ?seed" "\<And>e t. findLast (\<lambda>e. isTurnBoundary (ev_data e)) ?seed = Some e \<Longrightarrow> ev_data e \<noteq> TurnStart t"
    by (auto split: option.splits event_data.splits)
  with that show thesis by blast
qed

section \<open>A sample session\<close>

definition samplePrompt :: event_data where
  "samplePrompt = UserMessage (sampleMessage ''a'')"

definition sampleSession :: session where
  "sampleSession = freshSession (minimalHeader ''s'' 0) [] (newSurfaceManager 0)"

definition sampleCalls :: "session_call list" where
  "sampleCalls =
     [CallAppend None 5 (TurnStart 1) NoIntent, CallDeriveMessages,
      CallAppend None 6 samplePrompt (Intent (Some op_append) None),
      CallAppend None 7 samplePrompt NoIntent,
      CallRequestHeader, CallEvents]"

lemma minimalHeader_valid:
  "0 \<le> now \<Longrightarrow> now \<le> maxSafe \<Longrightarrow>
     validateSessionHeader isAbsolute sid (header_json (minimalHeader sid now))
       = Inr (header_json (minimalHeader sid now))"
  by (simp add: validateSessionHeader_typed minimalHeader_def)

lemma sampleSession_new: "newSession isAbsolute ''s'' 0 Snapshot None None = Inr sampleSession"
  using minimalHeader_valid [of 0]
  by (simp add: newSession_def sampleSession_def validatedHeader_def maxSafe_def)

lemmas session_eval =
  sampleSession_def freshSession_def newSurfaceManager_def sampleCalls_def samplePrompt_def
  appendEvent_def assertSupportedRequestHeader_def validateNext_def catchUp_def processDelta_def
  deriveMessages_def managerNodes_def managerGeneration_def requestHeader_def events_def
  pendingHit_def pendingAfter_def nodeMessages_def

lemma sampleSession_log:
  "ss_log (foldl sessionCall sampleSession sampleCalls) =
     [\<lparr>ev_seq = 0, ev_time = 5, ev_data = TurnStart 1, ev_surfaceOp = None,
       ev_sourceEventSeqs = None, ev_ignorable = False\<rparr>,
      \<lparr>ev_seq = 1, ev_time = 6, ev_data = samplePrompt, ev_surfaceOp = Some op_append,
       ev_sourceEventSeqs = None, ev_ignorable = False\<rparr>]"
  by (simp add: session_eval surface_eval Let_def)

section \<open>Properties\<close>

text \<open>
  C2. Session reads never drift from the log: after any sequence of appends (accepted, refused or
  vetoed) and cached reads on a session the constructor returned, the log is intact below what was
  appended, it replays as a valid surface, and every cached read equals its recomputation from the log.
\<close>

theorem session_reads_agree:
  assumes "newSession isAbsolute sid now mode seed header = Inr s0" "s = foldl sessionCall s0 calls"
  shows "(\<exists>later. ss_log s = ss_log s0 @ later)
    \<and> snd (events s) = ss_log s
    \<and> snd (requestHeader s) = foldRequestHeader (ss_log s) None
    \<and> snd (requestContext s) = foldl contextStep None (ss_log s)
    \<and> (\<exists>nodes reps. foldSurface (ss_log s) = Inr (nodes, reps)
        \<and> snd (deriveMessages s) = Inr (nodeMessages (ss_log s) nodes))"
proof -
  have ok: "session_ok s" and later: "\<exists>later. ss_log s = ss_log s0 @ later"
    using sessionCalls_ok [OF newSession_ok [OF assms(1)]] assms(2) by auto
  obtain nodes reps where f: "foldSurface (ss_log s) = Inr (nodes, reps)"
    by (rule session_ok_replay [OF ok])
  moreover have "snd (deriveMessages s) = Inr (nodeMessages (ss_log s) nodes)"
    by (rule deriveMessages_value [OF ok f])
  moreover have "snd (events s) = ss_log s"
    using events_ok [OF ok] by (cases "events s") simp
  moreover have "snd (requestHeader s) = foldRequestHeader (ss_log s) None"
    using requestHeader_ok [OF ok] by (cases "requestHeader s") simp
  moreover have "snd (requestContext s) = foldl contextStep None (ss_log s)"
    using requestContext_ok [OF ok] by (cases "requestContext s") simp
  ultimately show ?thesis using later by blast
qed

theorem session_reads_agree_witness:
  "snd (deriveMessages (foldl sessionCall sampleSession sampleCalls)) = Inr [sampleMessage ''a'']"
  using session_reads_agree [OF sampleSession_new [of "\<lambda>_. True"] refl, of sampleCalls]
  unfolding sampleSession_log
  by (auto simp: foldSurface_def nodeMessages_def samplePrompt_def surface_eval)





end
