(* ===== verification/Session_Trace.thy ===== *)
theory Session_Trace
  imports Session_Log
begin

text \<open>
  The relational invariants of a session log, \<open>core/session/src/invariant.ts\<close>: a monitor that follows
  the open turn, the open step, their numbering and the calls awaiting a result, and refuses an event
  that breaks their nesting.

  \<open>validateEvent\<close> computes the transition of one event without changing the trace, \<open>applyTransition\<close>
  commits it, and \<open>traceStep\<close> is the loop body of \<open>seedSession\<close>. The lemmas characterise the logs the
  monitor accepts: their boundary events spell a script of consecutively numbered turns, each
  with consecutively numbered steps (\<open>traceInv\<close>, interpretation \<open>session_trace\<close>).
\<close>

section \<open>The monitor\<close>

definition TOOL_NOT_STARTED :: string where
  "TOOL_NOT_STARTED = ''TOOL_NOT_STARTED''"

datatype trace_error =
    SeqNotIncreasing int int
  | TurnStartWhileOpen int int
  | TurnStartUnexpected int int
  | TurnEndMismatch int
  | TurnEndStepOpen int int
  | StepStartOutsideTurn int
  | StepStartWhileOpen int int
  | StepStartUnexpected int int
  | NotOpenStep string int int
  | RewriteOutsideTurn
  | ResultWithoutCall call_id
  | OutsideTurn string

record session_trace =
  tc_lastSeq :: int
  tc_openTurn :: "int option"
  tc_openStep :: "int option"
  tc_nextTurn :: int
  tc_nextStep :: int
  tc_pendingCalls :: "call_id set"

datatype pending_change = PendingNone | PendingAdd call_id | PendingDelete call_id | PendingClear

record trace_transition =
  tt_lastSeq :: int
  tt_openTurn :: "int option"
  tt_openStep :: "int option"
  tt_nextTurn :: int
  tt_nextStep :: int
  tt_pendingCalls :: pending_change

definition requireOpenStep :: "session_trace \<Rightarrow> string \<Rightarrow> int \<Rightarrow> int \<Rightarrow> trace_error + unit" where
  "requireOpenStep trace kind turn step =
     (if tc_openTurn trace \<noteq> Some turn \<or> tc_openStep trace \<noteq> Some step
      then Inl (NotOpenStep kind turn step) else Inr ())"

text \<open>The transition that moves nothing but the sequence number.\<close>

definition keepTrace :: "session_trace \<Rightarrow> session_event \<Rightarrow> trace_transition" where
  "keepTrace trace e =
     \<lparr>tt_lastSeq = ev_seq e, tt_openTurn = tc_openTurn trace, tt_openStep = tc_openStep trace,
      tt_nextTurn = tc_nextTurn trace, tt_nextStep = tc_nextStep trace, tt_pendingCalls = PendingNone\<rparr>"

definition validateEvent :: "session_trace \<Rightarrow> session_event \<Rightarrow> trace_error + trace_transition" where
  "validateEvent trace e =
     (if ev_seq e \<le> tc_lastSeq trace then Inl (SeqNotIncreasing (ev_seq e) (tc_lastSeq trace))
      else
        let keep = keepTrace trace e in
        (case ev_data e of
           TurnStart turn \<Rightarrow>
             (case tc_openTurn trace of
                Some t \<Rightarrow> Inl (TurnStartWhileOpen turn t)
              | None \<Rightarrow>
                  if turn \<noteq> tc_nextTurn trace then Inl (TurnStartUnexpected turn (tc_nextTurn trace))
                  else Inr (keep\<lparr>tt_openTurn := Some turn, tt_nextStep := 1\<rparr>))
         | TurnEnd turn _ \<Rightarrow>
             if tc_openTurn trace \<noteq> Some turn then Inl (TurnEndMismatch turn)
             else (case tc_openStep trace of
                     Some s \<Rightarrow> Inl (TurnEndStepOpen turn s)
                   | None \<Rightarrow> Inr (keep\<lparr>tt_openTurn := None, tt_nextTurn := tc_nextTurn trace + 1\<rparr>))
         | StepStart turn step \<Rightarrow>
             if tc_openTurn trace \<noteq> Some turn then Inl (StepStartOutsideTurn turn)
             else (case tc_openStep trace of
                     Some s \<Rightarrow> Inl (StepStartWhileOpen step s)
                   | None \<Rightarrow>
                       if step \<noteq> tc_nextStep trace then Inl (StepStartUnexpected step (tc_nextStep trace))
                       else Inr (keep\<lparr>tt_openStep := Some step\<rparr>))
         | StepEnd turn step \<Rightarrow>
             bindE (requireOpenStep trace ''step/end'' turn step) (\<lambda>_.
               Inr (keep\<lparr>tt_openStep := None, tt_nextStep := tc_nextStep trace + 1,
                         tt_pendingCalls := PendingClear\<rparr>))
         | AssistantChunk turn step _ \<Rightarrow>
             bindE (requireOpenStep trace ''assistant/chunk'' turn step) (\<lambda>_. Inr keep)
         | AssistantMessage turn step _ _ _ \<Rightarrow>
             bindE (requireOpenStep trace ''assistant/message'' turn step) (\<lambda>_. Inr keep)
         | ToolCall turn step callId _ _ \<Rightarrow>
             bindE (requireOpenStep trace ''tool/call'' turn step) (\<lambda>_.
               Inr (keep\<lparr>tt_pendingCalls := PendingAdd callId\<rparr>))
         | ToolResult turn step m err _ \<Rightarrow>
             if ev_surfaceOp e \<noteq> Some op_append then
               if tc_openTurn trace = None then Inl RewriteOutsideTurn else Inr keep
             else
               bindE (requireOpenStep trace ''tool/result'' turn step) (\<lambda>_.
                 let callId = tr_callId m;
                     syntheticNotStarted = (tr_isError m = Some True
                       \<and> (\<exists>nm. err = Some (nm, TOOL_NOT_STARTED))) in
                 if callId \<notin> tc_pendingCalls trace \<and> \<not> syntheticNotStarted
                 then Inl (ResultWithoutCall callId)
                 else Inr (keep\<lparr>tt_pendingCalls := PendingDelete callId\<rparr>))
         | TodoWrite _ \<Rightarrow>
             if tc_openTurn trace = None then Inl (OutsideTurn (ev_type e)) else Inr keep
         | RequestHeader _ _ \<Rightarrow>
             if tc_openTurn trace = None then Inl (OutsideTurn (ev_type e)) else Inr keep
         | RequestContext _ \<Rightarrow>
             if tc_openTurn trace = None then Inl (OutsideTurn (ev_type e)) else Inr keep
         | _ \<Rightarrow> Inr keep))"

fun changePending :: "pending_change \<Rightarrow> call_id set \<Rightarrow> call_id set" where
  "changePending PendingNone cs = cs"
| "changePending (PendingAdd c) cs = insert c cs"
| "changePending (PendingDelete c) cs = cs - {c}"
| "changePending PendingClear cs = {}"

definition applyTransition :: "session_trace \<Rightarrow> trace_transition \<Rightarrow> session_trace" where
  "applyTransition trace t =
     \<lparr>tc_lastSeq = tt_lastSeq t, tc_openTurn = tt_openTurn t, tc_openStep = tt_openStep t,
      tc_nextTurn = tt_nextTurn t, tc_nextStep = tt_nextStep t,
      tc_pendingCalls = changePending (tt_pendingCalls t) (tc_pendingCalls trace)\<rparr>"

definition freshTrace :: session_trace where
  "freshTrace = \<lparr>tc_lastSeq = -1, tc_openTurn = None, tc_openStep = None, tc_nextTurn = 1,
     tc_nextStep = 1, tc_pendingCalls = {}\<rparr>"

definition traceStep :: "session_trace \<Rightarrow> session_event \<Rightarrow> trace_error + session_trace" where
  "traceStep trace e = bindE (validateEvent trace e) (\<lambda>t. Inr (applyTransition trace t))"

definition seedSession :: "session_event list \<Rightarrow> trace_error + session_trace" where
  "seedSession evs = foldE traceStep freshTrace evs"

section \<open>Scripts\<close>

text \<open>The boundary events of a log, and the script of turns with the given step counts.\<close>

datatype mark = MarkTurnStart int | MarkTurnEnd int | MarkStepStart int int | MarkStepEnd int int

fun data_marks :: "event_data \<Rightarrow> mark list" where
  "data_marks (TurnStart t) = [MarkTurnStart t]"
| "data_marks (TurnEnd t _) = [MarkTurnEnd t]"
| "data_marks (StepStart t s) = [MarkStepStart t s]"
| "data_marks (StepEnd t s) = [MarkStepEnd t s]"
| "data_marks _ = []"

definition marks :: "session_event list \<Rightarrow> mark list" where
  "marks evs = concat (map (\<lambda>e. data_marks (ev_data e)) evs)"

definition stepMarks :: "int \<Rightarrow> nat \<Rightarrow> mark list" where
  "stepMarks t k = concat (map (\<lambda>j. [MarkStepStart t (int j), MarkStepEnd t (int j)]) [1..<k + 1])"

definition turnMarks :: "int \<Rightarrow> nat \<Rightarrow> mark list" where
  "turnMarks t k = MarkTurnStart t # stepMarks t k @ [MarkTurnEnd t]"

fun script :: "nat \<Rightarrow> nat list \<Rightarrow> mark list" where
  "script n [] = []"
| "script n (k # ks) = turnMarks (int n) k @ script (n + 1) ks"

lemma script_snoc: "script n (ks @ [k]) = script n ks @ turnMarks (int (n + length ks)) k"
  by (induction ks arbitrary: n) (simp_all add: ac_simps)

lemma stepMarks_Suc:
  "stepMarks t (Suc k) = stepMarks t k @ [MarkStepStart t (int (Suc k)), MarkStepEnd t (int (Suc k))]"
  by (simp add: stepMarks_def)

lemma marks_snoc [simp]: "marks (evs @ [e]) = marks evs @ data_marks (ev_data e)"
  by (simp add: marks_def)

lemma marks_append: "marks (xs @ ys) = marks xs @ marks ys"
  by (simp add: marks_def)

lemma marks_Nil [simp]: "marks [] = []"
  by (simp add: marks_def)

text \<open>What the monitor knows after a log: where in the script it is.\<close>

definition tracePos :: "nat list \<Rightarrow> nat \<Rightarrow> session_event list \<Rightarrow> session_trace \<Rightarrow> bool" where
  "tracePos ks k evs trace \<longleftrightarrow>
     tc_nextTurn trace = int (length ks) + 1
     \<and> (case tc_openTurn trace of
          None \<Rightarrow> tc_openStep trace = None \<and> marks evs = script 1 ks
        | Some t \<Rightarrow> t = int (length ks) + 1 \<and> tc_nextStep trace = int k + 1
            \<and> (case tc_openStep trace of
                 None \<Rightarrow> marks evs = script 1 ks @ MarkTurnStart t # stepMarks t k
               | Some s \<Rightarrow> s = int k + 1
                   \<and> marks evs = script 1 ks @ MarkTurnStart t # stepMarks t k @ [MarkStepStart t s]))
     \<and> (tc_openStep trace = None \<longrightarrow> tc_pendingCalls trace = {})"

definition traceInv :: "session_event list \<Rightarrow> session_trace \<Rightarrow> bool" where
  "traceInv evs trace \<longleftrightarrow> (\<exists>ks k. tracePos ks k evs trace)"

lemmas trace_simps =
  traceStep_def validateEvent_def applyTransition_def keepTrace_def requireOpenStep_def
  result_simps Let_def

text \<open>A step whose event is no boundary keeps the position.\<close>

lemma traceStep_quiet:
  assumes "traceStep trace e = Inr t" "data_marks (ev_data e) = []"
  shows "tc_openTurn t = tc_openTurn trace \<and> tc_openStep t = tc_openStep trace
    \<and> tc_nextTurn t = tc_nextTurn trace \<and> tc_nextStep t = tc_nextStep trace
    \<and> (tc_openStep t = None \<longrightarrow> tc_pendingCalls t \<subseteq> tc_pendingCalls trace)"
  using assms
  by (cases "ev_data e") (auto simp: trace_simps split: if_splits option.splits)

text \<open>The four boundary steps.\<close>

lemma traceStep_TurnStart:
  assumes "ev_data e = TurnStart n" "traceStep trace e = Inr t"
  shows "tc_openTurn trace = None" "n = tc_nextTurn trace"
    "t = trace\<lparr>tc_lastSeq := ev_seq e, tc_openTurn := Some n, tc_nextStep := 1\<rparr>"
  using assms by (auto simp: trace_simps split: option.splits if_splits)

lemma traceStep_TurnEnd:
  assumes "ev_data e = TurnEnd n r" "traceStep trace e = Inr t"
  shows "tc_openTurn trace = Some n" "tc_openStep trace = None"
    "t = trace\<lparr>tc_lastSeq := ev_seq e, tc_openTurn := None, tc_nextTurn := tc_nextTurn trace + 1\<rparr>"
  using assms by (auto simp: trace_simps split: option.splits if_splits)

lemma traceStep_StepStart:
  assumes "ev_data e = StepStart n m" "traceStep trace e = Inr t"
  shows "tc_openTurn trace = Some n" "tc_openStep trace = None" "m = tc_nextStep trace"
    "t = trace\<lparr>tc_lastSeq := ev_seq e, tc_openStep := Some m\<rparr>"
  using assms by (auto simp: trace_simps split: option.splits if_splits)

lemma traceStep_StepEnd:
  assumes "ev_data e = StepEnd n m" "traceStep trace e = Inr t"
  shows "tc_openTurn trace = Some n" "tc_openStep trace = Some m"
    "t = trace\<lparr>tc_lastSeq := ev_seq e, tc_openStep := None, tc_nextStep := tc_nextStep trace + 1,
             tc_pendingCalls := {}\<rparr>"
  using assms by (auto simp: trace_simps split: if_splits)

lemma traceInv_step:
  assumes inv: "traceInv evs trace" and step: "traceStep trace e = Inr t"
  shows "traceInv (evs @ [e]) t"
proof -
  from inv obtain ks k where pos: "tracePos ks k evs trace" unfolding traceInv_def by blast
  note K = pos [unfolded tracePos_def]
  show ?thesis
  proof (cases "data_marks (ev_data e) = []")
    case True
    from traceStep_quiet [OF step True] K True show ?thesis
      unfolding traceInv_def tracePos_def
      by (intro exI [of _ ks] exI [of _ k]) (auto split: option.splits)
  next
    case False
    then consider (ts) n where "ev_data e = TurnStart n" | (te) n r where "ev_data e = TurnEnd n r"
      | (ss) n m where "ev_data e = StepStart n m" | (se) n m where "ev_data e = StepEnd n m"
      by (cases "ev_data e") auto
    then show ?thesis
    proof cases
      case ts
      note step = traceStep_TurnStart [OF ts step]
      with ts K have "tracePos ks 0 (evs @ [e]) t"
        by (simp add: tracePos_def stepMarks_def)
      then show ?thesis unfolding traceInv_def by blast
    next
      case te
      note step = traceStep_TurnEnd [OF te step]
      with te K have "tracePos (ks @ [k]) 0 (evs @ [e]) t"
        by (simp add: tracePos_def script_snoc turnMarks_def ac_simps)
      then show ?thesis unfolding traceInv_def by blast
    next
      case ss
      note step = traceStep_StepStart [OF ss step]
      with ss K have "tracePos ks k (evs @ [e]) t"
        by (simp add: tracePos_def)
      then show ?thesis unfolding traceInv_def by blast
    next
      case se
      note step = traceStep_StepEnd [OF se step]
      with se K have "tracePos ks (Suc k) (evs @ [e]) t"
        by (simp add: tracePos_def stepMarks_Suc ac_simps)
      then show ?thesis unfolding traceInv_def by blast
    qed
  qed
qed

interpretation session_trace: checked_fold traceStep freshTrace traceInv
proof unfold_locales
  show "traceInv [] freshTrace"
    unfolding traceInv_def tracePos_def by (intro exI [of _ "[]"]) (simp add: freshTrace_def)
qed (rule traceInv_step)

lemma seedSession_inv: "seedSession evs = Inr t \<Longrightarrow> traceInv evs t"
  unfolding seedSession_def by (rule session_trace.replay_inv)

section \<open>Fork seeds are balanced\<close>

lemma openTurn_findLast:
  assumes "seedSession xs = Inr t"
  shows "tc_openTurn t =
    (case map_option ev_data (findLast (\<lambda>e. isTurnBoundary (ev_data e)) xs) of
       Some (TurnStart n) \<Rightarrow> Some n | _ \<Rightarrow> None)"
  using assms unfolding seedSession_def
proof (induction xs arbitrary: t rule: rev_induct)
  case Nil
  then show ?case by (auto simp: freshTrace_def)
next
  case (snoc x xs)
  then obtain u where u: "foldE traceStep freshTrace xs = Inr u" "traceStep u x = Inr t"
    by (auto simp: foldE_snoc_Inr)
  have "tc_openTurn t = (case ev_data x of TurnStart n \<Rightarrow> Some n | TurnEnd _ _ \<Rightarrow> None | _ \<Rightarrow> tc_openTurn u)"
  proof (cases "ev_data x")
    case (TurnStart n)
    from traceStep_TurnStart [OF this u(2)] TurnStart show ?thesis by simp
  next
    case (TurnEnd n r)
    from traceStep_TurnEnd [OF this u(2)] TurnEnd show ?thesis by simp
  next
    case (StepStart n m)
    from traceStep_StepStart [OF this u(2)] StepStart show ?thesis by simp
  next
    case (StepEnd n m)
    from traceStep_StepEnd [OF this u(2)] StepEnd show ?thesis by simp
  qed (use traceStep_quiet [OF u(2)] in simp_all)
  with snoc.IH [OF u(1)] show ?case
    by (cases "ev_data x") simp_all
qed

lemma forkSeed_balanced:
  assumes "forkSeed evs requested = Inr seed" "seedSession evs = Inr t" "foldSurface evs = Inr r"
  shows "\<exists>t' r' n. seed = take n evs \<and> seedSession seed = Inr t' \<and> tc_openTurn t' = None
    \<and> tc_openStep t' = None \<and> foldSurface seed = Inr r'"
proof -
  obtain n where seed: "seed = take n evs"
    and last: "\<And>e m. findLast (\<lambda>e. isTurnBoundary (ev_data e)) seed = Some e \<Longrightarrow> ev_data e \<noteq> TurnStart m"
    using assms(1) by (elim forkSeed_Inr) blast
  have split: "evs = seed @ drop n evs" using seed by simp
  obtain t' where t': "seedSession seed = Inr t'"
    using assms(2) foldE_prefix [of traceStep freshTrace seed "drop n evs"] split
    unfolding seedSession_def by metis
  have "tc_openTurn t' = None"
    using last by (auto simp: openTurn_findLast [OF t'] split: option.splits event_data.splits)
  moreover from this seedSession_inv [OF t'] have "tc_openStep t' = None"
    by (auto simp: traceInv_def tracePos_def)
  moreover obtain u where "surfaceReplay 0 seed = Inr u"
    using assms(3) foldE_prefix [of "surfaceStep 0" surfaceStart seed "drop n evs"] split
    unfolding foldSurface_replay bindE_Inr_iff by metis
  then have "\<exists>r'. foldSurface seed = Inr r'"
    by (cases u) (simp add: foldSurface_replay)
  ultimately show ?thesis using seed t' by blast
qed

section \<open>A sample log cut off inside a step\<close>

definition sampleAssistant :: message where
  "sampleAssistant =
     \<lparr>msg_id = ''m'', msg_role = RoleAssistant,
      msg_content = [ToolCallBlock ''c1'' ''read'' ''{}'', ToolCallBlock ''c2'' ''write'' ''{}''],
      msg_source = ModelSource ''p'' ''n'' None\<rparr>"

definition sampleCrashLog :: "session_event list" where
  "sampleCrashLog =
     [sampleEvent 0 (TurnStart 1) None None,
      sampleEvent 1 (UserMessage (sampleMessage ''a'')) (Some op_append) None,
      sampleEvent 2 (StepStart 1 1) None None,
      sampleEvent 3 (AssistantMessage 1 1 sampleAssistant None False) (Some op_append) (Some (seqs_json [])),
      sampleEvent 4 (ToolCall 1 1 ''c1'' ''read'' ''{}'') None None]"

lemma sampleCrashLog_trace:
  "seedSession sampleCrashLog = Inr \<lparr>tc_lastSeq = 4, tc_openTurn = Some 1, tc_openStep = Some 1,
     tc_nextTurn = 1, tc_nextStep = 1, tc_pendingCalls = {''c1''}\<rparr>"
  by (simp add: seedSession_def sampleCrashLog_def sampleEvent_def freshTrace_def trace_simps)

lemma sampleCrashLog_surface: "foldSurface sampleCrashLog = Inr ([1, 3], [])"
  by (simp add: foldSurface_def sampleCrashLog_def surface_eval)

section \<open>Properties\<close>

text \<open>
  C8. Every log the monitor accepts is a script cut anywhere: turns numbered 1, 2, 3, ..., inside a
  turn steps numbered 1, 2, 3, ..., each closed before the next opens, nothing overlapping; and when
  no turn is open the boundary events are a complete script, with no step open and no call pending.
\<close>

theorem trace_accepts_scripts:
  assumes "seedSession evs = Inr t"
  shows "\<exists>ks tail. script 1 ks = marks evs @ tail
    \<and> (tc_openTurn t = None \<longrightarrow> tail = [] \<and> tc_openStep t = None \<and> tc_pendingCalls t = {})"
proof -
  from seedSession_inv [OF assms] obtain ks k where pos: "tracePos ks k evs t"
    unfolding traceInv_def by blast
  show ?thesis
  proof (cases "tc_openTurn t")
    case None
    with pos show ?thesis by (intro exI [of _ ks] exI [of _ "[]"]) (simp add: tracePos_def)
  next
    case (Some n)
    show ?thesis
    proof (cases "tc_openStep t")
      case None
      with Some pos have "script 1 (ks @ [k]) = marks evs @ [MarkTurnEnd n]"
        by (simp add: tracePos_def script_snoc turnMarks_def ac_simps)
      with Some show ?thesis by (intro exI [of _ "ks @ [k]"] exI [of _ "[MarkTurnEnd n]"]) simp
    next
      case step: (Some s)
      with Some pos have "script 1 (ks @ [Suc k]) = marks evs @ [MarkStepEnd n s, MarkTurnEnd n]"
        by (simp add: tracePos_def script_snoc turnMarks_def stepMarks_Suc ac_simps)
      with Some show ?thesis
        by (intro exI [of _ "ks @ [Suc k]"] exI [of _ "[MarkStepEnd n s, MarkTurnEnd n]"]) simp
    qed
  qed
qed

theorem trace_accepts_scripts_witness:
  "\<exists>ks tail. script 1 ks = marks sampleCrashLog @ tail"
  using trace_accepts_scripts [OF sampleCrashLog_trace] by blast

text \<open>
  A fork never starts inside a turn: the seed a fork takes from a session is a prefix of its log
  that the monitor accepts with no turn and no step open, and a valid surface.
\<close>

theorem fork_seed_balanced:
  assumes "forkSeed evs requested = Inr seed" "seedSession evs = Inr t" "foldSurface evs = Inr r"
  shows "\<exists>t' r' n. seed = take n evs \<and> seedSession seed = Inr t' \<and> tc_openTurn t' = None
    \<and> tc_openStep t' = None \<and> foldSurface seed = Inr r'"
  by (rule forkSeed_balanced [OF assms])

definition sampleForkLog :: "session_event list" where
  "sampleForkLog =
     [sampleEvent 0 (TurnStart 1) None None, sampleEvent 1 (TurnEnd 1 EndCompleted) None None,
      sampleEvent 2 (UserMessage (sampleMessage ''a'')) (Some op_append) None,
      sampleEvent 3 (TurnStart 2) None None]"

theorem fork_seed_balanced_witness:
  "forkSeed sampleForkLog None = Inl (OpenTurn 2)
    \<and> (\<exists>t'. seedSession (take 3 sampleForkLog) = Inr t' \<and> tc_openTurn t' = None)"
proof -
  have "forkSeed sampleForkLog (Some 2) = Inr (take 3 sampleForkLog)"
    by (simp add: forkSeed_def sampleForkLog_def sampleEvent_def isSafeInteger_def isInteger_def maxSafe_def
        findLast_def)
  moreover have "seedSession sampleForkLog = Inr \<lparr>tc_lastSeq = 3, tc_openTurn = Some 2, tc_openStep = None,
     tc_nextTurn = 2, tc_nextStep = 1, tc_pendingCalls = {}\<rparr>"
    by (simp add: seedSession_def sampleForkLog_def sampleEvent_def freshTrace_def trace_simps)
  moreover have "foldSurface sampleForkLog = Inr ([2], [])"
    by (simp add: foldSurface_def sampleForkLog_def surface_eval)
  ultimately have "\<exists>t'. seedSession (take 3 sampleForkLog) = Inr t' \<and> tc_openTurn t' = None"
    using fork_seed_balanced [of sampleForkLog "Some 2"] by blast
  moreover have "forkSeed sampleForkLog None = Inl (OpenTurn 2)"
    by (simp add: forkSeed_def sampleForkLog_def sampleEvent_def isSafeInteger_def isInteger_def maxSafe_def
        findLast_def)
  ultimately show ?thesis by blast
qed

end
