(* ===== verification/Session_Repair.thy ===== *)
theory Session_Repair
  imports Session_Trace
begin

text \<open>
  Crash recovery, \<open>core/session/src/repair.ts\<close>: \<open>interruptedTurnClosers\<close> scans a log that may end inside
  a turn and returns the synthetic events that close it: one error result per call still awaiting
  one, the end of an open step, the end of the turn.

  The scan keeps its own cursor (\<open>repair_state\<close>). \<open>repair_agrees\<close> relates that cursor to the trace
  monitor, which gives the main result: the repaired log is accepted by the monitor and by the
  surface, with nothing left open.
\<close>

section \<open>The scan\<close>

definition TOOL_OUTCOME_UNKNOWN :: string where
  "TOOL_OUTCOME_UNKNOWN = ''TOOL_OUTCOME_UNKNOWN''"

record pending_call =
  pc_step :: int
  pc_callSeq :: "int option"

record repair_state =
  rs_openTurn :: "int option"
  rs_openStep :: "int option"
  rs_pendingCalls :: "(call_id \<times> pending_call) list"

definition repairStart :: repair_state where
  "repairStart = \<lparr>rs_openTurn = None, rs_openStep = None, rs_pendingCalls = []\<rparr>"

fun registerCalls ::
    "int \<Rightarrow> content_block list \<Rightarrow> (call_id \<times> pending_call) list \<Rightarrow> (call_id \<times> pending_call) list" where
  "registerCalls step [] calls = calls"
| "registerCalls step (b # bs) calls =
     registerCalls step bs
       (case b of
          ToolCallBlock i _ _ \<Rightarrow> map_set i \<lparr>pc_step = step, pc_callSeq = None\<rparr> calls
        | _ \<Rightarrow> calls)"

text \<open>\<open>entry.callSeq = event.seq\<close> updates the entry in place; an absent entry is left alone.\<close>

definition citeCall ::
    "call_id \<Rightarrow> int \<Rightarrow> (call_id \<times> pending_call) list \<Rightarrow> (call_id \<times> pending_call) list" where
  "citeCall i seq calls =
     (case map_of calls i of
        None \<Rightarrow> calls
      | Some entry \<Rightarrow> map_set i (entry\<lparr>pc_callSeq := Some seq\<rparr>) calls)"

fun repairStep :: "repair_state \<Rightarrow> session_event \<Rightarrow> repair_state" where
  "repairStep st e =
     (case ev_data e of
        TurnStart turn \<Rightarrow> \<lparr>rs_openTurn = Some turn, rs_openStep = None, rs_pendingCalls = []\<rparr>
      | TurnEnd _ _ \<Rightarrow> \<lparr>rs_openTurn = None, rs_openStep = None, rs_pendingCalls = []\<rparr>
      | StepStart _ step \<Rightarrow> st\<lparr>rs_openStep := Some step\<rparr>
      | StepEnd _ _ \<Rightarrow> st\<lparr>rs_openStep := None, rs_pendingCalls := []\<rparr>
      | AssistantMessage _ step m _ _ \<Rightarrow>
          st\<lparr>rs_pendingCalls := registerCalls step (msg_content m) (rs_pendingCalls st)\<rparr>
      | ToolCall _ _ callId _ _ \<Rightarrow>
          st\<lparr>rs_pendingCalls := citeCall callId (ev_seq e) (rs_pendingCalls st)\<rparr>
      | ToolResult _ _ m _ _ \<Rightarrow>
          st\<lparr>rs_pendingCalls := map_delete (tr_callId m) (rs_pendingCalls st)\<rparr>
      | _ \<Rightarrow> st)"

section \<open>The closers\<close>

definition unknownOutcomeText :: string where
  "unknownOutcomeText = ''The tool call was interrupted after it was recorded, but no result was durably recorded. Its outcome is unknown. Decide whether to retry from the tool semantics: retry only if the operation is read-only or idempotent; if it may have side effects, first verify external state or ask the user. Do not retry blindly.''"

definition notStartedText :: string where
  "notStartedText = ''The tool call was interrupted before the Harness recorded it as started. Retry it if it is still needed.''"

definition interruptedResult :: "call_id \<Rightarrow> int \<Rightarrow> bool \<Rightarrow> tool_result_message" where
  "interruptedResult callId seq started =
     \<lparr>tr_id = ''interrupted-tool-result-'' @ callId @ ''-'' @ text_of_int seq,
      tr_callId = callId, tr_toolCallId = callId,
      tr_content = [TextBlock (if started then unknownOutcomeText else notStartedText)],
      tr_isError = Some True\<rparr>"

definition closingEvent :: "int \<Rightarrow> int \<Rightarrow> event_data \<Rightarrow> session_event" where
  "closingEvent seq time d =
     \<lparr>ev_seq = seq, ev_time = time, ev_data = d, ev_surfaceOp = None, ev_sourceEventSeqs = None,
      ev_ignorable = False\<rparr>"

definition closingResult :: "int \<Rightarrow> int \<Rightarrow> int \<Rightarrow> call_id \<Rightarrow> pending_call \<Rightarrow> session_event" where
  "closingResult seq time turn callId entry =
     (let started = (pc_callSeq entry \<noteq> None) in
      (closingEvent seq time
         (ToolResult turn (pc_step entry) (interruptedResult callId seq started)
            (Some (if started then (''ToolOutcomeUnknownError'', TOOL_OUTCOME_UNKNOWN)
                   else (''ToolNotStartedError'', TOOL_NOT_STARTED))) None))
      \<lparr>ev_surfaceOp := Some op_append,
       ev_sourceEventSeqs := map_option (\<lambda>n. seqs_json [n]) (pc_callSeq entry)\<rparr>)"

fun closingResults ::
    "int \<Rightarrow> int \<Rightarrow> int \<Rightarrow> (call_id \<times> pending_call) list \<Rightarrow> session_event list" where
  "closingResults seq time turn [] = []"
| "closingResults seq time turn ((callId, entry) # calls) =
     closingResult seq time turn callId entry # closingResults (seq + 1) time turn calls"

definition interruptedTurnClosers :: "session_event list \<Rightarrow> session_event list" where
  "interruptedTurnClosers evs =
     (let st = foldl repairStep repairStart evs in
      case rs_openTurn st of
        None \<Rightarrow> []
      | Some turn \<Rightarrow>
          if evs = [] then []
          else
            let time = ev_time (last evs);
                results = closingResults (ev_seq (last evs) + 1) time turn (rs_pendingCalls st);
                seq1 = ev_seq (last evs) + 1 + int (length (rs_pendingCalls st));
                steps = (case rs_openStep st of
                           None \<Rightarrow> []
                         | Some step \<Rightarrow> [closingEvent seq1 time (StepEnd turn step)]) in
            results @ steps @
            [closingEvent (seq1 + int (length steps)) time (TurnEnd turn EndInterrupted)])"

section \<open>The scan and the monitor\<close>

text \<open>
  The cursor of the scan after a log the monitor accepts: the same open turn and step; every
  pending call belongs to the open step, and one whose \<open>tool/call\<close> was recorded awaits its result
  in the monitor too and cites an earlier event.
\<close>

definition repairRel :: "session_trace \<Rightarrow> repair_state \<Rightarrow> bool" where
  "repairRel trace st \<longleftrightarrow>
     rs_openTurn st = tc_openTurn trace \<and> rs_openStep st = tc_openStep trace
     \<and> (tc_openTurn trace = None \<longrightarrow> tc_openStep trace = None)
     \<and> distinct (map fst (rs_pendingCalls st))
     \<and> -1 \<le> tc_lastSeq trace
     \<and> (\<forall>(i, c) \<in> set (rs_pendingCalls st).
          tc_openStep trace = Some (pc_step c)
          \<and> (\<forall>n. pc_callSeq c = Some n \<longrightarrow> i \<in> tc_pendingCalls trace \<and> 0 \<le> n \<and> n \<le> tc_lastSeq trace))"

lemma distinct_registerCalls:
  "distinct (map fst calls) \<Longrightarrow> distinct (map fst (registerCalls step bs calls))"
proof (induction bs arbitrary: calls)
  case Nil
  then show ?case by simp
next
  case (Cons b bs)
  then show ?case by (cases b) (auto intro: distinct_map_set)
qed

lemma registerCalls_subset:
  "set (registerCalls step bs calls)
     \<subseteq> set calls \<union> {(i, c) | i c. c = \<lparr>pc_step = step, pc_callSeq = None\<rparr>}"
proof (induction bs arbitrary: calls)
  case Nil
  then show ?case by simp
next
  case (Cons b bs)
  show ?case
  proof (cases b)
    case (ToolCallBlock i n a)
    let ?new = "map_set i \<lparr>pc_step = step, pc_callSeq = None\<rparr> calls"
    have "set ?new \<subseteq> set calls \<union> {(i, c) | i c. c = \<lparr>pc_step = step, pc_callSeq = None\<rparr>}"
      using set_map_set_subset [of i "\<lparr>pc_step = step, pc_callSeq = None\<rparr>" calls] by auto
    with Cons.IH [of ?new] ToolCallBlock show ?thesis by auto
  qed (use Cons.IH [of calls] in auto)
qed

lemma citeCall_subset:
  assumes "(i, c) \<in> set (citeCall j seq calls)" "distinct (map fst calls)"
  shows "(i, c) \<in> set calls \<or>
    i = j \<and> pc_callSeq c = Some seq \<and> (\<exists>c0. (i, c0) \<in> set calls \<and> pc_step c = pc_step c0)"
proof (cases "map_of calls j")
  case None
  with assms show ?thesis by (simp add: citeCall_def)
next
  case (Some c0)
  then have mem: "(j, c0) \<in> set calls" by (rule map_of_SomeD)
  have "(i, c) \<in> set calls \<or> (i, c) = (j, c0\<lparr>pc_callSeq := Some seq\<rparr>)"
    using assms(1) Some set_map_set_subset [of j "c0\<lparr>pc_callSeq := Some seq\<rparr>" calls]
    by (auto simp: citeCall_def)
  with mem show ?thesis by auto
qed

lemma distinct_citeCall: "distinct (map fst calls) \<Longrightarrow> distinct (map fst (citeCall i seq calls))"
  by (auto simp: citeCall_def intro: distinct_map_set split: option.split)

lemma traceStep_lastSeq: "traceStep trace e = Inr t \<Longrightarrow> tc_lastSeq t = ev_seq e \<and> tc_lastSeq trace < ev_seq e"
  by (cases "ev_data e") (auto simp: trace_simps split: if_splits option.splits)

lemma traceStep_open:
  assumes "traceStep trace e = Inr t"
  shows "ev_data e = AssistantMessage n k m u i \<Longrightarrow> tc_openStep trace = Some k \<and> tc_pendingCalls t = tc_pendingCalls trace"
    and "ev_data e = ToolCall n k c nm a \<Longrightarrow> tc_openStep trace = Some k \<and> tc_pendingCalls t = insert c (tc_pendingCalls trace)"
    and "ev_data e = ToolResult n k r err meta \<Longrightarrow> tc_pendingCalls trace - {tr_callId r} \<subseteq> tc_pendingCalls t"
  using assms by (auto simp: trace_simps split: if_splits)

text \<open>The events that move the pending calls.\<close>

fun touchesCalls :: "event_data \<Rightarrow> bool" where
  "touchesCalls (AssistantMessage _ _ _ _ _) = True"
| "touchesCalls (ToolCall _ _ _ _ _) = True"
| "touchesCalls (ToolResult _ _ _ _ _) = True"
| "touchesCalls _ = False"

lemma touchesCalls_cases:
  assumes "touchesCalls d"
  obtains (message) n k m u i where "d = AssistantMessage n k m u i"
  | (call) n k c nm a where "d = ToolCall n k c nm a"
  | (result) n k r err meta where "d = ToolResult n k r err meta"
  using assms by (cases d) auto

lemma traceStep_other:
  assumes "traceStep trace e = Inr t" "data_marks (ev_data e) = []" "\<not> touchesCalls (ev_data e)"
  shows "tc_pendingCalls t = tc_pendingCalls trace" "repairStep st e = st"
  using assms by (cases "ev_data e"; auto simp: trace_simps split: if_splits)+

lemma repairRel_later:
  assumes "repairRel trace st" "tc_openTurn t = tc_openTurn trace" "tc_openStep t = tc_openStep trace"
    "tc_lastSeq trace < tc_lastSeq t" "tc_pendingCalls trace \<subseteq> tc_pendingCalls t"
  shows "repairRel t st"
  using assms unfolding repairRel_def by fastforce

lemma repairRel_step:
  assumes rel: "repairRel trace st" and step: "traceStep trace e = Inr t"
  shows "repairRel t (repairStep st e)"
proof -
  note seq = traceStep_lastSeq [OF step]
  note R = rel [unfolded repairRel_def]
  show ?thesis
  proof (cases "data_marks (ev_data e) = []")
    case False
    then consider (ts) n where "ev_data e = TurnStart n" | (te) n r where "ev_data e = TurnEnd n r"
      | (ss) n m where "ev_data e = StepStart n m" | (se) n m where "ev_data e = StepEnd n m"
      by (cases "ev_data e") auto
    then show ?thesis
    proof cases
      case ts
      from traceStep_TurnStart [OF ts step] R ts seq show ?thesis by (simp add: repairRel_def)
    next
      case te
      from traceStep_TurnEnd [OF te step] R te seq show ?thesis by (simp add: repairRel_def)
    next
      case ss
      from traceStep_StepStart [OF ss step] R ss seq show ?thesis by (auto simp: repairRel_def)
    next
      case se
      from traceStep_StepEnd [OF se step] R se seq show ?thesis by (simp add: repairRel_def)
    qed
  next
    case True
    note quiet = traceStep_quiet [OF step True]
    show ?thesis
    proof (cases "touchesCalls (ev_data e)")
      case False
      have "repairRel t st"
        by (rule repairRel_later [OF rel]) (use quiet seq traceStep_other(1) [OF step True False] in auto)
      with traceStep_other(2) [OF step True False] show ?thesis by simp
    next
      case True
      then show ?thesis
      proof (cases rule: touchesCalls_cases)
        case (message n k m u i)
        note o = traceStep_open(1) [OF step this]
        have "repairRel t st"
          by (rule repairRel_later [OF rel]) (use quiet seq o in auto)
        then show ?thesis
          using message o quiet registerCalls_subset [of k "msg_content m" "rs_pendingCalls st"]
          by (fastforce simp: repairRel_def distinct_registerCalls)
      next
        case (call n k c nm a)
        note o = traceStep_open(2) [OF step this]
        have later: "repairRel t st"
          by (rule repairRel_later [OF rel]) (use quiet seq o in auto)
        have "tc_openStep t = Some (pc_step x) \<and>
            (\<forall>n. pc_callSeq x = Some n \<longrightarrow> j \<in> tc_pendingCalls t \<and> 0 \<le> n \<and> n \<le> tc_lastSeq t)"
          if "(j, x) \<in> set (citeCall c (ev_seq e) (rs_pendingCalls st))" for j x
          using citeCall_subset [OF that] later R seq o by (fastforce simp: repairRel_def)
        with later call show ?thesis by (auto simp: repairRel_def distinct_citeCall)
      next
        case (result n k r err meta)
        note o = traceStep_open(3) [OF step this]
        show ?thesis
          using R quiet seq o result
          by (fastforce simp: repairRel_def distinct_map_delete set_map_delete)
      qed
    qed
  qed
qed

lemma repair_agrees:
  assumes "seedSession evs = Inr t"
  shows "repairRel t (foldl repairStep repairStart evs)"
  using assms unfolding seedSession_def
proof (induction evs arbitrary: t rule: rev_induct)
  case Nil
  then show ?case by (auto simp: repairRel_def freshTrace_def repairStart_def)
next
  case (snoc e evs)
  then obtain u where "foldE traceStep freshTrace evs = Inr u" "traceStep u e = Inr t"
    by (auto simp: foldE_snoc_Inr)
  with snoc.IH repairRel_step show ?case by simp
qed

section \<open>The closers are accepted\<close>

lemma closingEvent_simps [simp]:
  "ev_seq (closingEvent seq time d) = seq" "ev_data (closingEvent seq time d) = d"
  "ev_surfaceOp (closingEvent seq time d) = None" "ev_sourceEventSeqs (closingEvent seq time d) = None"
  by (simp_all add: closingEvent_def)

lemma closingResult_simps [simp]:
  "ev_seq (closingResult seq time turn i c) = seq"
  "ev_surfaceOp (closingResult seq time turn i c) = Some op_append"
  "ev_sourceEventSeqs (closingResult seq time turn i c) = map_option (\<lambda>n. seqs_json [n]) (pc_callSeq c)"
  "ev_data (closingResult seq time turn i c) =
     ToolResult turn (pc_step c) (interruptedResult i seq (pc_callSeq c \<noteq> None))
       (Some (if pc_callSeq c \<noteq> None then (''ToolOutcomeUnknownError'', TOOL_OUTCOME_UNKNOWN)
              else (''ToolNotStartedError'', TOOL_NOT_STARTED))) None"
  by (simp_all add: closingResult_def Let_def)

lemma length_closingResults [simp]: "length (closingResults seq time turn calls) = length calls"
  by (induction seq time turn calls rule: closingResults.induct) simp_all

lemma closingResult_traceStep:
  assumes "tc_openTurn t = Some turn" "tc_openStep t = Some (pc_step c)" "tc_lastSeq t < seq"
    "pc_callSeq c \<noteq> None \<longrightarrow> i \<in> tc_pendingCalls t"
  shows "traceStep t (closingResult seq time turn i c)
    = Inr (t\<lparr>tc_lastSeq := seq, tc_pendingCalls := tc_pendingCalls t - {i}\<rparr>)"
  using assms by (auto simp: trace_simps interruptedResult_def)

lemma closingResults_trace:
  assumes "tc_openTurn t = Some turn" "tc_lastSeq t < seq" "distinct (map fst calls)"
    "\<forall>(i, c) \<in> set calls. tc_openStep t = Some (pc_step c) \<and> (pc_callSeq c \<noteq> None \<longrightarrow> i \<in> tc_pendingCalls t)"
  shows "\<exists>t'. foldE traceStep t (closingResults seq time turn calls) = Inr t'
    \<and> tc_openTurn t' = Some turn \<and> tc_openStep t' = tc_openStep t
    \<and> tc_lastSeq t' < seq + int (length calls)"
  using assms
proof (induction calls arbitrary: seq t)
  case Nil
  then show ?case by simp
next
  case (Cons p calls)
  obtain i c where p: "p = (i, c)" by (cases p)
  let ?t = "t\<lparr>tc_lastSeq := seq, tc_pendingCalls := tc_pendingCalls t - {i}\<rparr>"
  have "traceStep t (closingResult seq time turn i c) = Inr ?t"
    by (rule closingResult_traceStep) (use Cons.prems p in auto)
  moreover have "\<exists>t'. foldE traceStep ?t (closingResults (seq + 1) time turn calls) = Inr t'
    \<and> tc_openTurn t' = Some turn \<and> tc_openStep t' = tc_openStep ?t
    \<and> tc_lastSeq t' < seq + 1 + int (length calls)"
    by (rule Cons.IH) (use Cons.prems p in \<open>force+\<close>)
  ultimately show ?case using p by (simp add: ac_simps)
qed

lemma seedSession_lastSeq:
  "seedSession evs = Inr t \<Longrightarrow> evs \<noteq> [] \<Longrightarrow> tc_lastSeq t = ev_seq (last evs)"
  unfolding seedSession_def
  by (cases evs rule: rev_cases) (auto simp: foldE_snoc_Inr traceStep_lastSeq)

text \<open>The closers of an open log, spelled out.\<close>

lemma closers_open:
  assumes "seedSession evs = Inr t" "tc_openTurn t = Some turn"
  obtains calls where "rs_pendingCalls (foldl repairStep repairStart evs) = calls" "evs \<noteq> []"
    "repairRel t (foldl repairStep repairStart evs)"
    "interruptedTurnClosers evs =
      closingResults (ev_seq (last evs) + 1) (ev_time (last evs)) turn calls
      @ (case tc_openStep t of None \<Rightarrow> [] | Some step \<Rightarrow>
           [closingEvent (ev_seq (last evs) + 1 + int (length calls)) (ev_time (last evs)) (StepEnd turn step)])
      @ [closingEvent (ev_seq (last evs) + 1 + int (length calls) + (if tc_openStep t = None then 0 else 1))
           (ev_time (last evs)) (TurnEnd turn EndInterrupted)]"
proof -
  let ?st = "foldl repairStep repairStart evs"
  have rel: "repairRel t ?st" by (rule repair_agrees [OF assms(1)])
  have ne: "evs \<noteq> []"
    using assms by (auto simp: seedSession_def freshTrace_def)
  have "rs_openTurn ?st = Some turn" "rs_openStep ?st = tc_openStep t"
    using rel assms(2) by (simp_all add: repairRel_def)
  then show thesis
    using that [OF refl ne rel] ne
    by (simp add: interruptedTurnClosers_def Let_def split: option.splits)
qed

lemma closers_balanced:
  assumes "seedSession evs = Inr t" "tc_openTurn t = None"
  shows "interruptedTurnClosers evs = []"
  using repair_agrees [OF assms(1)] assms(2)
  by (simp add: interruptedTurnClosers_def repairRel_def Let_def)

lemma closers_trace:
  assumes "seedSession evs = Inr t"
  shows "\<exists>t'. seedSession (evs @ interruptedTurnClosers evs) = Inr t' \<and> tc_openTurn t' = None
    \<and> tc_openStep t' = None"
proof (cases "tc_openTurn t")
  case None
  with seedSession_inv [OF assms] have "tc_openStep t = None"
    by (auto simp: traceInv_def tracePos_def)
  with None assms closers_balanced [OF assms None] show ?thesis by simp
next
  case (Some turn)
  from closers_open [OF assms Some] obtain calls where
    calls: "rs_pendingCalls (foldl repairStep repairStart evs) = calls"
    and ne: "evs \<noteq> []" and rel: "repairRel t (foldl repairStep repairStart evs)"
    and closers: "interruptedTurnClosers evs =
      closingResults (ev_seq (last evs) + 1) (ev_time (last evs)) turn calls
      @ (case tc_openStep t of None \<Rightarrow> [] | Some step \<Rightarrow>
           [closingEvent (ev_seq (last evs) + 1 + int (length calls)) (ev_time (last evs)) (StepEnd turn step)])
      @ [closingEvent (ev_seq (last evs) + 1 + int (length calls) + (if tc_openStep t = None then 0 else 1))
           (ev_time (last evs)) (TurnEnd turn EndInterrupted)]"
    by blast
  have "\<exists>t1. foldE traceStep t (closingResults (ev_seq (last evs) + 1) (ev_time (last evs)) turn calls) = Inr t1
    \<and> tc_openTurn t1 = Some turn \<and> tc_openStep t1 = tc_openStep t
    \<and> tc_lastSeq t1 < ev_seq (last evs) + 1 + int (length calls)"
    by (rule closingResults_trace)
      (use Some rel calls seedSession_lastSeq [OF assms ne] in \<open>auto simp: repairRel_def\<close>)
  then obtain t1 where t1:
    "foldE traceStep t (closingResults (ev_seq (last evs) + 1) (ev_time (last evs)) turn calls) = Inr t1"
    "tc_openTurn t1 = Some turn" "tc_openStep t1 = tc_openStep t"
    "tc_lastSeq t1 < ev_seq (last evs) + 1 + int (length calls)" by blast
  have "\<exists>t'. foldE traceStep t (interruptedTurnClosers evs) = Inr t' \<and> tc_openTurn t' = None \<and> tc_openStep t' = None"
  proof (cases "tc_openStep t")
    case None
    with t1 show ?thesis by (simp add: closers foldE_append trace_simps)
  next
    case (Some step)
    with t1 show ?thesis by (simp add: closers foldE_append trace_simps)
  qed
  with assms show ?thesis by (auto simp: seedSession_def foldE_append)
qed

text \<open>The surface takes them too: results join it, boundaries do not.\<close>

lemma surfaceStep_closingEvent:
  assumes "\<not> isSurfaceEligibleType (event_type d)"
  shows "surfaceStep 0 (evs, st, reps) (closingEvent (int (length evs)) time d)
    = Inr (evs @ [closingEvent (int (length evs)) time d], st, reps)"
  using assms by (simp add: surfaceStep_def applySurfaceEvent_def planSurfaceEvent_def surfaceOpOf_def)

lemma surfaceStep_closingResult:
  assumes "\<forall>n. pc_callSeq c = Some n \<longrightarrow> 0 \<le> n \<and> n < int (length evs) \<and> n \<le> maxSafe"
  shows "surfaceStep 0 (evs, st, reps) (closingResult (int (length evs)) time turn i c)
    = Inr (evs @ [closingResult (int (length evs)) time turn i c],
           st\<lparr>sf_nodes := sf_nodes st @ [int (length evs)]\<rparr>, reps)"
  using assms
  by (cases "pc_callSeq c")
    (auto simp: surfaceStep_def applySurfaceEvent_def planSurfaceEvent_def surfaceOpOf_def
      isSurfaceEligibleType_def SURFACE_EVENT_TYPES_def assertProvenance_def citedSources_def seqs_json_def)

lemma closingResults_surface:
  assumes "\<forall>(i, c) \<in> set calls. \<forall>n. pc_callSeq c = Some n \<longrightarrow> 0 \<le> n \<and> n < int (length evs) \<and> n \<le> maxSafe"
  shows "foldE (surfaceStep 0) (evs, st, reps) (closingResults (int (length evs)) time turn calls) =
    Inr (evs @ closingResults (int (length evs)) time turn calls,
         st\<lparr>sf_nodes := sf_nodes st @ map (\<lambda>k. int (length evs + k)) [0..<length calls]\<rparr>, reps)"
  using assms
proof (induction calls arbitrary: evs st)
  case Nil
  then show ?case by simp
next
  case (Cons p calls)
  obtain i c where p: "p = (i, c)" by (cases p)
  let ?e = "closingResult (int (length evs)) time turn i c"
  let ?st = "st\<lparr>sf_nodes := sf_nodes st @ [int (length evs)]\<rparr>"
  have "foldE (surfaceStep 0) (evs @ [?e], ?st, reps) (closingResults (int (length (evs @ [?e]))) time turn calls) =
    Inr ((evs @ [?e]) @ closingResults (int (length (evs @ [?e]))) time turn calls,
         ?st\<lparr>sf_nodes := sf_nodes ?st @ map (\<lambda>k. int (length (evs @ [?e]) + k)) [0..<length calls]\<rparr>, reps)"
    by (rule Cons.IH) (use Cons.prems in force)
  moreover have "map (\<lambda>k. int (length evs + k)) [0..<Suc (length calls)]
      = int (length evs) # map (\<lambda>k. int (length (evs @ [?e]) + k)) [0..<length calls]"
    by (simp add: map_upt_Suc del: upt_Suc)
  moreover have "surfaceStep 0 (evs, st, reps) ?e = Inr (evs @ [?e], ?st, reps)"
    by (rule surfaceStep_closingResult) (use Cons.prems p in auto)
  ultimately show ?case by (simp add: p ac_simps del: upt_Suc)
qed

lemma foldSurface_last_seq:
  assumes "foldSurface evs = Inr r" "evs \<noteq> []"
  shows "ev_seq (last evs) + 1 = int (length evs)"
proof (cases evs rule: rev_cases)
  case (snoc xs e)
  with assms(1) obtain t u where t: "surfaceReplay 0 xs = Inr t" "surfaceStep 0 t e = Inr u"
    by (auto simp: foldSurface_replay bindE_Inr_iff foldE_snoc_Inr)
  obtain ys st reps where t': "t = (ys, st, reps)" by (cases t)
  with t replay_log [of 0 xs ys st reps] have "ys = xs" by simp
  with t(2) t' snoc show ?thesis
    by (auto simp: surfaceStep_def applySurfaceEvent_def planSurfaceEvent_def result_simps split: if_splits)
qed (use assms in simp)

lemma closers_surface:
  assumes "seedSession evs = Inr t" "foldSurface evs = Inr (nodes, reps)" "int (length evs) \<le> maxSafe"
  shows "\<exists>added. foldSurface (evs @ interruptedTurnClosers evs) = Inr (nodes @ added, reps)
    \<and> length added = length (rs_pendingCalls (foldl repairStep repairStart evs)) \<or> interruptedTurnClosers evs = []"
proof (cases "tc_openTurn t")
  case None
  with closers_balanced [OF assms(1)] show ?thesis by simp
next
  case (Some turn)
  from closers_open [OF assms(1) Some] obtain calls where
    calls: "rs_pendingCalls (foldl repairStep repairStart evs) = calls"
    and ne: "evs \<noteq> []" and rel: "repairRel t (foldl repairStep repairStart evs)"
    and closers: "interruptedTurnClosers evs =
      closingResults (ev_seq (last evs) + 1) (ev_time (last evs)) turn calls
      @ (case tc_openStep t of None \<Rightarrow> [] | Some step \<Rightarrow>
           [closingEvent (ev_seq (last evs) + 1 + int (length calls)) (ev_time (last evs)) (StepEnd turn step)])
      @ [closingEvent (ev_seq (last evs) + 1 + int (length calls) + (if tc_openStep t = None then 0 else 1))
           (ev_time (last evs)) (TurnEnd turn EndInterrupted)]"
    by blast
  let ?time = "ev_time (last evs)"
  have len: "ev_seq (last evs) + 1 = int (length evs)"
    by (rule foldSurface_last_seq [OF assms(2) ne])
  obtain st where st: "surfaceReplay 0 evs = Inr (evs, st, reps)" "nodes = sf_nodes st"
    using assms(2) by (auto simp: foldSurface_Inr)
  have bound: "\<forall>(i, c) \<in> set calls. \<forall>n. pc_callSeq c = Some n \<longrightarrow> 0 \<le> n \<and> n < int (length evs) \<and> n \<le> maxSafe"
    using rel calls seedSession_lastSeq [OF assms(1) ne] len assms(3)
    by (fastforce simp: repairRel_def)
  let ?rs = "closingResults (int (length evs)) ?time turn calls"
  let ?st = "st\<lparr>sf_nodes := sf_nodes st @ map (\<lambda>k. int (length evs + k)) [0..<length calls]\<rparr>"
  have rs: "foldE (surfaceStep 0) (evs, st, reps) ?rs = Inr (evs @ ?rs, ?st, reps)"
    by (rule closingResults_surface [OF bound])
  let ?k = "int (length evs) + int (length calls)"
  note closers = closers [unfolded len]
  note no_surface = isSurfaceEligibleType_def SURFACE_EVENT_TYPES_def
  have "\<exists>all. foldE (surfaceStep 0) (evs, st, reps) (interruptedTurnClosers evs) = Inr (all, ?st, reps)"
  proof (cases "tc_openStep t")
    case None
    then show ?thesis
      using surfaceStep_closingEvent [of "TurnEnd turn EndInterrupted" "evs @ ?rs" ?st reps ?time]
      by (simp add: closers foldE_append rs no_surface)
  next
    case (Some step)
    let ?e = "closingEvent ?k ?time (StepEnd turn step)"
    have "surfaceStep 0 (evs @ ?rs, ?st, reps) ?e = Inr ((evs @ ?rs) @ [?e], ?st, reps)"
      using surfaceStep_closingEvent [of "StepEnd turn step" "evs @ ?rs" ?st reps ?time]
      by (simp add: no_surface)
    moreover have "int (length ((evs @ ?rs) @ [?e])) = ?k + 1" by simp
    then have "\<exists>all. surfaceStep 0 ((evs @ ?rs) @ [?e], ?st, reps)
        (closingEvent (?k + 1) ?time (TurnEnd turn EndInterrupted)) = Inr (all, ?st, reps)"
      using surfaceStep_closingEvent [of "TurnEnd turn EndInterrupted" "(evs @ ?rs) @ [?e]" ?st reps ?time]
      by (simp only: no_surface) simp
    ultimately show ?thesis
      by (auto simp: closers foldE_append rs Some)
  qed
  then have "foldSurface (evs @ interruptedTurnClosers evs)
      = Inr (nodes @ map (\<lambda>k. int (length evs + k)) [0..<length calls], reps)"
    using st by (auto simp: foldSurface_replay foldE_append)
  with calls show ?thesis by auto
qed

section \<open>Which calls are closed\<close>

text \<open>
  A call awaits its result when an assistant message of the open step asked for it and nothing
  since answered it or ended the step.
\<close>

fun asksFor :: "session_event \<Rightarrow> call_id \<Rightarrow> bool" where
  "asksFor e i = (case ev_data e of
     AssistantMessage _ _ m _ _ \<Rightarrow> \<exists>b \<in> set (msg_content m). tool_call_id b = Some i
   | _ \<Rightarrow> False)"

fun settles :: "session_event \<Rightarrow> call_id \<Rightarrow> bool" where
  "settles e i = (case ev_data e of
     TurnStart _ \<Rightarrow> True | TurnEnd _ _ \<Rightarrow> True | StepEnd _ _ \<Rightarrow> True
   | ToolResult _ _ m _ _ \<Rightarrow> tr_callId m = i
   | _ \<Rightarrow> False)"

definition awaiting :: "session_event list \<Rightarrow> call_id \<Rightarrow> bool" where
  "awaiting evs i \<longleftrightarrow> (\<exists>xs e ys. evs = xs @ e # ys \<and> asksFor e i \<and> (\<forall>f \<in> set ys. \<not> settles f i))"

lemma awaiting_snoc:
  "awaiting (evs @ [e]) i \<longleftrightarrow> asksFor e i \<or> awaiting evs i \<and> \<not> settles e i"
proof
  assume "awaiting (evs @ [e]) i"
  then obtain xs x ys where *: "evs @ [e] = xs @ x # ys" "asksFor x i" "\<forall>f \<in> set ys. \<not> settles f i"
    unfolding awaiting_def by blast
  then show "asksFor e i \<or> awaiting evs i \<and> \<not> settles e i"
    by (cases ys rule: rev_cases) (auto simp: awaiting_def)
next
  assume "asksFor e i \<or> awaiting evs i \<and> \<not> settles e i"
  then show "awaiting (evs @ [e]) i"
  proof
    assume "asksFor e i"
    then show ?thesis unfolding awaiting_def by (intro exI [of _ evs] exI [of _ e] exI [of _ "[]"]) simp
  next
    assume a: "awaiting evs i \<and> \<not> settles e i"
    then obtain xs x ys where "evs = xs @ x # ys" "asksFor x i" "\<forall>f \<in> set ys. \<not> settles f i"
      unfolding awaiting_def by blast
    with a show ?thesis
      unfolding awaiting_def by (intro exI [of _ xs] exI [of _ x] exI [of _ "ys @ [e]"]) auto
  qed
qed

lemma registerCalls_keys:
  "fst ` set (registerCalls step bs calls) = {i. \<exists>b \<in> set bs. tool_call_id b = Some i} \<union> fst ` set calls"
proof (induction bs arbitrary: calls)
  case Nil
  then show ?case by simp
next
  case (Cons b bs)
  then show ?case by (cases b) auto
qed

lemma citeCall_keys: "fst ` set (citeCall i seq calls) = fst ` set calls"
proof (cases "map_of calls i")
  case None
  then show ?thesis by (simp add: citeCall_def)
next
  case (Some c)
  then have "i \<in> fst ` set calls" by (force dest: map_of_SomeD)
  with Some show ?thesis by (auto simp: citeCall_def)
qed

lemma pending_awaiting:
  "fst ` set (rs_pendingCalls (foldl repairStep repairStart evs)) = {i. awaiting evs i}"
proof (induction evs rule: rev_induct)
  case Nil
  then show ?case by (simp add: repairStart_def awaiting_def)
next
  case (snoc e evs)
  define st where "st = foldl repairStep repairStart evs"
  have IH: "fst ` set (rs_pendingCalls st) = {i. awaiting evs i}"
    using snoc unfolding st_def .
  have "fst ` set (rs_pendingCalls (repairStep st e)) = {i. awaiting (evs @ [e]) i}"
  proof (cases "ev_data e")
    case (AssistantMessage n k m u i)
    then show ?thesis by (auto simp: awaiting_snoc registerCalls_keys IH)
  next
    case (ToolCall n k c nm a)
    then show ?thesis by (auto simp: awaiting_snoc citeCall_keys IH)
  next
    case (ToolResult n k m err meta)
    then show ?thesis by (auto simp: awaiting_snoc keys_map_delete IH)
  qed (auto simp: awaiting_snoc IH)
  then show ?case by (simp add: st_def del: repairStep.simps)
qed

lemma closingResults_data:
  "e \<in> set (closingResults seq time turn calls) \<Longrightarrow> \<exists>i c n. (i, c) \<in> set calls \<and> e = closingResult n time turn i c"
  by (induction seq time turn calls rule: closingResults.induct) auto

text \<open>The results among a list of events.\<close>

definition resultMessages :: "session_event list \<Rightarrow> tool_result_message list" where
  "resultMessages evs = concat (map (\<lambda>e. case ev_data e of ToolResult _ _ m _ _ \<Rightarrow> [m] | _ \<Rightarrow> []) evs)"

lemma resultMessages_closing:
  "map tr_callId (resultMessages (closingResults seq time turn calls)) = map fst calls"
  "list_all (\<lambda>m. tr_isError m = Some True) (resultMessages (closingResults seq time turn calls))"
  by (induction seq time turn calls rule: closingResults.induct)
     (simp_all add: resultMessages_def interruptedResult_def)

lemma closers_results:
  assumes "seedSession evs = Inr t" "tc_openTurn t \<noteq> None"
  shows "map tr_callId (resultMessages (interruptedTurnClosers evs))
    = map fst (rs_pendingCalls (foldl repairStep repairStart evs))"
    and "list_all (\<lambda>m. tr_isError m = Some True) (resultMessages (interruptedTurnClosers evs))"
proof -
  from assms(2) obtain turn where turn: "tc_openTurn t = Some turn" by blast
  have app: "resultMessages (xs @ ys) = resultMessages xs @ resultMessages ys" for xs ys
    by (simp add: resultMessages_def)
  have none: "resultMessages [closingEvent n x (StepEnd a b)] = []"
    "resultMessages [closingEvent n x (TurnEnd a r)] = []" "resultMessages [] = []" for n x a b r
    by (simp_all add: resultMessages_def)
  have "map tr_callId (resultMessages (interruptedTurnClosers evs))
      = map fst (rs_pendingCalls (foldl repairStep repairStart evs))
    \<and> list_all (\<lambda>m. tr_isError m = Some True) (resultMessages (interruptedTurnClosers evs))"
    by (rule closers_open [OF assms(1) turn])
      (auto simp: app none resultMessages_closing split: option.split)
  then show "map tr_callId (resultMessages (interruptedTurnClosers evs))
    = map fst (rs_pendingCalls (foldl repairStep repairStart evs))"
    and "list_all (\<lambda>m. tr_isError m = Some True) (resultMessages (interruptedTurnClosers evs))"
    by blast+
qed

section \<open>Properties\<close>

text \<open>
  C1. Crash repair restores every log invariant: if a log is valid up to a crash, appending the
  closers gives a log the monitor accepts with no turn and no step open, whose boundary events are a
  complete script, whose surface is the old surface followed by the synthetic results, and which
  needs no further repair.
\<close>

theorem repair_restores_invariants:
  assumes "seedSession evs = Inr t" "foldSurface evs = Inr (nodes, reps)" "int (length evs) \<le> maxSafe"
  shows "\<exists>t' added ks. seedSession (evs @ interruptedTurnClosers evs) = Inr t'
    \<and> tc_openTurn t' = None \<and> tc_openStep t' = None
    \<and> marks (evs @ interruptedTurnClosers evs) = script 1 ks
    \<and> foldSurface (evs @ interruptedTurnClosers evs) = Inr (nodes @ added, reps)
    \<and> interruptedTurnClosers (evs @ interruptedTurnClosers evs) = []"
proof -
  obtain t' where t': "seedSession (evs @ interruptedTurnClosers evs) = Inr t'" "tc_openTurn t' = None"
    "tc_openStep t' = None"
    using closers_trace [OF assms(1)] by blast
  moreover have "\<exists>ks. marks (evs @ interruptedTurnClosers evs) = script 1 ks"
    using seedSession_inv [OF t'(1)] t'(2) by (auto simp: traceInv_def tracePos_def)
  moreover have "\<exists>added. foldSurface (evs @ interruptedTurnClosers evs) = Inr (nodes @ added, reps)"
    using closers_surface [OF assms] assms(2) by auto
  ultimately show ?thesis using closers_balanced [OF t'(1,2)] by blast
qed

theorem repair_restores_invariants_witness:
  "\<exists>t'. seedSession (sampleCrashLog @ interruptedTurnClosers sampleCrashLog) = Inr t' \<and> tc_openTurn t' = None"
  using repair_restores_invariants [OF sampleCrashLog_trace sampleCrashLog_surface]
  by (auto simp: sampleCrashLog_def maxSafe_def)

text \<open>
  C10. Repair answers exactly the dangling calls: the synthetic results of an interrupted turn name,
  once each, precisely the calls the open step's assistant messages asked for and nothing answered
  since, and every one of them is an error.
\<close>

theorem repair_answers_dangling_calls:
  assumes "seedSession evs = Inr t" "tc_openTurn t \<noteq> None"
  shows "distinct (map tr_callId (resultMessages (interruptedTurnClosers evs)))
    \<and> set (map tr_callId (resultMessages (interruptedTurnClosers evs))) = {i. awaiting evs i}
    \<and> list_all (\<lambda>m. tr_isError m = Some True) (resultMessages (interruptedTurnClosers evs))"
proof -
  have "distinct (map fst (rs_pendingCalls (foldl repairStep repairStart evs)))"
    using repair_agrees [OF assms(1)] unfolding repairRel_def by blast
  with closers_results [OF assms] pending_awaiting [of evs] show ?thesis by simp
qed

theorem repair_answers_dangling_calls_witness:
  "{i. awaiting sampleCrashLog i} = {''c1'', ''c2''}"
  using repair_answers_dangling_calls [OF sampleCrashLog_trace]
  by (simp add: sampleCrashLog_def sampleEvent_def sampleAssistant_def interruptedTurnClosers_def
      repairStart_def citeCall_def resultMessages_def closingResult_def closingEvent_def
      interruptedResult_def Let_def)

end
