(* ===== verification/Session_Store.thy ===== *)
theory Session_Store
  imports Session_Log
begin

text \<open>
  The in-memory session store: class \<open>SessionStore\<close> of \<open>core/session/src/index.ts\<close>, with the publication
  half of \<open>Session.append\<close>.

  Session objects and store entries are identities, so a prepared object, a stale detach capability and
  a second session under the same id are different things. Listeners are code the store does not control:
  while a creation or an event is being dispatched (a frame of \<open>st_stack\<close>) any store operation may run,
  nested to any depth. \<open>store_step\<close> is one operation, or the end of the innermost dispatch.

  The notifications are recorded in \<open>st_notes\<close>: the dispatch of \<open>session/created\<close>, \<open>session/event\<close> and
  \<open>session/disposed\<close>. A disposal is the last action of what performs it, so what its listeners do
  comes after it. Promises returned by listeners, the logging of their failures and the type-registry
  lookup of the constructor are outside.
\<close>

section \<open>State\<close>

record entry =
  en_id :: string
  en_session :: nat
  en_announced :: bool
  en_announcing :: bool
  en_appending :: bool
  en_detachRequested :: bool
  en_entered :: bool

text \<open>
  \<open>en_entered\<close> is the variable the detach capability closes over. A creation frame remembers whether
  \<open>create\<close> owns it and rolls back when a listener throws; \<open>FRollback\<close> is that rollback, between
  the throw and the call of the capability.
\<close>

datatype frame = FAnnounce nat bool | FAppend nat | FRollback nat

datatype notice = NCreated nat | NDisposed nat | NEvent nat int

record store =
  st_objects :: "session list"
  st_entries :: "entry list"
  st_map :: "(string \<times> nat) list"
  st_attachments :: "(nat \<times> nat) list"
  st_counter :: nat
  st_stack :: "frame list"
  st_notes :: "notice list"

definition emptyStore :: store where
  "emptyStore = \<lparr>st_objects = [], st_entries = [], st_map = [], st_attachments = [], st_counter = 0,
     st_stack = [], st_notes = []\<rparr>"

definition updEntry :: "nat \<Rightarrow> (entry \<Rightarrow> entry) \<Rightarrow> store \<Rightarrow> store" where
  "updEntry e f st = st\<lparr>st_entries := (st_entries st)[e := f (st_entries st ! e)]\<rparr>"

definition objectId :: "store \<Rightarrow> nat \<Rightarrow> string" where
  "objectId st obj = sh_id (ss_header (st_objects st ! obj))"

datatype store_error =
    AlreadyExists
  | AlreadyAttached
  | AlreadyAnnounced
  | NotLive
  | BadSession session_error
  | ForkExists
  | ForkSourceNotFound
  | ForkSourceNotLive
  | ForkRefused fork_error

section \<open>Minting ids\<close>

definition sessionName :: "nat \<Rightarrow> string" where
  "sessionName n = ''session-'' @ digits_of n"

fun digits_value :: "string \<Rightarrow> nat" where
  "digits_value s = foldl (\<lambda>a c. a * 10 + (of_char c - 48)) 0 s"

lemma digits_value_of [simp]: "digits_value (digits_of n) = n"
proof (induction n rule: digits_of.induct)
  case (1 n)
  have c: "of_char (char_of (48 + d) :: char) = 48 + d" if "d < 10" for d :: nat
    using that by (simp add: of_char_of)
  show ?case
  proof (cases "n < 10")
    case True
    then show ?thesis by (subst digits_of.simps) (simp add: c)
  next
    case False
    then show ?thesis using 1 c [of "n mod 10"] by (subst digits_of.simps) simp
  qed
qed

lemma sessionName_inj: "sessionName m = sessionName n \<longleftrightarrow> m = n"
  unfolding sessionName_def by (metis append_same_eq digits_value_of same_append_eq)

lemma finite_names: "finite {n. sessionName n \<in> set ids}"
proof -
  have "inj_on sessionName {n. sessionName n \<in> set ids}" by (simp add: inj_on_def sessionName_inj)
  then show ?thesis by (rule inj_on_finite [of _ _ "set ids"]) auto
qed

lemma names_above:
  assumes "sessionName (Suc c) \<in> set ids"
  shows "card {n. Suc c < n \<and> sessionName n \<in> set ids} < card {n. c < n \<and> sessionName n \<in> set ids}"
proof (rule psubset_card_mono)
  show "finite {n. c < n \<and> sessionName n \<in> set ids}"
    by (rule finite_subset [OF _ finite_names [of ids]]) auto
  have "Suc c \<in> {n. c < n \<and> sessionName n \<in> set ids} - {n. Suc c < n \<and> sessionName n \<in> set ids}"
    using assms by simp
  then show "{n. Suc c < n \<and> sessionName n \<in> set ids} \<subset> {n. c < n \<and> sessionName n \<in> set ids}"
    using Suc_lessD by blast
qed

text \<open>\<open>do \<dots> while (this.store.has(sessionId))\<close>, over the ids present.\<close>

function mintId :: "string list \<Rightarrow> nat \<Rightarrow> nat \<times> string" where
  "mintId ids c =
     (if sessionName (Suc c) \<in> set ids then mintId ids (Suc c) else (Suc c, sessionName (Suc c)))"
  by pat_completeness auto
termination
  by (relation "measure (\<lambda>(ids, c). card {n. c < n \<and> sessionName n \<in> set ids})") (simp_all add: names_above)

declare mintId.simps [simp del]

lemma mintId_fresh: "mintId ids c = (c', sid) \<Longrightarrow> c < c' \<and> sid = sessionName c' \<and> sid \<notin> set ids"
proof (induction ids c rule: mintId.induct)
  case (1 ids c)
  then show ?case by (subst (asm) (2) mintId.simps) (auto split: if_splits)
qed

section \<open>Operations\<close>

record session_meta =
  mt_createdAt :: "int option"
  mt_cwd :: "string option"
  mt_parentSession :: "string option"
  mt_seedLength :: "int option"
  mt_subagent :: bool
  mt_delegationDepth :: "int option"
  mt_agentPreset :: "string option"

datatype prepare_options =
    FreshOptions "session_event list option" "session_meta option"
  | PersistedOptions "session_event list" session_header

definition metaHeader :: "string \<Rightarrow> int \<Rightarrow> session_meta option \<Rightarrow> session_header" where
  "metaHeader sid now meta =
     \<lparr>sh_version = SESSION_FORMAT_VERSION, sh_id = sid,
      sh_createdAt = (case Option.bind meta mt_createdAt of Some t \<Rightarrow> t | None \<Rightarrow> now),
      sh_cwd = Option.bind meta mt_cwd,
      sh_parentSession = Option.bind meta mt_parentSession,
      sh_seedLength = Option.bind meta mt_seedLength,
      sh_subagent = (case meta of Some m \<Rightarrow> mt_subagent m | None \<Rightarrow> False),
      sh_delegationDepth = Option.bind meta mt_delegationDepth,
      sh_agentPreset = Option.bind meta mt_agentPreset\<rparr>"

definition prepareSession ::
    "(string \<Rightarrow> bool) \<Rightarrow> int \<Rightarrow> string option \<Rightarrow> prepare_options \<Rightarrow> store \<Rightarrow> store \<times> (store_error + nat)" where
  "prepareSession isAbsolute now requested options st =
     (let (counter, sid) = (case requested of
            None \<Rightarrow> mintId (map fst (st_map st)) (st_counter st)
          | Some sid \<Rightarrow> (st_counter st, sid));
          st1 = st\<lparr>st_counter := counter\<rparr> in
      if map_of (st_map st1) sid \<noteq> None then (st1, Inl AlreadyExists)
      else
        (case (case options of
                 PersistedOptions seed header \<Rightarrow> newSession isAbsolute sid now Restore (Some seed) (Some header)
               | FreshOptions seed meta \<Rightarrow>
                   newSession isAbsolute sid now Snapshot seed (Some (metaHeader sid now meta))) of
           Inl err \<Rightarrow> (st1, Inl (BadSession err))
         | Inr s \<Rightarrow> (st1\<lparr>st_objects := st_objects st1 @ [s]\<rparr>, Inr (length (st_objects st1)))))"

definition enterSession :: "nat \<Rightarrow> store \<Rightarrow> store \<times> (store_error + nat)" where
  "enterSession obj st =
     (let sid = objectId st obj; e = length (st_entries st) in
      if map_of (st_map st) sid \<noteq> None then (st, Inl AlreadyExists)
      else if map_of (st_attachments st) obj \<noteq> None then (st, Inl AlreadyAttached)
      else (st\<lparr>st_entries := st_entries st @
                 [\<lparr>en_id = sid, en_session = obj, en_announced = False, en_announcing = False,
                   en_appending = False, en_detachRequested = False, en_entered = True\<rparr>],
               st_map := map_set sid e (st_map st),
               st_attachments := map_set obj e (st_attachments st)\<rparr>, Inr e))"

text \<open>\<open>detachEntered\<close>, with the paired disposal of an announced entry.\<close>

definition detachEntered :: "nat \<Rightarrow> store \<Rightarrow> store" where
  "detachEntered e st =
     (let st1 = updEntry e (\<lambda>en. en\<lparr>en_detachRequested := False\<rparr>) st;
          en = st_entries st1 ! e in
      if map_of (st_map st1) (en_id en) \<noteq> Some e then st1
      else
        st1\<lparr>st_map := map_delete (en_id en) (st_map st1),
            st_attachments := map_delete (en_session en) (st_attachments st1),
            st_notes := st_notes st1 @ (if en_announced en then [NDisposed e] else [])\<rparr>)"

text \<open>The capability \<open>enter\<close> returns.\<close>

definition detachCapability :: "nat \<Rightarrow> store \<Rightarrow> store" where
  "detachCapability e st =
     (if \<not> en_entered (st_entries st ! e) then st
      else
        let st1 = updEntry e (\<lambda>en. en\<lparr>en_entered := False\<rparr>) st; en = st_entries st1 ! e in
        if en_announcing en \<or> en_appending en then updEntry e (\<lambda>en. en\<lparr>en_detachRequested := True\<rparr>) st1
        else detachEntered e st1)"

definition liveEntryFor :: "store \<Rightarrow> nat \<Rightarrow> store_error + nat" where
  "liveEntryFor st obj =
     (case map_of (st_attachments st) obj of
        None \<Rightarrow> Inl NotLive
      | Some e \<Rightarrow> if map_of (st_map st) (en_id (st_entries st ! e)) \<noteq> Some e then Inl NotLive else Inr e)"

definition announceBegin :: "bool \<Rightarrow> nat \<Rightarrow> store \<Rightarrow> store \<times> (store_error + unit)" where
  "announceBegin rollback obj st =
     (case liveEntryFor st obj of
        Inl err \<Rightarrow> (st, Inl err)
      | Inr e \<Rightarrow>
          if en_announced (st_entries st ! e) \<or> en_announcing (st_entries st ! e) then (st, Inl AlreadyAnnounced)
          else
            ((updEntry e (\<lambda>en. en\<lparr>en_announced := True, en_announcing := True\<rparr>) st)
               \<lparr>st_stack := FAnnounce e rollback # st_stack st, st_notes := st_notes st @ [NCreated e]\<rparr>, Inr ()))"

text \<open>The \<open>finally\<close> of \<open>announce\<close>; \<open>threw\<close> says that a creation listener vetoed.\<close>

definition announceEnd :: "nat \<Rightarrow> bool \<Rightarrow> bool \<Rightarrow> store \<Rightarrow> store" where
  "announceEnd e rollback threw st =
     (let st1 = (updEntry e (\<lambda>en. en\<lparr>en_announcing := False\<rparr>) st)
            \<lparr>st_stack := (if threw \<and> rollback then [FRollback e] else []) @ tl (st_stack st)\<rparr>;
          en = st_entries st1 ! e in
      if en_detachRequested en \<and> \<not> en_appending en then detachEntered e st1 else st1)"

text \<open>The \<open>finally\<close> of \<open>append\<close> on an attached session.\<close>

definition appendFinally :: "nat \<Rightarrow> store \<Rightarrow> store" where
  "appendFinally e st =
     (let st1 = updEntry e (\<lambda>en. en\<lparr>en_appending := False\<rparr>) st; en = st_entries st1 ! e in
      if en_detachRequested en \<and> \<not> en_announcing en then detachEntered e st1 else st1)"

definition storeAppend ::
    "nat \<Rightarrow> int \<Rightarrow> event_data \<Rightarrow> surface_intent \<Rightarrow> (session_event \<Rightarrow> bool) \<Rightarrow> store
      \<Rightarrow> store \<times> (session_error + session_event)" where
  "storeAppend obj now d intent veto st =
     (let s = st_objects st ! obj in
      case map_of (st_attachments st) obj of
        None \<Rightarrow>
          (case appendEvent s None now d intent of
             (s', r) \<Rightarrow> (st\<lparr>st_objects := (st_objects st)[obj := s']\<rparr>, r))
      | Some e \<Rightarrow>
          (case appendEvent s (Some \<lparr>at_appending = en_appending (st_entries st ! e), at_veto = veto\<rparr>) now d intent of
             (s', r) \<Rightarrow>
               let st1 = st\<lparr>st_objects := (st_objects st)[obj := s']\<rparr>;
                   busy = updEntry e (\<lambda>en. en\<lparr>en_appending := True\<rparr>) st1 in
               (case r of
                  Inr event \<Rightarrow> (busy\<lparr>st_stack := FAppend e # st_stack st,
                                    st_notes := st_notes st @ [NEvent e (ev_seq event)]\<rparr>, r)
                | Inl err \<Rightarrow> (if err = DispatchVetoed then appendFinally e busy else st1, r))))"

definition createSession ::
    "(string \<Rightarrow> bool) \<Rightarrow> int \<Rightarrow> string option \<Rightarrow> prepare_options \<Rightarrow> store \<Rightarrow> store \<times> (store_error + nat)" where
  "createSession isAbsolute now requested options st =
     (case prepareSession isAbsolute now requested options st of
        (st1, Inl err) \<Rightarrow> (st1, Inl err)
      | (st1, Inr obj) \<Rightarrow>
          (case enterSession obj st1 of
             (st2, Inl err) \<Rightarrow> (st2, Inl err)
           | (st2, Inr e) \<Rightarrow>
               (case announceBegin True obj st2 of
                  (st3, Inl err) \<Rightarrow> (detachCapability e st3, Inl err)
                | (st3, Inr _) \<Rightarrow> (st3, Inr obj))))"

definition storeGet :: "store \<Rightarrow> string \<Rightarrow> nat option" where
  "storeGet st sid = map_option (\<lambda>e. en_session (st_entries st ! e)) (map_of (st_map st) sid)"

definition storeList :: "store \<Rightarrow> nat list" where
  "storeList st = map (\<lambda>(_, e). en_session (st_entries st ! e)) (st_map st)"

datatype fork_source = SourceId string | SourceObject nat

definition resolveForkSource :: "store \<Rightarrow> fork_source \<Rightarrow> store_error + nat" where
  "resolveForkSource st source =
     (case source of
        SourceId sid \<Rightarrow> (case storeGet st sid of None \<Rightarrow> Inl ForkSourceNotFound | Some obj \<Rightarrow> Inr obj)
      | SourceObject obj \<Rightarrow>
          (case storeGet st (objectId st obj) of
             None \<Rightarrow> Inl ForkSourceNotFound
           | Some live \<Rightarrow> if live \<noteq> obj then Inl ForkSourceNotLive else Inr obj))"

definition forkMeta :: "session_header \<Rightarrow> nat \<Rightarrow> session_meta" where
  "forkMeta h n = \<lparr>mt_createdAt = None, mt_cwd = sh_cwd h, mt_parentSession = Some (sh_id h),
     mt_seedLength = Some (int n), mt_subagent = False, mt_delegationDepth = None, mt_agentPreset = None\<rparr>"

definition forkSession ::
    "(string \<Rightarrow> bool) \<Rightarrow> int \<Rightarrow> fork_source \<Rightarrow> rat option \<Rightarrow> string option \<Rightarrow> store \<Rightarrow> store \<times> (store_error + nat)" where
  "forkSession isAbsolute now source boundary child st =
     (if (case child of Some sid \<Rightarrow> storeGet st sid \<noteq> None | None \<Rightarrow> False) then (st, Inl ForkExists)
      else
        (case resolveForkSource st source of
           Inl err \<Rightarrow> (st, Inl err)
         | Inr obj \<Rightarrow>
             (case events (st_objects st ! obj) of
                (s, evs) \<Rightarrow>
                  let st1 = st\<lparr>st_objects := (st_objects st)[obj := s]\<rparr> in
                  (case forkSeed evs boundary of
                     Inl err \<Rightarrow> (st1, Inl (ForkRefused err))
                   | Inr seed \<Rightarrow>
                       createSession isAbsolute now child
                         (FreshOptions (Some seed) (Some (forkMeta (ss_header s) (length seed)))) st1))))"

text \<open>
  The durability checkpoint: \<open>settled\<close> is how each listener settled, in registration order; the
  first failure is thrown after all of them have settled.
\<close>

definition flushResult :: "('e + unit) list \<Rightarrow> 'e + bool" where
  "flushResult settled = foldr (\<lambda>r rest. case r of Inl err \<Rightarrow> Inl err | Inr _ \<Rightarrow> rest) settled (Inr (settled \<noteq> []))"

definition flushSession :: "store \<Rightarrow> nat \<Rightarrow> ('e + unit) list \<Rightarrow> (store_error + 'e) + bool" where
  "flushSession st obj settled =
     (case liveEntryFor st obj of
        Inl err \<Rightarrow> Inl (Inl err)
      | Inr _ \<Rightarrow> map_sum Inr id (flushResult settled))"

section \<open>Runs\<close>

text \<open>
  One operation by anyone, the end of the innermost dispatch, or a cached read of a session object.
\<close>

inductive store_step :: "(string \<Rightarrow> bool) \<Rightarrow> store \<Rightarrow> store \<Rightarrow> bool" for isAbsolute where
  step_prepare: "store_step isAbsolute st (fst (prepareSession isAbsolute now requested options st))"
| step_enter: "obj < length (st_objects st) \<Longrightarrow> store_step isAbsolute st (fst (enterSession obj st))"
| step_create: "store_step isAbsolute st (fst (createSession isAbsolute now requested options st))"
| step_fork: "store_step isAbsolute st (fst (forkSession isAbsolute now source boundary child st))"
| step_announce: "obj < length (st_objects st) \<Longrightarrow> store_step isAbsolute st (fst (announceBegin False obj st))"
| step_detach: "e < length (st_entries st) \<Longrightarrow> store_step isAbsolute st (detachCapability e st)"
| step_append: "obj < length (st_objects st) \<Longrightarrow>
    store_step isAbsolute st (fst (storeAppend obj now d intent veto st))"
| step_read: "obj < length (st_objects st) \<Longrightarrow> c \<in> {CallEvents, CallRequestHeader, CallRequestContext, CallDeriveMessages} \<Longrightarrow>
    store_step isAbsolute st (st\<lparr>st_objects := (st_objects st)[obj := sessionCall (st_objects st ! obj) c]\<rparr>)"
| step_announced: "st_stack st = FAnnounce e rollback # frames \<Longrightarrow> store_step isAbsolute st (announceEnd e rollback threw st)"
| step_appended: "st_stack st = FAppend e # frames \<Longrightarrow>
    store_step isAbsolute st (appendFinally e (st\<lparr>st_stack := frames\<rparr>))"
| step_rollback: "st_stack st = FRollback e # frames \<Longrightarrow>
    store_step isAbsolute st (detachCapability e (st\<lparr>st_stack := frames\<rparr>))"

section \<open>What holds of every entry\<close>

definition live :: "store \<Rightarrow> nat \<Rightarrow> bool" where
  "live st e \<longleftrightarrow> e < length (st_entries st) \<and> map_of (st_map st) (en_id (st_entries st ! e)) = Some e"

fun announces :: "nat \<Rightarrow> frame \<Rightarrow> bool" where
  "announces e (FAnnounce x _) \<longleftrightarrow> x = e"
| "announces e _ \<longleftrightarrow> False"

fun frameEntry :: "frame \<Rightarrow> nat" where
  "frameEntry (FAnnounce e _) = e"
| "frameEntry (FAppend e) = e"
| "frameEntry (FRollback e) = e"

fun noticeEntry :: "notice \<Rightarrow> nat" where
  "noticeEntry (NCreated e) = e"
| "noticeEntry (NDisposed e) = e"
| "noticeEntry (NEvent e _) = e"

fun publishedSeq :: "nat \<Rightarrow> notice \<Rightarrow> int list" where
  "publishedSeq e (NEvent x n) = (if x = e then [n] else [])"
| "publishedSeq e _ = []"

definition published :: "nat \<Rightarrow> notice list \<Rightarrow> int list" where
  "published e notes = concat (map (publishedSeq e) notes)"

text \<open>Nothing follows the disposal of an entry: neither its creation nor an event.\<close>

fun after_disposal :: "notice \<Rightarrow> notice \<Rightarrow> bool" where
  "after_disposal (NDisposed e) (NCreated x) \<longleftrightarrow> x \<noteq> e"
| "after_disposal (NDisposed e) (NEvent x _) \<longleftrightarrow> x \<noteq> e"
| "after_disposal _ _ \<longleftrightarrow> True"

lemma after_disposal_iff:
  "after_disposal m n \<longleftrightarrow>
     (case n of NCreated x \<Rightarrow> m \<noteq> NDisposed x | NEvent x _ \<Rightarrow> m \<noteq> NDisposed x | NDisposed _ \<Rightarrow> True)"
  by (cases m; cases n) auto

text \<open>
  The facts about one entry: its flags against the frames, the notices and the liveness of the entry,
  and the events published under it, which are consecutive up to the end of the log while it is live.
\<close>

definition entry_facts ::
    "entry \<Rightarrow> bool \<Rightarrow> nat \<Rightarrow> nat \<Rightarrow> nat \<Rightarrow> nat \<Rightarrow> int list \<Rightarrow> bool \<Rightarrow> nat \<Rightarrow> bool" where
  "entry_facts en alive announcements appends created disposed seqs known_object log_length \<longleftrightarrow>
     (en_announcing en \<longrightarrow> en_announced en)
     \<and> announcements = of_bool (en_announcing en) \<and> appends = of_bool (en_appending en)
     \<and> created = of_bool (en_announced en) \<and> disposed = of_bool (en_announced en \<and> \<not> alive)
     \<and> known_object
     \<and> (\<exists>k. seqs = map int [k..<k + length seqs] \<and> (alive \<longrightarrow> k + length seqs = log_length))"

definition flags_ok :: "entry \<Rightarrow> bool \<Rightarrow> bool" where
  "flags_ok en alive \<longleftrightarrow>
     (alive \<longleftrightarrow> en_entered en \<or> en_announcing en \<or> en_appending en)
     \<and> (en_detachRequested en \<longleftrightarrow> \<not> en_entered en \<and> (en_announcing en \<or> en_appending en))"

definition entry_base :: "store \<Rightarrow> nat \<Rightarrow> bool" where
  "entry_base st e \<longleftrightarrow> (let en = st_entries st ! e in
     entry_facts en (live st e) (length (filter (announces e) (st_stack st))) (count_list (st_stack st) (FAppend e))
       (count_list (st_notes st) (NCreated e)) (count_list (st_notes st) (NDisposed e))
       (published e (st_notes st))
       (en_session en < length (st_objects st) \<and> en_id en = objectId st (en_session en))
       (length (ss_log (st_objects st ! en_session en))))"

definition entry_ok :: "store \<Rightarrow> nat \<Rightarrow> bool" where
  "entry_ok st e \<longleftrightarrow> entry_base st e \<and> flags_ok (st_entries st ! e) (live st e)"

definition global_ok :: "store \<Rightarrow> bool" where
  "global_ok st \<longleftrightarrow>
     distinct (map fst (st_map st)) \<and> (\<forall>(sid, e) \<in> set (st_map st). e < length (st_entries st) \<and> en_id (st_entries st ! e) = sid)
     \<and> (\<forall>obj e. map_of (st_attachments st) obj = Some e \<longleftrightarrow> live st e \<and> en_session (st_entries st ! e) = obj)
     \<and> (\<forall>s \<in> set (st_objects st). session_ok s)
     \<and> sorted_wrt after_disposal (st_notes st)
     \<and> (\<forall>f \<in> set (st_stack st). frameEntry f < length (st_entries st))
     \<and> (\<forall>n \<in> set (st_notes st). noticeEntry n < length (st_entries st))"

definition store_ok :: "store \<Rightarrow> bool" where
  "store_ok st \<longleftrightarrow> global_ok st \<and> (\<forall>e < length (st_entries st). entry_ok st e)"

lemma store_ok_empty: "store_ok emptyStore"
  by (simp add: store_ok_def global_ok_def emptyStore_def live_def)

lemma store_okI:
  "global_ok st \<Longrightarrow> entry_ok st e \<Longrightarrow> (\<And>x. x < length (st_entries st) \<Longrightarrow> x \<noteq> e \<Longrightarrow> entry_ok st x) \<Longrightarrow> store_ok st"
  unfolding store_ok_def by metis

lemma updEntry_simps [simp]:
  "st_objects (updEntry e f st) = st_objects st" "length (st_entries (updEntry e f st)) = length (st_entries st)"
  "st_map (updEntry e f st) = st_map st" "st_attachments (updEntry e f st) = st_attachments st"
  "st_counter (updEntry e f st) = st_counter st" "st_stack (updEntry e f st) = st_stack st"
  "st_notes (updEntry e f st) = st_notes st" "objectId (updEntry e f st) = objectId st"
  "x \<noteq> e \<Longrightarrow> st_entries (updEntry e f st) ! x = st_entries st ! x"
  "e < length (st_entries st) \<Longrightarrow> st_entries (updEntry e f st) ! e = f (st_entries st ! e)"
  by (simp_all add: updEntry_def objectId_def fun_eq_iff)

lemma live_upd [simp]:
  assumes "\<And>en. en_id (f en) = en_id en"
  shows "live (updEntry e f st) x \<longleftrightarrow> live st x"
  using assms by (cases "x = e"; cases "e < length (st_entries st)") (auto simp: live_def updEntry_def)

lemma published_simps [simp]:
  "published e [] = []" "published e (xs @ ys) = published e xs @ published e ys"
  "published e [NCreated x] = []" "published e [NDisposed x] = []"
  "published e [NEvent x n] = (if x = e then [n] else [])"
  by (simp_all add: published_def)

lemma count_list_snoc: "count_list (xs @ ys) x = count_list xs x + count_list ys x"
  by simp

lemma attached: "global_ok st \<Longrightarrow>
    map_of (st_attachments st) obj = Some e \<longleftrightarrow> live st e \<and> en_session (st_entries st ! e) = obj"
  by (simp add: global_ok_def)

lemma live_entry: "global_ok st \<Longrightarrow> liveEntryFor st obj = Inr e \<longleftrightarrow> live st e \<and> en_session (st_entries st ! e) = obj"
  using attached [of st obj e] attached [of st obj "the (map_of (st_attachments st) obj)"]
  by (cases "map_of (st_attachments st) obj") (auto simp: liveEntryFor_def live_def)

text \<open>An entry whose own data an operation leaves alone stays as it is.\<close>

lemma entry_ok_cong:
  assumes "entry_ok st x" "st_entries st' ! x = st_entries st ! x" "live st' x = live st x"
    and "length (filter (announces x) (st_stack st')) = length (filter (announces x) (st_stack st))"
    and "count_list (st_stack st') (FAppend x) = count_list (st_stack st) (FAppend x)"
    and "count_list (st_notes st') (NCreated x) = count_list (st_notes st) (NCreated x)"
    and "count_list (st_notes st') (NDisposed x) = count_list (st_notes st) (NDisposed x)"
    and "published x (st_notes st') = published x (st_notes st)"
    and "length (st_objects st) \<le> length (st_objects st')"
    and "en_session (st_entries st ! x) < length (st_objects st) \<Longrightarrow> live st x \<Longrightarrow>
      length (ss_log (st_objects st' ! en_session (st_entries st ! x)))
        = length (ss_log (st_objects st ! en_session (st_entries st ! x)))"
    and "en_session (st_entries st ! x) < length (st_objects st) \<Longrightarrow>
      objectId st' (en_session (st_entries st ! x)) = objectId st (en_session (st_entries st ! x))"
  shows "entry_ok st' x"
  using assms unfolding entry_ok_def entry_base_def entry_facts_def Let_def by auto

text \<open>Removing a live entry that nothing keeps.\<close>

lemma detachEntered_ok:
  assumes g: "global_ok st" and others: "\<And>x. x < length (st_entries st) \<Longrightarrow> x \<noteq> e \<Longrightarrow> entry_ok st x"
    and e: "live st e" "entry_base st e"
      "\<not> en_entered (st_entries st ! e)" "\<not> en_announcing (st_entries st ! e)" "\<not> en_appending (st_entries st ! e)"
  shows "store_ok (detachEntered e st)"
proof -
  let ?st = "detachEntered e st"
  let ?en = "st_entries st ! e"
  have len: "e < length (st_entries st)" using e(1) by (simp add: live_def)
  have st: "?st = (updEntry e (\<lambda>en. en\<lparr>en_detachRequested := False\<rparr>) st)
     \<lparr>st_map := map_delete (en_id ?en) (st_map st), st_attachments := map_delete (en_session ?en) (st_attachments st),
      st_notes := st_notes st @ (if en_announced ?en then [NDisposed e] else [])\<rparr>"
    using e(1) len by (simp add: detachEntered_def live_def)
  have live: "live ?st x \<longleftrightarrow> x \<noteq> e \<and> live st x" for x
    using e(1) len unfolding st live_def
    by (cases "x = e") auto
  have others': "entry_ok ?st x" if "x < length (st_entries st)" "x \<noteq> e" for x
    by (rule entry_ok_cong [OF others [OF that]]) (use that live [of x] in \<open>simp_all add: st objectId_def\<close>)
  have "entry_base ?st e"
    using e len live [of e] unfolding entry_base_def entry_facts_def Let_def
    by (auto simp: st objectId_def)
  then have e': "entry_ok ?st e"
    using e len live [of e] by (simp add: entry_ok_def flags_ok_def st)
  have attach: "map_of (st_attachments ?st) obj = Some x \<longleftrightarrow> live ?st x \<and> en_session (st_entries ?st ! x) = obj" for obj x
    using attached [OF g, of obj x] attached [OF g, of obj e] e(1) len unfolding live
    by (cases "x = e") (auto simp: st)
  have map: "sid = en_id (st_entries ?st ! x) \<and> x < length (st_entries st)" if "(sid, x) \<in> set (st_map ?st)" for sid x
    using g that len by (cases "x = e") (auto simp: global_ok_def st set_map_delete)
  have "global_ok ?st"
    using g attach map len unfolding global_ok_def
    by (auto simp: st distinct_map_delete sorted_wrt_append)
  moreover have "length (st_entries ?st) = length (st_entries st)" by (simp add: st)
  ultimately show ?thesis
    using others' e' unfolding store_ok_def by metis
qed

lemma live_frame [simp]:
  "live (st\<lparr>st_stack := fs\<rparr>) = live st" "live (st\<lparr>st_notes := ns\<rparr>) = live st"
  "live (st\<lparr>st_objects := objs\<rparr>) = live st" "live (st\<lparr>st_counter := c\<rparr>) = live st"
  by (simp_all add: live_def fun_eq_iff)

lemma objectId_frame [simp]:
  "objectId (st\<lparr>st_stack := fs\<rparr>) = objectId st" "objectId (st\<lparr>st_notes := ns\<rparr>) = objectId st"
  by (simp_all add: objectId_def fun_eq_iff)

lemma global_upd:
  assumes "global_ok st" "\<And>en. en_id (f en) = en_id en" "\<And>en. en_session (f en) = en_session en"
  shows "global_ok (updEntry e f st)"
proof -
  have "en_id (st_entries (updEntry e f st) ! x) = en_id (st_entries st ! x)"
    "en_session (st_entries (updEntry e f st) ! x) = en_session (st_entries st ! x)" for x
    by (cases "x = e"; cases "e < length (st_entries st)"; simp add: updEntry_def not_less list_update_beyond assms(2,3))+
  with assms show ?thesis by (simp add: global_ok_def)
qed

lemma global_frames:
  "global_ok st \<Longrightarrow> \<forall>f \<in> set fs. frameEntry f < length (st_entries st) \<Longrightarrow> global_ok (st\<lparr>st_stack := fs\<rparr>)"
  by (simp add: global_ok_def)

lemma global_notes:
  "global_ok st \<Longrightarrow> noticeEntry n < length (st_entries st) \<Longrightarrow> \<forall>m \<in> set (st_notes st). after_disposal m n
    \<Longrightarrow> global_ok (st\<lparr>st_notes := st_notes st @ [n]\<rparr>)"
  by (simp add: global_ok_def sorted_wrt_append)

lemma not_disposed:
  assumes "store_ok st" "live st e"
  shows "NDisposed e \<notin> set (st_notes st)"
proof -
  from assms have "entry_ok st e" by (simp add: store_ok_def live_def)
  with assms(2) have "count_list (st_notes st) (NDisposed e) = 0"
    by (simp add: entry_ok_def entry_base_def entry_facts_def Let_def)
  then show ?thesis by (simp add: count_list_0_iff)
qed

lemma Suc_of_bool [simp]: "Suc n = of_bool P \<longleftrightarrow> n = 0 \<and> P"
  by simp

text \<open>The capability.\<close>

lemma detachCapability_ok:
  assumes ok: "store_ok st" and e: "e < length (st_entries st)"
  shows "store_ok (detachCapability e st)"
proof (cases "en_entered (st_entries st ! e)")
  case False
  with ok show ?thesis by (simp add: detachCapability_def)
next
  case True
  let ?en = "st_entries st ! e"
  from ok have g: "global_ok st" and all: "\<And>x. x < length (st_entries st) \<Longrightarrow> entry_ok st x"
    by (simp_all add: store_ok_def)
  from all [OF e] True have live: "live st e" by (simp add: entry_ok_def flags_ok_def)
  show ?thesis
  proof (cases "en_announcing ?en \<or> en_appending ?en")
    case busy: True
    let ?f = "\<lambda>en. en\<lparr>en_entered := False\<rparr>" and ?g = "\<lambda>en. en\<lparr>en_detachRequested := True\<rparr>"
    have "store_ok (updEntry e ?g (updEntry e ?f st))"
      unfolding store_ok_def
    proof (intro conjI allI impI global_upd g)
      fix x
      assume "x < length (st_entries (updEntry e ?g (updEntry e ?f st)))"
      then have x: "x < length (st_entries st)" by simp
      show "entry_ok (updEntry e ?g (updEntry e ?f st)) x"
      proof (cases "x = e")
        case False
        then show ?thesis by (intro entry_ok_cong [OF all [OF x]]) simp_all
      next
        case True
        with all [OF x] x busy live show ?thesis
          by (simp add: entry_ok_def entry_base_def entry_facts_def flags_ok_def Let_def)
      qed
    qed simp_all
    with True busy e show ?thesis by (simp add: detachCapability_def)
  next
    case False
    let ?st = "updEntry e (\<lambda>en. en\<lparr>en_entered := False\<rparr>) st"
    have "store_ok (detachEntered e ?st)"
    proof (rule detachEntered_ok)
      show "global_ok ?st" using g by (simp add: global_upd)
      show "entry_ok ?st x" if "x < length (st_entries ?st)" "x \<noteq> e" for x
        using that by (intro entry_ok_cong [OF all [of x]]) simp_all
      show "entry_base ?st e"
        using all [OF e] e by (simp add: entry_ok_def entry_base_def entry_facts_def Let_def)
    qed (use live e False in simp_all)
    with True False e show ?thesis by (simp add: detachCapability_def)
  qed
qed

text \<open>The two \<open>finally\<close> blocks.\<close>

lemma announceEnd_ok:
  assumes ok: "store_ok st" and stack: "st_stack st = FAnnounce e rollback # frames"
  shows "store_ok (announceEnd e rollback threw st)"
proof -
  let ?fs = "(if threw \<and> rollback then [FRollback e] else []) @ frames"
  let ?st = "(updEntry e (\<lambda>en. en\<lparr>en_announcing := False\<rparr>) st)\<lparr>st_stack := ?fs\<rparr>"
  let ?en = "st_entries st ! e"
  from ok have g: "global_ok st" and all: "\<And>x. x < length (st_entries st) \<Longrightarrow> entry_ok st x"
    by (simp_all add: store_ok_def)
  from g stack have e: "e < length (st_entries st)" and frames: "\<forall>f \<in> set frames. frameEntry f < length (st_entries st)"
    by (auto simp: global_ok_def)
  have g': "global_ok ?st"
    using frames e by (intro global_frames global_upd g) auto
  from all [OF e] stack have now: "en_announcing ?en" "live st e"
    by (auto simp: entry_ok_def entry_base_def entry_facts_def flags_ok_def Let_def)
  have others: "entry_ok ?st x" if "x < length (st_entries st)" "x \<noteq> e" for x
    using that stack by (intro entry_ok_cong [OF all [of x]]) (auto simp: objectId_def)
  have base: "entry_base ?st e"
    using all [OF e] e stack now by (auto simp: entry_ok_def entry_base_def entry_facts_def Let_def)
  show ?thesis
  proof (cases "en_detachRequested ?en \<and> \<not> en_appending ?en")
    case True
    have "store_ok (detachEntered e ?st)"
      by (rule detachEntered_ok [OF g' _ _ base])
        (use others now True all [OF e] e in \<open>auto simp: entry_ok_def flags_ok_def\<close>)
    with True e stack show ?thesis by (simp add: announceEnd_def Let_def)
  next
    case False
    then have "entry_ok ?st e"
      using base all [OF e] e now by (auto simp: entry_ok_def flags_ok_def)
    with others g' have "store_ok ?st" by (intro store_okI [of ?st e]) simp_all
    with False e stack show ?thesis by (auto simp: announceEnd_def Let_def)
  qed
qed

lemma appendFinally_ok:
  assumes ok: "store_ok st" and stack: "st_stack st = FAppend e # frames"
  shows "store_ok (appendFinally e (st\<lparr>st_stack := frames\<rparr>))"
proof -
  let ?st = "(updEntry e (\<lambda>en. en\<lparr>en_appending := False\<rparr>) st)\<lparr>st_stack := frames\<rparr>"
  let ?en = "st_entries st ! e"
  have st: "updEntry e (\<lambda>en. en\<lparr>en_appending := False\<rparr>) (st\<lparr>st_stack := frames\<rparr>) = ?st"
    by (simp add: updEntry_def)
  from ok have g: "global_ok st" and all: "\<And>x. x < length (st_entries st) \<Longrightarrow> entry_ok st x"
    by (simp_all add: store_ok_def)
  from g stack have e: "e < length (st_entries st)" and frames: "\<forall>f \<in> set frames. frameEntry f < length (st_entries st)"
    by (auto simp: global_ok_def)
  have g': "global_ok ?st"
    using frames e by (intro global_frames global_upd g) auto
  from all [OF e] stack have now: "en_appending ?en" "live st e"
    by (auto simp: entry_ok_def entry_base_def entry_facts_def flags_ok_def Let_def)
  have others: "entry_ok ?st x" if "x < length (st_entries st)" "x \<noteq> e" for x
    using that stack by (intro entry_ok_cong [OF all [of x]]) (auto simp: objectId_def)
  have base: "entry_base ?st e"
    using all [OF e] e stack now by (auto simp: entry_ok_def entry_base_def entry_facts_def Let_def)
  show ?thesis
  proof (cases "en_detachRequested ?en \<and> \<not> en_announcing ?en")
    case True
    have "store_ok (detachEntered e ?st)"
      by (rule detachEntered_ok [OF g' _ _ base])
        (use others now True all [OF e] e in \<open>auto simp: entry_ok_def flags_ok_def\<close>)
    with True e stack show ?thesis by (simp add: appendFinally_def st Let_def)
  next
    case False
    then have "entry_ok ?st e"
      using base all [OF e] e now by (auto simp: entry_ok_def flags_ok_def)
    with others g' have "store_ok ?st" by (intro store_okI [of ?st e]) simp_all
    with False e stack show ?thesis by (auto simp: appendFinally_def st Let_def)
  qed
qed

text \<open>Beginning an announcement, and changes to the session objects.\<close>

lemma announceBegin_ok:
  assumes ok: "store_ok st"
  shows "store_ok (fst (announceBegin rollback obj st))"
proof (cases "liveEntryFor st obj")
  case (Inl err)
  with ok show ?thesis by (simp add: announceBegin_def)
next
  case (Inr e)
  let ?en = "st_entries st ! e"
  from ok have g: "global_ok st" and all: "\<And>x. x < length (st_entries st) \<Longrightarrow> entry_ok st x"
    by (simp_all add: store_ok_def)
  from live_entry [OF g] Inr have live: "live st e" by blast
  then have e: "e < length (st_entries st)" by (simp add: live_def)
  show ?thesis
  proof (cases "en_announced ?en \<or> en_announcing ?en")
    case True
    with Inr ok show ?thesis by (auto simp: announceBegin_def)
  next
    case False
    let ?f = "\<lambda>en. en\<lparr>en_announced := True, en_announcing := True\<rparr>"
    let ?st = "(updEntry e ?f st)\<lparr>st_stack := FAnnounce e rollback # st_stack st, st_notes := st_notes st @ [NCreated e]\<rparr>"
    let ?st1 = "(updEntry e ?f st)\<lparr>st_stack := FAnnounce e rollback # st_stack st\<rparr>"
    have "global_ok ?st1"
      by (rule global_frames [OF global_upd [OF g]]) (use g e in \<open>auto simp: global_ok_def\<close>)
    then have "global_ok (?st1\<lparr>st_notes := st_notes ?st1 @ [NCreated e]\<rparr>)"
      by (rule global_notes) (use not_disposed [OF ok live] e in \<open>auto simp: after_disposal_iff\<close>)
    then have g': "global_ok ?st" by simp
    have "entry_ok ?st e"
      using all [OF e] e live False
      by (auto simp: entry_ok_def entry_base_def entry_facts_def flags_ok_def Let_def)
    moreover have "entry_ok ?st x" if "x < length (st_entries st)" "x \<noteq> e" for x
      using that by (intro entry_ok_cong [OF all [of x]]) (auto simp: objectId_def)
    ultimately have "store_ok ?st" using g' by (intro store_okI [of ?st e]) simp_all
    with Inr False show ?thesis by (simp add: announceBegin_def)
  qed
qed

lemma objects_ok:
  assumes ok: "store_ok st" and s: "session_ok s" "ss_header s = ss_header (st_objects st ! obj)"
    "length (ss_log s) = length (ss_log (st_objects st ! obj)) \<or> map_of (st_attachments st) obj = None"
  shows "store_ok (st\<lparr>st_objects := (st_objects st)[obj := s]\<rparr>)"
proof -
  let ?st = "st\<lparr>st_objects := (st_objects st)[obj := s]\<rparr>"
  from ok have g: "global_ok st" and all: "\<And>x. x < length (st_entries st) \<Longrightarrow> entry_ok st x"
    by (simp_all add: store_ok_def)
  have "global_ok ?st"
    using g s(1) set_update_subset_insert [of "st_objects st" obj s] by (auto simp: global_ok_def)
  moreover have "entry_ok ?st x" if x: "x < length (st_entries st)" for x
  proof (rule entry_ok_cong [OF all [OF x]])
    let ?o = "en_session (st_entries st ! x)"
    assume o: "?o < length (st_objects st)"
    show "objectId ?st ?o = objectId st ?o"
      using s(2) o by (cases "?o = obj") (auto simp: objectId_def)
    assume "live st x"
    then show "length (ss_log (st_objects ?st ! ?o)) = length (ss_log (st_objects st ! ?o))"
      using s(3) o attached [OF g, of obj x] by (cases "?o = obj") auto
  qed simp_all
  ultimately show ?thesis unfolding store_ok_def by simp
qed

lemma append_vetoed: "appendEvent s (Some a) now d intent = (s', Inl DispatchVetoed) \<Longrightarrow> \<not> at_appending a"
  by (auto simp: appendEvent_def Let_def split: option.splits sum.splits if_splits prod.splits)

lemma append_length:
  "appendEvent s entry now d intent = (s', Inl err) \<Longrightarrow> ss_log s' = ss_log s \<and> ss_header s' = ss_header s"
  "appendEvent s entry now d intent = (s', Inr ev) \<Longrightarrow>
     ss_log s' = ss_log s @ [ev] \<and> ss_header s' = ss_header s \<and> ev_seq ev = int (length (ss_log s))"
  by (erule append_cases; auto)+

lemma append_committed_ok:
  assumes ok: "store_ok st" and obj: "obj < length (st_objects st)" and att: "map_of (st_attachments st) obj = Some e"
    and s: "session_ok s" "ss_header s = ss_header (st_objects st ! obj)" "ss_log s = ss_log (st_objects st ! obj) @ [ev]"
    and ev: "ev_seq ev = int (length (ss_log (st_objects st ! obj)))" and idle: "\<not> en_appending (st_entries st ! e)"
  shows "store_ok ((updEntry e (\<lambda>en. en\<lparr>en_appending := True\<rparr>) (st\<lparr>st_objects := (st_objects st)[obj := s]\<rparr>))
    \<lparr>st_stack := FAppend e # st_stack st, st_notes := st_notes st @ [NEvent e (ev_seq ev)]\<rparr>)"
    (is "store_ok ?st")
proof -
  from ok have g: "global_ok st" and all: "\<And>x. x < length (st_entries st) \<Longrightarrow> entry_ok st x"
    by (simp_all add: store_ok_def)
  from att attached [OF g] have live: "live st e" and e_obj: "en_session (st_entries st ! e) = obj" by auto
  then have e: "e < length (st_entries st)" by (simp add: live_def)
  let ?base = "st\<lparr>st_objects := (st_objects st)[obj := s]\<rparr>"
  let ?st1 = "(updEntry e (\<lambda>en. en\<lparr>en_appending := True\<rparr>) ?base)\<lparr>st_stack := FAppend e # st_stack st\<rparr>"
  have "global_ok ?base"
    using g s(1) set_update_subset_insert [of "st_objects st" obj s] by (auto simp: global_ok_def)
  then have "global_ok ?st1"
    by (intro global_frames global_upd) (use g e in \<open>auto simp: global_ok_def\<close>)
  then have "global_ok (?st1\<lparr>st_notes := st_notes ?st1 @ [NEvent e (ev_seq ev)]\<rparr>)"
    by (rule global_notes) (use not_disposed [OF ok live] e in \<open>auto simp: after_disposal_iff\<close>)
  then have g': "global_ok ?st" by simp
  have id: "objectId ?st x = objectId st x" for x
    using s(2) obj by (cases "x = obj") (auto simp: objectId_def)
  have "entry_ok ?st x" if x: "x < length (st_entries st)" "x \<noteq> e" for x
  proof (rule entry_ok_cong [OF all [OF x(1)]])
    let ?o = "en_session (st_entries st ! x)"
    assume "live st x"
    then show "length (ss_log (st_objects ?st ! ?o)) = length (ss_log (st_objects st ! ?o))"
      using att attached [OF g, of obj x] x(2) by (cases "?o = obj") auto
  qed (use x id in simp_all)
  moreover have "entry_ok ?st e"
    using all [OF e] e live e_obj idle obj s ev id
    by (auto simp: entry_ok_def entry_base_def entry_facts_def flags_ok_def Let_def intro!: exI)
  ultimately show ?thesis using g' by (intro store_okI [of ?st e]) simp_all
qed

lemma updEntry_undo: "f (g (st_entries st ! e)) = st_entries st ! e \<Longrightarrow> e < length (st_entries st) \<Longrightarrow> updEntry e f (updEntry e g st) = st"
  by (simp add: updEntry_def)

lemma storeAppend_ok:
  assumes ok: "store_ok st" and obj: "obj < length (st_objects st)"
  shows "store_ok (fst (storeAppend obj now d intent veto st))"
proof -
  let ?s = "st_objects st ! obj"
  from ok have g: "global_ok st" and all: "\<And>x. x < length (st_entries st) \<Longrightarrow> entry_ok st x"
    by (simp_all add: store_ok_def)
  from g obj have session: "session_ok ?s" by (simp add: global_ok_def)
  show ?thesis
  proof (cases "map_of (st_attachments st) obj")
    case None
    obtain s' r where a: "appendEvent ?s None now d intent = (s', r)" by force
    then have "ss_header s' = ss_header ?s" by (cases r) (auto dest: append_length)
    with ok session a None show ?thesis
      by (auto simp: storeAppend_def intro!: objects_ok append_ok [OF session a])
  next
    case (Some e)
    let ?en = "st_entries st ! e"
    from Some attached [OF g] have live: "live st e" by auto
    then have e: "e < length (st_entries st)" by (simp add: live_def)
    obtain s' r where a: "appendEvent ?s (Some \<lparr>at_appending = en_appending ?en, at_veto = veto\<rparr>) now d intent = (s', r)"
      by force
    note s' = append_ok [OF session a]
    show ?thesis
    proof (cases r)
      case (Inl err)
      with a have log: "ss_log s' = ss_log ?s" "ss_header s' = ss_header ?s" by (auto dest: append_length)
      let ?st1 = "st\<lparr>st_objects := (st_objects st)[obj := s']\<rparr>"
      have ok1: "store_ok ?st1" using ok s' log by (intro objects_ok) auto
      show ?thesis
      proof (cases "err = DispatchVetoed")
        case False
        with Inl a Some ok1 show ?thesis by (simp add: storeAppend_def Let_def)
      next
        case True
        with a Inl have idle: "\<not> en_appending ?en" by (auto dest: append_vetoed)
        have "updEntry e (\<lambda>en. en\<lparr>en_appending := False\<rparr>) (updEntry e (\<lambda>en. en\<lparr>en_appending := True\<rparr>) ?st1) = ?st1"
          by (rule updEntry_undo) (use idle e in simp_all)
        moreover have "\<not> (en_detachRequested ?en \<and> \<not> en_announcing ?en)"
          using all [OF e] idle by (auto simp: entry_ok_def flags_ok_def)
        ultimately have "appendFinally e (updEntry e (\<lambda>en. en\<lparr>en_appending := True\<rparr>) ?st1) = ?st1"
          by (auto simp: appendFinally_def Let_def)
        with True Inl a Some ok1 show ?thesis by (simp add: storeAppend_def Let_def)
      qed
    next
      case (Inr ev)
      with a have idle: "\<not> en_appending ?en"
        by (auto simp: appendEvent_def Let_def split: option.splits sum.splits if_splits prod.splits)
      from a Inr have "ss_log s' = ss_log ?s @ [ev]" "ss_header s' = ss_header ?s" "ev_seq ev = int (length (ss_log ?s))"
        by (auto dest: append_length)
      from append_committed_ok [OF ok obj Some s' this(2,1,3) idle] Inr a Some show ?thesis
        by (simp add: storeAppend_def Let_def)
    qed
  qed
qed

lemma objects_snoc_ok:
  assumes ok: "store_ok st" and s: "session_ok s"
  shows "store_ok (st\<lparr>st_objects := st_objects st @ [s]\<rparr>)"
proof -
  let ?st = "st\<lparr>st_objects := st_objects st @ [s]\<rparr>"
  from ok have g: "global_ok st" and all: "\<And>x. x < length (st_entries st) \<Longrightarrow> entry_ok st x"
    by (simp_all add: store_ok_def)
  have "global_ok ?st" using g s by (auto simp: global_ok_def)
  moreover have "entry_ok ?st x" if "x < length (st_entries st)" for x
    by (rule entry_ok_cong [OF all [OF that]]) (auto simp: nth_append objectId_def)
  ultimately show ?thesis unfolding store_ok_def by simp
qed

lemma counter_ok: "store_ok st \<Longrightarrow> store_ok (st\<lparr>st_counter := c\<rparr>)"
  unfolding store_ok_def global_ok_def entry_ok_def entry_base_def by (simp add: objectId_def)

lemma prepareSession_ok:
  assumes ok: "store_ok st"
  shows "store_ok (fst (prepareSession isAbsolute now requested options st))"
proof -
  obtain c sid where c: "(case requested of None \<Rightarrow> mintId (map fst (st_map st)) (st_counter st)
      | Some sid \<Rightarrow> (st_counter st, sid)) = (c, sid)" by force
  have "store_ok (st\<lparr>st_counter := c, st_objects := st_objects st @ [s]\<rparr>)" if "session_ok s" for s
    using objects_snoc_ok [OF counter_ok [OF ok] that] by simp
  then show ?thesis
    unfolding prepareSession_def c Let_def
    by (auto simp: counter_ok [OF ok] dest: newSession_ok split: sum.split prepare_options.splits)
qed

lemma prepareSession_cases:
  assumes "prepareSession isAbsolute now requested options st = (st', Inr obj)"
  shows "obj = length (st_objects st) \<and> st_entries st' = st_entries st \<and> st_map st' = st_map st
    \<and> st_attachments st' = st_attachments st \<and> st_stack st' = st_stack st \<and> st_notes st' = st_notes st
    \<and> (\<exists>s. st_objects st' = st_objects st @ [s])"
  using assms unfolding prepareSession_def Let_def
  by (auto split: prod.splits if_splits sum.splits)

lemma unused_entry:
  assumes "global_ok st"
  shows "count_list (st_stack st) (FAppend (length (st_entries st))) = 0"
    "filter (announces (length (st_entries st))) (st_stack st) = []"
    "count_list (st_notes st) (NCreated (length (st_entries st))) = 0"
    "count_list (st_notes st) (NDisposed (length (st_entries st))) = 0"
    "published (length (st_entries st)) (st_notes st) = []"
proof -
  have frames: "frameEntry f < length (st_entries st)" if "f \<in> set (st_stack st)" for f
    using assms that by (simp add: global_ok_def)
  have noted: "noticeEntry n < length (st_entries st)" if "n \<in> set (st_notes st)" for n
    using assms that by (simp add: global_ok_def)
  show "count_list (st_stack st) (FAppend (length (st_entries st))) = 0"
    unfolding count_list_0_iff using frames by fastforce
  show "filter (announces (length (st_entries st))) (st_stack st) = []"
    unfolding filter_empty_conv using frames by (metis announces.elims(2) frameEntry.simps(1) less_irrefl)
  show "count_list (st_notes st) (NCreated (length (st_entries st))) = 0"
    "count_list (st_notes st) (NDisposed (length (st_entries st))) = 0"
    unfolding count_list_0_iff using noted by fastforce+
  have "publishedSeq (length (st_entries st)) n = []" if "n \<in> set (st_notes st)" for n
    using noted [OF that] by (cases n) auto
  then show "published (length (st_entries st)) (st_notes st) = []"
    by (simp add: published_def)
qed

lemma enterSession_ok:
  assumes ok: "store_ok st" and obj: "obj < length (st_objects st)"
  shows "store_ok (fst (enterSession obj st))"
proof -
  let ?sid = "objectId st obj" and ?n = "length (st_entries st)"
  show ?thesis
  proof (cases "map_of (st_map st) ?sid = None \<and> map_of (st_attachments st) obj = None")
    case False
    with ok show ?thesis by (auto simp: enterSession_def Let_def)
  next
    case True
    from ok have g: "global_ok st" and all: "\<And>x. x < length (st_entries st) \<Longrightarrow> entry_ok st x"
      by (simp_all add: store_ok_def)
    let ?en = "\<lparr>en_id = ?sid, en_session = obj, en_announced = False, en_announcing = False,
      en_appending = False, en_detachRequested = False, en_entered = True\<rparr>"
    let ?st = "st\<lparr>st_entries := st_entries st @ [?en], st_map := map_set ?sid ?n (st_map st),
      st_attachments := map_set obj ?n (st_attachments st)\<rparr>"
    have live: "live ?st x \<longleftrightarrow> x = ?n \<or> live st x" for x
    proof (cases "x < ?n")
      case True
      have "en_id (st_entries st ! x) \<noteq> ?sid" if "live st x"
        using that \<open>map_of (st_map st) ?sid = None \<and> _\<close> by (auto simp: live_def)
      moreover have "map_of (st_map st) (en_id (st_entries st ! x)) \<noteq> Some ?n"
        using g by (auto simp: global_ok_def dest: map_of_SomeD)
      ultimately show ?thesis using True by (auto simp: live_def nth_append)
    next
      case False
      then show ?thesis by (auto simp: live_def nth_append)
    qed
    have unattached: "en_session (st_entries st ! x) \<noteq> obj" if "live st x" for x
      using True attached [OF g, of obj x] that by auto
    have attach: "map_of (st_attachments ?st) o' = Some x \<longleftrightarrow> live ?st x \<and> en_session (st_entries ?st ! x) = o'" for o' x
      using attached [OF g, of o' x] unattached [of x] unfolding live
      by (auto simp: nth_append live_def)
    have old: "set (map_set ?sid ?n (st_map st)) \<subseteq> insert (?sid, ?n) (set (st_map st))"
      by (rule set_map_set_subset)
    have g': "global_ok ?st"
      unfolding global_ok_def
    proof (intro conjI)
      show "distinct (map fst (st_map ?st))" using g by (simp add: global_ok_def distinct_map_set)
      show "\<forall>(sid, e) \<in> set (st_map ?st). e < length (st_entries ?st) \<and> en_id (st_entries ?st ! e) = sid"
        using g old by (fastforce simp: global_ok_def nth_append)
      show "\<forall>o' e. map_of (st_attachments ?st) o' = Some e \<longleftrightarrow> live ?st e \<and> en_session (st_entries ?st ! e) = o'"
        using attach by blast
    qed (use g in \<open>auto simp: global_ok_def\<close>)
    have "count_list (st_stack st) (FAppend ?n) = 0" "filter (announces ?n) (st_stack st) = []"
      "count_list (st_notes st) (NCreated ?n) = 0" "count_list (st_notes st) (NDisposed ?n) = 0"
      "published ?n (st_notes st) = []"
      using unused_entry [OF g] by simp_all
    then have "entry_ok ?st ?n"
      using live [of ?n] obj by (simp add: entry_ok_def entry_base_def entry_facts_def flags_ok_def Let_def objectId_def)
    moreover have "entry_ok ?st x" if "x < ?n" for x
      by (rule entry_ok_cong [OF all [OF that]])
        (use that live [of x] in \<open>auto simp: nth_append objectId_def\<close>)
    ultimately have "store_ok ?st" using g' unfolding store_ok_def by (auto simp: less_Suc_eq)
    with True show ?thesis by (simp add: enterSession_def Let_def)
  qed
qed

lemma createSession_ok:
  assumes ok: "store_ok st"
  shows "store_ok (fst (createSession isAbsolute now requested options st))"
proof -
  obtain st1 r1 where p: "prepareSession isAbsolute now requested options st = (st1, r1)" by force
  then have ok1: "store_ok st1" using prepareSession_ok [OF ok] by (metis fst_conv)
  show ?thesis
  proof (cases r1)
    case (Inl err)
    with p ok1 show ?thesis by (simp add: createSession_def)
  next
    case (Inr obj)
    with p have obj: "obj < length (st_objects st1)" by (auto dest: prepareSession_cases)
    obtain st2 r2 where e: "enterSession obj st1 = (st2, r2)" by force
    then have ok2: "store_ok st2" using enterSession_ok [OF ok1 obj] by (metis fst_conv)
    show ?thesis
    proof (cases r2)
      case Inl
      with p Inr e ok2 show ?thesis by (simp add: createSession_def)
    next
      case (Inr e2)
      obtain st3 r3 where a: "announceBegin True obj st2 = (st3, r3)" by force
      then have ok3: "store_ok st3" using announceBegin_ok [OF ok2] by (metis fst_conv)
      have "e2 < length (st_entries st2)"
        using e Inr by (auto simp: enterSession_def Let_def split: if_splits)
      moreover have "length (st_entries st3) = length (st_entries st2)"
        using a by (auto simp: announceBegin_def split: sum.splits if_splits)
      ultimately have "store_ok (detachCapability e2 st3)" by (intro detachCapability_ok [OF ok3]) simp
      with p \<open>r1 = Inr obj\<close> e Inr a ok3 show ?thesis by (cases r3) (simp_all add: createSession_def)
    qed
  qed
qed

lemma resolveForkSource_known:
  assumes ok: "store_ok st" and src: "resolveForkSource st source = Inr obj"
  shows "obj < length (st_objects st)"
proof -
  have "en_session (st_entries st ! e) < length (st_objects st)" if "map_of (st_map st) sid = Some e" for sid e
  proof -
    from that ok have "e < length (st_entries st)" by (auto simp: store_ok_def global_ok_def dest: map_of_SomeD)
    with ok show ?thesis by (auto simp: store_ok_def entry_ok_def entry_base_def entry_facts_def Let_def)
  qed
  then show ?thesis
    using src by (auto simp: resolveForkSource_def storeGet_def split: fork_source.splits option.splits if_splits)
qed

lemma forkSession_ok:
  assumes ok: "store_ok st"
  shows "store_ok (fst (forkSession isAbsolute now source boundary child st))"
proof (cases "resolveForkSource st source")
  case (Inl err)
  with ok show ?thesis by (simp add: forkSession_def)
next
  case (Inr obj)
  from resolveForkSource_known [OF ok Inr] have obj: "obj < length (st_objects st)" .
  obtain s evs where e: "events (st_objects st ! obj) = (s, evs)" by force
  from ok obj have session: "session_ok (st_objects st ! obj)" by (simp add: store_ok_def global_ok_def)
  have "session_ok s" using events_ok [OF session e] by simp
  moreover have "ss_log s = ss_log (st_objects st ! obj)" "ss_header s = ss_header (st_objects st ! obj)"
    using e by (auto simp: events_def split: option.splits)
  ultimately have "store_ok (st\<lparr>st_objects := (st_objects st)[obj := s]\<rparr>)" using ok by (intro objects_ok) auto
  with ok Inr e show ?thesis
    by (auto simp: forkSession_def Let_def createSession_ok split: sum.splits)
qed

lemma sessionRead_same:
  assumes "session_ok s" "c \<in> {CallEvents, CallRequestHeader, CallRequestContext, CallDeriveMessages}"
  shows "ss_log (sessionCall s c) = ss_log s \<and> ss_header (sessionCall s c) = ss_header s"
  using assms(2)
  by (auto simp: events_def requestHeader_def requestContext_def deriveMessages_def Let_def
      split: option.splits prod.splits sum.splits)

lemma store_step_ok: "store_step isAbsolute st st' \<Longrightarrow> store_ok st \<Longrightarrow> store_ok st'"
proof (induction rule: store_step.induct)
  case (step_read obj st c)
  then have "session_ok (st_objects st ! obj)" by (simp add: store_ok_def global_ok_def)
  from sessionCall_ok [OF this, of c] sessionRead_same [OF this step_read(2)] step_read show ?case
    by (intro objects_ok) auto
next
  case (step_rollback st e frames)
  then have "store_ok (st\<lparr>st_stack := frames\<rparr>)" "e < length (st_entries st)"
    by (auto simp: store_ok_def global_ok_def entry_ok_def entry_base_def objectId_def)
  then show ?case by (intro detachCapability_ok) simp_all
qed (auto intro: prepareSession_ok enterSession_ok createSession_ok forkSession_ok announceBegin_ok
    detachCapability_ok storeAppend_ok announceEnd_ok appendFinally_ok)

lemma store_run_ok: "(store_step isAbsolute)\<^sup>*\<^sup>* emptyStore st \<Longrightarrow> store_ok st"
  by (induction rule: rtranclp_induct) (auto intro: store_ok_empty store_step_ok)

section \<open>What a creation leaves behind\<close>

lemma validateSessionHeader_same: "validateSessionHeader isAbsolute sid v = Inr w \<Longrightarrow> w = v \<and> obj_get v ''id'' = Some (JStr sid)"
  unfolding validateSessionHeader_def Let_def Inr_if_iff by auto

lemma validatedHeader_Inr: "validatedHeader isAbsolute sid h = Inr h' \<Longrightarrow> h' = h \<and> sh_id h = sid"
  unfolding validatedHeader_def
  by (auto split: sum.splits dest!: validateSessionHeader_same simp: header_json_def)

lemma newSession_header:
  assumes "newSession isAbsolute sid now Snapshot seed (Some h) = Inr s"
  shows "ss_header s = h \<and> sh_id h = sid"
proof -
  from assms obtain p h' where v: "validatedHeader isAbsolute sid h = Inr h'"
    and fin: "(case p of (slog, m) \<Rightarrow>
     let s = freshSession h' slog m in
     if seed \<noteq> None \<and> (slog = [] \<or> ev_type (last slog) \<noteq> ''session/end-seed'')
     then (case appendEvent s None now EndSeed NoIntent of
             (_, Inl err) \<Rightarrow> Inl err
           | (s', Inr _) \<Rightarrow> Inr s')
     else Inr s) = Inr s"
    unfolding newSession_def bindE_Inr_iff by (auto simp: result_simps)
  then have "ss_header s = h'"
    by (auto simp: Let_def split: prod.splits if_splits sum.splits dest: append_length)
  with validatedHeader_Inr [OF v] show ?thesis by simp
qed

lemma createSession_Inr:
  assumes "createSession isAbsolute now requested (FreshOptions seed meta) st = (st', Inr obj)"
  shows "obj = length (st_objects st) \<and> (\<exists>s sid. st_objects st' = st_objects st @ [s]
    \<and> newSession isAbsolute sid now Snapshot seed (Some (metaHeader sid now meta)) = Inr s
    \<and> ss_header s = metaHeader sid now meta \<and> storeGet st sid = None \<and> storeGet st' sid = Some obj
    \<and> (requested = None \<or> requested = Some sid))"
proof -
  from assms obtain st1 where p: "prepareSession isAbsolute now requested (FreshOptions seed meta) st = (st1, Inr obj)"
    by (auto simp: createSession_def split: prod.splits sum.splits)
  with assms obtain st2 e where e: "enterSession obj st1 = (st2, Inr e)"
    by (auto simp: createSession_def split: prod.splits sum.splits)
  with assms p obtain u where a: "announceBegin True obj st2 = (st', Inr u)"
    by (auto simp: createSession_def split: prod.splits sum.splits)
  from p obtain s sid where s: "obj = length (st_objects st)" "st_objects st1 = st_objects st @ [s]"
    "newSession isAbsolute sid now Snapshot seed (Some (metaHeader sid now meta)) = Inr s"
    "map_of (st_map st) sid = None" "st_map st1 = st_map st" "requested = None \<or> requested = Some sid"
    unfolding prepareSession_def Let_def by (auto split: prod.splits if_splits sum.splits option.splits)
  from newSession_header [OF s(3)] have h: "ss_header s = metaHeader sid now meta" by simp
  have id: "objectId st1 obj = sid"
    using s h by (simp add: objectId_def metaHeader_def)
  with e have st2: "st_objects st2 = st_objects st1" "map_of (st_map st2) sid = Some e"
    "en_session (st_entries st2 ! e) = obj" "e < length (st_entries st2)"
    by (auto simp: enterSession_def Let_def split: if_splits)
  from a obtain e' f where st': "st_objects st' = st_objects st2" "st_map st' = st_map st2"
    "st_entries st' = st_entries (updEntry e' f st2)" "\<And>en. en_session (f en) = en_session en"
    by (auto simp: announceBegin_def split: sum.splits if_splits)
  have "en_session (st_entries st' ! e) = obj"
    using st' st2 by (cases "e = e'") simp_all
  then have "storeGet st' sid = Some obj" using st' st2 by (simp add: storeGet_def)
  with s h st' st2 show ?thesis by (auto simp: storeGet_def)
qed

lemma createSession_accepts:
  assumes ok: "store_ok st" and new: "newSession isAbsolute sid now Snapshot seed (Some (metaHeader sid now meta)) = Inr s"
    and free: "map_of (st_map st) sid = None"
  shows "\<exists>st'. createSession isAbsolute now (Some sid) (FreshOptions seed meta) st = (st', Inr (length (st_objects st)))"
proof -
  let ?n = "length (st_objects st)" and ?st1 = "st\<lparr>st_objects := st_objects st @ [s]\<rparr>"
  have p: "prepareSession isAbsolute now (Some sid) (FreshOptions seed meta) st = (?st1, Inr ?n)"
    using new free by (simp add: prepareSession_def)
  have id: "objectId ?st1 ?n = sid"
    using newSession_header [OF new] by (simp add: objectId_def)
  have "en_session (st_entries st ! x) < ?n" if "live st x" for x
    using ok that by (auto simp: store_ok_def entry_ok_def entry_base_def entry_facts_def Let_def live_def)
  moreover have "global_ok st" using ok by (simp add: store_ok_def)
  ultimately have unattached: "map_of (st_attachments st) ?n = None"
    using attached [of st ?n] by (metis less_irrefl not_None_eq)
  obtain st2 where e: "enterSession ?n ?st1 = (st2, Inr (length (st_entries st)))"
    and st2: "map_of (st_attachments st2) ?n = Some (length (st_entries st))"
      "map_of (st_map st2) sid = Some (length (st_entries st))"
      "st_entries st2 ! length (st_entries st) = \<lparr>en_id = sid, en_session = ?n, en_announced = False, en_announcing = False,
         en_appending = False, en_detachRequested = False, en_entered = True\<rparr>"
    using free unattached by (simp add: enterSession_def id Let_def)
  then show ?thesis
    by (simp add: createSession_def p announceBegin_def liveEntryFor_def)
qed

section \<open>A sample run\<close>

text \<open>
  A session created under a given id, seen from its creation listener; the same after the listener
  used the detach capability and after the dispatch unwound; and after an append in the listener.
\<close>

definition sampleStore :: store where
  "sampleStore = \<lparr>st_objects = [sampleSession],
     st_entries = [\<lparr>en_id = ''s'', en_session = 0, en_announced = True, en_announcing = True, en_appending = False,
       en_detachRequested = False, en_entered = True\<rparr>],
     st_map = [(''s'', 0)], st_attachments = [(0, 0)], st_counter = 0, st_stack = [FAnnounce 0 True], st_notes = [NCreated 0]\<rparr>"

definition sampleDetached :: store where
  "sampleDetached = announceEnd 0 True False (detachCapability 0 sampleStore)"

definition samplePublished :: store where
  "samplePublished = fst (storeAppend 0 5 (TurnStart 1) NoIntent (\<lambda>_. False) sampleStore)"

lemma sampleStore_create:
  "createSession (\<lambda>_. True) 0 (Some ''s'') (FreshOptions None None) emptyStore = (sampleStore, Inr 0)"
proof -
  have "metaHeader ''s'' 0 None = minimalHeader ''s'' 0" by (simp add: metaHeader_def minimalHeader_def)
  moreover have "newSession (\<lambda>_. True) ''s'' 0 Snapshot None (Some (minimalHeader ''s'' 0)) = Inr sampleSession"
    using minimalHeader_valid [of 0]
    by (simp add: newSession_def sampleSession_def validatedHeader_def maxSafe_def)
  ultimately have p: "prepareSession (\<lambda>_. True) 0 (Some ''s'') (FreshOptions None None) emptyStore
      = (emptyStore\<lparr>st_objects := [sampleSession]\<rparr>, Inr 0)"
    by (simp add: prepareSession_def emptyStore_def)
  have id: "objectId (emptyStore\<lparr>st_objects := [sampleSession]\<rparr>) 0 = ''s''"
    by (simp add: objectId_def sampleSession_def minimalHeader_def)
  let ?en = "\<lparr>en_id = ''s'', en_session = 0, en_announced = False, en_announcing = False, en_appending = False,
       en_detachRequested = False, en_entered = True\<rparr>"
  let ?st = "emptyStore\<lparr>st_objects := [sampleSession], st_entries := [?en], st_map := [(''s'', 0)], st_attachments := [(0, 0)]\<rparr>"
  have "enterSession 0 (emptyStore\<lparr>st_objects := [sampleSession]\<rparr>) = (?st, Inr 0)"
    using id by (simp add: enterSession_def Let_def emptyStore_def)
  moreover have "announceBegin True 0 ?st = (sampleStore, Inr ())"
    by (simp add: sampleStore_def emptyStore_def announceBegin_def liveEntryFor_def updEntry_def)
  ultimately show ?thesis
    unfolding createSession_def p by simp
qed

lemma sampleStore_run: "(store_step (\<lambda>_. True))\<^sup>*\<^sup>* emptyStore sampleStore"
  using step_create [of "\<lambda>_. True" emptyStore 0 "Some ''s''" "FreshOptions None None"]
  by (simp add: sampleStore_create r_into_rtranclp)

lemma sampleDetached_run: "(store_step (\<lambda>_. True))\<^sup>*\<^sup>* emptyStore sampleDetached"
proof -
  have "store_step (\<lambda>_. True) sampleStore (detachCapability 0 sampleStore)"
    by (rule step_detach) (simp add: sampleStore_def)
  moreover have "store_step (\<lambda>_. True) (detachCapability 0 sampleStore) sampleDetached"
    unfolding sampleDetached_def
    by (rule step_announced [where frames = "[]"]) (simp add: sampleStore_def detachCapability_def updEntry_def)
  ultimately show ?thesis using sampleStore_run by (meson rtranclp.rtrancl_into_rtrancl)
qed

lemma sampleDetached_eval:
  "st_entries sampleDetached ! 0 = \<lparr>en_id = ''s'', en_session = 0, en_announced = True, en_announcing = False,
     en_appending = False, en_detachRequested = False, en_entered = False\<rparr>"
  "length (st_entries sampleDetached) = 1" "st_stack sampleDetached = []"
  "set (st_notes sampleDetached) = {NCreated 0, NDisposed 0}"
  by (auto simp: sampleDetached_def sampleStore_def detachCapability_def announceEnd_def detachEntered_def updEntry_def)

lemma samplePublished_run: "(store_step (\<lambda>_. True))\<^sup>*\<^sup>* emptyStore samplePublished"
proof -
  have "store_step (\<lambda>_. True) sampleStore samplePublished"
    unfolding samplePublished_def by (rule step_append) (simp add: sampleStore_def)
  then show ?thesis using sampleStore_run by (meson rtranclp.rtrancl_into_rtrancl)
qed

lemma samplePublished_eval:
  "st_notes samplePublished = [NCreated 0, NEvent 0 0]" "length (st_entries samplePublished) = 1"
  "st_stack samplePublished = [FAppend 0, FAnnounce 0 True]"
  by (simp_all add: samplePublished_def storeAppend_def sampleStore_def updEntry_def session_eval surface_eval Let_def)

lemma sampleFork: "\<exists>st'. forkSession (\<lambda>_. True) 7 (SourceId ''s'') None (Some ''t'') sampleStore = (st', Inr 1)"
proof -
  let ?m = "forkMeta (ss_header (fst (events sampleSession))) 0"
  let ?h = "metaHeader ''t'' 7 (Some ?m)"
  let ?st = "sampleStore\<lparr>st_objects := [fst (events sampleSession)]\<rparr>"
  have "validateSessionHeader (\<lambda>_. True) ''t'' (header_json ?h) = Inr (header_json ?h)"
    by (simp add: validateSessionHeader_typed metaHeader_def forkMeta_def maxSafe_def)
  then obtain c where c: "newSession (\<lambda>_. True) ''t'' 7 Snapshot (Some []) (Some ?h) = Inr c"
    using newSession_accepts [of "[]" "\<lambda>_. True" "''t''" ?h 7 Snapshot]
    by (auto simp: foldSurface_def createFoldState_def)
  have "store_ok (sampleStore\<lparr>st_objects := (st_objects sampleStore)[0 := sessionCall (st_objects sampleStore ! 0) CallEvents]\<rparr>)"
    by (rule store_step_ok [OF step_read store_run_ok [OF sampleStore_run]]) (simp_all add: sampleStore_def)
  then have ok: "store_ok ?st" by (simp add: sampleStore_def)
  have "map_of (st_map ?st) ''t'' = None" by (simp add: sampleStore_def)
  from createSession_accepts [OF ok c this] obtain st'
    where create: "createSession (\<lambda>_. True) 7 (Some ''t'') (FreshOptions (Some []) (Some ?m)) ?st = (st', Inr 1)"
    by (auto simp: sampleStore_def)
  have "events (st_objects sampleStore ! 0) = (fst (events sampleSession), [])"
    by (simp add: sampleStore_def events_def sampleSession_def freshSession_def)
  moreover have "sampleStore\<lparr>st_objects := (st_objects sampleStore)[0 := fst (events sampleSession)]\<rparr> = ?st"
    by (simp add: sampleStore_def)
  moreover have "resolveForkSource sampleStore (SourceId ''s'') = Inr 0" "storeGet sampleStore ''t'' = None"
    by (simp_all add: resolveForkSource_def storeGet_def sampleStore_def)
  moreover have "forkSeed [] None = Inr []" by (simp add: forkSeed_def)
  ultimately show ?thesis using create by (simp add: forkSession_def)
qed

section \<open>Properties\<close>

text \<open>C36.
  The lifecycle edges pair up, whatever listeners do. In every reachable state an entry is live exactly
  while its detach capability has not been used or one of its dispatches is still on the stack; its
  creation is announced at most once; its disposal is announced exactly when it was announced and is no
  longer live; and after the disposal neither a creation nor an event is published for it.
\<close>

theorem store_lifecycle:
  assumes "(store_step isAbsolute)\<^sup>*\<^sup>* emptyStore st" "e < length (st_entries st)"
  shows "(live st e \<longleftrightarrow> en_entered (st_entries st ! e)
           \<or> (\<exists>rollback. FAnnounce e rollback \<in> set (st_stack st)) \<or> FAppend e \<in> set (st_stack st))
    \<and> count_list (st_notes st) (NCreated e) \<le> 1
    \<and> count_list (st_notes st) (NDisposed e) = of_bool (NCreated e \<in> set (st_notes st) \<and> \<not> live st e)
    \<and> (\<forall>before later. st_notes st = before @ NDisposed e # later
         \<longrightarrow> NCreated e \<notin> set later \<and> (\<forall>n. NEvent e n \<notin> set later))"
proof -
  from store_run_ok [OF assms(1)] have g: "global_ok st" and ok: "entry_ok st e"
    using assms(2) by (simp_all add: store_ok_def)
  from ok have counts: "length (filter (announces e) (st_stack st)) = of_bool (en_announcing (st_entries st ! e))"
    "count_list (st_stack st) (FAppend e) = of_bool (en_appending (st_entries st ! e))"
    unfolding entry_ok_def entry_base_def entry_facts_def Let_def by blast+
  have frame: "announces e f \<longleftrightarrow> (\<exists>rollback. f = FAnnounce e rollback)" for f by (cases f) auto
  have "en_announcing (st_entries st ! e) \<longleftrightarrow> filter (announces e) (st_stack st) \<noteq> []"
    using counts(1) by (cases "en_announcing (st_entries st ! e)") auto
  then have announcing: "en_announcing (st_entries st ! e) \<longleftrightarrow> (\<exists>rollback. FAnnounce e rollback \<in> set (st_stack st))"
    unfolding filter_empty_conv frame by blast
  have appending: "en_appending (st_entries st ! e) \<longleftrightarrow> FAppend e \<in> set (st_stack st)"
    using counts(2) count_list_0_iff [of "st_stack st" "FAppend e"] by (auto split: if_splits)
  have created: "en_announced (st_entries st ! e) \<longleftrightarrow> NCreated e \<in> set (st_notes st)"
    using ok count_list_0_iff [of "st_notes st" "NCreated e"]
    by (auto simp: entry_ok_def entry_base_def entry_facts_def Let_def split: if_splits)
  have final: "NCreated e \<notin> set later \<and> (\<forall>n. NEvent e n \<notin> set later)"
    if "st_notes st = before @ NDisposed e # later" for before later
    using g that by (force simp: global_ok_def sorted_wrt_append after_disposal_iff)
  show ?thesis
    using ok final unfolding announcing [symmetric] appending [symmetric] created [symmetric]
    by (auto simp: entry_ok_def entry_base_def entry_facts_def flags_ok_def Let_def)
qed

theorem store_lifecycle_witness:
  "\<not> live sampleDetached 0 \<and> count_list (st_notes sampleDetached) (NDisposed 0) = 1"
  using store_lifecycle [OF sampleDetached_run, of 0] by (simp add: sampleDetached_eval)

text \<open>C37.
  Publication follows the log. Whatever interleaving of operations and listeners led here, every session
  object still satisfies the session invariant (its cached reads are those of its log, and its surface
  replays); the events published under an entry are consecutive, none skipped or repeated, up to
  the end of the session's log while the entry is live; and never are two appends to it being published.
\<close>

theorem store_publication:
  assumes "(store_step isAbsolute)\<^sup>*\<^sup>* emptyStore st" "e < length (st_entries st)"
  shows "(\<forall>s \<in> set (st_objects st). session_ok s)
    \<and> (\<exists>k. published e (st_notes st) = map int [k..<k + length (published e (st_notes st))]
         \<and> (live st e \<longrightarrow> k + length (published e (st_notes st))
              = length (ss_log (st_objects st ! en_session (st_entries st ! e)))))
    \<and> count_list (st_stack st) (FAppend e) \<le> 1"
proof -
  from store_run_ok [OF assms(1)] have g: "global_ok st" and ok: "entry_ok st e"
    using assms(2) by (simp_all add: store_ok_def)
  from ok have "\<exists>k. published e (st_notes st) = map int [k..<k + length (published e (st_notes st))]
         \<and> (live st e \<longrightarrow> k + length (published e (st_notes st))
              = length (ss_log (st_objects st ! en_session (st_entries st ! e))))"
    unfolding entry_ok_def entry_base_def entry_facts_def Let_def by blast
  moreover have "count_list (st_stack st) (FAppend e) \<le> 1"
    using ok by (simp add: entry_ok_def entry_base_def entry_facts_def Let_def)
  ultimately show ?thesis using g by (simp add: global_ok_def)
qed

theorem store_publication_witness:
  "length (ss_log (st_objects samplePublished ! en_session (st_entries samplePublished ! 0))) = 1"
proof -
  have "live samplePublished 0"
    using store_run_ok [OF samplePublished_run] samplePublished_eval
    by (auto simp: store_ok_def entry_ok_def entry_base_def entry_facts_def flags_ok_def Let_def)
  moreover have "published 0 (st_notes samplePublished) = [0]" by (simp add: samplePublished_eval published_def)
  ultimately show ?thesis
    using store_publication [OF samplePublished_run, of 0] by (auto simp: samplePublished_eval upt_rec split: if_splits)
qed




end
