(* ===== verification/Schema_Check.thy ===== *)
theory Schema_Check
  imports Json_Walk
begin

text \<open>
  The enforced JSON Schema subset: \<open>core/tools/src/json-schema.ts\<close>.

  A schema is JSON data (\<open>json\<close>): what a caller sent or what the author DSL compiles to. A candidate value
  is anything, a \<open>jsval\<close> over the heap of \<open>Json_Walk\<close>, so undefined properties, sparse arrays, hidden keys,
  exotic objects and cycles are all candidates. \<open>checkSchema\<close> is the task stack of \<open>checkSchemaNode\<close>;
  \<open>checkLoop\<close> is the frame stack of \<open>checkValue\<close>, and \<open>None\<close> would be a loop that never ends.
  \<open>inhabits\<close> is the specification: which JSON trees a schema describes.

  On JSON data a schema node is never circular, and reading a heap object never throws; so the \<open>seen\<close> set
  with its \<open>leave\<close> tasks, and the \<open>catch\<close> with the \<open>catches\<close> flags, have no counterpart here.
\<close>

section \<open>Vocabulary\<close>

definition CONSTRAINT_KEYWORDS :: "string list" where
  "CONSTRAINT_KEYWORDS = [''type'', ''oneOf'', ''properties'', ''required'', ''additionalProperties'', ''items'', ''enum'', ''const'']"

definition ANNOTATION_KEYWORDS :: "string list" where
  "ANNOTATION_KEYWORDS = [''description'', ''title'', ''default'', ''examples'']"

definition SCHEMA_TYPES :: "string list" where
  "SCHEMA_TYPES = [''object'', ''array'', ''string'', ''number'', ''integer'', ''boolean'', ''null'']"

definition ONE_OF_SIBLING_KEYWORDS :: "string list" where
  "ONE_OF_SIBLING_KEYWORDS = [''properties'', ''required'', ''additionalProperties'', ''items'', ''enum'', ''const'']"

definition SCALAR_TYPES :: "string list" where
  "SCALAR_TYPES = [''string'', ''number'', ''integer'', ''boolean'', ''null'']"

definition allowedFor :: "(string \<times> string list) list" where
  "allowedFor = [(''properties'', [''object'']), (''required'', [''object'']), (''additionalProperties'', [''object'']),
     (''items'', [''array'']), (''enum'', SCALAR_TYPES), (''const'', SCALAR_TYPES)]"

definition scalarMatches :: "string \<Rightarrow> json \<Rightarrow> bool" where
  "scalarMatches t v \<longleftrightarrow>
     (case v of
        JStr _ \<Rightarrow> t = ''string''
      | JNum x \<Rightarrow> t = ''number'' \<or> t = ''integer'' \<and> isInteger x
      | JBool _ \<Rightarrow> t = ''boolean''
      | JNull \<Rightarrow> t = ''null''
      | _ \<Rightarrow> False)"

fun items_of :: "json option \<Rightarrow> json list" where
  "items_of (Some (JArr xs)) = xs"
| "items_of _ = []"

fun props_of :: "json option \<Rightarrow> (string \<times> json) list" where
  "props_of (Some (JObj kvs)) = kvs"
| "props_of _ = []"

fun isPlainJsonArray :: "json option \<Rightarrow> bool" where
  "isPlainJsonArray (Some (JArr _)) = True"
| "isPlainJsonArray _ = False"

fun isBoolean :: "json option \<Rightarrow> bool" where
  "isBoolean (Some (JBool _)) = True"
| "isBoolean _ = False"

section \<open>Checking a schema\<close>

datatype schema_violation =
    SvNotObject string
  | SvKeyword string string
  | SvDescription string
  | SvTitle string
  | SvTypeAndOneOf string
  | SvRequiresType string string
  | SvBesideOneOf string string
  | SvOneOf string
  | SvType string
  | SvMisplaced string string string
  | SvProperties string
  | SvRequired string
  | SvUndeclared string string
  | SvAdditionalProperties string
  | SvEnum string string
  | SvConst string string
  | SvConstNotInEnum string
  | SvNotObjectRoot

datatype schema_task =
    Enter json string
  | OneOfTail json string
  | ObjectTail json string "json option"

definition checkObjectSchemaTail :: "json \<Rightarrow> string \<Rightarrow> json option \<Rightarrow> schema_violation list" where
  "checkObjectSchemaTail node path properties =
     (case obj_get node ''required'' of
        None \<Rightarrow> []
      | Some (JArr names) \<Rightarrow>
          if list_ex (\<lambda>n. \<not> is_string (Some n)) names then [SvRequired path]
          else map (\<lambda>n. SvUndeclared path (as_str (Some n)))
                 (filter (\<lambda>n. as_str (Some n) \<notin> set (map fst (props_of properties))) names)
      | Some _ \<Rightarrow> [SvRequired path])
     @ (if hasOwn node ''additionalProperties'' \<and> \<not> isBoolean (obj_get node ''additionalProperties'')
        then [SvAdditionalProperties path] else [])"

definition checkKeywords :: "json \<Rightarrow> string \<Rightarrow> schema_violation list" where
  "checkKeywords node path =
     map (SvKeyword path) (filter (\<lambda>k. k \<notin> set CONSTRAINT_KEYWORDS \<and> k \<notin> set ANNOTATION_KEYWORDS) (obj_keys node))
     @ (if hasOwn node ''description'' \<and> \<not> is_string (obj_get node ''description'') then [SvDescription path] else [])
     @ (if hasOwn node ''title'' \<and> \<not> is_string (obj_get node ''title'') then [SvTitle path] else [])"

definition checkScalarNode :: "json \<Rightarrow> string \<Rightarrow> string \<Rightarrow> schema_violation list" where
  "checkScalarNode node path t =
     (let allowed = obj_get node ''enum'';
          enumValid = (isPlainJsonArray allowed \<and> items_of allowed \<noteq> [] \<and> list_all (scalarMatches t) (items_of allowed)) in
      (if allowed \<noteq> None \<and> \<not> enumValid then [SvEnum path t] else [])
      @ (case obj_get node ''const'' of
           None \<Rightarrow> []
         | Some c \<Rightarrow>
             if \<not> scalarMatches t c then [SvConst path t]
             else if enumValid \<and> c \<notin> set (items_of allowed) then [SvConstNotInEnum path]
             else []))"

text \<open>The part of an \<open>enter\<close> task after the keyword checks: the violations it reports and the tasks it pushes, top first.\<close>

definition checkTyped :: "json \<Rightarrow> string \<Rightarrow> string \<Rightarrow> schema_violation list \<times> schema_task list" where
  "checkTyped node path t =
     (let misplaced = map (\<lambda>(key, _). SvMisplaced path key t)
            (filter (\<lambda>(key, types). hasOwn node key \<and> t \<notin> set types) allowedFor) in
      if t = ''object'' then
        (let properties = obj_get node ''properties'' in
         (misplaced @ (if properties \<noteq> None \<and> \<not> is_object (the properties) then [SvProperties path] else []),
          map (\<lambda>(k, c). Enter c (path @ ''.properties.'' @ k)) (props_of properties) @ [ObjectTail node path properties]))
      else if t = ''array'' then
        (misplaced, (case obj_get node ''items'' of None \<Rightarrow> [] | Some c \<Rightarrow> [Enter c (path @ ''.items'')]))
      else (misplaced @ checkScalarNode node path t, []))"

definition branchTasks :: "string \<Rightarrow> json list \<Rightarrow> schema_task list" where
  "branchTasks path branches =
     map (\<lambda>(i, b). Enter b (path @ ''.oneOf['' @ digits_of i @ '']'')) (enumerate 0 branches)"

definition checkNode :: "json \<Rightarrow> string \<Rightarrow> schema_violation list \<times> schema_task list" where
  "checkNode node path =
     (let hasType = hasOwn node ''type''; hasOneOf = hasOwn node ''oneOf'' in
      if hasType \<and> hasOneOf then ([SvTypeAndOneOf path], [])
      else if \<not> hasType \<and> \<not> hasOneOf then
        (map (SvRequiresType path) (filter (hasOwn node) ONE_OF_SIBLING_KEYWORDS), [])
      else if hasOneOf then
        (let oneOf = obj_get node ''oneOf'' in
         if \<not> isPlainJsonArray oneOf \<or> length (items_of oneOf) < 2 then ([SvOneOf path], [OneOfTail node path])
         else ([], branchTasks path (items_of oneOf) @ [OneOfTail node path]))
      else
        (case obj_get node ''type'' of
           Some (JStr t) \<Rightarrow> if t \<in> set SCHEMA_TYPES then checkTyped node path t else ([SvType path], [])
         | _ \<Rightarrow> ([SvType path], [])))"

definition checkTask :: "schema_task \<Rightarrow> schema_violation list \<times> schema_task list" where
  "checkTask task =
     (case task of
        OneOfTail node path \<Rightarrow> (map (SvBesideOneOf path) (filter (hasOwn node) ONE_OF_SIBLING_KEYWORDS), [])
      | ObjectTail node path properties \<Rightarrow> (checkObjectSchemaTail node path properties, [])
      | Enter node path \<Rightarrow>
          if \<not> is_object node then ([SvNotObject path], [])
          else (case checkNode node path of (vs, tasks) \<Rightarrow> (checkKeywords node path @ vs, tasks)))"

fun task_size :: "schema_task \<Rightarrow> nat" where
  "task_size (Enter node _) = 3 * size node + 1"
| "task_size _ = 1"

lemma size_get: "obj_get s k = Some c \<Longrightarrow> size c < size s"
  by (cases s) (auto dest!: map_of_SomeD size_prop)

lemma items_size: "(\<Sum>x\<leftarrow>items_of (Some v). 3 * size x + 1) \<le> 3 * size v"
proof (cases v)
  case (JArr xs)
  have "(\<Sum>x\<leftarrow>xs. 3 * size x + 1) \<le> 3 * size (JArr xs)" by (induction xs) auto
  with JArr show ?thesis by simp
qed simp_all

lemma props_size: "(\<Sum>(k, x)\<leftarrow>props_of (Some v). 3 * size x + 1) \<le> 3 * size v"
proof (cases v)
  case (JObj kvs)
  have "(\<Sum>(k, x)\<leftarrow>kvs. 3 * size x + 1) \<le> 3 * size (JObj kvs)" by (induction kvs) auto
  with JObj show ?thesis by simp
qed simp_all

lemma branchTasks_size: "sum_list (map task_size (branchTasks path bs)) = (\<Sum>b\<leftarrow>bs. 3 * size b + 1)"
proof -
  have "sum_list (map task_size (map (\<lambda>(i, b). Enter b (path @ ''.oneOf['' @ digits_of i @ '']'')) (enumerate n bs)))
      = (\<Sum>b\<leftarrow>bs. 3 * size b + 1)" for n
    by (induction bs arbitrary: n) auto
  then show ?thesis by (simp add: branchTasks_def)
qed

lemma propTasks_size:
  "sum_list (map task_size (map (\<lambda>(k, c). Enter c (path @ ''.properties.'' @ k)) kvs)) = (\<Sum>(k, x)\<leftarrow>kvs. 3 * size x + 1)"
  by (induction kvs) auto

lemma checkTyped_smaller:
  assumes "is_object node" "checkTyped node path t = (vs, pushed)"
  shows "sum_list (map task_size pushed) < 3 * size node + 1"
proof -
  have props: "(\<Sum>(k, x)\<leftarrow>props_of (obj_get node ''properties''). 3 * size x + 1) < 3 * size node"
    using assms(1) size_get [of node "''properties''"] props_size [of "the (obj_get node ''properties'')"]
    by (cases "obj_get node ''properties''"; cases node) auto
  have items: "3 * size c + 1 < 3 * size node + 1" if "obj_get node ''items'' = Some c" for c
    using size_get [OF that] by simp
  have "pushed = map (\<lambda>(k, c). Enter c (path @ ''.properties.'' @ k)) (props_of (obj_get node ''properties''))
        @ [ObjectTail node path (obj_get node ''properties'')]
      \<or> pushed = [] \<or> (\<exists>c. obj_get node ''items'' = Some c \<and> pushed = [Enter c (path @ ''.items'')])"
    using assms(2) by (auto simp: checkTyped_def Let_def split: if_splits option.splits)
  with props items propTasks_size [of path "props_of (obj_get node ''properties'')"] show ?thesis by fastforce
qed

lemma checkNode_smaller:
  assumes "is_object node" "checkNode node path = (vs, pushed)"
  shows "sum_list (map task_size pushed) < 3 * size node + 1"
proof (cases "hasOwn node ''oneOf'' \<and> \<not> hasOwn node ''type''")
  case True
  then obtain v where v: "obj_get node ''oneOf'' = Some v" by (auto simp: hasOwn_get)
  have "(\<Sum>b\<leftarrow>items_of (Some v). 3 * size b + 1) < 3 * size node"
    using size_get [OF v] items_size [of v] by simp
  moreover have "pushed = [OneOfTail node path] \<or> pushed = branchTasks path (items_of (Some v)) @ [OneOfTail node path]"
    using assms(2) True v by (auto simp: checkNode_def Let_def split: if_splits)
  ultimately show ?thesis by (auto simp: branchTasks_size)
next
  case False
  with assms checkTyped_smaller [OF assms(1), of path] show ?thesis
    by (cases node) (auto simp: checkNode_def Let_def split: if_splits option.splits json.splits)
qed

lemma tasks_smaller:
  assumes "checkTask task = (vs, pushed)"
  shows "sum_list (map task_size pushed) < task_size task"
  using assms checkNode_smaller
  by (cases task) (auto simp: checkTask_def split: if_splits prod.splits)

function checkSchema :: "schema_task list \<Rightarrow> schema_violation list" where
  "checkSchema [] = []"
| "checkSchema (task # tasks) = (case checkTask task of (vs, pushed) \<Rightarrow> vs @ checkSchema (pushed @ tasks))"
  by pat_completeness auto
termination
  by (relation "measure (\<lambda>tasks. sum_list (map task_size tasks))") (auto dest!: tasks_smaller [OF sym])

definition checkSchemaNode :: "json \<Rightarrow> schema_violation list" where
  "checkSchemaNode schema = checkSchema [Enter schema ''schema'']"

definition assertSupportedJsonSchema :: "json \<Rightarrow> schema_violation list + unit" where
  "assertSupportedJsonSchema schema =
     (let vs = checkSchemaNode schema in if vs \<noteq> [] then Inl vs else Inr ())"

definition assertObjectJsonSchema :: "json \<Rightarrow> schema_violation list + unit" where
  "assertObjectJsonSchema schema =
     (let vs = checkSchemaNode schema;
          vs' = (if vs = [] \<and> obj_get schema ''type'' \<noteq> Some (JStr ''object'') then [SvNotObjectRoot] else vs) in
      if vs' \<noteq> [] then Inl vs' else Inr ())"

section \<open>Checking a value\<close>

datatype value_violation =
    VvMissing string
  | VvUndeclared string
  | VvObject string
  | VvArray string
  | VvLosslessObject string
  | VvDenseArray string
  | VvLossless string
  | VvOneOf string nat
  | VvString string
  | VvNumber string
  | VvFinite string
  | VvInteger string
  | VvBoolean string
  | VvNull string
  | VvEnum string "json list"
  | VvConst string json

datatype frame_kind = KindOneOf | KindObject | KindArray

record value_frame =
  vf_node :: json
  vf_value :: jsval
  vf_path :: string
  vf_started :: bool
  vf_kind :: frame_kind
  vf_children :: "(json \<times> jsval \<times> string) list"
  vf_childIndex :: nat
  vf_violations :: "value_violation list"
  vf_tailViolations :: "value_violation list"
  vf_matches :: nat

text \<open>\<open>vf_started\<close> is the phase \<open>children\<close>; the kind is set when it starts.\<close>

definition valueFrame :: "json \<Rightarrow> jsval \<Rightarrow> string \<Rightarrow> value_frame" where
  "valueFrame node v path =
     \<lparr>vf_node = node, vf_value = v, vf_path = path, vf_started = False, vf_kind = KindArray, vf_children = [],
      vf_childIndex = 0, vf_violations = [], vf_tailViolations = [], vf_matches = 0\<rparr>"

definition safelyIsJsonValue :: "heap \<Rightarrow> jsval \<Rightarrow> bool" where
  "safelyIsJsonValue h v \<longleftrightarrow> isJsonValue h v = Some True"

definition diagnosticPath :: "string \<Rightarrow> string" where
  "diagnosticPath path = (if path = [] then ''arguments'' else path)"

definition propertyPath :: "string \<Rightarrow> string \<Rightarrow> string" where
  "propertyPath path key = (if path = [] then key else path @ ''.'' @ key)"

text \<open>The scalar a value is, to compare with a literal of the schema.\<close>

fun scalarOf :: "jsval \<Rightarrow> json option" where
  "scalarOf VNull = Some JNull"
| "scalarOf (VBool b) = Some (JBool b)"
| "scalarOf (VNum (Fin x)) = Some (JNum x)"
| "scalarOf (VStr s) = Some (JStr s)"
| "scalarOf _ = None"

definition checkScalarValue :: "json \<Rightarrow> jsval \<Rightarrow> string \<Rightarrow> value_violation list" where
  "checkScalarValue node v path =
     (if hasOwn node ''enum'' \<and> scalarOf v \<notin> Some ` set (items_of (obj_get node ''enum''))
      then [VvEnum (diagnosticPath path) (items_of (obj_get node ''enum''))]
      else
        (case obj_get node ''const'' of
           Some c \<Rightarrow> if scalarOf v \<noteq> Some c then [VvConst (diagnosticPath path) c] else []
         | None \<Rightarrow> []))"

text \<open>\<open>isPlainJsonRecord\<close>: the own properties of a plain record. Hidden and symbol keys are allowed here.\<close>

definition plainRecord :: "heap \<Rightarrow> jsval \<Rightarrow> (string option \<times> bool \<times> jsval) list option" where
  "plainRecord h v =
     (case v of
        VRef a \<Rightarrow> (case h ! a of HObj p props \<Rightarrow> if hasPlainObjectPrototype p then Some props else None | _ \<Rightarrow> None)
      | _ \<Rightarrow> None)"

definition arrayItems :: "heap \<Rightarrow> jsval \<Rightarrow> jsval option list option" where
  "arrayItems h v =
     (case v of VRef a \<Rightarrow> (case h ! a of HArr _ items _ \<Rightarrow> Some items | _ \<Rightarrow> None) | _ \<Rightarrow> None)"

text \<open>An own property that is not \<open>undefined\<close>.\<close>

definition definedProp :: "(string option \<times> bool \<times> jsval) list \<Rightarrow> string \<Rightarrow> jsval option" where
  "definedProp props key =
     (case map_of props (Some key) of Some (_, v) \<Rightarrow> if v = VUndefined then None else Some v | None \<Rightarrow> None)"

definition objectChildren ::
    "json \<Rightarrow> (string option \<times> bool \<times> jsval) list \<Rightarrow> string \<Rightarrow> (json \<times> jsval \<times> string) list" where
  "objectChildren node props path =
     List.map_filter (\<lambda>(key, child). map_option (\<lambda>w. (child, w, propertyPath path key)) (definedProp props key))
       (props_of (obj_get node ''properties''))"

definition missingRequired :: "json \<Rightarrow> (string option \<times> bool \<times> jsval) list \<Rightarrow> string \<Rightarrow> value_violation list" where
  "missingRequired node props path =
     map (\<lambda>n. VvMissing (propertyPath path (as_str (Some n))))
       (filter (\<lambda>n. definedProp props (as_str (Some n)) = None) (items_of (obj_get node ''required'')))"

definition undeclaredKeys :: "json \<Rightarrow> (string option \<times> bool \<times> jsval) list \<Rightarrow> string \<Rightarrow> value_violation list" where
  "undeclaredKeys node props path =
     (if obj_get node ''additionalProperties'' = Some (JBool False) then
        map (\<lambda>key. VvUndeclared (propertyPath path key))
          (filter (\<lambda>key. key \<notin> set (map fst (props_of (obj_get node ''properties''))))
            (List.map_filter (\<lambda>(k, enumerable, _). if enumerable then k else None) props))
      else [])"

definition arrayChildren :: "json \<Rightarrow> jsval option list \<Rightarrow> string \<Rightarrow> (json \<times> jsval \<times> string) list" where
  "arrayChildren node items path =
     (case obj_get node ''items'' of
        None \<Rightarrow> []
      | Some child \<Rightarrow>
          List.map_filter (\<lambda>(i, item). map_option (\<lambda>w. (child, w, path @ ''['' @ digits_of i @ '']'')) item)
            (enumerate 0 items))"

text \<open>The start of a frame: either its result at once, or the frame with its children.\<close>

definition startTyped :: "heap \<Rightarrow> string \<Rightarrow> value_frame \<Rightarrow> value_violation list + value_frame" where
  "startTyped h t f =
     (let node = vf_node f; v = vf_value f; path = vf_path f; dp = diagnosticPath path in
      if t = ''object'' then
        (case plainRecord h v of
           None \<Rightarrow> Inl [VvObject dp]
         | Some props \<Rightarrow>
             Inr (f\<lparr>vf_kind := KindObject, vf_children := objectChildren node props path, vf_childIndex := 0,
                    vf_violations := missingRequired node props path,
                    vf_tailViolations := undeclaredKeys node props path, vf_started := True\<rparr>))
      else if t = ''array'' then
        (case arrayItems h v of
           None \<Rightarrow> Inl [VvArray dp]
         | Some items \<Rightarrow>
             Inr (f\<lparr>vf_kind := KindArray, vf_children := arrayChildren node items path, vf_childIndex := 0,
                    vf_violations := [], vf_started := True\<rparr>))
      else if t = ''string'' then
        Inl (case v of VStr _ \<Rightarrow> checkScalarValue node v path | _ \<Rightarrow> [VvString dp])
      else if t = ''number'' then
        Inl (case v of
               VNum x \<Rightarrow> if \<not> isFinite x \<or> x = NegZero then [VvFinite dp] else checkScalarValue node v path
             | _ \<Rightarrow> [VvNumber dp])
      else if t = ''integer'' then
        Inl (case v of VNum (Fin x) \<Rightarrow> if isInteger x then checkScalarValue node v path else [VvInteger dp] | _ \<Rightarrow> [VvInteger dp])
      else if t = ''boolean'' then
        Inl (case v of VBool _ \<Rightarrow> checkScalarValue node v path | _ \<Rightarrow> [VvBoolean dp])
      else Inl (case v of VNull \<Rightarrow> checkScalarValue node v path | _ \<Rightarrow> [VvNull dp]))"

definition startFrame :: "heap \<Rightarrow> value_frame \<Rightarrow> value_violation list + value_frame" where
  "startFrame h f =
     (case obj_get (vf_node f) ''oneOf'' of
        Some oneOf \<Rightarrow>
          Inr (f\<lparr>vf_kind := KindOneOf, vf_children := map (\<lambda>b. (b, vf_value f, vf_path f)) (items_of (Some oneOf)),
                 vf_childIndex := 0, vf_matches := 0, vf_started := True\<rparr>)
      | None \<Rightarrow>
          (case obj_get (vf_node f) ''type'' of
             None \<Rightarrow> Inl (if safelyIsJsonValue h (vf_value f) then [] else [VvLossless (diagnosticPath (vf_path f))])
           | Some t \<Rightarrow> startTyped h (as_str (Some t)) f))"

text \<open>What a frame does with the result of a child, and its own result once every child has reported.\<close>

definition receiveInto :: "value_violation list \<Rightarrow> value_frame \<Rightarrow> value_frame" where
  "receiveInto result f =
     (if vf_kind f = KindOneOf then (if result = [] then f\<lparr>vf_matches := vf_matches f + 1\<rparr> else f)
      else f\<lparr>vf_violations := vf_violations f @ result\<rparr>)"

definition closeFrame :: "heap \<Rightarrow> value_frame \<Rightarrow> value_violation list" where
  "closeFrame h f =
     (let dp = diagnosticPath (vf_path f) in
      if vf_kind f = KindOneOf then (if vf_matches f = 1 then [] else [VvOneOf dp (vf_matches f)])
      else
        let vs = vf_violations f @ vf_tailViolations f in
        if vs \<noteq> [] then vs
        else if safelyIsJsonValue h (vf_value f) then []
        else if vf_kind f = KindObject then [VvLosslessObject dp] else [VvDenseArray dp])"

text \<open>\<open>receive\<close> and \<open>finish\<close> on the frames below the finished one, innermost first, and the root result.\<close>

fun receive :: "value_violation list \<Rightarrow> value_frame list \<Rightarrow> value_violation list option
    \<Rightarrow> value_frame list \<times> value_violation list option" where
  "receive result [] out = ([], Some result)"
| "receive result (parent # frames) out = (receiveInto result parent # frames, out)"

definition valueStep :: "heap \<Rightarrow> value_frame \<Rightarrow> value_frame list \<Rightarrow> value_violation list option
    \<Rightarrow> value_frame list \<times> value_violation list option" where
  "valueStep h frame frames out =
     (if vf_started frame then
        if vf_childIndex frame < length (vf_children frame) then
          (case vf_children frame ! vf_childIndex frame of
             (node, v, path) \<Rightarrow>
               (valueFrame node v path # frame\<lparr>vf_childIndex := vf_childIndex frame + 1\<rparr> # frames, out))
        else receive (closeFrame h frame) frames out
      else
        (case startFrame h frame of
           Inl result \<Rightarrow> receive result frames out
         | Inr frame' \<Rightarrow> (frame' # frames, out)))"

partial_function (option) checkLoop ::
    "heap \<Rightarrow> value_frame list \<Rightarrow> value_violation list option \<Rightarrow> value_violation list option option" where
  [code]: "checkLoop h frames out =
     (case frames of
        [] \<Rightarrow> Some out
      | frame # rest \<Rightarrow> (case valueStep h frame rest out of (frames', out') \<Rightarrow> checkLoop h frames' out'))"

definition checkValue :: "heap \<Rightarrow> json \<Rightarrow> jsval \<Rightarrow> string \<Rightarrow> value_violation list option" where
  "checkValue h schema v path =
     map_option (\<lambda>out. case out of Some result \<Rightarrow> result | None \<Rightarrow> [VvLossless (diagnosticPath path)])
       (checkLoop h [valueFrame schema v path] None)"

definition validateJsonSchemaValue :: "heap \<Rightarrow> json \<Rightarrow> jsval \<Rightarrow> string \<Rightarrow> value_violation list option" where
  "validateJsonSchemaValue h schema v path = checkValue h schema v path"

section \<open>What a schema describes\<close>

definition literalAllowed :: "json \<Rightarrow> json \<Rightarrow> bool" where
  "literalAllowed s v \<longleftrightarrow>
     (hasOwn s ''enum'' \<longrightarrow> v \<in> set (items_of (obj_get s ''enum''))) \<and> (\<forall>c. obj_get s ''const'' = Some c \<longrightarrow> v = c)"

lemma items_smaller: "b \<in> set (items_of (obj_get s k)) \<Longrightarrow> size b < size s"
  using size_get [of s k] size_item [of b]
  by (cases "obj_get s k" rule: items_of.cases) force+

lemma props_smaller: "(k', c) \<in> set (props_of (obj_get s k)) \<Longrightarrow> size c < size s"
  using size_get [of s k] size_prop [of "(k', c)"]
  by (cases "obj_get s k" rule: props_of.cases) force+

function inhabits :: "json \<Rightarrow> json \<Rightarrow> bool" where
  "inhabits s v \<longleftrightarrow>
     (if hasOwn s ''oneOf'' then
        length (filter (\<lambda>branch. inhabits branch v) (items_of (obj_get s ''oneOf''))) = 1
      else
        (case obj_get s ''type'' of
           None \<Rightarrow> True
         | Some t \<Rightarrow>
             if t = JStr ''object'' then
               (case v of
                  JObj kvs \<Rightarrow>
                    list_all (\<lambda>n. map_of kvs (as_str (Some n)) \<noteq> None) (items_of (obj_get s ''required''))
                    \<and> list_all (\<lambda>(key, child). case map_of kvs key of None \<Rightarrow> True | Some w \<Rightarrow> inhabits child w)
                        (props_of (obj_get s ''properties''))
                    \<and> (obj_get s ''additionalProperties'' = Some (JBool False) \<longrightarrow>
                         set (map fst kvs) \<subseteq> set (map fst (props_of (obj_get s ''properties''))))
                | _ \<Rightarrow> False)
             else if t = JStr ''array'' then
               (case v of
                  JArr vs \<Rightarrow> (case obj_get s ''items'' of None \<Rightarrow> True | Some child \<Rightarrow> list_all (inhabits child) vs)
                | _ \<Rightarrow> False)
             else scalarMatches (as_str (Some t)) v \<and> literalAllowed s v))"
  by pat_completeness auto
termination
  by (relation "measure (\<lambda>(s, v). size s)") (auto simp: items_smaller props_smaller size_get)

declare inhabits.simps [simp del]

section \<open>The recursive reading of the frame stack\<close>

lemma startFrame_children:
  assumes "startFrame h f = Inr f'" "(node, v, path) \<in> set (vf_children f')"
  shows "size node < size (vf_node f)"
proof (cases "obj_get (vf_node f) ''oneOf''")
  case (Some oneOf)
  with assms have "node \<in> set (items_of (obj_get (vf_node f) ''oneOf''))" by (auto simp: startFrame_def)
  then show ?thesis by (rule items_smaller)
next
  case None
  then obtain t where t: "startTyped h t f = Inr f'"
    using assms(1) by (auto simp: startFrame_def split: option.splits)
  then consider props where "vf_children f' = objectChildren (vf_node f) props (vf_path f)"
    | items where "vf_children f' = arrayChildren (vf_node f) items (vf_path f)"
    by (auto simp: startTyped_def Let_def split: if_splits option.splits)
  then show ?thesis
  proof cases
    case 1
    with assms(2) obtain key where "(key, node) \<in> set (props_of (obj_get (vf_node f) ''properties''))"
      by (auto simp: objectChildren_def List.map_filter_def)
    then show ?thesis by (rule props_smaller)
  next
    case 2
    with assms(2) have "obj_get (vf_node f) ''items'' = Some node"
      by (auto simp: arrayChildren_def List.map_filter_def split: option.splits)
    then show ?thesis by (rule size_get)
  qed
qed

abbreviation receiveAll :: "value_violation list list \<Rightarrow> value_frame \<Rightarrow> value_frame" where
  "receiveAll results f \<equiv> foldl (\<lambda>f r. receiveInto r f) f results"

function valueViolations :: "heap \<Rightarrow> json \<Rightarrow> jsval \<Rightarrow> string \<Rightarrow> value_violation list" where
  "valueViolations h node v path =
     (case startFrame h (valueFrame node v path) of
        Inl result \<Rightarrow> result
      | Inr f \<Rightarrow> closeFrame h (receiveAll (map (\<lambda>(c, w, p). valueViolations h c w p) (vf_children f)) f))"
  by pat_completeness auto
termination
proof (relation "measure (\<lambda>(h, node, v, path). size node)", goal_cases)
  case (2 h node v path f z c wp w p)
  then have "startFrame h (valueFrame node v path) = Inr f" "(c, w, p) \<in> set (vf_children f)" by auto
  from startFrame_children [OF this] show ?case by (simp add: valueFrame_def)
qed simp

declare valueViolations.simps [simp del]

lemma receiveInto_simps [simp]:
  "vf_children (receiveInto r f) = vf_children f" "vf_started (receiveInto r f) = vf_started f"
  "vf_childIndex (receiveInto r f) = vf_childIndex f" "vf_kind (receiveInto r f) = vf_kind f"
  "vf_path (receiveInto r f) = vf_path f" "vf_value (receiveInto r f) = vf_value f"
  "vf_tailViolations (receiveInto r f) = vf_tailViolations f"
  "receiveInto r (f\<lparr>vf_childIndex := i\<rparr>) = (receiveInto r f)\<lparr>vf_childIndex := i\<rparr>"
  by (simp_all add: receiveInto_def)

lemma closeFrame_index [simp]: "closeFrame h (f\<lparr>vf_childIndex := i\<rparr>) = closeFrame h f"
  by (simp add: closeFrame_def Let_def)

lemma checkLoop_Cons:
  "checkLoop h (f # rest) out = (case valueStep h f rest out of (frames', out') \<Rightarrow> checkLoop h frames' out')"
  by (subst checkLoop.simps) simp

definition evaluates :: "heap \<Rightarrow> json \<Rightarrow> jsval \<Rightarrow> string \<Rightarrow> bool" where
  "evaluates h node v path \<longleftrightarrow> (\<forall>frames out. checkLoop h (valueFrame node v path # frames) out =
     (case receive (valueViolations h node v path) frames out of (frames', out') \<Rightarrow> checkLoop h frames' out'))"

lemma evaluatesD:
  "evaluates h node v path \<Longrightarrow> checkLoop h (valueFrame node v path # frames) out =
     (case receive (valueViolations h node v path) frames out of (frames', out') \<Rightarrow> checkLoop h frames' out')"
  by (simp add: evaluates_def)

lemma children_loop:
  assumes "\<And>c w p. (c, w, p) \<in> set cs \<Longrightarrow> evaluates h c w p"
    and "vf_children f = cs" "vf_started f" "i \<le> length cs"
  shows "checkLoop h (f\<lparr>vf_childIndex := i\<rparr> # frames) out =
    (case receive (closeFrame h (receiveAll (map (\<lambda>(c, w, p). valueViolations h c w p) (drop i cs)) f)) frames out of
       (frames', out') \<Rightarrow> checkLoop h frames' out')"
  using assms(2-4)
proof (induction "length cs - i" arbitrary: i f)
  case 0
  then show ?case by (simp add: checkLoop_Cons valueStep_def)
next
  case (Suc n)
  then have i: "i < length cs" by simp
  obtain c w p where c: "cs ! i = (c, w, p)" by (cases "cs ! i")
  then have e: "evaluates h c w p" using assms(1) i by (metis nth_mem)
  have drop: "drop i cs = (c, w, p) # drop (Suc i) cs" using i c by (simp add: Cons_nth_drop_Suc [symmetric])
  have "checkLoop h (f\<lparr>vf_childIndex := i\<rparr> # frames) out
      = checkLoop h (valueFrame c w p # f\<lparr>vf_childIndex := i + 1\<rparr> # frames) out"
    using i c Suc.prems by (simp add: checkLoop_Cons [of h "f\<lparr>vf_childIndex := i\<rparr>"] valueStep_def)
  also have "\<dots> = checkLoop h ((receiveInto (valueViolations h c w p) f)\<lparr>vf_childIndex := i + 1\<rparr> # frames) out"
    by (simp add: evaluatesD [OF e])
  also have "\<dots> = (case receive (closeFrame h (receiveAll (map (\<lambda>(c, w, p). valueViolations h c w p) (drop (i + 1) cs))
        (receiveInto (valueViolations h c w p) f))) frames out of (frames', out') \<Rightarrow> checkLoop h frames' out')"
    by (rule Suc.hyps(1)) (use Suc i in auto)
  finally show ?case by (simp add: drop)
qed

lemma evaluates_all: "evaluates h node v path"
proof (induction h node v path rule: valueViolations.induct)
  case (1 h node v path)
  show ?case
  proof (cases "startFrame h (valueFrame node v path)")
    case (Inl result)
    then show ?thesis
      by (simp add: evaluates_def checkLoop_Cons valueStep_def valueViolations.simps [of h node] valueFrame_def)
  next
    case (Inr f)
    have started: "vf_started f" "vf_childIndex f = 0"
      using Inr by (auto simp: startFrame_def startTyped_def Let_def split: option.splits if_splits)
    have cs: "evaluates h c w p" if "(c, w, p) \<in> set (vf_children f)" for c w p
      using 1 [OF Inr that refl refl] .
    have "checkLoop h (valueFrame node v path # frames) out = checkLoop h (f\<lparr>vf_childIndex := 0\<rparr> # frames) out" for frames out
      using started Inr by (simp add: checkLoop_Cons valueStep_def valueFrame_def)
    with children_loop [OF cs refl started(1), where i = 0] show ?thesis
      by (simp add: evaluates_def valueViolations.simps [of h node] Inr)
  qed
qed

lemma checkValue_result: "checkValue h schema v path = Some (valueViolations h schema v path)"
proof -
  have "checkLoop h [] out = Some out" for out by (subst checkLoop.simps) simp
  then show ?thesis by (simp add: checkValue_def evaluatesD [OF evaluates_all])
qed

section \<open>What an accepted schema looks like\<close>

lemma checkSchema_append: "checkSchema (ts @ us) = checkSchema ts @ checkSchema us"
  by (induction ts rule: checkSchema.induct) (auto split: prod.splits)

definition supported :: "json \<Rightarrow> bool" where
  "supported s \<longleftrightarrow> (\<exists>path. checkSchema [Enter s path] = [])"

lemma supported_pushed:
  assumes "checkSchema ts = []" "Enter c path \<in> set ts"
  shows "supported c"
proof -
  from assms(2) obtain xs ys where "ts = xs @ [Enter c path] @ ys" by (metis append_Cons append_Nil split_list)
  with assms(1) have "checkSchema [Enter c path] = []" by (simp only: checkSchema_append append_is_Nil_conv)
  then show ?thesis by (auto simp: supported_def simp del: checkSchema.simps)
qed

lemma supported_node:
  assumes "supported s"
  obtains path tasks where "is_object s" "checkNode s path = ([], tasks)" "checkSchema tasks = []"
  using assms by (auto simp: supported_def checkTask_def split: prod.splits if_splits)

lemma branch_enter: "b \<in> set bs \<Longrightarrow> \<exists>p. Enter b p \<in> set (branchTasks path bs)"
proof -
  assume "b \<in> set bs"
  then obtain i where "i < length bs" "bs ! i = b" by (auto simp: in_set_conv_nth)
  then have "(i, b) \<in> set (enumerate 0 bs)" by (simp add: in_set_enumerate_eq)
  then show ?thesis by (force simp: branchTasks_def)
qed

lemma supported_oneOf:
  assumes "supported s" "obj_get s ''oneOf'' = Some v"
  shows "obj_get s ''type'' = None \<and> (\<forall>b \<in> set (items_of (Some v)). supported b)"
proof -
  from assms(1) obtain path tasks where t: "checkNode s path = ([], tasks)" "checkSchema tasks = []"
    by (rule supported_node)
  with assms(2) have "obj_get s ''type'' = None" "tasks = branchTasks path (items_of (Some v)) @ [OneOfTail s path]"
    by (auto simp: checkNode_def Let_def hasOwn_get split: if_splits)
  moreover have "supported b" if "b \<in> set (items_of (Some v))" for b
    using branch_enter [OF that, of path] t(2) calculation(2) by (auto intro: supported_pushed)
  ultimately show ?thesis by blast
qed

lemma supported_typed:
  assumes "supported s" "obj_get s ''oneOf'' = None" "obj_get s ''type'' = Some v"
  obtains path tasks t where "v = JStr t" "t \<in> set SCHEMA_TYPES" "checkTyped s path t = ([], tasks)" "checkSchema tasks = []"
proof -
  from assms(1) obtain path tasks where t: "checkNode s path = ([], tasks)" "checkSchema tasks = []"
    by (rule supported_node)
  with assms that show thesis
    by (auto simp: checkNode_def Let_def hasOwn_get split: if_splits json.splits)
qed

lemma supported_object:
  assumes "supported s" "obj_get s ''oneOf'' = None" "obj_get s ''type'' = Some (JStr ''object'')"
  shows "\<forall>(k, c) \<in> set (props_of (obj_get s ''properties'')). supported c"
proof -
  from assms obtain path tasks where t: "checkTyped s path ''object'' = ([], tasks)" "checkSchema tasks = []"
    by (auto elim: supported_typed)
  then have "tasks = map (\<lambda>(k, c). Enter c (path @ ''.properties.'' @ k)) (props_of (obj_get s ''properties''))
      @ [ObjectTail s path (obj_get s ''properties'')]"
    by (auto simp: checkTyped_def Let_def split: if_splits)
  with t(2) show ?thesis by (force intro: supported_pushed)
qed

lemma supported_array:
  assumes "supported s" "obj_get s ''oneOf'' = None" "obj_get s ''type'' = Some (JStr ''array'')" "obj_get s ''items'' = Some c"
  shows "supported c"
proof -
  from assms obtain path tasks where t: "checkTyped s path ''array'' = ([], tasks)" "checkSchema tasks = []"
    by (auto elim: supported_typed)
  with assms(4) have "tasks = [Enter c (path @ ''.items'')]" by (auto simp: checkTyped_def Let_def)
  with t(2) show ?thesis by (auto intro: supported_pushed simp del: checkSchema.simps)
qed

section \<open>The validator decides the description\<close>

lemma receive_oneOf:
  "vf_kind f = KindOneOf \<Longrightarrow> receiveAll results f = f\<lparr>vf_matches := vf_matches f + length (filter (\<lambda>r. r = []) results)\<rparr>"
  by (induction results arbitrary: f) (auto simp: receiveInto_def)

lemma receive_parts:
  "vf_kind f \<noteq> KindOneOf \<Longrightarrow> receiveAll results f = f\<lparr>vf_violations := vf_violations f @ concat results\<rparr>"
  by (induction results arbitrary: f) (auto simp: receiveInto_def)

abbreviation means :: "heap \<Rightarrow> json \<Rightarrow> jsval \<Rightarrow> bool" where
  "means h s v \<equiv> \<exists>j. represents h v j \<and> inhabits s j"

lemma safely_iff: "wf_heap h \<Longrightarrow> known h v \<Longrightarrow> safelyIsJsonValue h v \<longleftrightarrow> (\<exists>j. represents h v j)"
  by (simp add: safelyIsJsonValue_def isJsonValue_iff)

lemma represents_plainRecord: "represents h v (JObj kvs) \<Longrightarrow> \<exists>props. plainRecord h v = Some props
    \<and> list_all2 (\<lambda>prop kv. fst prop = Some (fst kv) \<and> fst (snd prop) \<and> represents h (snd (snd prop)) (snd kv)) props kvs"
  by (cases v) (auto simp: plainRecord_def elim: represents_VRef represents_scalar)

lemma definedProp_represented:
  assumes "list_all2 (\<lambda>prop kv. fst prop = Some (fst kv) \<and> fst (snd prop) \<and> represents h (snd (snd prop)) (snd kv)) props kvs"
  shows "case map_of kvs key of None \<Rightarrow> definedProp props key = None
    | Some j \<Rightarrow> \<exists>w. definedProp props key = Some w \<and> represents h w j"
  using assms
proof (induction rule: list_all2_induct)
  case Nil
  then show ?case by (simp add: definedProp_def)
next
  case (Cons x xs y ys)
  then show ?case
    by (cases x; cases y) (auto simp: definedProp_def elim: represents_scalar split: option.splits)
qed

lemma represented_keys:
  assumes "list_all2 (\<lambda>prop kv. fst prop = Some (fst kv) \<and> fst (snd prop) \<and> represents h (snd (snd prop)) (snd kv)) props kvs"
  shows "List.map_filter (\<lambda>(k, enumerable, _). if enumerable then k else None) props = map fst kvs"
  using assms by (induction rule: list_all2_induct) (auto simp: List.map_filter_simps)

lemma valueViolations_oneOf:
  assumes "obj_get s ''oneOf'' = Some u"
  shows "valueViolations h s v path = [] \<longleftrightarrow>
    length (filter (\<lambda>b. valueViolations h b v path = []) (items_of (Some u))) = 1"
  using assms
  by (subst valueViolations.simps)
    (simp add: startFrame_def valueFrame_def receive_oneOf closeFrame_def Let_def comp_def filter_map)

lemma valueViolations_any:
  assumes "obj_get s ''oneOf'' = None" "obj_get s ''type'' = None"
  shows "valueViolations h s v path = [] \<longleftrightarrow> safelyIsJsonValue h v"
  using assms by (subst valueViolations.simps) (simp add: startFrame_def valueFrame_def)

lemma valueViolations_object:
  assumes "obj_get s ''oneOf'' = None" "obj_get s ''type'' = Some (JStr ''object'')"
  shows "valueViolations h s v path = [] \<longleftrightarrow>
    (\<exists>props. plainRecord h v = Some props \<and> missingRequired s props path = [] \<and> undeclaredKeys s props path = []
      \<and> (\<forall>(c, w, p) \<in> set (objectChildren s props path). valueViolations h c w p = []) \<and> safelyIsJsonValue h v)"
  using assms
  by (subst valueViolations.simps)
    (auto simp: startFrame_def startTyped_def valueFrame_def receive_parts closeFrame_def Let_def split: option.splits)

lemma valueViolations_array:
  assumes "obj_get s ''oneOf'' = None" "obj_get s ''type'' = Some (JStr ''array'')"
  shows "valueViolations h s v path = [] \<longleftrightarrow>
    (\<exists>items. arrayItems h v = Some items
      \<and> (\<forall>(c, w, p) \<in> set (arrayChildren s items path). valueViolations h c w p = []) \<and> safelyIsJsonValue h v)"
  using assms
  by (subst valueViolations.simps)
    (auto simp: startFrame_def startTyped_def valueFrame_def receive_parts closeFrame_def Let_def split: option.splits)

lemma checkScalarValue_ok:
  "scalarOf v = Some j \<Longrightarrow> checkScalarValue s v path = [] \<longleftrightarrow> literalAllowed s j"
  by (auto simp: checkScalarValue_def literalAllowed_def split: option.splits)

lemma startTyped_scalar:
  assumes "t \<in> set SCALAR_TYPES" "vf_path f = path" "vf_node f = s" "vf_value f = v"
  shows "\<exists>vs. startTyped h t f = Inl vs \<and> (vs = [] \<longleftrightarrow> (\<exists>j. scalarOf v = Some j \<and> scalarMatches t j \<and> literalAllowed s j))"
proof -
  consider "t = ''string''" | "t = ''number''" | "t = ''integer''" | "t = ''boolean''" | "t = ''null''"
    using assms(1) by (auto simp: SCALAR_TYPES_def)
  then show ?thesis
  proof cases
    case 1
    then show ?thesis using assms(2-4)
      by (cases v rule: scalarOf.cases) (simp_all add: startTyped_def Let_def scalarMatches_def checkScalarValue_ok)
  next
    case 2
    then show ?thesis using assms(2-4)
      by (cases v rule: scalarOf.cases) (simp_all add: startTyped_def Let_def scalarMatches_def checkScalarValue_ok)
  next
    case 3
    then show ?thesis using assms(2-4)
      by (cases v rule: scalarOf.cases) (simp_all add: startTyped_def Let_def scalarMatches_def checkScalarValue_ok)
  next
    case 4
    then show ?thesis using assms(2-4)
      by (cases v rule: scalarOf.cases) (simp_all add: startTyped_def Let_def scalarMatches_def checkScalarValue_ok)
  next
    case 5
    then show ?thesis using assms(2-4)
      by (cases v rule: scalarOf.cases) (simp_all add: startTyped_def Let_def scalarMatches_def checkScalarValue_ok)
  qed
qed

lemma valueViolations_scalar:
  assumes "obj_get s ''oneOf'' = None" "obj_get s ''type'' = Some (JStr t)" "t \<in> set SCALAR_TYPES"
  shows "valueViolations h s v path = [] \<longleftrightarrow> (\<exists>j. scalarOf v = Some j \<and> scalarMatches t j \<and> literalAllowed s j)"
proof -
  obtain vs where "startTyped h t (valueFrame s v path) = Inl vs"
    "vs = [] \<longleftrightarrow> (\<exists>j. scalarOf v = Some j \<and> scalarMatches t j \<and> literalAllowed s j)"
    using startTyped_scalar [OF assms(3), of "valueFrame s v path" path s v h] by (auto simp: valueFrame_def)
  moreover have "startFrame h (valueFrame s v path) = startTyped h t (valueFrame s v path)"
    using assms(1,2) by (simp add: startFrame_def valueFrame_def)
  ultimately show ?thesis by (simp add: valueViolations.simps [of h s])
qed

lemma scalarOf_represents: "scalarOf v = Some j \<Longrightarrow> represents h v j"
  by (cases v rule: scalarOf.cases) (auto intro: represents.intros)

lemma represents_scalarOf: "represents h v j \<Longrightarrow> scalarMatches t j \<Longrightarrow> scalarOf v = Some j"
  by (induction rule: represents.induct) (auto simp: scalarMatches_def)

lemma known_props:
  assumes "wf_heap h" "known h v" "plainRecord h v = Some props" "definedProp props key = Some w"
  shows "known h w"
proof -
  from assms(3) obtain a p where a: "v = VRef a" "h ! a = HObj p props"
    by (cases v) (auto simp: plainRecord_def split: hobj.splits if_splits)
  with assms(1,2) have "wf_obj h (HObj p props)" using wf_heap_obj [of h a] by simp
  moreover obtain e where "(Some key, e, w) \<in> set props"
    using assms(4) by (auto simp: definedProp_def split: option.splits if_splits dest: map_of_SomeD)
  ultimately show ?thesis by auto
qed

lemma known_items:
  assumes "wf_heap h" "known h v" "arrayItems h v = Some items" "Some w \<in> set items"
  shows "known h w"
proof -
  from assms(3) obtain a p extra where a: "v = VRef a" "h ! a = HArr p items extra"
    by (cases v) (auto simp: arrayItems_def split: hobj.splits)
  with assms(1,2) have "wf_obj h (HArr p items extra)" using wf_heap_obj [of h a] by simp
  with assms(4) show ?thesis by simp
qed

lemma inhabits_oneOf:
  "obj_get s ''oneOf'' = Some u \<Longrightarrow> inhabits s j \<longleftrightarrow> length (filter (\<lambda>b. inhabits b j) (items_of (Some u))) = 1"
  by (subst inhabits.simps) (simp add: hasOwn_get)

lemma inhabits_any: "obj_get s ''oneOf'' = None \<Longrightarrow> obj_get s ''type'' = None \<Longrightarrow> inhabits s j"
  by (subst inhabits.simps) (simp add: hasOwn_get)

lemma inhabits_object:
  assumes "obj_get s ''oneOf'' = None" "obj_get s ''type'' = Some (JStr ''object'')"
  shows "inhabits s j \<longleftrightarrow> (\<exists>kvs. j = JObj kvs
    \<and> (\<forall>n \<in> set (items_of (obj_get s ''required'')). map_of kvs (as_str (Some n)) \<noteq> None)
    \<and> (\<forall>(key, child) \<in> set (props_of (obj_get s ''properties'')). \<forall>w. map_of kvs key = Some w \<longrightarrow> inhabits child w)
    \<and> (obj_get s ''additionalProperties'' = Some (JBool False) \<longrightarrow>
         set (map fst kvs) \<subseteq> set (map fst (props_of (obj_get s ''properties'')))))"
  using assms
  by (subst inhabits.simps) (cases j; fastforce simp: hasOwn_get list_all_iff split: option.splits)

lemma inhabits_array:
  assumes "obj_get s ''oneOf'' = None" "obj_get s ''type'' = Some (JStr ''array'')"
  shows "inhabits s j \<longleftrightarrow> (\<exists>js. j = JArr js \<and> (\<forall>child. obj_get s ''items'' = Some child \<longrightarrow> (\<forall>w \<in> set js. inhabits child w)))"
  using assms
  by (subst inhabits.simps) (cases j; auto simp: hasOwn_get list_all_iff split: option.splits)

lemma inhabits_scalar:
  assumes "obj_get s ''oneOf'' = None" "obj_get s ''type'' = Some (JStr t)" "t \<in> set SCALAR_TYPES"
  shows "inhabits s j \<longleftrightarrow> scalarMatches t j \<and> literalAllowed s j"
  using assms by (subst inhabits.simps) (auto simp: hasOwn_get SCALAR_TYPES_def)

lemma represented_record: "represents h v j \<Longrightarrow> plainRecord h v \<noteq> None \<Longrightarrow> \<exists>kvs. j = JObj kvs"
  by (induction rule: represents.induct) (auto simp: plainRecord_def)

lemma represented_array: "represents h v j \<Longrightarrow> arrayItems h v \<noteq> None \<Longrightarrow> \<exists>js. j = JArr js"
  by (induction rule: represents.induct) (auto simp: arrayItems_def)

lemma object_exact:
  assumes h: "wf_heap h" "known h v" and s: "obj_get s ''oneOf'' = None" "obj_get s ''type'' = Some (JStr ''object'')"
    and IH: "\<And>key c w p. (key, c) \<in> set (props_of (obj_get s ''properties'')) \<Longrightarrow> known h w \<Longrightarrow>
      valueViolations h c w p = [] \<longleftrightarrow> means h c w"
  shows "valueViolations h s v path = [] \<longleftrightarrow> means h s v"
proof (cases "\<exists>kvs. represents h v (JObj kvs)")
  case False
  then have "\<not> (\<exists>j. represents h v j \<and> plainRecord h v \<noteq> None)"
    using represented_record by blast
  then show ?thesis
    using False unfolding valueViolations_object [OF s] inhabits_object [OF s] safely_iff [OF h] by auto
next
  case True
  then obtain kvs where kvs: "represents h v (JObj kvs)" by blast
  then obtain props where props: "plainRecord h v = Some props"
    "list_all2 (\<lambda>prop kv. fst prop = Some (fst kv) \<and> fst (snd prop) \<and> represents h (snd (snd prop)) (snd kv)) props kvs"
    using represents_plainRecord by blast
  note at = definedProp_represented [OF props(2)]
  have missing: "missingRequired s props path = []
      \<longleftrightarrow> (\<forall>n \<in> set (items_of (obj_get s ''required'')). map_of kvs (as_str (Some n)) \<noteq> None)"
    unfolding missingRequired_def map_is_Nil_conv filter_empty_conv
  proof (intro ball_cong refl)
    fix n
    show "definedProp props (as_str (Some n)) \<noteq> None \<longleftrightarrow> map_of kvs (as_str (Some n)) \<noteq> None"
      using at [of "as_str (Some n)"] by (auto split: option.splits)
  qed
  have undeclared: "undeclaredKeys s props path = [] \<longleftrightarrow> (obj_get s ''additionalProperties'' = Some (JBool False) \<longrightarrow>
         set (map fst kvs) \<subseteq> set (map fst (props_of (obj_get s ''properties''))))"
    unfolding undeclaredKeys_def represented_keys [OF props(2)] by (auto simp: filter_empty_conv)
  have child: "valueViolations h c w p = [] \<longleftrightarrow> inhabits c j"
    if "(key, c) \<in> set (props_of (obj_get s ''properties''))" "definedProp props key = Some w" "map_of kvs key = Some j" for key c w p j
  proof -
    have "known h w" by (rule known_props [OF h props(1) that(2)])
    moreover have "represents h w j" using at [of key] that(2,3) by simp
    ultimately show ?thesis using IH [OF that(1), of w p] represents_det by blast
  qed
  have children: "(\<forall>(c, w, p) \<in> set (objectChildren s props path). valueViolations h c w p = [])
      \<longleftrightarrow> (\<forall>(key, c) \<in> set (props_of (obj_get s ''properties'')). \<forall>w. map_of kvs key = Some w \<longrightarrow> inhabits c w)" (is "?L \<longleftrightarrow> ?R")
  proof
    assume L: ?L
    show ?R
    proof (intro ballI, clarify)
      fix key c j
      assume k: "(key, c) \<in> set (props_of (obj_get s ''properties''))" "map_of kvs key = Some j"
      then obtain w where w: "definedProp props key = Some w" using at [of key] by auto
      then have "(c, w, propertyPath path key) \<in> set (objectChildren s props path)"
        using k by (force simp: objectChildren_def List.map_filter_def)
      with L have "valueViolations h c w (propertyPath path key) = []" by auto
      with child [OF k(1) w k(2)] show "inhabits c j" by blast
    qed
  next
    assume R: ?R
    show ?L
    proof (intro ballI, clarify)
      fix c w p
      assume "(c, w, p) \<in> set (objectChildren s props path)"
      then obtain key where k: "(key, c) \<in> set (props_of (obj_get s ''properties''))" "definedProp props key = Some w"
        by (auto simp: objectChildren_def List.map_filter_def)
      then obtain j where "map_of kvs key = Some j" using at [of key] by (cases "map_of kvs key") auto
      with child [OF k this] R k(1) show "valueViolations h c w p = []" by auto
    qed
  qed
  have "valueViolations h s v path = [] \<longleftrightarrow> inhabits s (JObj kvs)"
    unfolding valueViolations_object [OF s] inhabits_object [OF s] safely_iff [OF h]
    using kvs by (auto simp: props(1) missing undeclared children)
  also have "\<dots> \<longleftrightarrow> means h s v" using kvs represents_det by blast
  finally show ?thesis .
qed

lemma array_exact:
  assumes h: "wf_heap h" "known h v" and s: "obj_get s ''oneOf'' = None" "obj_get s ''type'' = Some (JStr ''array'')"
    and IH: "\<And>c w p. obj_get s ''items'' = Some c \<Longrightarrow> known h w \<Longrightarrow> valueViolations h c w p = [] \<longleftrightarrow> means h c w"
  shows "valueViolations h s v path = [] \<longleftrightarrow> means h s v"
proof (cases "\<exists>js. represents h v (JArr js)")
  case False
  then have "\<not> (\<exists>j. represents h v j \<and> arrayItems h v \<noteq> None)"
    using represented_array by blast
  then show ?thesis
    using False unfolding valueViolations_array [OF s] inhabits_array [OF s] safely_iff [OF h] by auto
next
  case True
  then obtain js where js: "represents h v (JArr js)" by blast
  then obtain items where items: "arrayItems h v = Some items"
    "list_all2 (\<lambda>item j. \<exists>w. item = Some w \<and> represents h w j) items js"
    by (cases v) (auto simp: arrayItems_def elim: represents_VRef represents_scalar)
  have children: "(\<forall>(c, w, p) \<in> set (arrayChildren s items path). valueViolations h c w p = [])
      \<longleftrightarrow> (\<forall>child. obj_get s ''items'' = Some child \<longrightarrow> (\<forall>j \<in> set js. inhabits child j))"
  proof (cases "obj_get s ''items''")
    case None
    then show ?thesis by (simp add: arrayChildren_def)
  next
    case (Some child)
    have at: "valueViolations h child w p = [] \<longleftrightarrow> inhabits child (js ! i)" if "i < length js" "items ! i = Some w" for i w p
    proof -
      have "represents h w (js ! i)" using items(2) that by (auto simp: list_all2_conv_all_nth)
      moreover have "Some w \<in> set items" using that list_all2_lengthD [OF items(2)] by (metis nth_mem)
      then have "known h w" by (rule known_items [OF h items(1)])
      ultimately show ?thesis using IH [OF Some, of w p] represents_det by blast
    qed
    have set: "set (arrayChildren s items path) = {(child, w, path @ ''['' @ digits_of i @ '']'') |w i. i < length items \<and> items ! i = Some w}"
      unfolding arrayChildren_def Some option.case
    proof (intro set_eqI iffI)
      fix x
      assume "x \<in> {(child, w, path @ ''['' @ digits_of i @ '']'') |w i. i < length items \<and> items ! i = Some w}"
      then obtain w i where x: "x = (child, w, path @ ''['' @ digits_of i @ '']'')" "i < length items" "items ! i = Some w"
        by blast
      then have "(i, Some w) \<in> set (enumerate 0 items)" by (simp add: in_set_enumerate_eq)
      with x(1) show "x \<in> set (List.map_filter (\<lambda>(i, item). map_option (\<lambda>w. (child, w, path @ ''['' @ digits_of i @ '']'')) item)
            (enumerate 0 items))"
        by (force simp: List.map_filter_def)
    qed (auto simp: List.map_filter_def in_set_enumerate_eq)
    have some: "\<exists>w. items ! i = Some w" if "i < length js" for i
      using items(2) that by (auto simp: list_all2_conv_all_nth)
    have len: "length items = length js" by (rule list_all2_lengthD [OF items(2)])
    have "(\<forall>(c, w, p) \<in> set (arrayChildren s items path). valueViolations h c w p = [])
        \<longleftrightarrow> (\<forall>i < length js. inhabits child (js ! i))"
    proof
      assume L: "\<forall>(c, w, p) \<in> set (arrayChildren s items path). valueViolations h c w p = []"
      show "\<forall>i < length js. inhabits child (js ! i)"
      proof (intro allI impI)
        fix i
        assume i: "i < length js"
        then obtain w where w: "items ! i = Some w" using some by blast
        with i len have "(child, w, path @ ''['' @ digits_of i @ '']'') \<in> set (arrayChildren s items path)"
          unfolding set by auto
        with L have "valueViolations h child w (path @ ''['' @ digits_of i @ '']'') = []" by auto
        with at [OF i w] show "inhabits child (js ! i)" by blast
      qed
    next
      assume R: "\<forall>i < length js. inhabits child (js ! i)"
      show "\<forall>(c, w, p) \<in> set (arrayChildren s items path). valueViolations h c w p = []"
        unfolding set using R at len by auto
    qed
    then show ?thesis by (simp add: Some all_set_conv_all_nth)
  qed
  have "valueViolations h s v path = [] \<longleftrightarrow> inhabits s (JArr js)"
    unfolding valueViolations_array [OF s] inhabits_array [OF s] safely_iff [OF h]
    using js by (auto simp: items(1) children)
  also have "\<dots> \<longleftrightarrow> means h s v" using js represents_det by blast
  finally show ?thesis .
qed

lemma validator_exact: "wf_heap h \<Longrightarrow> known h v \<Longrightarrow> supported s \<Longrightarrow> valueViolations h s v path = [] \<longleftrightarrow> means h s v"
proof (induction "size s" arbitrary: s v path rule: less_induct)
  case less
  note h = less.prems(1,2)
  show ?case
  proof (cases "obj_get s ''oneOf''")
    case (Some u)
    note branches = supported_oneOf [OF less.prems(3) Some]
    have branch: "valueViolations h b v path = [] \<longleftrightarrow> means h b v" if "b \<in> set (items_of (Some u))" for b
      using that branches items_smaller [of b s "''oneOf''"] Some h by (intro less.hyps) auto
    then have "filter (\<lambda>b. valueViolations h b v path = []) (items_of (Some u)) = filter (\<lambda>b. means h b v) (items_of (Some u))"
      by (intro filter_cong) auto
    then have count: "valueViolations h s v path = [] \<longleftrightarrow> length (filter (\<lambda>b. means h b v) (items_of (Some u))) = 1"
      by (simp add: valueViolations_oneOf [OF Some])
    show ?thesis
    proof (cases "\<exists>j. represents h v j")
      case True
      then obtain j where j: "represents h v j" by blast
      then have means: "means h b v \<longleftrightarrow> inhabits b j" for b using represents_det by blast
      have "valueViolations h s v path = [] \<longleftrightarrow> length (filter (\<lambda>b. inhabits b j) (items_of (Some u))) = 1"
        using count by (simp only: means)
      also have "\<dots> \<longleftrightarrow> inhabits s j" by (rule inhabits_oneOf [OF Some, symmetric])
      also have "\<dots> \<longleftrightarrow> means h s v" by (rule means [symmetric])
      finally show ?thesis .
    next
      case False
      with count show ?thesis by simp
    qed
  next
    case None
    show ?thesis
    proof (cases "obj_get s ''type''")
      case no_type: None
      then show ?thesis
        using valueViolations_any [OF None no_type] inhabits_any [OF None no_type] safely_iff [OF h] by simp
    next
      case (Some u)
      obtain t where t: "obj_get s ''type'' = Some (JStr t)" "t \<in> set SCHEMA_TYPES"
        using Some supported_typed [OF less.prems(3) None Some] by auto
      from t(2) have "t = ''object'' \<or> t = ''array'' \<or> t \<in> set SCALAR_TYPES"
        unfolding SCHEMA_TYPES_def SCALAR_TYPES_def list.set insert_iff by blast
      then consider "t = ''object''" | "t = ''array''" | "t \<in> set SCALAR_TYPES" by blast
      then show ?thesis
      proof cases
        case 1
        with t have "obj_get s ''type'' = Some (JStr ''object'')" by simp
        then show ?thesis
          using supported_object [OF less.prems(3) None]
          by (intro object_exact [OF h None] less.hyps less.prems(1)) (auto dest: props_smaller)
      next
        case 2
        with t have "obj_get s ''type'' = Some (JStr ''array'')" by simp
        then show ?thesis
          using supported_array [OF less.prems(3) None]
          by (intro array_exact [OF h None] less.hyps less.prems(1)) (auto dest: size_get)
      next
        case 3
        then show ?thesis
          unfolding valueViolations_scalar [OF None t(1) 3] inhabits_scalar [OF None t(1) 3]
          by (auto dest: scalarOf_represents represents_scalarOf)
      qed
    qed
  qed
qed

lemma supported_accepted: "assertSupportedJsonSchema schema = Inr () \<Longrightarrow> supported schema"
  by (auto simp: assertSupportedJsonSchema_def checkSchemaNode_def supported_def Let_def split: if_splits)

section \<open>Properties\<close>

text \<open>C39.
  The validator is a type checker: for a schema that \<open>assertSupportedJsonSchema\<close> accepts and any candidate on
  any heap, sparse, hidden, exotic or cyclic, \<open>validateJsonSchemaValue\<close> returns, and it reports no violation
  exactly when the candidate is lossless JSON for a tree that the schema describes.
\<close>

theorem validator_decides:
  assumes "wf_heap h" "known h v" "assertSupportedJsonSchema schema = Inr ()"
  shows "\<exists>vs. validateJsonSchemaValue h schema v path = Some vs
    \<and> (vs = [] \<longleftrightarrow> (\<exists>j. represents h v j \<and> inhabits schema j))"
  using validator_exact [OF assms(1,2) supported_accepted [OF assms(3)]]
  by (simp add: validateJsonSchemaValue_def checkValue_result)

text \<open>A closed record of one integer and one value of it.\<close>

definition sampleSchema :: json where
  "sampleSchema = JObj [(''type'', JStr ''object''), (''properties'', JObj [(''n'', JObj [(''type'', JStr ''integer'')])]),
     (''required'', JArr [JStr ''n'']), (''additionalProperties'', JBool False)]"

definition sampleRecord :: heap where
  "sampleRecord = [HObj objectProto [(Some ''n'', True, VNum (Fin 7))]]"

theorem validator_decides_witness: "validateJsonSchemaValue sampleRecord sampleSchema (VRef 0) ''value'' = Some []"
proof -
  have wf: "wf_heap sampleRecord" by (simp add: sampleRecord_def wf_heap_def)
  have "represents sampleRecord (VRef 0) (JObj [(''n'', JNum 7)])"
    by (rule rep_obj) (auto simp: sampleRecord_def intro: rep_num)
  moreover have "inhabits sampleSchema (JObj [(''n'', JNum 7)])"
    by (simp add: sampleSchema_def inhabits.simps hasOwn_get scalarMatches_def literalAllowed_def isInteger_def)
  moreover have "assertSupportedJsonSchema sampleSchema = Inr ()"
    by (simp add: sampleSchema_def assertSupportedJsonSchema_def checkSchemaNode_def checkTask_def checkNode_def checkTyped_def
        checkKeywords_def checkScalarNode_def checkObjectSchemaTail_def allowedFor_def SCHEMA_TYPES_def SCALAR_TYPES_def
        CONSTRAINT_KEYWORDS_def ANNOTATION_KEYWORDS_def hasOwn_get Let_def)
  ultimately show ?thesis
    using validator_decides [OF wf, of "VRef 0" sampleSchema "''value''"] by (auto simp: sampleRecord_def)
qed

end
