(* ===== verification/Scope_Layers.thy ===== *)
theory Scope_Layers
  imports Prelude
begin

text \<open>
  Nested registration scopes: the parent links and chains of \<open>core/scope/src/index.ts\<close> and the entry tables
  and layers of \<open>core/scope/src/store.ts\<close>.

  A scope key is an opaque identity. The walks up the parent links are loops in the source, so they are
  partial functions here and \<open>None\<close> would be a walk that never ends. The undo of a table entry deletes it by
  its key: a name is unique in its table while its insertion is live, and each anonymous entry has a symbol of
  its own. A layer is created by the first registration of its scope and dropped with the last.
\<close>

section \<open>Parent links\<close>

type_synonym scope_key = nat

type_synonym scope_parents = "scope_key \<rightharpoonup> scope_key"

datatype scope_error = AlreadyBound | WouldCycle

partial_function (option) cursorMeets :: "scope_parents \<Rightarrow> scope_key \<Rightarrow> scope_key option \<Rightarrow> bool option" where
  [code]: "cursorMeets parents key cursor =
     (case cursor of
        None \<Rightarrow> Some False
      | Some c \<Rightarrow> if c = key then Some True else cursorMeets parents key (parents c))"

definition linkScopeParent :: "scope_parents \<Rightarrow> scope_key \<Rightarrow> scope_key \<Rightarrow> (scope_error + scope_parents) option" where
  "linkScopeParent parents key parent =
     map_option (\<lambda>meets. if meets then Inl WouldCycle else Inr (parents(key \<mapsto> parent)))
       (cursorMeets parents key (Some parent))"

definition bindScopeParent :: "scope_parents \<Rightarrow> scope_key \<Rightarrow> scope_key \<Rightarrow> (scope_error + scope_parents) option" where
  "bindScopeParent parents key parent =
     (if parents key \<noteq> None then Some (Inl AlreadyBound) else linkScopeParent parents key parent)"

partial_function (option) chainFrom :: "scope_parents \<Rightarrow> scope_key option \<Rightarrow> scope_key list \<Rightarrow> scope_key list option" where
  [code]: "chainFrom parents cursor chain =
     (case cursor of
        None \<Rightarrow> Some chain
      | Some c \<Rightarrow> chainFrom parents (parents c) (chain @ [c]))"

definition scopeChainOf :: "scope_parents \<Rightarrow> scope_key option \<Rightarrow> scope_key list option" where
  "scopeChainOf parents key = chainFrom parents key []"

text \<open>The filter of \<open>scopeTarget\<close>: whether a listener with a tag receives an event dispatched to a key.\<close>

definition scopeAdmits :: "scope_parents \<Rightarrow> scope_key option \<Rightarrow> scope_key option \<Rightarrow> bool option" where
  "scopeAdmits parents key tag =
     (case tag of None \<Rightarrow> Some True | Some t \<Rightarrow> cursorMeets parents t key)"

text \<open>A scope whose walk ends, which is every scope of a rooted relation.\<close>

definition chainKeys :: "scope_parents \<Rightarrow> scope_key option \<Rightarrow> scope_key list" where
  "chainKeys parents key = (case scopeChainOf parents key of Some chain \<Rightarrow> chain | None \<Rightarrow> [])"

abbreviation encloses :: "scope_parents \<Rightarrow> (scope_key \<times> scope_key) set" where
  "encloses parents \<equiv> {(p, k). parents k = Some p}"

definition rooted :: "scope_parents \<Rightarrow> bool" where
  "rooted parents \<longleftrightarrow> wf (encloses parents)"

lemma rooted_empty: "rooted Map.empty"
  by (simp add: rooted_def)

lemma rooted_induct [consumes 1, case_names root child]:
  assumes "rooted parents"
    and "\<And>k. parents k = None \<Longrightarrow> P k"
    and "\<And>k p. parents k = Some p \<Longrightarrow> P p \<Longrightarrow> P k"
  shows "P k"
  using assms(1) unfolding rooted_def
proof (induction k rule: wf_induct_rule)
  case (less k)
  then show ?case using assms(2,3) by (cases "parents k") auto
qed

lemma trancl_parent: "parents k = Some p \<Longrightarrow> (a, k) \<in> (encloses parents)\<^sup>+ \<longleftrightarrow> (a, p) \<in> (encloses parents)\<^sup>*"
  by (auto simp: trancl_unfold_right)

lemma no_parent: "parents k = None \<Longrightarrow> (a, k) \<notin> (encloses parents)\<^sup>+"
  by (auto dest: tranclD2)

lemma cursorMeets_exact:
  assumes "rooted parents"
  shows "cursorMeets parents key (Some c) = Some ((key, c) \<in> (encloses parents)\<^sup>*)"
  using assms
proof (induction c rule: rooted_induct)
  case (root k)
  then show ?case using no_parent [of parents k, OF root]
    by (subst cursorMeets.simps) (auto simp: cursorMeets.simps rtrancl_eq_or_trancl)
next
  case (child k p)
  then show ?case using trancl_parent [of parents k p, OF child(1)]
    by (subst cursorMeets.simps) (auto simp: rtrancl_eq_or_trancl)
qed

lemma chainFrom_exact:
  assumes "rooted parents"
  shows "\<exists>ks. (\<forall>acc. chainFrom parents (Some c) acc = Some (acc @ c # ks)) \<and> set ks = {a. (a, c) \<in> (encloses parents)\<^sup>+}
    \<and> distinct (c # ks)"
  using assms
proof (induction c rule: rooted_induct)
  case (root k)
  have "chainFrom parents (Some k) acc = Some (acc @ [k])" for acc
    using root by (simp add: chainFrom.simps [of _ "Some k"] chainFrom.simps [of _ None])
  then show ?case using no_parent [of parents k, OF root] by (intro exI [of _ "[]"]) auto
next
  case (child k p)
  then obtain ks where ks: "\<forall>acc. chainFrom parents (Some p) acc = Some (acc @ p # ks)"
    "set ks = {a. (a, p) \<in> (encloses parents)\<^sup>+}" "distinct (p # ks)" by blast
  have "chainFrom parents (Some k) acc = Some (acc @ k # p # ks)" for acc
    using child(1) ks(1) by (subst chainFrom.simps) simp
  moreover have up: "set (p # ks) = {a. (a, k) \<in> (encloses parents)\<^sup>+}"
    using ks(2) trancl_parent [of parents k p, OF child(1)] by (auto simp: rtrancl_eq_or_trancl)
  moreover have "k \<notin> set (p # ks)"
    using up wf_not_refl [OF wf_trancl, of "encloses parents" k] assms by (auto simp: rooted_def)
  ultimately show ?case using ks(3) by (intro exI [of _ "p # ks"]) simp
qed

lemma chainKeys_Some:
  assumes "rooted parents"
  shows "\<exists>ks. scopeChainOf parents (Some c) = Some (c # ks) \<and> chainKeys parents (Some c) = c # ks \<and> distinct (c # ks)
    \<and> set ks = {a. (a, c) \<in> (encloses parents)\<^sup>+}"
  using chainFrom_exact [OF assms, of c] by (auto simp: scopeChainOf_def chainKeys_def)

lemma chainKeys_None [simp]: "chainKeys parents None = []" "scopeChainOf parents None = Some []"
  by (simp_all add: chainKeys_def scopeChainOf_def chainFrom.simps)

lemma linkScopeParent_exact:
  assumes "rooted parents"
  shows "linkScopeParent parents key parent =
    Some (if (key, parent) \<in> (encloses parents)\<^sup>* then Inl WouldCycle else Inr (parents(key \<mapsto> parent)))"
  by (simp add: linkScopeParent_def cursorMeets_exact [OF assms])

lemma linked_rooted:
  assumes "rooted parents" "(key, parent) \<notin> (encloses parents)\<^sup>*"
  shows "rooted (parents(key \<mapsto> parent))"
proof -
  have "wf (insert (parent, key) (encloses parents))"
    using assms by (simp add: rooted_def)
  then show ?thesis unfolding rooted_def by (rule wf_subset) (auto split: if_splits)
qed

text \<open>A sequence of binds and of rebinds by their owners; a refused call throws and changes nothing.\<close>

datatype scope_link = BindParent scope_key scope_key | RebindParent scope_key scope_key

fun applyLink :: "scope_link \<Rightarrow> scope_parents \<Rightarrow> (scope_error + scope_parents) option" where
  "applyLink (BindParent key parent) parents = bindScopeParent parents key parent"
| "applyLink (RebindParent key parent) parents = linkScopeParent parents key parent"

fun applyLinks :: "scope_link list \<Rightarrow> scope_parents \<Rightarrow> scope_parents option" where
  "applyLinks [] parents = Some parents"
| "applyLinks (l # ls) parents =
     (case applyLink l parents of
        None \<Rightarrow> None
      | Some (Inl _) \<Rightarrow> applyLinks ls parents
      | Some (Inr parents') \<Rightarrow> applyLinks ls parents')"

lemma applyLink_rooted:
  assumes "rooted parents"
  shows "\<exists>r. applyLink l parents = Some r \<and> (\<forall>parents'. r = Inr parents' \<longrightarrow> rooted parents')"
  by (cases l) (auto simp: bindScopeParent_def linkScopeParent_exact [OF assms] linked_rooted [OF assms])

lemma applyLinks_rooted: "rooted parents \<Longrightarrow> \<exists>parents'. applyLinks ls parents = Some parents' \<and> rooted parents'"
proof (induction ls arbitrary: parents)
  case Nil
  then show ?case by simp
next
  case (Cons l ls)
  obtain r where r: "applyLink l parents = Some r" "\<forall>parents'. r = Inr parents' \<longrightarrow> rooted parents'"
    using applyLink_rooted [OF Cons.prems] by blast
  then show ?case using Cons.IH Cons.prems by (cases r) auto
qed

section \<open>Entry tables\<close>

definition insertNamed :: "string \<Rightarrow> 'v \<Rightarrow> (string \<times> 'v) list \<Rightarrow> (string \<times> 'v) list option" where
  "insertNamed name v entries = (if name \<in> fst ` set entries then None else Some (entries @ [(name, v)]))"

definition deleteEntry :: "'k \<Rightarrow> ('k \<times> 'v) list \<Rightarrow> ('k \<times> 'v) list" where
  "deleteEntry k entries = filter (\<lambda>(k', _). k' \<noteq> k) entries"

definition appendEntry :: "nat \<Rightarrow> 'v \<Rightarrow> (nat \<times> 'v) list \<Rightarrow> (nat \<times> 'v) list" where
  "appendEntry symbol v entries = entries @ [(symbol, v)]"

lemma delete_fresh: "k \<notin> fst ` set entries \<Longrightarrow> deleteEntry k (entries @ [(k, v)]) = entries"
  by (force simp: deleteEntry_def filter_id_conv)

lemma delete_insert: "insertNamed name v entries = Some entries' \<Longrightarrow> deleteEntry name entries' = entries"
  by (auto simp: insertNamed_def delete_fresh split: if_splits)

section \<open>Layers\<close>

record 'l scoped_layers =
  sl_global :: 'l
  sl_scoped :: "scope_key \<rightharpoonup> 'l"

definition peekLayer :: "'l scoped_layers \<Rightarrow> scope_key option \<Rightarrow> 'l option" where
  "peekLayer sl scope = (case scope of None \<Rightarrow> None | Some s \<Rightarrow> sl_scoped sl s)"

definition chainLayers :: "scope_parents \<Rightarrow> 'l scoped_layers \<Rightarrow> scope_key option \<Rightarrow> 'l list" where
  "chainLayers parents sl scope = List.map_filter (sl_scoped sl) (rev (chainKeys parents scope))"

text \<open>\<open>Map.set\<close> keeps the position of a name it overwrites, which is what \<open>map_set\<close> does.\<close>

definition setAll :: "(string \<times> 'v) list \<Rightarrow> (string \<times> 'v) list \<Rightarrow> (string \<times> 'v) list" where
  "setAll entries m = fold (\<lambda>(name, v). map_set name v) entries m"

lemma map_of_setAll: "distinct (map fst entries) \<Longrightarrow> map_of (setAll entries m) = map_of m ++ map_of entries"
proof (induction entries arbitrary: m)
  case Nil
  then show ?case by (simp add: setAll_def)
next
  case (Cons e entries)
  obtain n v where e: "e = (n, v)" by (cases e)
  have "map_of (setAll (e # entries) m) = (map_of m)(n \<mapsto> v) ++ map_of entries"
    using Cons by (simp add: setAll_def e)
  also have "\<dots> = map_of m ++ map_of (e # entries)"
    using Cons.prems map_of_eq_None_iff [of entries n] by (auto simp: e map_add_def fun_eq_iff split: option.split)
  finally show ?case .
qed

definition mergeLayers :: "scope_parents \<Rightarrow> 'l scoped_layers \<Rightarrow> scope_key option \<Rightarrow> ('l \<Rightarrow> (string \<times> 'v) list) \<Rightarrow> (string \<times> 'v) list" where
  "mergeLayers parents sl scope pick =
     fold (\<lambda>layer. setAll (pick layer)) (chainLayers parents sl scope) (pick (sl_global sl))"

definition layerEffect ::
    "('l \<Rightarrow> bool) \<Rightarrow> 'l \<Rightarrow> scope_key option \<Rightarrow> ('l \<Rightarrow> 'e + 'l) \<Rightarrow> 'l scoped_layers \<Rightarrow> 'l scoped_layers \<times> ('e + unit)" where
  "layerEffect isEmpty createLayer scope act sl =
     (case scope of
        None \<Rightarrow>
          (case act (sl_global sl) of
             Inl e \<Rightarrow> (sl, Inl e)
           | Inr layer \<Rightarrow> (sl\<lparr>sl_global := layer\<rparr>, Inr ()))
      | Some s \<Rightarrow>
          let created = (sl_scoped sl s = None);
              layer = (case sl_scoped sl s of Some existing \<Rightarrow> existing | None \<Rightarrow> createLayer);
              sl1 = sl\<lparr>sl_scoped := (sl_scoped sl)(s \<mapsto> layer)\<rparr> in
          (case act layer of
             Inl e \<Rightarrow>
               (if created \<and> isEmpty layer then sl1\<lparr>sl_scoped := (sl_scoped sl1)(s := None)\<rparr> else sl1, Inl e)
           | Inr layer' \<Rightarrow> (sl1\<lparr>sl_scoped := (sl_scoped sl1)(s \<mapsto> layer')\<rparr>, Inr ())))"

definition layerDispose ::
    "('l \<Rightarrow> bool) \<Rightarrow> scope_key option \<Rightarrow> ('l \<Rightarrow> 'l) \<Rightarrow> 'l scoped_layers \<Rightarrow> 'l scoped_layers" where
  "layerDispose isEmpty scope undo sl =
     (case scope of
        None \<Rightarrow> sl\<lparr>sl_global := undo (sl_global sl)\<rparr>
      | Some s \<Rightarrow>
          (case sl_scoped sl s of
             None \<Rightarrow> sl
           | Some layer \<Rightarrow>
               sl\<lparr>sl_scoped := (sl_scoped sl)(s := if isEmpty (undo layer) then None else Some (undo layer))\<rparr>))"

text \<open>
  The contract of a layer. A scope without a layer reads as an empty one, so the layers that come and go are
  invisible: every operation acts on the one layer it names, and disposing takes exactly its own entry back.
\<close>

locale scope_layer =
  fixes isEmpty :: "'l \<Rightarrow> bool" and createLayer :: 'l
  assumes empty_iff: "isEmpty layer \<longleftrightarrow> layer = createLayer"
begin

definition layerAt :: "'l scoped_layers \<Rightarrow> scope_key option \<Rightarrow> 'l" where
  "layerAt sl scope = (case scope of None \<Rightarrow> sl_global sl | Some s \<Rightarrow> (case sl_scoped sl s of Some l \<Rightarrow> l | None \<Rightarrow> createLayer))"

definition tidy :: "'l scoped_layers \<Rightarrow> bool" where
  "tidy sl \<longleftrightarrow> (\<forall>s layer. sl_scoped sl s = Some layer \<longrightarrow> \<not> isEmpty layer)"

lemma tidy_start: "tidy \<lparr>sl_global = g, sl_scoped = Map.empty\<rparr>"
  by (simp add: tidy_def)

lemma layers_eqI:
  assumes "tidy sl" "tidy sl'" "\<And>scope. layerAt sl scope = layerAt sl' scope"
  shows "sl = sl'"
proof -
  have "sl_scoped sl s = sl_scoped sl' s" for s
    using assms(1,2) assms(3) [of "Some s"]
    by (auto simp: layerAt_def tidy_def empty_iff split: option.splits)
  then show ?thesis using assms(3) [of None] by (cases sl; cases sl') (auto simp: layerAt_def)
qed

lemma effect_fails:
  assumes "tidy sl" "layerEffect isEmpty createLayer scope act sl = (sl', Inl e)"
  shows "sl' = sl \<and> act (layerAt sl scope) = Inl e"
  using assms
  by (cases sl) (auto simp: layerEffect_def layerAt_def Let_def empty_iff fun_upd_idem split: option.splits sum.splits if_splits)

lemma effect_acts:
  assumes "tidy sl" "layerEffect isEmpty createLayer scope act sl = (sl', Inr u)"
  shows "\<exists>layer. act (layerAt sl scope) = Inr layer \<and> layerAt sl' = (layerAt sl)(scope := layer)
    \<and> (scope = None \<or> \<not> isEmpty layer \<longrightarrow> tidy sl')"
  using assms
  by (fastforce simp: layerEffect_def layerAt_def tidy_def Let_def fun_eq_iff split: option.splits sum.splits if_splits)

lemma dispose_undoes:
  assumes "tidy sl" "undo createLayer = createLayer"
  shows "layerAt (layerDispose isEmpty scope undo sl) = (layerAt sl)(scope := undo (layerAt sl scope))
    \<and> tidy (layerDispose isEmpty scope undo sl)"
  using assms
  by (auto simp: layerDispose_def layerAt_def tidy_def empty_iff fun_eq_iff split: option.splits if_splits)

lemma effect_dispose:
  assumes "tidy sl" "layerEffect isEmpty createLayer scope act sl = (sl', Inr u)" "scope = None \<or> \<not> isEmpty (layerAt sl' scope)"
    "undo createLayer = createLayer" "\<And>layer. act (layerAt sl scope) = Inr layer \<Longrightarrow> undo layer = layerAt sl scope"
  shows "layerDispose isEmpty scope undo sl' = sl"
proof (rule layers_eqI)
  obtain layer where l: "act (layerAt sl scope) = Inr layer" "layerAt sl' = (layerAt sl)(scope := layer)" "tidy sl'"
    using effect_acts [OF assms(1,2)] assms(3) by auto
  show "tidy (layerDispose isEmpty scope undo sl')" using dispose_undoes [where undo = undo and scope = scope, OF l(3) assms(4)] by blast
  show "layerAt (layerDispose isEmpty scope undo sl') s = layerAt sl s" for s
    using dispose_undoes [where undo = undo and scope = scope, OF l(3) assms(4)] l(2) assms(5) [OF l(1)] by auto
qed (rule assms(1))

lemma chainLayers_read:
  assumes "tidy sl"
  shows "chainLayers parents sl scope = filter (\<lambda>layer. \<not> isEmpty layer) (map (\<lambda>s. layerAt sl (Some s)) (rev (chainKeys parents scope)))"
proof -
  have "List.map_filter (sl_scoped sl) ks = filter (\<lambda>layer. \<not> isEmpty layer) (map (\<lambda>s. layerAt sl (Some s)) ks)" for ks
    using assms by (induction ks) (auto simp: List.map_filter_def layerAt_def tidy_def empty_iff split: option.splits)
  then show ?thesis by (simp add: chainLayers_def)
qed

end

section \<open>Properties\<close>


end
