(* ===== verification/Snapshot_Heap.thy ===== *)
theory Snapshot_Heap
  imports Json_Walk
begin

text \<open>
  The heap that \<open>snapshotJsonValue\<close> leaves is well formed, so that what it returns can be validated, rendered
  and snapshotted again.
\<close>

section \<open>An invariant of the walk\<close>

text \<open>Every value on the stack and every reference of the heap stays known while targets are filled.\<close>

fun dest_ok :: "heap \<Rightarrow> dest option \<Rightarrow> bool" where
  "dest_ok h (Some (DIndex a i)) \<longleftrightarrow> a < length h"
| "dest_ok h (Some (DKey a k)) \<longleftrightarrow> a < length h"
| "dest_ok h _ \<longleftrightarrow> True"

fun task_ok :: "heap \<Rightarrow> task \<Rightarrow> bool" where
  "task_ok h (Visit v d) \<longleftrightarrow> known h v \<and> dest_ok h d"
| "task_ok h (ArrayItem a i target) \<longleftrightarrow>
     a < length h \<and> (\<exists>p items extra. h ! a = HArr p items extra \<and> i < length items) \<and> (\<forall>t. target = Some t \<longrightarrow> t < length h)"
| "task_ok h (ObjectProperty a k target) \<longleftrightarrow> a < length h \<and> (\<forall>t. target = Some t \<longrightarrow> t < length h)"
| "task_ok h (Leave a) \<longleftrightarrow> True"

definition walk_ok :: "walk \<Rightarrow> bool" where
  "walk_ok w \<longleftrightarrow> wf_heap (wk_heap w) \<and> (\<forall>t \<in> set (wk_tasks w). task_ok (wk_heap w) t)
     \<and> (\<forall>v. wk_root w = Some v \<longrightarrow> known (wk_heap w) v)"

definition extends :: "heap \<Rightarrow> heap \<Rightarrow> bool" where
  "extends h h' \<longleftrightarrow> length h \<le> length h' \<and> (\<forall>a < length h. \<forall>p items extra. h ! a = HArr p items extra \<longrightarrow>
     (\<exists>items'. h' ! a = HArr p items' extra \<and> length items \<le> length items'))"

lemma extends_refl [simp]: "extends h h"
  by (simp add: extends_def)

lemma extends_trans: "extends h h' \<Longrightarrow> extends h' h'' \<Longrightarrow> extends h h''"
  unfolding extends_def by (meson le_trans less_le_trans)

lemma known_mono: "known h v \<Longrightarrow> length h \<le> length h' \<Longrightarrow> known h' v"
  by (cases v) auto

lemma dest_ok_mono: "dest_ok h d \<Longrightarrow> length h \<le> length h' \<Longrightarrow> dest_ok h' d"
  by (cases "(h, d)" rule: dest_ok.cases) auto

lemma wf_obj_mono: "wf_obj h obj \<Longrightarrow> length h \<le> length h' \<Longrightarrow> wf_obj h' obj"
  by (cases obj) (auto intro: known_mono)

lemma task_ok_mono: "task_ok h t \<Longrightarrow> extends h h' \<Longrightarrow> task_ok h' t"
  by (cases t) (fastforce simp: extends_def intro: known_mono dest_ok_mono)+

lemma walk_ok_heap:
  assumes "walk_ok w" "wf_heap h" "extends (wk_heap w) h"
  shows "walk_ok (w\<lparr>wk_heap := h\<rparr>)"
  using assms task_ok_mono known_mono [of "wk_heap w" _ h] by (auto simp: walk_ok_def extends_def)

lemma wf_heap_update: "wf_heap h \<Longrightarrow> wf_obj h obj \<Longrightarrow> wf_heap (h[a := obj])"
  unfolding wf_heap_def using set_update_subset_insert [of h a obj]
  by (auto intro: wf_obj_mono [of h] dest!: subsetD)

lemma wf_heap_append: "wf_heap h \<Longrightarrow> wf_obj h obj \<Longrightarrow> wf_heap (h @ [obj])"
  by (auto simp: wf_heap_def intro: wf_obj_mono [of h])

lemma distinct_strings_map_set:
  "distinct (filter (\<lambda>k. k \<noteq> None) (map fst m)) \<Longrightarrow> distinct (filter (\<lambda>k. k \<noteq> None) (map fst (map_set (Some k) v m)))"
proof (induction m)
  case (Cons e m)
  obtain k' v' where e: "e = (k', v')" by (cases e)
  show ?case using Cons by (simp add: e split: if_splits) blast
qed simp

lemma assign_ok:
  assumes "walk_ok w" "known (wk_heap w) v" "dest_ok (wk_heap w) d"
  shows "walk_ok (assign d v w) \<and> extends (wk_heap w) (wk_heap (assign d v w))"
proof (cases "(wk_heap w, d)" rule: dest_ok.cases)
  case (1 h a i)
  then have a: "a < length (wk_heap w)" using assms(3) by simp
  then have obj: "wf_obj (wk_heap w) (wk_heap w ! a)" using assms(1) by (simp add: walk_ok_def wf_heap_def)
  show ?thesis
  proof (cases "wk_heap w ! a")
    case (HArr p items extra)
    have "wf_obj (wk_heap w) (HArr p (storeItem i v items) extra)"
      using obj HArr assms(2) by (auto simp: storeItem_def dest!: set_update_subset_insert [THEN subsetD])
    moreover have "extends (wk_heap w) ((wk_heap w)[a := HArr p (storeItem i v items) extra])"
      using a HArr by (auto simp: extends_def nth_list_update storeItem_def)
    ultimately show ?thesis
      using assms(1) 1 HArr walk_ok_heap [OF assms(1) wf_heap_update] by (simp add: assign_def walk_ok_def)
  qed (use assms 1 in \<open>simp add: assign_def\<close>)
next
  case (2 h a k)
  then have a: "a < length (wk_heap w)" using assms(3) by simp
  then have obj: "wf_obj (wk_heap w) (wk_heap w ! a)" using assms(1) by (simp add: walk_ok_def wf_heap_def)
  show ?thesis
  proof (cases "wk_heap w ! a")
    case (HObj p props)
    have sub: "\<forall>x \<in> set (map_set (Some k) (True, v) props). x = (Some k, True, v) \<or> x \<in> set props"
      using set_map_set_subset [of "Some k" "(True, v)" props] by blast
    have "wf_obj (wk_heap w) (HObj p (map_set (Some k) (True, v) props))"
      using obj HObj assms(2) distinct_strings_map_set [of props k "(True, v)"] sub by fastforce
    moreover have "extends (wk_heap w) ((wk_heap w)[a := HObj p (map_set (Some k) (True, v) props)])"
      using a HObj by (auto simp: extends_def nth_list_update)
    ultimately show ?thesis
      using assms(1) 2 HObj walk_ok_heap [OF assms(1) wf_heap_update] by (simp add: assign_def walk_ok_def)
  qed (use assms 2 in \<open>simp add: assign_def\<close>)
qed (use assms in \<open>simp_all add: assign_def walk_ok_def\<close>)

lemma itemTasks_mem: "t \<in> set (itemTasks a i n target) \<Longrightarrow> \<exists>k < i + n. t = ArrayItem a k target"
  by (induction n arbitrary: i) fastforce+

lemma allocate_ok:
  assumes "walk_ok w" "dest_ok (wk_heap w) d" "wf_obj (wk_heap w) obj" "allocate detach obj d w = (w', target)"
  shows "walk_ok w' \<and> extends (wk_heap w) (wk_heap w') \<and> (\<forall>t. target = Some t \<longrightarrow> t < length (wk_heap w'))"
proof -
  let ?w = "w\<lparr>wk_heap := wk_heap w @ [obj]\<rparr>"
  have grown: "extends (wk_heap w) (wk_heap w @ [obj])" by (simp add: extends_def nth_append)
  then have "walk_ok ?w"
    using assms(1,3) by (intro walk_ok_heap) (auto simp: walk_ok_def wf_heap_append)
  then have "walk_ok (assign d (VRef (length (wk_heap w))) ?w)
      \<and> extends (wk_heap ?w) (wk_heap (assign d (VRef (length (wk_heap w))) ?w))"
    by (intro assign_ok) (auto intro: dest_ok_mono [OF assms(2)])
  with assms(1,4) grown show ?thesis
    by (auto simp: allocate_def Let_def split: if_splits intro: extends_trans) (simp add: extends_def)
qed

lemma walkTask_ok:
  assumes "walk_ok (w\<lparr>wk_tasks := t # ts\<rparr>)" "walkTask detach t (w\<lparr>wk_tasks := ts\<rparr>) = Some w'"
  shows "walk_ok w'"
proof -
  let ?w = "w\<lparr>wk_tasks := ts\<rparr>"
  have w: "walk_ok ?w" and t: "task_ok (wk_heap w) t" using assms(1) by (simp_all add: walk_ok_def)
  show ?thesis
  proof (cases t)
    case (Leave a)
    with assms(2) w show ?thesis by (auto simp: walk_ok_def)
  next
    case (ArrayItem a i target)
    then obtain p items extra where a: "wk_heap w ! a = HArr p items extra" "i < length items" "a < length (wk_heap w)"
      "\<forall>t. target = Some t \<longrightarrow> t < length (wk_heap w)" using t by auto
    then have "wf_obj (wk_heap w) (HArr p items extra)"
      using w by (metis nth_mem walk_ok_def wf_heap_def walk.select_convs(1) walk.update_convs(2) walk.surjective)
    then have "\<forall>v. items ! i = Some v \<longrightarrow> known (wk_heap w) v" using a(2) nth_mem by force
    moreover have "dest_ok (wk_heap w) (map_option (\<lambda>t. DIndex t i) target)" using a(4) by (cases target) auto
    ultimately show ?thesis using ArrayItem assms(2) w a(1) by (auto simp: walk_ok_def split: option.splits)
  next
    case (ObjectProperty a k target)
    then have a: "a < length (wk_heap w)" "\<forall>t. target = Some t \<longrightarrow> t < length (wk_heap w)" using t by auto
    then have obj: "wf_obj (wk_heap w) (wk_heap w ! a)" using w by (simp add: walk_ok_def wf_heap_def)
    have "dest_ok (wk_heap w) (map_option (\<lambda>t. DKey t k) target)" using a(2) by (cases target) auto
    moreover have "known (wk_heap w) (case map_of props (Some k) of Some (_, v) \<Rightarrow> v | None \<Rightarrow> VUndefined)"
      if "wk_heap w ! a = HObj p props" for p props
      using obj that by (auto split: option.splits dest!: map_of_SomeD)
    ultimately show ?thesis using ObjectProperty assms(2) w by (auto simp: walk_ok_def Let_def split: hobj.splits)
  next
    case (Visit v d)
    then have v: "known (wk_heap w) v" "dest_ok (wk_heap w) d" using t by auto
    have array: "walk_ok w'" if vis: "visitArray detach a p items extra d ?w = Some w'" "v = VRef a" "wk_heap w ! a = HArr p items extra" for a p items extra
    proof -
      obtain w1 target where w1: "allocate detach (HArr arrayProto [] 0) d ?w = (w1, target)" by fastforce
      with allocate_ok [OF w, of d "HArr arrayProto [] 0"] v(2)
      have 1: "walk_ok w1" "extends (wk_heap w) (wk_heap w1)" "\<forall>t. target = Some t \<longrightarrow> t < length (wk_heap w1)" by auto
      then obtain items' where "wk_heap w1 ! a = HArr p items' extra" "length items \<le> length items'" "a < length (wk_heap w1)"
        using v(1) vis(2,3) unfolding extends_def by (metis known.simps(1) less_le_trans)
      then have "task_ok (wk_heap w1) t" if "t \<in> set (itemTasks a 0 (length items) target)" for t
        using itemTasks_mem [OF that] 1(3) by auto
      with 1(1) vis(1) w1 show ?thesis by (auto simp: visitArray_def walk_ok_def split: if_splits)
    qed
    have object: "walk_ok w'" if "visitObject detach a p props d ?w = Some w'" "v = VRef a" for a p props
    proof -
      obtain w1 target where w1: "allocate detach (HObj objectProto []) d ?w = (w1, target)" by fastforce
      with allocate_ok [OF w, of d "HObj objectProto []"] v(2)
      have "walk_ok w1" "extends (wk_heap w) (wk_heap w1)" "\<forall>t. target = Some t \<longrightarrow> t < length (wk_heap w1)" by auto
      with v(1) that w1 show ?thesis
        by (auto simp: visitObject_def walk_ok_def propertyTasks_def extends_def split: if_splits option.splits)
    qed
    show ?thesis using assms(2) Visit v assign_ok [OF w, of v d] array object
      by (auto split: jsval.splits if_splits hobj.splits)
  qed
qed

lemma walkLoop_ok:
  assumes "walkLoop detach w = Some (Some w')" "walk_ok w"
  shows "walk_ok w'"
proof -
  have "walk_ok w \<longrightarrow> (\<forall>w'. r = Some w' \<longrightarrow> walk_ok w')" if "walkLoop detach w = Some r" for r
  proof (rule walkLoop.raw_induct [of "\<lambda>detach w r. walk_ok w \<longrightarrow> (\<forall>w'. r = Some w' \<longrightarrow> walk_ok w')", OF _ that],
      intro impI allI)
    fix loop :: "bool \<Rightarrow> walk \<Rightarrow> walk option option" and detach w r w'
    assume IH: "\<And>detach w r. loop detach w = Some r \<Longrightarrow> walk_ok w \<longrightarrow> (\<forall>w'. r = Some w' \<longrightarrow> walk_ok w')"
      and step: "(case wk_tasks w of [] \<Rightarrow> Some (Some w)
        | t # ts \<Rightarrow> (case walkTask detach t (w\<lparr>wk_tasks := ts\<rparr>) of None \<Rightarrow> Some None | Some w' \<Rightarrow> loop detach w')) = Some r"
      and w: "walk_ok w" and r: "r = Some w'"
    show "walk_ok w'"
    proof (cases "wk_tasks w")
      case Nil
      with step w r show ?thesis by simp
    next
      case (Cons t ts)
      with step r obtain w1 where w1: "walkTask detach t (w\<lparr>wk_tasks := ts\<rparr>) = Some w1" "loop detach w1 = Some r"
        by (auto split: option.splits)
      have "walk_ok w1" using walkTask_ok [where w = w and t = t and ts = ts and detach = detach and w' = w1] w Cons w1(1) by (cases w) simp
      with IH [OF w1(2)] r show ?thesis by blast
    qed
  qed
  with assms show ?thesis by blast
qed

lemma snapshot_wf:
  assumes "wf_heap h" "known h v" "snapshotJsonValue h v = Some (Some (w, h'))"
  shows "wf_heap h' \<and> known h' w"
proof -
  obtain wk where wk: "walkJsonValue h v True = Some (Some wk)" "wk_heap wk = h'" "wk_root wk = Some w"
    using assms(3) by (auto simp: snapshotJsonValue_def bind_eq_Some_conv)
  have "walk_ok wk"
    using wk(1) assms(1,2) unfolding walkJsonValue_def by (elim walkLoop_ok) (simp_all add: walk_ok_def)
  with wk(2,3) show ?thesis by (auto simp: walk_ok_def)
qed

end
