(* ===== verification/Tool_Registry.thy ===== *)
theory Tool_Registry
  imports Scope_Layers Schema_Check
begin

text \<open>
  The tool registry of \<open>core/tools/src/index.ts\<close>: what each scope registers, restricts, guards and presents, and
  the one view that feeds the model's tool list, lookup and dispatch.

  A definition carries its data; its callbacks are known by an identity, \<open>td_id\<close>, and are arguments of the
  definitions that call them. \<open>rg_transport\<close> is what \<open>createRunCodeTool\<close> returns and \<open>rg_language\<close> the language
  of the mounted code runtime. The notification \<open>tools/change\<close> and the prompt sections are not state.
\<close>

section \<open>Definitions and layers\<close>

type_synonym candidate = "heap \<times> jsval"

definition RUN_CODE_NAME :: string where
  "RUN_CODE_NAME = ''run_code''"

datatype presentation_mode = NativeMode | CodeMode | BothMode

datatype output_decl = MalformedOutput | OutputDecl (od_schema: json) (od_meta: bool)

record tool_definition =
  td_name :: string
  td_description :: string
  td_parameters :: candidate
  td_output :: output_decl
  td_timeoutMs :: "js_number option"
  td_id :: nat
  td_finalizer :: bool
  td_classifier :: bool

record tool_restriction =
  tr_allow :: "string list option"
  tr_deny :: "string list option"

record tool_layer =
  tl_tools :: "(string \<times> tool_definition) list"
  tl_restrictions :: "(nat \<times> tool_restriction) list"
  tl_guards :: "(nat \<times> nat) list"
  tl_mode :: "presentation_mode option"

definition newLayer :: tool_layer where
  "newLayer = \<lparr>tl_tools = [], tl_restrictions = [], tl_guards = [], tl_mode = None\<rparr>"

definition layerIsEmpty :: "tool_layer \<Rightarrow> bool" where
  "layerIsEmpty l \<longleftrightarrow> tl_tools l = [] \<and> tl_restrictions l = [] \<and> tl_guards l = [] \<and> tl_mode l = None"

interpretation tool_layers: scope_layer layerIsEmpty newLayer
  by unfold_locales (auto simp: layerIsEmpty_def newLayer_def intro: tool_layer.equality)

definition layerAdmits :: "tool_layer \<Rightarrow> string \<Rightarrow> bool" where
  "layerAdmits l name \<longleftrightarrow>
     list_all (\<lambda>(_, filter). \<not> (case tr_allow filter of Some names \<Rightarrow> name \<notin> set names | None \<Rightarrow> False)
       \<and> \<not> (case tr_deny filter of Some names \<Rightarrow> name \<in> set names | None \<Rightarrow> False)) (tl_restrictions l)"

fun firstReason :: "(nat \<Rightarrow> 'e + string option) \<Rightarrow> nat list \<Rightarrow> 'e + string option" where
  "firstReason guards [] = Inr None"
| "firstReason guards (g # gs) =
     bindE (guards g) (\<lambda>reason. case reason of Some r \<Rightarrow> Inr (Some r) | None \<Rightarrow> firstReason guards gs)"

definition layerGuardReason :: "(nat \<Rightarrow> 'e + string option) \<Rightarrow> tool_layer \<Rightarrow> 'e + string option" where
  "layerGuardReason guards l = firstReason guards (map snd (tl_guards l))"

section \<open>The registry\<close>

record registry =
  rg_layers :: "tool_layer scoped_layers"
  rg_parents :: scope_parents
  rg_default :: presentation_mode
  rg_transport :: tool_definition
  rg_language :: "string option"
  rg_symbols :: nat

datatype registry_error =
    MissingOutput string
  | UnsupportedOutput "schema_violation list"
  | BadTimeout string
  | ReservedName
  | DuplicateTool string
  | UnscopedRestriction
  | EmptyRestriction
  | ReservedRestriction
  | UnknownTools "string list"
  | UnscopedPresentation
  | PresentationConflict presentation_mode presentation_mode
  | NoCodeRuntime presentation_mode
  | NoSdkRenderer string
  | LossyParameters string

abbreviation layersOf :: "registry \<Rightarrow> scope_key option \<Rightarrow> tool_layer list" where
  "layersOf rg scope \<equiv> chainLayers (rg_parents rg) (rg_layers rg) scope"

definition modeFor :: "registry \<Rightarrow> scope_key option \<Rightarrow> presentation_mode" where
  "modeFor rg scope =
     (case find (\<lambda>l. tl_mode l \<noteq> None) (rev (layersOf rg scope)) of
        Some l \<Rightarrow> the (tl_mode l)
      | None \<Rightarrow> rg_default rg)"

record tool_view =
  tv_visible :: "(string \<times> tool_definition) list"
  tv_knownNames :: "string list"
  tv_restrictableNames :: "string list"

definition inheritedLayers :: "registry \<Rightarrow> scope_key option \<Rightarrow> tool_layer list" where
  "inheritedLayers rg scope =
     List.map_filter (\<lambda>k. if scope = Some k then None else sl_scoped (rg_layers rg) k) (rev (chainKeys (rg_parents rg) scope))"

definition inheritedTools :: "registry \<Rightarrow> scope_key option \<Rightarrow> (string \<times> tool_definition) list" where
  "inheritedTools rg scope =
     fold (\<lambda>l. setAll (tl_tools l)) (inheritedLayers rg scope) (tl_tools (sl_global (rg_layers rg)))"

definition addName :: "string \<Rightarrow> string list \<Rightarrow> string list" where
  "addName name names = (if name \<in> set names then names else names @ [name])"

definition registryView :: "registry \<Rightarrow> scope_key option \<Rightarrow> tool_view" where
  "registryView rg scope =
     (let layers = layersOf rg scope;
          own = (case peekLayer (rg_layers rg) scope of Some l \<Rightarrow> tl_tools l | None \<Rightarrow> []);
          inherited = inheritedTools rg scope;
          visible = filter (\<lambda>(name, _). list_all (\<lambda>l. layerAdmits l name) layers) inherited;
          visible' = setAll own visible in
      \<lparr>tv_visible = (if modeFor rg scope \<noteq> NativeMode then map_set RUN_CODE_NAME (rg_transport rg) visible' else visible'),
       tv_knownNames = fold addName (map fst own) (map fst inherited),
       tv_restrictableNames = map fst inherited\<rparr>)"

definition getTool :: "registry \<Rightarrow> string \<Rightarrow> scope_key option \<Rightarrow> tool_definition option" where
  "getTool rg name scope = map_of (tv_visible (registryView rg scope)) name"

definition collapses :: "registry \<Rightarrow> string \<Rightarrow> scope_key option \<Rightarrow> bool \<Rightarrow> bool" where
  "collapses rg name scope nested \<longleftrightarrow> \<not> nested \<and> modeFor rg scope = CodeMode \<and> name \<noteq> RUN_CODE_NAME"

definition resolveExecution :: "registry \<Rightarrow> string \<Rightarrow> scope_key option \<Rightarrow> bool \<Rightarrow> tool_definition option" where
  "resolveExecution rg name scope nested =
     (case getTool rg name scope of
        None \<Rightarrow> None
      | Some tool \<Rightarrow> if collapses rg name scope nested then None else Some tool)"

datatype execution_mode = Parallel | Exclusive

text \<open>The classifier answers \<open>None\<close> when it throws.\<close>

definition executionMode :: "(nat \<Rightarrow> bool option) \<Rightarrow> registry \<Rightarrow> string \<Rightarrow> scope_key option \<Rightarrow> bool \<Rightarrow> execution_mode" where
  "executionMode classify rg name scope nested =
     (case resolveExecution rg name scope nested of
        None \<Rightarrow> Exclusive
      | Some tool \<Rightarrow>
          if \<not> td_classifier tool then Exclusive
          else if classify (td_id tool) = Some True then Parallel else Exclusive)"

fun firstLayerReason :: "(nat \<Rightarrow> 'e + string option) \<Rightarrow> tool_layer list \<Rightarrow> 'e + string option" where
  "firstLayerReason guards [] = Inr None"
| "firstLayerReason guards (l # ls) =
     bindE (layerGuardReason guards l) (\<lambda>reason. case reason of Some r \<Rightarrow> Inr (Some r) | None \<Rightarrow> firstLayerReason guards ls)"

definition guardReason :: "(nat \<Rightarrow> 'e + string option) \<Rightarrow> registry \<Rightarrow> scope_key option \<Rightarrow> 'e + string option" where
  "guardReason guards rg agent =
     bindE (layerGuardReason guards (sl_global (rg_layers rg)))
       (\<lambda>reason. case reason of
          Some r \<Rightarrow> Inr (Some r)
        | None \<Rightarrow> if agent = None then Inr None else firstLayerReason guards (layersOf rg agent))"

section \<open>What the model is shown\<close>

record tool_schema =
  ts_name :: string
  ts_description :: string
  ts_parameters :: candidate

definition schemaOf :: "tool_definition \<Rightarrow> bool \<Rightarrow> registry_error + tool_schema" where
  "schemaOf d detach =
     (let detached =
        (if detach then
           (case snapshotJsonValue (fst (td_parameters d)) (snd (td_parameters d)) of
              Some (Some (v, h)) \<Rightarrow> Some (h, v)
            | _ \<Rightarrow> None)
         else if snd (td_parameters d) = VUndefined then None else Some (td_parameters d)) in
      case detached of
        None \<Rightarrow> Inl (LossyParameters (td_name d))
      | Some p \<Rightarrow> Inr \<lparr>ts_name = td_name d, ts_description = td_description d, ts_parameters = p\<rparr>)"

definition toolSchemas :: "registry \<Rightarrow> scope_key option \<Rightarrow> registry_error + tool_schema list" where
  "toolSchemas rg scope = mapE (\<lambda>(_, d). schemaOf d True) (tv_visible (registryView rg scope))"

definition SDK_RENDERERS :: "string list" where
  "SDK_RENDERERS = [''typescript'', ''python'']"

definition requireCodeRuntime :: "registry \<Rightarrow> presentation_mode \<Rightarrow> registry_error + string" where
  "requireCodeRuntime rg mode =
     (case rg_language rg of
        None \<Rightarrow> Inl (NoCodeRuntime mode)
      | Some language \<Rightarrow> if language \<notin> set SDK_RENDERERS then Inl (NoSdkRenderer language) else Inr language)"

definition wireSchemas :: "registry \<Rightarrow> scope_key option \<Rightarrow> registry_error + tool_schema list \<times> string list" where
  "wireSchemas rg scope =
     (let view = registryView rg scope;
          mode = modeFor rg scope;
          project = mapE (\<lambda>(_, d). schemaOf d False) (tv_visible view) in
      if mode = NativeMode then bindE project (\<lambda>schemas. Inr (schemas, tv_knownNames view))
      else bindE (requireCodeRuntime rg mode) (\<lambda>_. bindE project (\<lambda>schemas.
        if mode = CodeMode then Inr (filter (\<lambda>s. ts_name s = RUN_CODE_NAME) schemas, [RUN_CODE_NAME])
        else Inr (schemas, tv_knownNames view @ [RUN_CODE_NAME]))))"

section \<open>Registration\<close>

definition withLayers :: "tool_layer scoped_layers \<times> (registry_error + unit) \<Rightarrow> registry \<Rightarrow> registry \<times> (registry_error + unit)" where
  "withLayers r rg = (rg\<lparr>rg_layers := fst r, rg_symbols := rg_symbols rg + 1\<rparr>, snd r)"

abbreviation layerAct :: "scope_key option \<Rightarrow> (tool_layer \<Rightarrow> registry_error + tool_layer) \<Rightarrow> registry \<Rightarrow> registry \<times> (registry_error + unit)" where
  "layerAct scope act rg \<equiv> withLayers (layerEffect layerIsEmpty newLayer scope act (rg_layers rg)) rg"

abbreviation layerUndo :: "scope_key option \<Rightarrow> (tool_layer \<Rightarrow> tool_layer) \<Rightarrow> registry \<Rightarrow> registry" where
  "layerUndo scope undo rg \<equiv> rg\<lparr>rg_layers := layerDispose layerIsEmpty scope undo (rg_layers rg)\<rparr>"

fun positiveFinite :: "js_number \<Rightarrow> bool" where
  "positiveFinite (Fin x) \<longleftrightarrow> 0 < x"
| "positiveFinite _ \<longleftrightarrow> False"

definition registerTool :: "scope_key option \<Rightarrow> tool_definition \<Rightarrow> registry \<Rightarrow> registry \<times> (registry_error + unit)" where
  "registerTool scope d rg =
     (case td_output d of
        MalformedOutput \<Rightarrow> (rg, Inl (MissingOutput (td_name d)))
      | OutputDecl schema _ \<Rightarrow>
          (case assertSupportedJsonSchema schema of
             Inl vs \<Rightarrow> (rg, Inl (UnsupportedOutput vs))
           | Inr _ \<Rightarrow>
               if (case td_timeoutMs d of Some ms \<Rightarrow> \<not> positiveFinite ms | None \<Rightarrow> False)
               then (rg, Inl (BadTimeout (td_name d)))
               else if td_name d = RUN_CODE_NAME then (rg, Inl ReservedName)
               else layerAct scope
                 (\<lambda>l. case insertNamed (td_name d) d (tl_tools l) of
                    None \<Rightarrow> Inl (DuplicateTool (td_name d))
                  | Some tools \<Rightarrow> Inr (l\<lparr>tl_tools := tools\<rparr>)) rg))"

definition unregisterTool :: "scope_key option \<Rightarrow> string \<Rightarrow> registry \<Rightarrow> registry" where
  "unregisterTool scope name rg = layerUndo scope (\<lambda>l. l\<lparr>tl_tools := deleteEntry name (tl_tools l)\<rparr>) rg"

definition restrictTools :: "scope_key option \<Rightarrow> tool_restriction \<Rightarrow> registry \<Rightarrow> registry \<times> (registry_error + unit)" where
  "restrictTools scope filt rg =
     (let names = (case tr_allow filt of Some ns \<Rightarrow> ns | None \<Rightarrow> []) @ (case tr_deny filt of Some ns \<Rightarrow> ns | None \<Rightarrow> []);
          known = tv_restrictableNames (registryView rg scope);
          unknown = filter (\<lambda>n. n \<notin> set known) names in
      if scope = None then (rg, Inl UnscopedRestriction)
      else if tr_allow filt = None \<and> tr_deny filt = None then (rg, Inl EmptyRestriction)
      else if RUN_CODE_NAME \<in> set names then (rg, Inl ReservedRestriction)
      else if unknown \<noteq> [] then (rg, Inl (UnknownTools unknown))
      else layerAct scope
        (\<lambda>l. Inr (l\<lparr>tl_restrictions := appendEntry (rg_symbols rg) filt (tl_restrictions l)\<rparr>)) rg)"

definition liftRestriction :: "scope_key option \<Rightarrow> nat \<Rightarrow> registry \<Rightarrow> registry" where
  "liftRestriction scope symbol rg = layerUndo scope (\<lambda>l. l\<lparr>tl_restrictions := deleteEntry symbol (tl_restrictions l)\<rparr>) rg"

definition guardTools :: "scope_key option \<Rightarrow> nat \<Rightarrow> registry \<Rightarrow> registry \<times> (registry_error + unit)" where
  "guardTools scope guard rg =
     layerAct scope (\<lambda>l. Inr (l\<lparr>tl_guards := appendEntry (rg_symbols rg) guard (tl_guards l)\<rparr>)) rg"

definition removeGuard :: "scope_key option \<Rightarrow> nat \<Rightarrow> registry \<Rightarrow> registry" where
  "removeGuard scope symbol rg = layerUndo scope (\<lambda>l. l\<lparr>tl_guards := deleteEntry symbol (tl_guards l)\<rparr>) rg"

definition presentAs :: "scope_key option \<Rightarrow> presentation_mode \<Rightarrow> registry \<Rightarrow> registry \<times> (registry_error + unit)" where
  "presentAs scope mode rg =
     (if scope = None then (rg, Inl UnscopedPresentation)
      else layerAct scope
        (\<lambda>l. case tl_mode l of
           Some declared \<Rightarrow> Inl (PresentationConflict mode declared)
         | None \<Rightarrow> Inr (l\<lparr>tl_mode := Some mode\<rparr>)) rg)"

definition withdrawPresentation :: "scope_key option \<Rightarrow> registry \<Rightarrow> registry" where
  "withdrawPresentation scope rg = layerUndo scope (\<lambda>l. l\<lparr>tl_mode := None\<rparr>) rg"

text \<open>Everything that can happen to a registry; a call that throws leaves the registry as the call left it.\<close>

datatype registry_action =
    Register "scope_key option" tool_definition
  | Unregister "scope_key option" string
  | Restrict "scope_key option" tool_restriction
  | LiftRestriction "scope_key option" nat
  | Guard "scope_key option" nat
  | RemoveGuard "scope_key option" nat
  | PresentAs "scope_key option" presentation_mode
  | WithdrawPresentation "scope_key option"
  | LinkScope scope_link
  | MountRuntime "string option"

fun applyAction :: "registry_action \<Rightarrow> registry \<Rightarrow> registry" where
  "applyAction (Register scope d) rg = fst (registerTool scope d rg)"
| "applyAction (Unregister scope name) rg = unregisterTool scope name rg"
| "applyAction (Restrict scope filt) rg = fst (restrictTools scope filt rg)"
| "applyAction (LiftRestriction scope symbol) rg = liftRestriction scope symbol rg"
| "applyAction (Guard scope g) rg = fst (guardTools scope g rg)"
| "applyAction (RemoveGuard scope symbol) rg = removeGuard scope symbol rg"
| "applyAction (PresentAs scope mode) rg = fst (presentAs scope mode rg)"
| "applyAction (WithdrawPresentation scope) rg = withdrawPresentation scope rg"
| "applyAction (LinkScope l) rg =
     (case applyLink l (rg_parents rg) of Some (Inr parents) \<Rightarrow> rg\<lparr>rg_parents := parents\<rparr> | _ \<Rightarrow> rg)"
| "applyAction (MountRuntime language) rg = rg\<lparr>rg_language := language\<rparr>"

definition newRegistry :: "presentation_mode \<Rightarrow> tool_definition \<Rightarrow> registry" where
  "newRegistry mode transport =
     \<lparr>rg_layers = \<lparr>sl_global = newLayer, sl_scoped = Map.empty\<rparr>, rg_parents = Map.empty, rg_default = mode,
      rg_transport = transport, rg_language = None, rg_symbols = 0\<rparr>"

section \<open>The registry invariant\<close>

abbreviation layerAt :: "registry \<Rightarrow> scope_key option \<Rightarrow> tool_layer" where
  "layerAt rg scope \<equiv> tool_layers.layerAt (rg_layers rg) scope"

definition supportedOutput :: "tool_definition \<Rightarrow> bool" where
  "supportedOutput d \<longleftrightarrow> (\<exists>schema meta. td_output d = OutputDecl schema meta \<and> assertSupportedJsonSchema schema = Inr ())"

definition registrable :: "string \<Rightarrow> tool_definition \<Rightarrow> bool" where
  "registrable name d \<longleftrightarrow> td_name d = name \<and> name \<noteq> RUN_CODE_NAME \<and> supportedOutput d"

definition symbols_ok :: "nat \<Rightarrow> (nat \<times> 'v) list \<Rightarrow> bool" where
  "symbols_ok n entries \<longleftrightarrow> distinct (map fst entries) \<and> (\<forall>k \<in> set (map fst entries). k < n)"

definition layer_ok :: "nat \<Rightarrow> tool_layer \<Rightarrow> bool" where
  "layer_ok n l \<longleftrightarrow> distinct (map fst (tl_tools l)) \<and> (\<forall>(name, d) \<in> set (tl_tools l). registrable name d)
     \<and> symbols_ok n (tl_restrictions l) \<and> symbols_ok n (tl_guards l)"

definition registry_ok :: "registry \<Rightarrow> bool" where
  "registry_ok rg \<longleftrightarrow> rooted (rg_parents rg) \<and> tool_layers.tidy (rg_layers rg) \<and> (\<forall>scope. layer_ok (rg_symbols rg) (layerAt rg scope))
     \<and> td_name (rg_transport rg) = RUN_CODE_NAME \<and> supportedOutput (rg_transport rg)"

lemma symbols_mono: "symbols_ok n es \<Longrightarrow> n \<le> m \<Longrightarrow> symbols_ok m es"
  by (force simp: symbols_ok_def)

lemma symbols_Suc: "symbols_ok n es \<Longrightarrow> symbols_ok (Suc n) es"
  by (erule symbols_mono) simp

lemma layer_ok_mono: "layer_ok n l \<Longrightarrow> n \<le> m \<Longrightarrow> layer_ok m l"
  by (auto simp: layer_ok_def intro: symbols_mono)

lemma layer_ok_new [simp]: "layer_ok n newLayer"
  by (simp add: layer_ok_def newLayer_def symbols_ok_def)

lemma symbols_delete: "symbols_ok n es \<Longrightarrow> symbols_ok n (deleteEntry k es)"
  by (auto simp: symbols_ok_def deleteEntry_def distinct_map_filter)

lemma symbols_append: "symbols_ok n es \<Longrightarrow> symbols_ok (Suc n) (appendEntry n v es)"
  by (force simp: symbols_ok_def appendEntry_def)

lemma layerAct_ok:
  assumes "registry_ok rg"
    and "\<And>l l'. layer_ok (rg_symbols rg) l \<Longrightarrow> act l = Inr l' \<Longrightarrow> layer_ok (Suc (rg_symbols rg)) l' \<and> \<not> layerIsEmpty l'"
  shows "registry_ok (fst (layerAct scope act rg))"
proof -
  have t: "tool_layers.tidy (rg_layers rg)" using assms(1) by (simp add: registry_ok_def)
  obtain sl r where e: "layerEffect layerIsEmpty newLayer scope act (rg_layers rg) = (sl, r)" by fastforce
  show ?thesis
  proof (cases r)
    case (Inl x)
    with tool_layers.effect_fails [OF t, of scope act sl x] e have "sl = rg_layers rg" by simp
    with assms(1) show ?thesis by (auto simp: e withLayers_def registry_ok_def intro: layer_ok_mono [OF _ le_SucI])
  next
    case (Inr x)
    with tool_layers.effect_acts [OF t, of scope act sl x] e obtain l where l: "act (layerAt rg scope) = Inr l"
      "tool_layers.layerAt sl = (tool_layers.layerAt (rg_layers rg))(scope := l)"
      "scope = None \<or> \<not> layerIsEmpty l \<longrightarrow> tool_layers.tidy sl" by blast
    with assms show ?thesis by (auto simp: e withLayers_def registry_ok_def intro: layer_ok_mono [OF _ le_SucI])
  qed
qed

lemma layerUndo_ok:
  assumes "registry_ok rg" "undo newLayer = newLayer" "\<And>l n. layer_ok n l \<Longrightarrow> layer_ok n (undo l)"
  shows "registry_ok (layerUndo scope undo rg)"
proof -
  have t: "tool_layers.tidy (rg_layers rg)" using assms(1) by (simp add: registry_ok_def)
  show ?thesis using assms(1,3) tool_layers.dispose_undoes [where undo = undo and scope = scope, OF t assms(2)]
    by (auto simp: registry_ok_def)
qed

lemma registerTool_ok:
  assumes "registry_ok rg"
  shows "registry_ok (fst (registerTool scope d rg))"
proof (cases "supportedOutput d \<and> td_name d \<noteq> RUN_CODE_NAME")
  case True
  then have "registrable (td_name d) d" by (simp add: registrable_def)
  then have "registry_ok (fst (layerAct scope
      (\<lambda>l. case insertNamed (td_name d) d (tl_tools l) of
         None \<Rightarrow> Inl (DuplicateTool (td_name d))
       | Some tools \<Rightarrow> Inr (l\<lparr>tl_tools := tools\<rparr>)) rg))"
    by (intro layerAct_ok [OF assms])
       (auto simp: insertNamed_def layer_ok_def layerIsEmpty_def symbols_Suc split: if_splits)
  with True assms show ?thesis by (auto simp: registerTool_def supportedOutput_def split: option.splits)
next
  case False
  with assms show ?thesis
    by (auto simp: registerTool_def supportedOutput_def split: output_decl.splits sum.splits)
qed

lemma layer_ok_restricted:
  "layer_ok n l \<Longrightarrow> layer_ok (Suc n) (l\<lparr>tl_restrictions := appendEntry n filt (tl_restrictions l)\<rparr>)
    \<and> \<not> layerIsEmpty (l\<lparr>tl_restrictions := appendEntry n filt (tl_restrictions l)\<rparr>)"
  using symbols_append [of n "tl_restrictions l" filt]
  by (simp add: layer_ok_def layerIsEmpty_def symbols_Suc appendEntry_def)

lemma layer_ok_guarded:
  "layer_ok n l \<Longrightarrow> layer_ok (Suc n) (l\<lparr>tl_guards := appendEntry n g (tl_guards l)\<rparr>)
    \<and> \<not> layerIsEmpty (l\<lparr>tl_guards := appendEntry n g (tl_guards l)\<rparr>)"
  using symbols_append [of n "tl_guards l" g]
  by (simp add: layer_ok_def layerIsEmpty_def symbols_Suc appendEntry_def)

lemma layer_ok_presented:
  "layer_ok n l \<Longrightarrow> layer_ok (Suc n) (l\<lparr>tl_mode := Some m\<rparr>) \<and> \<not> layerIsEmpty (l\<lparr>tl_mode := Some m\<rparr>)"
  by (simp add: layer_ok_def layerIsEmpty_def symbols_Suc)

lemma restrictTools_ok:
  assumes "registry_ok rg"
  shows "registry_ok (fst (restrictTools scope filt rg))"
proof -
  have "registry_ok (fst (layerAct scope (\<lambda>l. Inr (l\<lparr>tl_restrictions := appendEntry (rg_symbols rg) filt (tl_restrictions l)\<rparr>)) rg))"
    using assms layer_ok_restricted by (intro layerAct_ok) auto
  with assms show ?thesis by (simp add: restrictTools_def Let_def)
qed

lemma guardTools_ok: "registry_ok rg \<Longrightarrow> registry_ok (fst (guardTools scope g rg))"
  unfolding guardTools_def using layer_ok_guarded by (intro layerAct_ok) auto

lemma presentAs_ok:
  assumes "registry_ok rg"
  shows "registry_ok (fst (presentAs scope mode rg))"
proof -
  have "registry_ok (fst (layerAct scope (\<lambda>l. case tl_mode l of
      Some declared \<Rightarrow> Inl (PresentationConflict mode declared) | None \<Rightarrow> Inr (l\<lparr>tl_mode := Some mode\<rparr>)) rg))"
    using assms layer_ok_presented by (intro layerAct_ok) (auto split: option.splits)
  with assms show ?thesis by (simp add: presentAs_def)
qed

lemma applyAction_ok:
  assumes "registry_ok rg"
  shows "registry_ok (applyAction a rg)"
proof (cases a)
  case (Unregister scope name)
  with assms show ?thesis
    by (auto simp: unregisterTool_def layer_ok_def deleteEntry_def newLayer_def distinct_map_filter intro!: layerUndo_ok)
next
  case (LiftRestriction scope symbol)
  with assms show ?thesis
    by (auto simp: liftRestriction_def layer_ok_def newLayer_def intro!: layerUndo_ok symbols_delete) (simp add: deleteEntry_def)
next
  case (RemoveGuard scope symbol)
  with assms show ?thesis
    by (auto simp: removeGuard_def layer_ok_def newLayer_def intro!: layerUndo_ok symbols_delete) (simp add: deleteEntry_def)
next
  case (WithdrawPresentation scope)
  with assms show ?thesis
    by (auto simp: withdrawPresentation_def layer_ok_def newLayer_def intro!: layerUndo_ok)
next
  case (LinkScope l)
  then obtain r where "applyLink l (rg_parents rg) = Some r" "\<forall>parents. r = Inr parents \<longrightarrow> rooted parents"
    using applyLink_rooted [of "rg_parents rg" l] assms by (auto simp: registry_ok_def)
  with LinkScope assms show ?thesis by (auto simp: registry_ok_def split: sum.splits)
next
  case (MountRuntime language)
  with assms show ?thesis by (simp add: registry_ok_def)
qed (simp_all add: assms registerTool_ok restrictTools_ok guardTools_ok presentAs_ok)

lemma applyActions_ok: "registry_ok rg \<Longrightarrow> registry_ok (fold applyAction as rg)"
  by (induction as arbitrary: rg) (auto intro: applyAction_ok)

lemma newRegistry_ok: "td_name transport = RUN_CODE_NAME \<Longrightarrow> supportedOutput transport \<Longrightarrow> registry_ok (newRegistry mode transport)"
  by (auto simp: registry_ok_def newRegistry_def rooted_empty tool_layers.tidy_start tool_layers.layerAt_def split: option.split)

section \<open>What a scope sees\<close>

text \<open>
  The reference lookup, by scopes instead of layers: a scope's own registration wins and no restriction touches
  it; otherwise the nearest enclosing declaration counts, if every restriction on the chain admits the name;
  the transport is there exactly when the presentation is not native.
\<close>

fun nearest :: "('k \<Rightarrow> 'd option) \<Rightarrow> 'k list \<Rightarrow> 'd option" where
  "nearest f [] = None"
| "nearest f (k # ks) = (case f k of Some d \<Rightarrow> Some d | None \<Rightarrow> nearest f ks)"

definition toolIn :: "registry \<Rightarrow> string \<Rightarrow> scope_key option \<Rightarrow> tool_definition option" where
  "toolIn rg name scope = map_of (tl_tools (layerAt rg scope)) name"

definition ownTool :: "registry \<Rightarrow> scope_key option \<Rightarrow> string \<Rightarrow> tool_definition option" where
  "ownTool rg scope name = (if scope = None then None else toolIn rg name scope)"

definition inheritedTool :: "registry \<Rightarrow> scope_key option \<Rightarrow> string \<Rightarrow> tool_definition option" where
  "inheritedTool rg scope name =
     (case nearest (\<lambda>k. toolIn rg name (Some k)) (tl (chainKeys (rg_parents rg) scope)) of
        Some d \<Rightarrow> Some d
      | None \<Rightarrow> toolIn rg name None)"

definition admitted :: "registry \<Rightarrow> scope_key option \<Rightarrow> string \<Rightarrow> bool" where
  "admitted rg scope name \<longleftrightarrow> (\<forall>k \<in> set (chainKeys (rg_parents rg) scope). layerAdmits (layerAt rg (Some k)) name)"

definition presentation :: "registry \<Rightarrow> scope_key option \<Rightarrow> presentation_mode" where
  "presentation rg scope =
     (case nearest (\<lambda>k. tl_mode (layerAt rg (Some k))) (chainKeys (rg_parents rg) scope) of
        Some m \<Rightarrow> m
      | None \<Rightarrow> rg_default rg)"

definition visibleTool :: "registry \<Rightarrow> scope_key option \<Rightarrow> string \<Rightarrow> tool_definition option" where
  "visibleTool rg scope name =
     (if name = RUN_CODE_NAME then (if presentation rg scope = NativeMode then None else Some (rg_transport rg))
      else
        (case ownTool rg scope name of
           Some d \<Rightarrow> Some d
         | None \<Rightarrow> if admitted rg scope name then inheritedTool rg scope name else None))"

lemma layerAt_absent: "sl_scoped (rg_layers rg) k = None \<Longrightarrow> layerAt rg (Some k) = newLayer"
  by (simp add: tool_layers.layerAt_def)

lemma layerAt_present: "sl_scoped (rg_layers rg) k = Some l \<Longrightarrow> layerAt rg (Some k) = l"
  by (simp add: tool_layers.layerAt_def)

lemma newLayer_tools [simp]: "tl_tools newLayer = []" "setAll [] m = m"
  by (simp_all add: newLayer_def setAll_def)

lemma okD:
  assumes "registry_ok rg"
  shows "rooted (rg_parents rg)" "tool_layers.tidy (rg_layers rg)" "layer_ok (rg_symbols rg) (layerAt rg scope)"
    "distinct (map fst (tl_tools (layerAt rg scope)))" "(name, d) \<in> set (tl_tools (layerAt rg scope)) \<Longrightarrow> registrable name d"
  using assms by (auto simp: registry_ok_def layer_ok_def)

lemma toolIn_registrable: "registry_ok rg \<Longrightarrow> toolIn rg name scope = Some d \<Longrightarrow> registrable name d"
  unfolding toolIn_def by (blast intro: okD(5) map_of_SomeD)

lemma layersOf_read:
  assumes "registry_ok rg"
  shows "layersOf rg scope = filter (\<lambda>l. \<not> layerIsEmpty l) (map (\<lambda>k. layerAt rg (Some k)) (rev (chainKeys (rg_parents rg) scope)))"
  by (rule tool_layers.chainLayers_read [OF okD(2) [OF assms]])

lemma find_mode:
  "(case find (\<lambda>l. tl_mode l \<noteq> None) (filter (\<lambda>l. \<not> layerIsEmpty l) (map f ks)) of Some l \<Rightarrow> the (tl_mode l) | None \<Rightarrow> d)
    = (case nearest (\<lambda>k. tl_mode (f k)) ks of Some m \<Rightarrow> m | None \<Rightarrow> d)"
  by (induction ks) (auto simp: layerIsEmpty_def split: option.splits)

lemma modeFor_exact: "registry_ok rg \<Longrightarrow> modeFor rg scope = presentation rg scope"
  using find_mode [where f = "\<lambda>k. layerAt rg (Some k)" and ks = "chainKeys (rg_parents rg) scope" and d = "rg_default rg"]
  by (simp add: modeFor_def presentation_def layersOf_read rev_filter rev_map)

lemma admits_exact: "registry_ok rg \<Longrightarrow> list_all (\<lambda>l. layerAdmits l name) (layersOf rg scope) \<longleftrightarrow> admitted rg scope name"
  by (auto simp: layersOf_read admitted_def list_all_iff layerIsEmpty_def layerAdmits_def)

lemma fold_nearest: "fold (\<lambda>k g. g ++ F k) (rev ks) g n = (case nearest (\<lambda>k. F k n) ks of Some d \<Rightarrow> Some d | None \<Rightarrow> g n)"
  by (induction ks) (auto simp: map_add_def split: option.splits)

lemma fold_layers:
  "fold (\<lambda>l. setAll (tl_tools l)) (List.map_filter (sl_scoped (rg_layers rg)) ks) m
    = fold (\<lambda>k. setAll (tl_tools (layerAt rg (Some k)))) ks m"
  by (induction ks arbitrary: m)
     (auto simp: List.map_filter_def layerAt_absent layerAt_present split: option.splits)

lemma map_of_fold:
  assumes "registry_ok rg"
  shows "map_of (fold (\<lambda>k. setAll (tl_tools (layerAt rg (Some k)))) ks m)
    = fold (\<lambda>k g. g ++ map_of (tl_tools (layerAt rg (Some k)))) ks (map_of m)"
  using okD(4) [OF assms] by (induction ks arbitrary: m) (simp_all add: map_of_setAll)

lemma map_filter_cong: "(\<And>x. x \<in> set xs \<Longrightarrow> f x = g x) \<Longrightarrow> List.map_filter f xs = List.map_filter g xs"
  by (induction xs) (auto simp: List.map_filter_def)

lemma inheritedTools_exact:
  assumes "registry_ok rg"
  shows "map_of (inheritedTools rg scope) name = inheritedTool rg scope name"
proof -
  have "inheritedLayers rg scope = List.map_filter (sl_scoped (rg_layers rg)) (rev (tl (chainKeys (rg_parents rg) scope)))"
  proof (cases scope)
    case (Some s)
    obtain ks where ks: "chainKeys (rg_parents rg) scope = s # ks" "s \<notin> set ks"
      using chainKeys_Some [OF okD(1) [OF assms], of s] Some by auto
    have "List.map_filter (\<lambda>k. if s = k then None else sl_scoped (rg_layers rg) k) (rev ks)
        = List.map_filter (sl_scoped (rg_layers rg)) (rev ks)"
      using ks(2) by (intro map_filter_cong) auto
    with ks(1) Some show ?thesis by (simp add: inheritedLayers_def List.map_filter_def)
  qed (simp add: inheritedLayers_def List.map_filter_def)
  then show ?thesis
    by (simp add: inheritedTools_def fold_layers map_of_fold [OF assms] fold_nearest inheritedTool_def toolIn_def
        tool_layers.layerAt_def [of _ None] split: option.split)
qed

lemma map_of_filter_key: "map_of (filter (\<lambda>(n, _). P n) m) n = (if P n then map_of m n else None)"
  by (induction m) auto

abbreviation ownTools :: "registry \<Rightarrow> scope_key option \<Rightarrow> (string \<times> tool_definition) list" where
  "ownTools rg scope \<equiv> (case peekLayer (rg_layers rg) scope of Some l \<Rightarrow> tl_tools l | None \<Rightarrow> [])"

lemma own_read:
  assumes "registry_ok rg"
  shows "map_of (ownTools rg scope) name = ownTool rg scope name" "distinct (map fst (ownTools rg scope))"
  using okD(4) [OF assms, of scope]
  by (cases scope; auto simp: peekLayer_def ownTool_def toolIn_def layerAt_absent layerAt_present split: option.splits)+

lemma inheritedTool_registrable: "registry_ok rg \<Longrightarrow> inheritedTool rg scope name = Some d \<Longrightarrow> registrable name d"
proof -
  assume ok: "registry_ok rg" and d: "inheritedTool rg scope name = Some d"
  have "\<exists>k. nearest f ks = Some d \<longrightarrow> f k = Some d" for f :: "scope_key \<Rightarrow> tool_definition option" and ks
    by (induction ks) (auto split: option.splits)
  with d have "\<exists>scope. toolIn rg name scope = Some d"
    by (auto simp: inheritedTool_def split: option.splits)
  with ok show "registrable name d" by (blast intro: toolIn_registrable)
qed

lemma getTool_exact:
  assumes "registry_ok rg"
  shows "getTool rg name scope = visibleTool rg scope name"
proof -
  have own: "ownTool rg scope RUN_CODE_NAME = None"
    using toolIn_registrable [OF assms, of RUN_CODE_NAME scope] by (cases "ownTool rg scope RUN_CODE_NAME") (auto simp: ownTool_def registrable_def split: if_splits)
  have inh: "inheritedTool rg scope RUN_CODE_NAME = None"
    using inheritedTool_registrable [OF assms, of scope RUN_CODE_NAME] by (cases "inheritedTool rg scope RUN_CODE_NAME") (auto simp: registrable_def)
  define own' where "own' = ownTools rg scope"
  have o: "map_of own' n = ownTool rg scope n" "distinct (map fst own')" for n
    using own_read [OF assms] by (simp_all add: own'_def)
  define visible where "visible = setAll own' (filter (\<lambda>(n, _). list_all (\<lambda>l. layerAdmits l n) (layersOf rg scope)) (inheritedTools rg scope))"
  have v: "map_of visible n = (case ownTool rg scope n of Some d \<Rightarrow> Some d | None \<Rightarrow> if admitted rg scope n then inheritedTool rg scope n else None)" for n
    unfolding visible_def map_of_setAll [OF o(2)] map_add_def o(1) map_of_filter_key admits_exact [OF assms] inheritedTools_exact [OF assms]
    by (rule refl)
  have "getTool rg name scope
      = map_of (if modeFor rg scope \<noteq> NativeMode then map_set RUN_CODE_NAME (rg_transport rg) visible else visible) name"
    by (simp add: getTool_def registryView_def Let_def visible_def own'_def)
  also have "\<dots> = visibleTool rg scope name"
    using own inh by (auto simp: modeFor_exact [OF assms] visibleTool_def map_of_map_set v)
  finally show ?thesis .
qed

lemma visibleTool_known:
  assumes "registry_ok rg" "visibleTool rg scope name = Some d"
  shows "td_name d = name \<and> supportedOutput d"
  using assms inheritedTool_registrable [OF assms(1), of scope name d] toolIn_registrable [OF assms(1), of name scope d]
  by (auto simp: visibleTool_def ownTool_def registrable_def registry_ok_def split: if_splits option.splits)

lemma resolve_visible:
  "registry_ok rg \<Longrightarrow> resolveExecution rg name scope nested = (if collapses rg name scope nested then None else visibleTool rg scope name)"
  by (auto simp: resolveExecution_def getTool_exact split: option.splits)

lemma resolve_known:
  "registry_ok rg \<Longrightarrow> resolveExecution rg name scope nested = Some d \<Longrightarrow> td_name d = name \<and> supportedOutput d"
  by (auto simp: resolve_visible split: if_splits dest: visibleTool_known)

lemma visible_names:
  assumes "registry_ok rg"
  shows "distinct (map fst (tv_visible (registryView rg scope)))"
    "(name, d) \<in> set (tv_visible (registryView rg scope)) \<longleftrightarrow> visibleTool rg scope name = Some d"
proof -
  have upd: "distinct (map fst (setAll es m))" if "distinct (map fst m)" for es m :: "(string \<times> tool_definition) list"
    using that by (induction es arbitrary: m) (auto simp: setAll_def distinct_map_set)
  have "distinct (map fst (fold (\<lambda>l. setAll (tl_tools l)) ls m))" if "distinct (map fst m)" for ls and m :: "(string \<times> tool_definition) list"
    using that by (induction ls arbitrary: m) (auto intro: upd)
  then have "distinct (map fst (inheritedTools rg scope))"
    using okD(4) [OF assms, of None] by (simp add: inheritedTools_def tool_layers.layerAt_def)
  then show d: "distinct (map fst (tv_visible (registryView rg scope)))"
    by (auto simp: registryView_def Let_def distinct_map_filter intro!: upd distinct_map_set)
  show "(name, d) \<in> set (tv_visible (registryView rg scope)) \<longleftrightarrow> visibleTool rg scope name = Some d"
    using map_of_eq_Some_iff [OF d, of name d] getTool_exact [OF assms, of name scope] by (simp add: getTool_def)
qed

text \<open>
  A restriction that is in force on a chain hides every name it does not admit from the scopes below it,
  their own registrations excepted.
\<close>

lemma restriction_binds:
  assumes "registry_ok rg" "k \<in> set (chainKeys (rg_parents rg) scope)" "(symbol, filt) \<in> set (tl_restrictions (layerAt rg (Some k)))"
    and "(\<exists>names. tr_allow filt = Some names \<and> name \<notin> set names) \<or> (\<exists>names. tr_deny filt = Some names \<and> name \<in> set names)"
    and "name \<noteq> RUN_CODE_NAME" "ownTool rg scope name = None"
  shows "getTool rg name scope = None"
proof -
  have "\<not> layerAdmits (layerAt rg (Some k)) name"
    using assms(3,4) by (force simp: layerAdmits_def list_all_iff)
  with assms(2,5,6) show ?thesis
    unfolding getTool_exact [OF assms(1)] visibleTool_def admitted_def by auto
qed

text \<open>A disposer takes back exactly its registration.\<close>

lemma layerAct_undone:
  assumes "registry_ok rg" "layerAct scope act rg = (rg', Inr u)"
    and "undo newLayer = newLayer" "\<And>l l'. layer_ok (rg_symbols rg) l \<Longrightarrow> act l = Inr l' \<Longrightarrow> undo l' = l \<and> \<not> layerIsEmpty l'"
  shows "rg_layers (layerUndo scope undo rg') = rg_layers rg"
proof -
  obtain sl where e: "layerEffect layerIsEmpty newLayer scope act (rg_layers rg) = (sl, Inr u)" "rg_layers rg' = sl"
    using assms(2) by (cases "layerEffect layerIsEmpty newLayer scope act (rg_layers rg)") (auto simp: withLayers_def)
  note t = okD(2) [OF assms(1)]
  obtain l where l: "act (layerAt rg scope) = Inr l" "tool_layers.layerAt sl scope = l"
    using tool_layers.effect_acts [OF t e(1)] by auto
  have "layerDispose layerIsEmpty scope undo sl = rg_layers rg"
    using assms(4) [OF okD(3) [OF assms(1)]] l
    by (intro tool_layers.effect_dispose [where undo = undo, OF t e(1)] assms(3)) auto
  with e(2) show ?thesis by simp
qed

lemma register_dispose:
  assumes "registry_ok rg" "registerTool scope d rg = (rg', Inr u)"
  shows "rg_layers (unregisterTool scope (td_name d) rg') = rg_layers rg"
  unfolding unregisterTool_def
proof (rule layerAct_undone [OF assms(1)])
  show "layerAct scope (\<lambda>l. case insertNamed (td_name d) d (tl_tools l) of
        None \<Rightarrow> Inl (DuplicateTool (td_name d))
      | Some tools \<Rightarrow> Inr (l\<lparr>tl_tools := tools\<rparr>)) rg = (rg', Inr u)"
    using assms(2) by (simp add: registerTool_def split: output_decl.splits sum.splits if_splits)
next
  show "(newLayer\<lparr>tl_tools := deleteEntry (td_name d) (tl_tools newLayer)\<rparr>) = newLayer"
    by (simp add: newLayer_def deleteEntry_def)
qed (auto simp: delete_insert layerIsEmpty_def insertNamed_def delete_fresh split: option.splits if_splits)

lemma symbols_delete_append: "symbols_ok n es \<Longrightarrow> deleteEntry n (appendEntry n v es) = es"
  by (force simp: appendEntry_def symbols_ok_def intro!: delete_fresh)

lemma restrict_dispose:
  assumes "registry_ok rg" "restrictTools scope filt rg = (rg', Inr u)"
  shows "rg_layers (liftRestriction scope (rg_symbols rg) rg') = rg_layers rg"
  unfolding liftRestriction_def
proof (rule layerAct_undone [OF assms(1)])
  show "layerAct scope (\<lambda>l. Inr (l\<lparr>tl_restrictions := appendEntry (rg_symbols rg) filt (tl_restrictions l)\<rparr>)) rg = (rg', Inr u)"
    using assms(2) by (simp add: restrictTools_def Let_def split: if_splits)
next
  show "(newLayer\<lparr>tl_restrictions := deleteEntry (rg_symbols rg) (tl_restrictions newLayer)\<rparr>) = newLayer"
    by (simp add: newLayer_def deleteEntry_def)
next
  fix l l'
  assume "layer_ok (rg_symbols rg) l" "Inr (l\<lparr>tl_restrictions := appendEntry (rg_symbols rg) filt (tl_restrictions l)\<rparr>) = (Inr l' :: registry_error + _)"
  then show "l'\<lparr>tl_restrictions := deleteEntry (rg_symbols rg) (tl_restrictions l')\<rparr> = l \<and> \<not> layerIsEmpty l'"
    using layer_ok_restricted [of "rg_symbols rg" l filt] by (auto simp: layer_ok_def symbols_delete_append)
qed

lemma schemas_names: "mapE (\<lambda>(_, d). schemaOf d detach) vs = Inr schemas \<Longrightarrow> map ts_name schemas = map (td_name \<circ> snd) vs"
  by (induction vs arbitrary: schemas) (auto simp: result_simps schemaOf_def Let_def split: option.splits if_splits)

section \<open>Properties\<close>

text \<open>C26.
  The model is shown what it may call. In every state a registry can reach, whenever the tool list of a scope can
  be assembled, its names are distinct and are exactly those a model-direct call of that scope resolves, under
  every presentation; a name resolves to the registration a scope-by-scope lookup finds, with a supported schema.
\<close>

theorem shown_tools_callable:
  assumes "td_name transport = RUN_CODE_NAME" "supportedOutput transport"
    and "rg = fold applyAction acts (newRegistry mode transport)"
    and "wireSchemas rg scope = Inr (schemas, names)"
  shows "distinct (map ts_name schemas)
    \<and> set (map ts_name schemas) = {name. resolveExecution rg name scope False \<noteq> None}
    \<and> (\<forall>name d. resolveExecution rg name scope False = Some d \<longrightarrow>
         visibleTool rg scope name = Some d \<and> td_name d = name \<and> supportedOutput d)"
proof -
  have ok: "registry_ok rg"
    using assms(1-3) by (simp add: newRegistry_ok applyActions_ok)
  define vs where "vs = tv_visible (registryView rg scope)"
  have names: "map (td_name \<circ> snd) vs = map fst vs"
    using visible_names(2) [OF ok] visibleTool_known [OF ok] by (auto simp: vs_def)
  obtain all where all: "mapE (\<lambda>(_, d). schemaOf d False) vs = Inr all"
    "schemas = (if modeFor rg scope = CodeMode then filter (\<lambda>s. ts_name s = RUN_CODE_NAME) all else all)"
    using assms(4) by (cases "modeFor rg scope") (auto simp: wireSchemas_def Let_def vs_def result_simps)
  then have all_names: "map ts_name all = map fst vs" using schemas_names [OF all(1)] names by simp
  then have "distinct (map ts_name schemas)" (is ?distinct)
    using visible_names(1) [OF ok, of scope] all(2) by (auto simp: vs_def distinct_map_filter)
  have shown: "name \<in> set (map ts_name all) \<longleftrightarrow> visibleTool rg scope name \<noteq> None" for name
    unfolding all_names vs_def using visible_names(2) [OF ok, of name _ scope] by force
  have "set (map ts_name schemas) = {n \<in> set (map ts_name all). modeFor rg scope = CodeMode \<longrightarrow> n = RUN_CODE_NAME}"
    by (auto simp: all(2) intro: rev_image_eqI)
  then have "set (map ts_name schemas) = {name. resolveExecution rg name scope False \<noteq> None}"
    unfolding shown by (auto simp: resolve_visible [OF ok] collapses_def)
  moreover have "visibleTool rg scope name = Some d \<and> td_name d = name \<and> supportedOutput d"
    if "resolveExecution rg name scope False = Some d" for name d
    using that resolve_known [OF ok that] by (simp add: resolve_visible [OF ok] split: if_splits)
  ultimately show ?thesis using \<open>?distinct\<close> by blast
qed

text \<open>A global tool and an agent whose preset selected the code presentation.\<close>

definition sampleTool :: tool_definition where
  "sampleTool = \<lparr>td_name = ''read'', td_description = [], td_parameters = ([], VNull), td_output = OutputDecl (JObj []) False,
     td_timeoutMs = None, td_id = 1, td_finalizer = False, td_classifier = False\<rparr>"

definition sampleTransport :: tool_definition where
  "sampleTransport = sampleTool\<lparr>td_name := RUN_CODE_NAME, td_id := 0\<rparr>"

definition sampleActions :: "registry_action list" where
  "sampleActions = [Register None sampleTool, PresentAs (Some 7) CodeMode, MountRuntime (Some ''python'')]"

lemma supported_any: "assertSupportedJsonSchema (JObj []) = Inr ()"
  by (simp add: assertSupportedJsonSchema_def checkSchemaNode_def checkTask_def checkNode_def checkKeywords_def hasOwn_get
      ONE_OF_SIBLING_KEYWORDS_def)

definition sampleRegistry :: registry where
  "sampleRegistry = \<lparr>rg_layers = \<lparr>sl_global = newLayer\<lparr>tl_tools := [(''read'', sampleTool)]\<rparr>,
       sl_scoped = [7 \<mapsto> newLayer\<lparr>tl_mode := Some CodeMode\<rparr>]\<rparr>, rg_parents = Map.empty, rg_default = NativeMode,
     rg_transport = sampleTransport, rg_language = Some ''python'', rg_symbols = 2\<rparr>"

lemma sampleRegistry_reached: "sampleRegistry = fold applyAction sampleActions (newRegistry NativeMode sampleTransport)"
  by (simp add: sampleRegistry_def sampleActions_def newRegistry_def registerTool_def sampleTool_def supported_any RUN_CODE_NAME_def
      withLayers_def layerEffect_def insertNamed_def newLayer_def presentAs_def Let_def numeral_2_eq_2)

theorem shown_tools_callable_witness:
  "\<exists>schemas names. wireSchemas sampleRegistry (Some 7) = Inr (schemas, names) \<and> set (map ts_name schemas) = {RUN_CODE_NAME}
    \<and> {name. resolveExecution sampleRegistry name (Some 7) False \<noteq> None} = {RUN_CODE_NAME}
    \<and> getTool sampleRegistry ''read'' (Some 7) = Some sampleTool"
proof -
  have chain: "chainKeys Map.empty (Some 7) = [7]"
    by (simp add: chainKeys_def scopeChainOf_def chainFrom.simps [of _ "Some k" for k] chainFrom.simps [of _ None])
  have visible: "registryView sampleRegistry (Some 7) =
      \<lparr>tv_visible = [(''read'', sampleTool), (RUN_CODE_NAME, sampleTransport)], tv_knownNames = [''read''],
       tv_restrictableNames = [''read'']\<rparr>"
    by (simp add: registryView_def Let_def sampleRegistry_def modeFor_def chainLayers_def chain List.map_filter_def peekLayer_def
        newLayer_def inheritedTools_def inheritedLayers_def layerAdmits_def setAll_def RUN_CODE_NAME_def)
  have mode: "modeFor sampleRegistry (Some 7) = CodeMode"
    by (simp add: modeFor_def sampleRegistry_def chainLayers_def chain List.map_filter_def)
  have runtime: "requireCodeRuntime sampleRegistry CodeMode = Inr ''python''"
    by (simp add: requireCodeRuntime_def SDK_RENDERERS_def sampleRegistry_def)
  have schema: "schemaOf d False = Inr \<lparr>ts_name = td_name d, ts_description = [], ts_parameters = ([], VNull)\<rparr>"
    if "d \<in> {sampleTool, sampleTransport}" for d
    using that by (auto simp: schemaOf_def sampleTool_def sampleTransport_def)
  have names: "td_name sampleTool \<noteq> RUN_CODE_NAME" "td_name sampleTransport = RUN_CODE_NAME"
    by (simp_all add: sampleTool_def sampleTransport_def RUN_CODE_NAME_def)
  have w: "wireSchemas sampleRegistry (Some 7)
      = Inr ([\<lparr>ts_name = RUN_CODE_NAME, ts_description = [], ts_parameters = ([], VNull)\<rparr>], [RUN_CODE_NAME])"
    by (simp add: wireSchemas_def Let_def visible mode runtime schema names)
  have t: "td_name sampleTransport = RUN_CODE_NAME" "supportedOutput sampleTransport"
    by (auto simp: sampleTransport_def sampleTool_def supportedOutput_def supported_any)
  have "getTool sampleRegistry ''read'' (Some 7) = Some sampleTool"
    by (simp add: getTool_def visible RUN_CODE_NAME_def)
  with w shown_tools_callable [OF t sampleRegistry_reached w] show ?thesis by simp
qed

end
