(* ===== verification/Tool_Runtime.thy ===== *)
theory Tool_Runtime
  imports Tool_Registry Snapshot_Heap
begin

text \<open>
  The execution pipeline of \<open>ToolRuntime\<close> (\<open>core/tools/src/index.ts\<close>): one call from its input to the outcome
  that observers receive.

  Listeners, wrappers, guards, approvals and tool bodies are the environment, a record of functions that the
  definitions take as an argument. What such code does while it runs is a list of effects: any change of the
  registry, an abort of the caller or of a signal of its own, a replaced execution signal, a deferred context, a
  turn conclusion. A wrapper is a program that may call the rest of the pipeline any number of times, one after
  the other, before it answers. A value is a reference into a heap (\<open>candidate\<close>); code that hands one over does
  not change it afterwards. An absent list of contexts is the empty one.

  Messages are shortened where nothing reads them: the schema violations of an invalid value, and the route that
  a denied direct call is told to take. The message of a block decision, which the source renders from the feedback
  blocks, comes with the decision. Observers of the result cannot change it, so their notification is one event.
\<close>

section \<open>Values and results\<close>

definition detach :: "candidate \<Rightarrow> candidate option" where
  "detach c =
     (case snapshotJsonValue (fst c) (snd c) of
        Some (Some (v, h)) \<Rightarrow> Some (h, v)
      | _ \<Rightarrow> None)"

text \<open>A thrown value as \<open>errorMessage\<close> and \<open>errorInfo\<close> read it: the pair is the name and code of a harness error.\<close>

record tool_thrown =
  th_message :: string
  th_info :: "(string \<times> string) option"

datatype tool_outcome =
    Success candidate bool
  | Failure tool_thrown

record tool_result =
  xr_outcome :: tool_outcome
  xr_content :: candidate
  xr_meta :: "candidate option"
  xr_contexts :: "candidate list"

definition isError :: "tool_result \<Rightarrow> bool" where
  "isError r \<longleftrightarrow> (case xr_outcome r of Failure _ \<Rightarrow> True | Success _ _ \<Rightarrow> False)"

text \<open>The content \<open>[{ type: 'text', text }]\<close>.\<close>

definition textContent :: "string \<Rightarrow> candidate" where
  "textContent t =
     ([HArr arrayProto [Some (VRef 1)] 0, HObj objectProto [(Some ''type'', True, VStr ''text''), (Some ''text'', True, VStr t)]],
      VRef 0)"

definition toolErrorResult :: "tool_thrown \<Rightarrow> tool_result" where
  "toolErrorResult e =
     \<lparr>xr_outcome = Failure e, xr_content = textContent (''Error: '' @ th_message e), xr_meta = None, xr_contexts = []\<rparr>"

definition TOOL_ABORTED :: string where
  "TOOL_ABORTED = ''ABORTED''"

definition TOOL_ABORTED_BEFORE_DISPATCH :: string where
  "TOOL_ABORTED_BEFORE_DISPATCH = ''ABORTED_BEFORE_DISPATCH''"

definition toolAbortedResult :: "candidate list \<Rightarrow> tool_result" where
  "toolAbortedResult prior =
     \<lparr>xr_outcome = Failure \<lparr>th_message = ''tool call aborted'', th_info = Some (''AbortError'', TOOL_ABORTED)\<rparr>,
      xr_content = textContent ''Error: tool call aborted'', xr_meta = None, xr_contexts = prior\<rparr>"

definition toolAbortedBeforeDispatchResult :: "candidate list \<Rightarrow> tool_result" where
  "toolAbortedBeforeDispatchResult prior =
     \<lparr>xr_outcome = Failure \<lparr>th_message = ''tool call aborted before dispatch'',
        th_info = Some (''AbortError'', TOOL_ABORTED_BEFORE_DISPATCH)\<rparr>,
      xr_content = textContent ''Error: tool call aborted before dispatch'', xr_meta = None, xr_contexts = prior\<rparr>"

definition quoted :: "string \<Rightarrow> string" where
  "quoted name = CHR 0x22 # name @ [CHR 0x22]"

definition unknownTool :: "string \<Rightarrow> string option \<Rightarrow> tool_thrown" where
  "unknownTool name reachableFrom =
     \<lparr>th_message = ''unknown tool '' @ quoted name @ (case reachableFrom of None \<Rightarrow> [] | Some route \<Rightarrow> '': '' @ route),
      th_info = Some (''ToolNotFoundError'', ''UNKNOWN_TOOL'')\<rparr>"

definition invalidOutput :: "string \<Rightarrow> string \<Rightarrow> tool_thrown" where
  "invalidOutput toolName violation =
     \<lparr>th_message = ''tool '' @ quoted toolName @ '' returned invalid output: '' @ violation,
      th_info = Some (''ToolOutputError'', ''INVALID_TOOL_OUTPUT'')\<rparr>"

definition typeError :: "string \<Rightarrow> tool_thrown" where
  "typeError message = \<lparr>th_message = message, th_info = None\<rparr>"

section \<open>One call\<close>

datatype abort_signal = CallerSignal | OwnSignal nat | FusedSignal abort_signal

record exec_input =
  xi_callId :: string
  xi_rootCallId :: "string option"
  xi_name :: string
  xi_arguments :: candidate
  xi_agent :: "scope_key option"
  xi_parent :: "nat option"

record execution =
  xe_callId :: string
  xe_rootCallId :: string
  xe_name :: string
  xe_arguments :: "candidate option"
  xe_agent :: "scope_key option"
  xe_parent :: "nat option"

datatype approval_outcome = AllowedOnce | Rejected | ApprovalCancelled | ApprovalUnavailable

text \<open>What the registry does for a call that others can see, and what its gate decided.\<close>

datatype pipeline_event =
    PreExecute
  | Decided bool
  | Guarded "string option"
  | Execute
  | BodyRun tool_definition "candidate option"
  | PostExecute tool_result
  | ResultEvent tool_result

record call_state =
  tc_registry :: registry
  tc_callerAborted :: bool
  tc_ownAborted :: "nat list"
  tc_signal :: abort_signal
  tc_deferred :: "candidate list"
  tc_concluding :: bool
  tc_bodyInvoked :: bool
  tc_finalizer :: "tool_definition option"
  tc_events :: "pipeline_event list"

datatype call_effect =
    RegistryEffect registry_action
  | AbortCaller
  | AbortOwn nat
  | SetSignal abort_signal
  | DeferContext candidate
  | ConcludeTurn

fun applyEffect :: "call_effect \<Rightarrow> call_state \<Rightarrow> call_state" where
  "applyEffect (RegistryEffect a) c = c\<lparr>tc_registry := applyAction a (tc_registry c)\<rparr>"
| "applyEffect AbortCaller c = c\<lparr>tc_callerAborted := True\<rparr>"
| "applyEffect (AbortOwn n) c = c\<lparr>tc_ownAborted := n # tc_ownAborted c\<rparr>"
| "applyEffect (SetSignal s) c = c\<lparr>tc_signal := s\<rparr>"
| "applyEffect (DeferContext m) c = c\<lparr>tc_deferred := tc_deferred c @ [m]\<rparr>"
| "applyEffect ConcludeTurn c = c\<lparr>tc_concluding := True\<rparr>"

abbreviation applyEffects :: "call_effect list \<Rightarrow> call_state \<Rightarrow> call_state" where
  "applyEffects effects c \<equiv> fold applyEffect effects c"

fun isAborted :: "call_state \<Rightarrow> abort_signal \<Rightarrow> bool" where
  "isAborted c CallerSignal \<longleftrightarrow> tc_callerAborted c"
| "isAborted c (OwnSignal n) \<longleftrightarrow> n \<in> set (tc_ownAborted c)"
| "isAborted c (FusedSignal wrapper) \<longleftrightarrow> tc_callerAborted c \<or> isAborted c wrapper"

definition fuseToolSignals :: "abort_signal \<Rightarrow> abort_signal" where
  "fuseToolSignals wrapper = (if wrapper = CallerSignal then CallerSignal else FusedSignal wrapper)"

definition record_event :: "pipeline_event \<Rightarrow> call_state \<Rightarrow> call_state" where
  "record_event e c = c\<lparr>tc_events := tc_events c @ [e]\<rparr>"

datatype pre_decision = Allow | Deny string | Ask "string option"

datatype post_decision =
    AcceptContent "candidate option" "candidate list"
  | AcceptValue candidate "candidate list"
  | AcceptBoth
  | Block candidate string "candidate list"

text \<open>
  A wrapper answers with a result it got from the pipeline, by its position, or with one it wrote. \<open>AcceptBoth\<close>
  is an accept decision that carries both a value and a content; a block carries the text of its feedback.
\<close>

datatype wrapped = Returned nat | Authored tool_result

datatype around =
    Answer "call_state \<Rightarrow> call_effect list \<times> (tool_thrown + wrapped)"
  | Next "call_state \<Rightarrow> call_effect list" "tool_result \<Rightarrow> around"

record tool_env =
  te_pre :: "execution \<Rightarrow> call_state \<Rightarrow> call_effect list \<times> (tool_thrown + pre_decision)"
  te_approval :: "execution \<Rightarrow> string option \<Rightarrow> call_state \<Rightarrow> (call_effect list \<times> (tool_thrown + approval_outcome)) option"
  te_guard :: "execution \<Rightarrow> call_state \<Rightarrow> nat \<Rightarrow> tool_thrown + string option"
  te_around :: "execution \<Rightarrow> around"
  te_body :: "tool_definition \<Rightarrow> execution \<Rightarrow> call_state \<Rightarrow> call_effect list \<times> (tool_thrown + candidate)"
  te_render :: "tool_definition \<Rightarrow> candidate option \<Rightarrow> candidate \<Rightarrow> tool_thrown + candidate"
  te_meta :: "tool_definition \<Rightarrow> candidate option \<Rightarrow> candidate \<Rightarrow> tool_thrown + candidate"
  te_post :: "execution \<Rightarrow> tool_result \<Rightarrow> call_state \<Rightarrow> call_effect list \<times> (tool_thrown + post_decision)"
  te_finalize :: "tool_definition \<Rightarrow> execution \<Rightarrow> tool_result \<Rightarrow> tool_thrown + candidate option"

section \<open>Results through the output contract\<close>

definition detachE :: "tool_thrown \<Rightarrow> candidate \<Rightarrow> tool_thrown + candidate" where
  "detachE e c = (case detach c of Some c' \<Rightarrow> Inr c' | None \<Rightarrow> Inl e)"

definition notLossless :: tool_thrown where
  "notLossless = typeError ''tool result must be losslessly JSON-serializable''"

definition materializeFinalResult :: "tool_result \<Rightarrow> tool_thrown + tool_result" where
  "materializeFinalResult r =
     bindE (detachE notLossless (xr_content r)) (\<lambda>content.
     bindE (case xr_meta r of None \<Rightarrow> Inr None | Some m \<Rightarrow> bindE (detachE notLossless m) (\<lambda>m'. Inr (Some m'))) (\<lambda>meta.
     bindE (mapE (detachE notLossless) (xr_contexts r)) (\<lambda>contexts.
       Inr (r\<lparr>xr_content := content, xr_meta := meta, xr_contexts := contexts\<rparr>))))"

definition snapshotToolValue :: "string \<Rightarrow> candidate \<Rightarrow> tool_thrown + candidate" where
  "snapshotToolValue toolName c = detachE (invalidOutput toolName ''value is not lossless JSON'') c"

definition projectionError :: "string \<Rightarrow> string \<Rightarrow> tool_thrown + candidate \<Rightarrow> tool_thrown + candidate" where
  "projectionError toolName projector r =
     (case r of
        Inl e \<Rightarrow> Inl (invalidOutput toolName (''output.'' @ projector @ '' failed: '' @ th_message e))
      | Inr c \<Rightarrow> Inr c)"

definition snapshotProjection :: "string \<Rightarrow> string \<Rightarrow> candidate \<Rightarrow> tool_thrown + candidate" where
  "snapshotProjection toolName projector c = detachE (invalidOutput toolName (''output.'' @ projector @ '' returned non-lossless JSON'')) c"

fun outputSchema :: "output_decl \<Rightarrow> json" where
  "outputSchema (OutputDecl schema _) = schema"
| "outputSchema MalformedOutput = JNull"

fun outputMeta :: "output_decl \<Rightarrow> bool" where
  "outputMeta (OutputDecl _ meta) = meta"
| "outputMeta MalformedOutput = False"

definition createSuccessResult :: "tool_env \<Rightarrow> execution \<Rightarrow> tool_definition \<Rightarrow> candidate \<Rightarrow> call_state \<Rightarrow> tool_thrown + tool_result" where
  "createSuccessResult env x tool c st =
     bindE (snapshotToolValue (td_name tool) c) (\<lambda>v.
       if validateJsonSchemaValue (fst v) (outputSchema (td_output tool)) (snd v) ''value'' \<noteq> Some []
       then Inl (invalidOutput (td_name tool) ''schema violations'')
       else
         bindE (projectionError (td_name tool) ''render'' (te_render env tool (xe_arguments x) v)) (\<lambda>rendered.
         bindE (snapshotProjection (td_name tool) ''render'' rendered) (\<lambda>content.
         bindE (if xe_parent x = None \<and> outputMeta (td_output tool) then
                  bindE (projectionError (td_name tool) ''presentationMeta'' (te_meta env tool (xe_arguments x) v)) (\<lambda>m.
                  bindE (snapshotProjection (td_name tool) ''presentationMeta'' m) (\<lambda>m'. Inr (Some m')))
                else Inr None) (\<lambda>meta.
           materializeFinalResult
             \<lparr>xr_outcome = Success v (tc_concluding st), xr_content = content, xr_meta = meta, xr_contexts = []\<rparr>))))"

abbreviation resolveFor :: "execution \<Rightarrow> call_state \<Rightarrow> tool_definition option" where
  "resolveFor x st \<equiv> resolveExecution (tc_registry st) (xe_name x) (xe_agent x) (xe_parent x \<noteq> None)"

definition normalizeDispatchResult :: "tool_env \<Rightarrow> execution \<Rightarrow> tool_result \<times> bool \<Rightarrow> call_state \<Rightarrow> tool_thrown + tool_result" where
  "normalizeDispatchResult env x r st =
     (if snd r then Inr (fst r)
      else
        (case xr_outcome (fst r) of
           Failure _ \<Rightarrow> Inr (fst r)
         | Success value _ \<Rightarrow>
             (case resolveFor x st of
                None \<Rightarrow> Inl (unknownTool (xe_name x) None)
              | Some tool \<Rightarrow>
                  bindE (createSuccessResult env x tool value st) (\<lambda>normalized.
                    Inr (normalized\<lparr>xr_contexts := xr_contexts (fst r)\<rparr>)))))"

section \<open>Dispatch\<close>

definition cancellationResult :: "call_state \<Rightarrow> tool_result \<Rightarrow> tool_result" where
  "cancellationResult st prior =
     (if tc_bodyInvoked st then toolAbortedResult (xr_contexts prior)
      else toolAbortedBeforeDispatchResult (xr_contexts prior))"

text \<open>The result and whether the registry marked it as canonical for this execution.\<close>

definition dispatchToolBody :: "tool_env \<Rightarrow> execution \<Rightarrow> call_state \<Rightarrow> call_state \<times> (tool_result \<times> bool)" where
  "dispatchToolBody env x st =
     (let wrapperSignal = tc_signal st;
          signal = fuseToolSignals wrapperSignal in
      if isAborted st signal then (st, (toolAbortedBeforeDispatchResult [], False))
      else
        let st1 = st\<lparr>tc_signal := signal\<rparr> in
        (case resolveFor x st1 of
           None \<Rightarrow> (st1\<lparr>tc_signal := wrapperSignal\<rparr>, (toolErrorResult (unknownTool (xe_name x) None), False))
         | Some tool \<Rightarrow>
             let st2 = record_event (BodyRun tool (xe_arguments x)) (st1\<lparr>tc_bodyInvoked := True\<rparr>);
                 (effects, returned) = te_body env tool x st2;
                 st3 = applyEffects effects st2 in
             (st3\<lparr>tc_signal := wrapperSignal\<rparr>,
              (case bindE returned (\<lambda>v. createSuccessResult env x tool v st3) of
                 Inl e \<Rightarrow> (toolErrorResult e, False)
               | Inr result \<Rightarrow>
                   if isAborted st3 signal then (toolAbortedResult (xr_contexts result), False) else (result, True)))))"

primrec runAround ::
    "tool_env \<Rightarrow> execution \<Rightarrow> around \<Rightarrow> (tool_result \<times> bool) list \<Rightarrow> call_state \<Rightarrow> call_state \<times> (tool_thrown + tool_result \<times> bool)" where
  "runAround env x (Answer f) results st =
     (let (effects, answer) = f st;
          st' = applyEffects effects st in
      (st',
       (case answer of
          Inl e \<Rightarrow> Inl e
        | Inr (Authored r) \<Rightarrow> Inr (r, False)
        | Inr (Returned i) \<Rightarrow> if i < length results then Inr (results ! i) else Inl (typeError ''undefined result''))))"
| "runAround env x (Next f k) results st =
     (let (st', r) = dispatchToolBody env x (applyEffects (f st) st) in
      runAround env x (k (fst r)) (results @ [r]) st')"

datatype stage_result = PostResult tool_result | FinalResult tool_result

definition dispatchScheduledExecution :: "tool_env \<Rightarrow> execution \<Rightarrow> call_state \<Rightarrow> call_state \<times> stage_result" where
  "dispatchScheduledExecution env x st =
     (let (st1, answered) = runAround env x (te_around env x) [] (record_event Execute st) in
      case bindE answered (\<lambda>r. normalizeDispatchResult env x r st1) of
        Inl e \<Rightarrow> (st1, FinalResult (toolErrorResult e))
      | Inr normalized \<Rightarrow>
          let withDeferred = normalized\<lparr>xr_contexts := tc_deferred st1 @ xr_contexts normalized\<rparr> in
          (st1, PostResult (if tc_callerAborted st1 \<and> \<not> isError withDeferred then cancellationResult st1 withDeferred else withDeferred)))"

section \<open>After dispatch\<close>

definition postExecute :: "tool_env \<Rightarrow> execution \<Rightarrow> tool_result \<Rightarrow> call_state \<Rightarrow> call_state \<times> (tool_thrown + tool_result)" where
  "postExecute env x result st =
     (let st0 = record_event (PostExecute result) st;
          (effects, answer) = te_post env x result st0;
          st1 = applyEffects effects st0 in
      (st1, bindE answer (\<lambda>decision.
         case decision of
           Block feedback message contexts \<Rightarrow>
             Inr \<lparr>xr_outcome = Failure \<lparr>th_message = message, th_info = None\<rparr>, xr_content = feedback, xr_meta = None,
                  xr_contexts = contexts\<rparr>
         | AcceptBoth \<Rightarrow> Inl (typeError ''tools/post-execute accept decision cannot replace both value and content'')
         | AcceptValue value contexts \<Rightarrow>
             if isError result then Inl (typeError ''tools/post-execute cannot replace the value of a failed result'')
             else
               (case resolveFor x st1 of
                  None \<Rightarrow> Inl (unknownTool (xe_name x) None)
                | Some tool \<Rightarrow>
                    bindE (createSuccessResult env x tool value st1) (\<lambda>replaced.
                      Inr (replaced\<lparr>xr_contexts := xr_contexts result @ contexts\<rparr>)))
         | AcceptContent content contexts \<Rightarrow>
             Inr (result\<lparr>xr_content := (case content of Some c \<Rightarrow> c | None \<Rightarrow> xr_content result),
                         xr_contexts := xr_contexts result @ contexts\<rparr>))))"

definition applyFinalContent :: "tool_env \<Rightarrow> execution \<Rightarrow> call_state \<Rightarrow> tool_result \<Rightarrow> tool_thrown + tool_result" where
  "applyFinalContent env x st result =
     (case tc_finalizer st of
        None \<Rightarrow> Inr result
      | Some tool \<Rightarrow>
          bindE (te_finalize env tool x result) (\<lambda>content.
            Inr (case content of None \<Rightarrow> result | Some c \<Rightarrow> result\<lparr>xr_content := c\<rparr>)))"

definition orElse :: "tool_thrown + tool_result \<Rightarrow> tool_thrown + tool_result" where
  "orElse r = (case r of Inr result \<Rightarrow> Inr result | Inl e \<Rightarrow> materializeFinalResult (toolErrorResult e))"

definition finishScheduledExecution :: "tool_env \<Rightarrow> execution \<Rightarrow> tool_result \<Rightarrow> call_state \<Rightarrow> call_state \<times> (tool_thrown + tool_result)" where
  "finishScheduledExecution env x result st =
     (case bindE (orElse (materializeFinalResult result)) (\<lambda>materialized.
        orElse (bindE (applyFinalContent env x st materialized) materializeFinalResult)) of
        Inl e \<Rightarrow> (st, Inl e)
      | Inr final \<Rightarrow> (record_event (ResultEvent final) st, Inr final))"

definition finalizeScheduledExecution :: "tool_env \<Rightarrow> execution \<Rightarrow> tool_result \<Rightarrow> call_state \<Rightarrow> call_state \<times> (tool_thrown + tool_result)" where
  "finalizeScheduledExecution env x result st =
     (case postExecute env x result st of
        (st1, Inl e) \<Rightarrow> finishScheduledExecution env x (toolErrorResult e) st1
      | (st1, Inr post) \<Rightarrow>
          finishScheduledExecution env x (if tc_callerAborted st1 \<and> \<not> isError post then cancellationResult st1 post else post) st1)"

section \<open>Before dispatch\<close>

datatype preparation =
    PrepDispatch
  | PrepPost tool_result
  | PrepFinal tool_result

text \<open>\<open>None\<close> is \<open>ready\<close>.\<close>

definition createExecution :: "exec_input \<Rightarrow> call_state \<Rightarrow> call_state \<times> execution \<times> tool_result option" where
  "createExecution input st =
     (let visible = getTool (tc_registry st) (xi_name input) (xi_agent input);
          collapsed = (visible \<noteq> None \<and> collapses (tc_registry st) (xi_name input) (xi_agent input) (xi_parent input \<noteq> None));
          captured = (case visible of Some d \<Rightarrow> if td_finalizer d then Some d else None | None \<Rightarrow> None);
          st1 = st\<lparr>tc_finalizer := (if collapsed \<and> \<not> tc_callerAborted st then None else captured)\<rparr>;
          base = \<lparr>xe_callId = xi_callId input,
                  xe_rootCallId = (case xi_rootCallId input of Some rootId \<Rightarrow> rootId | None \<Rightarrow> xi_callId input),
                  xe_name = xi_name input, xe_arguments = None, xe_agent = xi_agent input, xe_parent = xi_parent input\<rparr> in
      case detach (xi_arguments input) of
        None \<Rightarrow> (st1, base, Some (toolErrorResult (typeError ''tool execution arguments must be losslessly JSON-serializable'')))
      | Some arguments \<Rightarrow>
          (st1, base\<lparr>xe_arguments := Some arguments\<rparr>,
           if collapsed then
             (if tc_callerAborted st then Some (toolAbortedBeforeDispatchResult [])
              else Some (toolErrorResult (unknownTool (xi_name input) (Some ''only run_code is callable directly''))))
           else None))"

text \<open>The decision of an approval: the denial reason if any, and whether the approval channel was cancelled.\<close>

definition serviceAsk ::
    "tool_env \<Rightarrow> execution \<Rightarrow> string option \<Rightarrow> call_state \<Rightarrow> call_state \<times> (tool_thrown + string option \<times> bool)" where
  "serviceAsk env x reason st =
     (case te_approval env x reason st of
        None \<Rightarrow> (st, Inr (Some (case reason of Some r \<Rightarrow> r | None \<Rightarrow> ''tool '' @ quoted (xe_name x) @ '' requires approval (not yet supported)''), False))
      | Some (effects, answer) \<Rightarrow>
          if xe_agent x = None then (st, Inr (Some (''tool '' @ quoted (xe_name x) @ '' requires approval, but the call has no agent to route it through''), False))
          else
            (applyEffects effects st, bindE answer (\<lambda>outcome. Inr
              (case outcome of
                 AllowedOnce \<Rightarrow> (None, False)
               | Rejected \<Rightarrow> (Some (''the user rejected tool '' @ quoted (xe_name x)), False)
               | ApprovalCancelled \<Rightarrow> (Some (''approval for tool '' @ quoted (xe_name x) @ '' was cancelled''), True)
               | ApprovalUnavailable \<Rightarrow> (Some (''tool '' @ quoted (xe_name x) @ '' requires approval, but no approval channel is available''), False)))))"

definition deniedResult :: "string \<Rightarrow> tool_result" where
  "deniedResult reason = toolErrorResult \<lparr>th_message = reason, th_info = None\<rparr>"

definition gateDecision :: "tool_env \<Rightarrow> execution \<Rightarrow> call_state \<Rightarrow> call_state \<times> (tool_thrown + string option \<times> bool)" where
  "gateDecision env x st =
     (let st0 = record_event PreExecute st;
          (effects, answer) = te_pre env x st0;
          st1 = applyEffects effects st0 in
      case answer of
        Inl e \<Rightarrow> (st1, Inl e)
      | Inr Allow \<Rightarrow> (st1, Inr (None, False))
      | Inr (Deny reason) \<Rightarrow> (st1, Inr (Some reason, False))
      | Inr (Ask reason) \<Rightarrow> serviceAsk env x reason st1)"

definition prepareGate :: "tool_env \<Rightarrow> execution \<Rightarrow> call_state \<Rightarrow> call_state \<times> preparation" where
  "prepareGate env x st =
     (case gateDecision env x st of
        (st1, Inl e) \<Rightarrow> (st1, PrepFinal (toolErrorResult e))
      | (st1, Inr (denial, approvalCancelled)) \<Rightarrow>
          let st2 = record_event (Decided (denial = None)) st1 in
          if tc_callerAborted st2 \<and> approvalCancelled then (st2, PrepPost (toolAbortedBeforeDispatchResult []))
          else
            (case (case denial of
                     Some reason \<Rightarrow> Inr (st2, Some reason)
                   | None \<Rightarrow>
                       bindE (guardReason (te_guard env x st2) (tc_registry st2) (xe_agent x)) (\<lambda>reason.
                         Inr (record_event (Guarded reason) st2, reason))) of
               Inl e \<Rightarrow> (st2, PrepFinal (toolErrorResult e))
             | Inr (st3, Some reason) \<Rightarrow>
                 (st3, case materializeFinalResult (deniedResult reason) of
                         Inl e \<Rightarrow> PrepFinal (toolErrorResult e)
                       | Inr r \<Rightarrow> PrepPost r)
             | Inr (st3, None) \<Rightarrow>
                 if tc_callerAborted st3 then (st3, PrepPost (toolAbortedBeforeDispatchResult []))
                 else (st3, PrepDispatch)))"

definition prepareExecution :: "tool_env \<Rightarrow> exec_input \<Rightarrow> call_state \<Rightarrow> call_state \<times> execution \<times> preparation" where
  "prepareExecution env input st =
     (case createExecution input st of
        (st1, x, Some result) \<Rightarrow> (st1, x, PrepFinal result)
      | (st1, x, None) \<Rightarrow>
          if tc_callerAborted st1 then (st1, x, PrepFinal (toolAbortedBeforeDispatchResult []))
          else (case prepareGate env x st1 of (st2, prepared) \<Rightarrow> (st2, x, prepared)))"

definition completeScheduledExecution :: "tool_env \<Rightarrow> execution \<Rightarrow> preparation \<Rightarrow> call_state \<Rightarrow> call_state \<times> (tool_thrown + tool_result)" where
  "completeScheduledExecution env x prepared st =
     (case prepared of
        PrepDispatch \<Rightarrow>
          (case dispatchScheduledExecution env x st of
             (st1, PostResult r) \<Rightarrow> finalizeScheduledExecution env x r st1
           | (st1, FinalResult r) \<Rightarrow> finishScheduledExecution env x r st1)
      | PrepPost r \<Rightarrow> finalizeScheduledExecution env x r st
      | PrepFinal r \<Rightarrow> finishScheduledExecution env x r st)"

definition execute :: "tool_env \<Rightarrow> exec_input \<Rightarrow> call_state \<Rightarrow> call_state \<times> (tool_thrown + tool_result)" where
  "execute env input st =
     (case prepareExecution env input st of
        (st1, x, prepared) \<Rightarrow> completeScheduledExecution env x prepared st1)"

definition newCall :: "registry \<Rightarrow> bool \<Rightarrow> call_state" where
  "newCall rg aborted =
     \<lparr>tc_registry = rg, tc_callerAborted = aborted, tc_ownAborted = [], tc_signal = CallerSignal, tc_deferred = [],
      tc_concluding = False, tc_bodyInvoked = False, tc_finalizer = None, tc_events = []\<rparr>"

section \<open>Well-formed values\<close>

definition sane :: "candidate \<Rightarrow> bool" where
  "sane c \<longleftrightarrow> wf_heap (fst c) \<and> known (fst c) (snd c)"

abbreviation jsonOf :: "candidate \<Rightarrow> json \<Rightarrow> bool" where
  "jsonOf c j \<equiv> represents (fst c) (snd c) j"

lemma detach_Some:
  assumes "sane c" "detach c = Some c'"
  shows "sane c'" "\<exists>j. jsonOf c j \<and> jsonOf c' j"
proof -
  obtain v h where s: "snapshotJsonValue (fst c) (snd c) = Some (Some (v, h))" "c' = (h, v)"
    using assms(2) by (auto simp: detach_def split: option.splits)
  with snapshot_wf [of "fst c" "snd c" v h] assms(1) show "sane c'" by (simp add: sane_def)
  from snapshot_exact [of "fst c" "snd c"] assms(1) s(1) obtain j new
    where "jsonOf c j" "h = fst c @ new" "\<forall>source. length source = length (fst c) \<longrightarrow> represents (source @ new) v j"
    by (auto simp: sane_def)
  then show "\<exists>j. jsonOf c j \<and> jsonOf c' j" using s(2) by auto
qed

lemma detach_None: "sane c \<Longrightarrow> detach c = None \<longleftrightarrow> (\<nexists>j. jsonOf c j)"
  using snapshot_exact [of "fst c" "snd c"] detach_Some [of c]
  by (fastforce simp: detach_def sane_def split: option.splits prod.splits)

lemma textContent_json: "sane (textContent t) \<and> (\<exists>j. jsonOf (textContent t) j)"
proof -
  have "represents (fst (textContent t)) (VRef 1) (JObj [(''type'', JStr ''text''), (''text'', JStr t)])"
    by (rule rep_obj [where p = objectProto]) (auto simp: textContent_def intro: represents.intros)
  then have "represents (fst (textContent t)) (VRef 0) (JArr [JObj [(''type'', JStr ''text''), (''text'', JStr t)]])"
    by (intro rep_arr [where p = arrayProto and items = "[Some (VRef 1)]"]) (auto simp: textContent_def)
  moreover have "sane (textContent t)" by (simp add: textContent_def wf_heap_def sane_def)
  ultimately show ?thesis by (auto simp: textContent_def)
qed

lemma detachE_Inr: "detachE e c = Inr c' \<longleftrightarrow> detach c = Some c'"
  by (auto simp: detachE_def split: option.splits)

lemma detachE_text: "\<exists>c. detachE e (textContent t) = Inr c"
  using detach_None [of "textContent t"] textContent_json [of t] by (auto simp: detachE_def split: option.splits)

lemma materialize_error: "\<exists>r. materializeFinalResult (toolErrorResult e) = Inr r \<and> xr_outcome r = Failure e"
  using detachE_text [of notLossless "''Error: '' @ th_message e"] by (auto simp: materializeFinalResult_def toolErrorResult_def)

lemma materialize_outcome: "materializeFinalResult r = Inr r' \<Longrightarrow> xr_outcome r' = xr_outcome r"
  by (auto simp: materializeFinalResult_def result_simps)

text \<open>\<open>orElse\<close> always answers.\<close>

lemma orElse_total: "\<exists>r'. orElse m = Inr r' \<and> (m = Inr r' \<or> isError r')"
proof (cases m)
  case (Inl e)
  then show ?thesis using materialize_error [of e] by (auto simp: orElse_def isError_def)
qed (simp add: orElse_def)

definition conforms :: "execution \<Rightarrow> candidate \<Rightarrow> bool" where
  "conforms x v \<longleftrightarrow> sane v \<and> (\<exists>d. td_name d = xe_name x \<and> supportedOutput d \<and> (\<exists>j. jsonOf v j \<and> inhabits (outputSchema (td_output d)) j))"

definition parts_sane :: "tool_result \<Rightarrow> bool" where
  "parts_sane r \<longleftrightarrow> sane (xr_content r) \<and> (\<forall>m. xr_meta r = Some m \<longrightarrow> sane m) \<and> (\<forall>c \<in> set (xr_contexts r). sane c)"

definition lossless_parts :: "tool_result \<Rightarrow> bool" where
  "lossless_parts r \<longleftrightarrow> (\<exists>j. jsonOf (xr_content r) j) \<and> (\<forall>m. xr_meta r = Some m \<longrightarrow> (\<exists>j. jsonOf m j))
     \<and> (\<forall>c \<in> set (xr_contexts r). \<exists>j. jsonOf c j)"

definition result_ok :: "execution \<Rightarrow> tool_result \<Rightarrow> bool" where
  "result_ok x r \<longleftrightarrow> parts_sane r \<and> (\<forall>v b. xr_outcome r = Success v b \<longrightarrow> conforms x v)"

lemma materialize_ok:
  assumes "result_ok x r" "materializeFinalResult r = Inr r'"
  shows "result_ok x r' \<and> lossless_parts r'"
proof -
  have *: "sane c' \<and> (\<exists>j. jsonOf c' j)" if "detach c = Some c'" "sane c" for c c'
    using detach_Some [OF that(2,1)] by blast
  obtain content meta contexts where m: "detach (xr_content r) = Some content"
      "(case xr_meta r of None \<Rightarrow> Inr None | Some m \<Rightarrow> bindE (detachE notLossless m) (\<lambda>m'. Inr (Some m'))) = Inr meta"
      "mapE (detachE notLossless) (xr_contexts r) = Inr contexts"
      "r' = r\<lparr>xr_content := content, xr_meta := meta, xr_contexts := contexts\<rparr>"
    using assms(2) by (auto simp: materializeFinalResult_def result_simps detachE_Inr)
  have p: "parts_sane r" using assms(1) by (simp add: result_ok_def)
  have "sane content \<and> (\<exists>j. jsonOf content j)" using * [OF m(1)] p by (simp add: parts_sane_def)
  moreover have "\<forall>m. meta = Some m \<longrightarrow> sane m \<and> (\<exists>j. jsonOf m j)"
    using m(2) p * by (fastforce simp: parts_sane_def result_simps detachE_Inr split: option.splits)
  moreover have "\<forall>c' \<in> set contexts. sane c' \<and> (\<exists>j. jsonOf c' j)"
  proof
    fix c' assume "c' \<in> set contexts"
    then obtain i where i: "i < length contexts" "c' = contexts ! i" by (auto simp: in_set_conv_nth)
    then have "detach (xr_contexts r ! i) = Some c'" "xr_contexts r ! i \<in> set (xr_contexts r)"
      using m(3) by (auto simp: mapE_Inr detachE_Inr list_all2_conv_all_nth)
    with * p show "sane c' \<and> (\<exists>j. jsonOf c' j)" by (simp add: parts_sane_def)
  qed
  ultimately show ?thesis
    using assms(1) by (simp add: m(4) result_ok_def parts_sane_def lossless_parts_def)
qed

lemma error_ok [simp]: "result_ok x (toolErrorResult e)"
  using textContent_json [of "''Error: '' @ th_message e"] by (simp add: result_ok_def parts_sane_def toolErrorResult_def)

lemma aborted_ok: "(\<forall>c \<in> set prior. sane c) \<Longrightarrow> result_ok x (toolAbortedResult prior) \<and> result_ok x (toolAbortedBeforeDispatchResult prior)"
  using textContent_json [of "''Error: tool call aborted''"] textContent_json [of "''Error: tool call aborted before dispatch''"]
  by (simp add: result_ok_def parts_sane_def toolAbortedResult_def toolAbortedBeforeDispatchResult_def)

lemma errors [simp]: "isError (toolErrorResult e)" "isError (toolAbortedResult p)" "isError (toolAbortedBeforeDispatchResult p)"
    "isError (deniedResult reason)" "isError (cancellationResult st r)"
  by (simp_all add: isError_def toolErrorResult_def toolAbortedResult_def toolAbortedBeforeDispatchResult_def deniedResult_def
      cancellationResult_def)

text \<open>The representation hypothesis: values of the environment are references into well-formed heaps.\<close>

fun effect_sane :: "call_effect \<Rightarrow> bool" where
  "effect_sane (DeferContext m) \<longleftrightarrow> sane m"
| "effect_sane _ \<longleftrightarrow> True"

abbreviation effects_sane :: "call_effect list \<Rightarrow> bool" where
  "effects_sane effects \<equiv> list_all effect_sane effects"

fun wrapped_sane :: "tool_thrown + wrapped \<Rightarrow> bool" where
  "wrapped_sane (Inr (Authored r)) \<longleftrightarrow> parts_sane r \<and> (\<forall>v b. xr_outcome r = Success v b \<longrightarrow> sane v)"
| "wrapped_sane _ \<longleftrightarrow> True"

primrec around_sane :: "around \<Rightarrow> bool" where
  "around_sane (Answer f) \<longleftrightarrow> (\<forall>st. effects_sane (fst (f st)) \<and> wrapped_sane (snd (f st)))"
| "around_sane (Next f k) \<longleftrightarrow> (\<forall>st. effects_sane (f st)) \<and> (\<forall>r. around_sane (k r))"

fun post_sane :: "tool_thrown + post_decision \<Rightarrow> bool" where
  "post_sane (Inr (AcceptContent content contexts)) \<longleftrightarrow> (\<forall>c. content = Some c \<longrightarrow> sane c) \<and> (\<forall>c \<in> set contexts. sane c)"
| "post_sane (Inr (AcceptValue value contexts)) \<longleftrightarrow> sane value \<and> (\<forall>c \<in> set contexts. sane c)"
| "post_sane (Inr (Block feedback message contexts)) \<longleftrightarrow> sane feedback \<and> (\<forall>c \<in> set contexts. sane c)"
| "post_sane _ \<longleftrightarrow> True"

definition env_sane :: "tool_env \<Rightarrow> bool" where
  "env_sane env \<longleftrightarrow>
     (\<forall>x st. effects_sane (fst (te_pre env x st)))
     \<and> (\<forall>x reason st effects answer. te_approval env x reason st = Some (effects, answer) \<longrightarrow> effects_sane effects)
     \<and> (\<forall>x. around_sane (te_around env x))
     \<and> (\<forall>tool x st. effects_sane (fst (te_body env tool x st)) \<and> (\<forall>v. snd (te_body env tool x st) = Inr v \<longrightarrow> sane v))
     \<and> (\<forall>tool args v c. te_render env tool args v = Inr c \<longrightarrow> sane c)
     \<and> (\<forall>tool args v c. te_meta env tool args v = Inr c \<longrightarrow> sane c)
     \<and> (\<forall>x r st. effects_sane (fst (te_post env x r st)) \<and> post_sane (snd (te_post env x r st)))
     \<and> (\<forall>tool x r c. te_finalize env tool x r = Inr (Some c) \<longrightarrow> sane c)"

lemma env_saneD:
  assumes "env_sane env"
  shows "te_pre env x st = (effects, d) \<Longrightarrow> effects_sane effects"
    "te_approval env x reason st = Some (effects, answer) \<Longrightarrow> effects_sane effects"
    "around_sane (te_around env x)"
    "te_body env tool x st = (effects, v) \<Longrightarrow> effects_sane effects"
    "te_body env tool x st = (effects, Inr c) \<Longrightarrow> sane c"
    "te_render env tool args c = Inr c' \<Longrightarrow> sane c'"
    "te_meta env tool args c = Inr c' \<Longrightarrow> sane c'"
    "te_post env x r st = (effects, p) \<Longrightarrow> effects_sane effects"
    "te_post env x r st = (effects, p) \<Longrightarrow> post_sane p"
    "te_finalize env tool x r = Inr (Some c) \<Longrightarrow> sane c"
  using assms unfolding env_sane_def by (metis fst_conv snd_conv)+

section \<open>The effect of a stage\<close>

text \<open>From one state of a call to a later one: a cancelled caller stays cancelled, and the trace grew by body runs only.\<close>

definition body_runs :: "execution \<Rightarrow> pipeline_event list \<Rightarrow> bool" where
  "body_runs x events \<longleftrightarrow> (\<forall>e \<in> set events. \<exists>d rg. e = BodyRun d (xe_arguments x) \<and> registry_ok rg
     \<and> resolveExecution rg (xe_name x) (xe_agent x) (xe_parent x \<noteq> None) = Some d)"

definition call_ok :: "call_state \<Rightarrow> bool" where
  "call_ok st \<longleftrightarrow> registry_ok (tc_registry st) \<and> (\<forall>m \<in> set (tc_deferred st). sane m)"

definition advances :: "execution \<Rightarrow> call_state \<Rightarrow> call_state \<Rightarrow> bool" where
  "advances x st st' \<longleftrightarrow> call_ok st' \<and> (tc_callerAborted st \<longrightarrow> tc_callerAborted st') \<and> tc_finalizer st' = tc_finalizer st
     \<and> (\<exists>runs. tc_events st' = tc_events st @ runs \<and> body_runs x runs)"

lemma body_runs_append [simp]: "body_runs x (as @ bs) \<longleftrightarrow> body_runs x as \<and> body_runs x bs" "body_runs x []"
  by (auto simp: body_runs_def)

lemma record_event_frame [simp]:
  "tc_registry (record_event e st) = tc_registry st" "tc_deferred (record_event e st) = tc_deferred st"
  "tc_finalizer (record_event e st) = tc_finalizer st" "tc_callerAborted (record_event e st) = tc_callerAborted st"
  "tc_events (record_event e st) = tc_events st @ [e]" "tc_bodyInvoked (record_event e st) = tc_bodyInvoked st"
  "call_ok (record_event e st) = call_ok st"
  by (simp_all add: record_event_def call_ok_def)

lemma advances_trans: "advances x a b \<Longrightarrow> advances x b c \<Longrightarrow> advances x a c"
  by (auto simp: advances_def)

lemma applyEffects_frame:
  "tc_events (applyEffects effects st) = tc_events st" "tc_finalizer (applyEffects effects st) = tc_finalizer st"
  "tc_callerAborted st \<Longrightarrow> tc_callerAborted (applyEffects effects st)"
proof (induction effects arbitrary: st)
  case (Cons a effects)
  { case 1 then show ?case using Cons(1) by (cases a) auto }
  { case 2 then show ?case using Cons(2) by (cases a) auto }
  { case 3 then show ?case using Cons(3) [of "applyEffect a st"] by (cases a) auto }
qed simp_all

lemma applyEffects_call_ok: "effects_sane effects \<Longrightarrow> call_ok st \<Longrightarrow> call_ok (applyEffects effects st)"
proof (induction effects arbitrary: st)
  case (Cons a effects)
  then have "call_ok (applyEffect a st)"
    by (cases a) (simp_all add: call_ok_def applyAction_ok)
  with Cons show ?case by simp
qed simp

lemma effects_advance: "effects_sane effects \<Longrightarrow> call_ok st \<Longrightarrow> advances x st (applyEffects effects st)"
  by (auto simp: advances_def applyEffects_frame applyEffects_call_ok body_runs_def)

lemma projectionError_Inr: "projectionError n p r = Inr c \<longleftrightarrow> r = Inr c"
  by (auto simp: projectionError_def split: sum.splits)

lemma createSuccess_ok:
  assumes "env_sane env" "sane c" "supportedOutput tool" "td_name tool = xe_name x" "createSuccessResult env x tool c st = Inr r"
  shows "result_ok x r \<and> \<not> isError r"
proof -
  let ?meta = "\<lambda>v. if xe_parent x = None \<and> outputMeta (td_output tool) then
        bindE (projectionError (td_name tool) ''presentationMeta'' (te_meta env tool (xe_arguments x) v)) (\<lambda>m.
        bindE (snapshotProjection (td_name tool) ''presentationMeta'' m) (\<lambda>m'. Inr (Some m')))
      else Inr None"
  obtain v where v1: "snapshotToolValue (td_name tool) c = Inr v"
      "validateJsonSchemaValue (fst v) (outputSchema (td_output tool)) (snd v) ''value'' = Some []"
    and v2: "bindE (projectionError (td_name tool) ''render'' (te_render env tool (xe_arguments x) v)) (\<lambda>rendered.
         bindE (snapshotProjection (td_name tool) ''render'' rendered) (\<lambda>content.
         bindE (?meta v) (\<lambda>meta. materializeFinalResult
             \<lparr>xr_outcome = Success v (tc_concluding st), xr_content = content, xr_meta = meta, xr_contexts = []\<rparr>))) = Inr r"
    using assms(5) unfolding createSuccessResult_def bindE_Inr_iff Inr_if_iff not_not by blast
  obtain rendered content meta where v3: "te_render env tool (xe_arguments x) v = Inr rendered" "detach rendered = Some content"
      "?meta v = Inr meta"
      and 6: "materializeFinalResult \<lparr>xr_outcome = Success v (tc_concluding st), xr_content = content, xr_meta = meta, xr_contexts = []\<rparr> = Inr r"
    using v2 unfolding bindE_Inr_iff projectionError_Inr snapshotProjection_def detachE_Inr by blast
  have 5: "meta = None \<or> (\<exists>m m'. te_meta env tool (xe_arguments x) v = Inr m \<and> detach m = Some m' \<and> meta = Some m')"
    using v3(3) by (auto simp: result_simps projectionError_Inr snapshotProjection_def detachE_Inr split: if_splits)
  have 1: "detach c = Some v" using v1(1) by (simp add: snapshotToolValue_def detachE_Inr)
  note v = detach_Some [OF assms(2) 1]
  obtain schema m where d: "td_output tool = OutputDecl schema m" "assertSupportedJsonSchema schema = Inr ()"
    using assms(3) by (auto simp: supportedOutput_def)
  have "\<exists>j. jsonOf v j \<and> inhabits schema j"
    using validator_exact [of "fst v" "snd v" schema "''value''"] v1(2) v(1) d supported_accepted [OF d(2)]
    by (simp add: validateJsonSchemaValue_def checkValue_result sane_def)
  then have "conforms x v" using assms(3,4) d(1) v(1) unfolding conforms_def by (intro conjI exI [of _ tool]) auto
  moreover have "sane content" using detach_Some(1) [OF env_saneD(6) [OF assms(1) v3(1)] v3(2)] .
  moreover have "\<forall>m. meta = Some m \<longrightarrow> sane m" using detach_Some(1) env_saneD(7) [OF assms(1)] 5 by blast
  ultimately have "result_ok x \<lparr>xr_outcome = Success v (tc_concluding st), xr_content = content, xr_meta = meta, xr_contexts = []\<rparr>"
    by (simp add: result_ok_def parts_sane_def)
  with materialize_ok [OF _ 6] materialize_outcome [OF 6] show ?thesis by (simp add: isError_def)
qed

lemma dispatchToolBody_ok:
  assumes "env_sane env" "call_ok st" "dispatchToolBody env x st = (st', r)"
  shows "advances x st st' \<and> result_ok x (fst r)"
proof (cases "isAborted st (fuseToolSignals (tc_signal st))")
  case True
  with assms(2,3) show ?thesis
    by (auto simp: dispatchToolBody_def Let_def advances_def body_runs_def aborted_ok)
next
  case False
  let ?st1 = "st\<lparr>tc_signal := fuseToolSignals (tc_signal st)\<rparr>"
  have ok1: "registry_ok (tc_registry ?st1)" using assms(2) by (simp add: call_ok_def)
  show ?thesis
  proof (cases "resolveFor x ?st1")
    case None
    with False assms(2,3) show ?thesis
      by (auto simp: dispatchToolBody_def Let_def advances_def body_runs_def call_ok_def)
  next
    case (Some tool)
    note known = resolve_known [OF ok1 Some]
    let ?st2 = "record_event (BodyRun tool (xe_arguments x)) (?st1\<lparr>tc_bodyInvoked := True\<rparr>)"
    obtain effects returned where b: "te_body env tool x ?st2 = (effects, returned)" by fastforce
    let ?st3 = "applyEffects effects ?st2"
    have sane: "effects_sane effects" "\<And>v. returned = Inr v \<Longrightarrow> sane v"
      using env_saneD(4,5) [OF assms(1)] b by blast+
    have "body_runs x [BodyRun tool (xe_arguments x)]"
      using ok1 Some by (auto simp: body_runs_def)
    then have "advances x st ?st2" using assms(2) by (auto simp: advances_def call_ok_def record_event_def)
    moreover have "advances x ?st2 ?st3"
      using sane(1) calculation by (intro effects_advance) (auto simp: advances_def)
    ultimately have "advances x st ?st3" by (rule advances_trans)
    then have "advances x st (?st3\<lparr>tc_signal := tc_signal st\<rparr>)" by (auto simp: advances_def call_ok_def)
    moreover have "result_ok x result" if "bindE returned (\<lambda>v. createSuccessResult env x tool v ?st3) = Inr result" for result
      using that createSuccess_ok [OF assms(1) sane(2) known [THEN conjunct2] known [THEN conjunct1]] unfolding bindE_Inr_iff by blast
    moreover have "result_ok x (toolAbortedResult (xr_contexts result))" if "result_ok x result" for result
      by (rule aborted_ok [THEN conjunct1]) (use that in \<open>simp add: result_ok_def parts_sane_def\<close>)
    moreover have "dispatchToolBody env x st = (?st3\<lparr>tc_signal := tc_signal st\<rparr>,
        (case bindE returned (\<lambda>v. createSuccessResult env x tool v ?st3) of
           Inl e \<Rightarrow> (toolErrorResult e, False)
         | Inr result \<Rightarrow>
             if isAborted ?st3 (fuseToolSignals (tc_signal st)) then (toolAbortedResult (xr_contexts result), False) else (result, True)))"
      using False Some b by (simp add: dispatchToolBody_def Let_def)
    ultimately show ?thesis
      using assms(3) by (cases "bindE returned (\<lambda>v. createSuccessResult env x tool v ?st3)") (auto split: if_splits)
  qed
qed

text \<open>What the registry may assume of a wrapper's answer.\<close>

definition answer_ok :: "execution \<Rightarrow> bool \<Rightarrow> tool_result \<Rightarrow> bool" where
  "answer_ok x mark r \<longleftrightarrow> parts_sane r \<and> (if mark then result_ok x r else \<forall>v b. xr_outcome r = Success v b \<longrightarrow> sane v)"

lemma result_answer: "result_ok x r \<Longrightarrow> answer_ok x mark r"
  by (auto simp: answer_ok_def result_ok_def conforms_def)

lemma runAround_ok:
  assumes "env_sane env"
  shows "around_sane a \<Longrightarrow> call_ok st \<Longrightarrow> \<forall>r \<in> set results. result_ok x (fst r) \<Longrightarrow> runAround env x a results st = (st', answer)
    \<Longrightarrow> advances x st st' \<and> (\<forall>r mark. answer = Inr (r, mark) \<longrightarrow> answer_ok x mark r)"
proof (induction a arbitrary: results st)
  case (Answer f)
  obtain effects w where f: "f st = (effects, w)" by fastforce
  then have "effects_sane effects" "wrapped_sane w" using Answer.prems(1) by (metis around_sane.simps(1) fst_conv, metis around_sane.simps(1) snd_conv)
  then have adv: "advances x st (applyEffects effects st)" using Answer.prems(2) by (intro effects_advance)
  show ?case
  proof (cases w)
    case (Inr v)
    show ?thesis
    proof (cases v)
      case (Returned i)
      with Inr adv f Answer.prems(3,4) nth_mem [of i results] show ?thesis
        by (auto simp: Let_def split: if_splits intro!: result_answer) (metis fst_conv nth_mem)
    next
      case (Authored r)
      with Inr adv f \<open>wrapped_sane w\<close> Answer.prems(4) show ?thesis by (auto simp: Let_def answer_ok_def)
    qed
  qed (use adv f Answer.prems(4) in \<open>auto simp: Let_def\<close>)
next
  case (Next f k)
  have "effects_sane (f st)" using Next.prems(1) by simp
  then have 1: "advances x st (applyEffects (f st) st)" using Next.prems(2) by (intro effects_advance)
  obtain st1 r where d: "dispatchToolBody env x (applyEffects (f st) st) = (st1, r)" by (metis surj_pair)
  have 2: "advances x (applyEffects (f st) st) st1" "result_ok x (fst r)"
    using dispatchToolBody_ok [OF assms _ d] 1 by (auto simp: advances_def)
  have "advances x st1 st' \<and> (\<forall>r mark. answer = Inr (r, mark) \<longrightarrow> answer_ok x mark r)"
    by (rule Next.IH [where results = "results @ [r]"]) (use Next.prems d 2 in \<open>auto simp: advances_def\<close>)
  with 1 2 show ?case by (blast intro: advances_trans)
qed

lemma with_contexts_ok:
  assumes "result_ok x r" "\<forall>c \<in> set contexts. sane c"
  shows "result_ok x (r\<lparr>xr_contexts := contexts\<rparr>)"
  using assms by (simp add: result_ok_def parts_sane_def)

lemma with_content_ok:
  assumes "result_ok x r" "sane content"
  shows "result_ok x (r\<lparr>xr_content := content\<rparr>)"
  using assms by (simp add: result_ok_def parts_sane_def)

lemma contexts_sane: "result_ok x r \<Longrightarrow> c \<in> set (xr_contexts r) \<Longrightarrow> sane c" "answer_ok x mark r \<Longrightarrow> c \<in> set (xr_contexts r) \<Longrightarrow> sane c"
  by (simp_all add: result_ok_def answer_ok_def parts_sane_def)

lemma cancellation_ok: "result_ok x r \<Longrightarrow> result_ok x (cancellationResult st r)"
  unfolding cancellationResult_def using aborted_ok [of "xr_contexts r" x] contexts_sane(1) [of x r] by auto

lemma normalize_ok:
  assumes "env_sane env" "registry_ok (tc_registry st)" "answer_ok x mark r" "normalizeDispatchResult env x (r, mark) st = Inr n"
  shows "result_ok x n"
proof (cases "mark \<or> isError r")
  case True
  with assms(3,4) show ?thesis
    by (auto simp: normalizeDispatchResult_def answer_ok_def result_ok_def isError_def split: tool_outcome.splits if_splits)
next
  case False
  then obtain v b where v: "xr_outcome r = Success v b" by (auto simp: isError_def split: tool_outcome.splits)
  then have sv: "sane v" using False assms(3) by (simp add: answer_ok_def)
  obtain tool m where t: "resolveFor x st = Some tool" "createSuccessResult env x tool v st = Inr m" "n = m\<lparr>xr_contexts := xr_contexts r\<rparr>"
    using assms(4) False v by (auto simp: normalizeDispatchResult_def result_simps split: option.splits)
  note known = resolve_known [OF assms(2) t(1)]
  show ?thesis
    using createSuccess_ok [OF assms(1) sv known [THEN conjunct2] known [THEN conjunct1] t(2)] contexts_sane(2) [OF assms(3)]
    unfolding t(3) by (auto intro: with_contexts_ok)
qed

lemma dispatchScheduled_ok:
  assumes "env_sane env" "call_ok st" "dispatchScheduledExecution env x st = (st', s)"
  shows "advances x (record_event Execute st) st' \<and>
    (case s of PostResult r \<Rightarrow> result_ok x r \<and> (tc_callerAborted st' \<longrightarrow> isError r) | FinalResult r \<Rightarrow> result_ok x r \<and> isError r)"
proof -
  obtain st1 answered where run: "runAround env x (te_around env x) [] (record_event Execute st) = (st1, answered)" by fastforce
  have adv: "advances x (record_event Execute st) st1" and ans: "\<And>r mark. answered = Inr (r, mark) \<Longrightarrow> answer_ok x mark r"
    using runAround_ok [OF assms(1) env_saneD(3) [OF assms(1)] _ _ run] assms(2) by auto
  then have ok: "call_ok st1" by (simp add: advances_def)
  show ?thesis
  proof (cases "bindE answered (\<lambda>r. normalizeDispatchResult env x r st1)")
    case (Inl e)
    with assms(3) run adv show ?thesis by (auto simp: dispatchScheduledExecution_def)
  next
    case (Inr n)
    then obtain r mark where r: "answered = Inr (r, mark)" "normalizeDispatchResult env x (r, mark) st1 = Inr n"
      by (auto simp: result_simps)
    have n: "result_ok x n" using ok by (intro normalize_ok [OF assms(1) _ ans [OF r(1)] r(2)]) (simp add: call_ok_def)
    let ?n = "n\<lparr>xr_contexts := tc_deferred st1 @ xr_contexts n\<rparr>"
    have "result_ok x ?n" using ok contexts_sane(1) [OF n] by (intro with_contexts_ok [OF n]) (auto simp: call_ok_def)
    moreover have "st' = st1 \<and> s = PostResult (if tc_callerAborted st1 \<and> \<not> isError ?n then cancellationResult st1 ?n else ?n)"
      using assms(3) run Inr by (auto simp: dispatchScheduledExecution_def Let_def)
    ultimately show ?thesis using adv cancellation_ok [of x ?n st1] by auto
  qed
qed

lemma postExecute_ok:
  assumes "env_sane env" "call_ok st" "result_ok x r" "postExecute env x r st = (st', answer)"
  shows "call_ok st' \<and> tc_events st' = tc_events st @ [PostExecute r] \<and> tc_finalizer st' = tc_finalizer st
    \<and> (tc_callerAborted st \<longrightarrow> tc_callerAborted st') \<and> (\<forall>p. answer = Inr p \<longrightarrow> result_ok x p)"
proof -
  obtain effects d where d: "te_post env x r (record_event (PostExecute r) st) = (effects, d)" by fastforce
  have st': "st' = applyEffects effects (record_event (PostExecute r) st)"
    using assms(4) d by (simp add: postExecute_def Let_def)
  have ok: "call_ok st'" unfolding st' using assms(2) by (intro applyEffects_call_ok env_saneD(8) [OF assms(1) d]) simp
  have post: "post_sane d" by (rule env_saneD(9) [OF assms(1) d])
  have "result_ok x p" if p: "answer = Inr p" for p
  proof -
    obtain decision where dec: "d = Inr decision" using p assms(4) d by (cases d) (auto simp: postExecute_def Let_def)
    show ?thesis
    proof (cases decision)
      case (AcceptContent content contexts)
      then have "p = r\<lparr>xr_content := (case content of Some c \<Rightarrow> c | None \<Rightarrow> xr_content r), xr_contexts := xr_contexts r @ contexts\<rparr>"
        using assms(4) d dec p by (simp add: postExecute_def Let_def)
      moreover have "sane (case content of Some c \<Rightarrow> c | None \<Rightarrow> xr_content r)"
        using post dec AcceptContent assms(3) by (auto simp: result_ok_def parts_sane_def split: option.split)
      moreover have "\<forall>c \<in> set (xr_contexts r @ contexts). sane c"
        using post dec AcceptContent contexts_sane(1) [OF assms(3)] by auto
      ultimately show ?thesis using with_contexts_ok [OF with_content_ok [OF assms(3)]] by simp
    next
      case (AcceptValue v contexts)
      then obtain tool m where t: "resolveFor x st' = Some tool" "createSuccessResult env x tool v st' = Inr m"
          "p = m\<lparr>xr_contexts := xr_contexts r @ contexts\<rparr>"
        using assms(4) d dec p st' by (auto simp: postExecute_def Let_def result_simps split: if_splits option.splits)
      have sv: "sane v" using post dec AcceptValue by simp
      have rg: "registry_ok (tc_registry st')" using ok by (simp add: call_ok_def)
      note known = resolve_known [OF rg t(1)]
      have "\<forall>c \<in> set (xr_contexts r @ contexts). sane c"
        using post dec AcceptValue contexts_sane(1) [OF assms(3)] by auto
      then show ?thesis
        using createSuccess_ok [OF assms(1) sv known [THEN conjunct2] known [THEN conjunct1] t(2)]
        unfolding t(3) by (auto intro: with_contexts_ok)
    next
      case AcceptBoth
      with assms(4) d dec p show ?thesis by (simp add: postExecute_def Let_def)
    next
      case (Block feedback message contexts)
      with assms(4) d dec p post show ?thesis by (auto simp: postExecute_def Let_def result_ok_def parts_sane_def)
    qed
  qed
  with ok show ?thesis by (simp add: st' applyEffects_frame)
qed

lemma orElse_ok:
  assumes "\<And>r. m = Inr r \<Longrightarrow> result_ok x r \<and> lossless_parts r"
  shows "\<exists>r. orElse m = Inr r \<and> result_ok x r \<and> lossless_parts r \<and> (m = Inr r \<or> isError r)"
proof (cases m)
  case (Inl e)
  obtain r where "materializeFinalResult (toolErrorResult e) = Inr r" "xr_outcome r = Failure e" using materialize_error by blast
  with materialize_ok [OF error_ok this(1)] Inl show ?thesis by (simp add: orElse_def isError_def)
qed (use assms in \<open>simp add: orElse_def\<close>)

lemma finish_ok:
  assumes "env_sane env" "result_ok x r"
  shows "\<exists>final. finishScheduledExecution env x r st = (record_event (ResultEvent final) st, Inr final)
    \<and> result_ok x final \<and> lossless_parts final \<and> (isError final \<or> xr_outcome final = xr_outcome r)"
proof -
  obtain r1 where r1: "orElse (materializeFinalResult r) = Inr r1" "result_ok x r1" "materializeFinalResult r = Inr r1 \<or> isError r1"
    using orElse_ok [of "materializeFinalResult r" x] materialize_ok [OF assms(2)] by blast
  have out1: "isError r1 \<or> xr_outcome r1 = xr_outcome r" using r1(3) materialize_outcome by auto
  let ?f = "bindE (applyFinalContent env x st r1) materializeFinalResult"
  have applied: "result_ok x r2 \<and> xr_outcome r2 = xr_outcome r1" if "applyFinalContent env x st r1 = Inr r2" for r2
    using that r1(2) env_saneD(10) [OF assms(1)]
    by (fastforce simp: applyFinalContent_def result_simps intro: with_content_ok split: option.splits)
  obtain final where f: "orElse ?f = Inr final" "result_ok x final" "lossless_parts final" "?f = Inr final \<or> isError final"
    using orElse_ok [of ?f x] applied materialize_ok by (metis bindE_Inr_iff)
  have "isError final \<or> xr_outcome final = xr_outcome r1"
    using f(4) applied materialize_outcome by (auto simp: result_simps)
  then have "isError final \<or> xr_outcome final = xr_outcome r" using out1 by (auto simp: isError_def)
  with r1(1) f show ?thesis by (simp add: finishScheduledExecution_def)
qed

lemma finalize_ok:
  assumes "env_sane env" "call_ok st" "result_ok x r"
  shows "\<exists>st' final. finalizeScheduledExecution env x r st = (st', Inr final) \<and> tc_events st' = tc_events st @ [PostExecute r, ResultEvent final]
    \<and> result_ok x final \<and> lossless_parts final \<and> (tc_callerAborted st' \<longrightarrow> isError final) \<and> (tc_callerAborted st \<longrightarrow> tc_callerAborted st')"
proof -
  obtain st1 answer where p: "postExecute env x r st = (st1, answer)" by fastforce
  note post = postExecute_ok [OF assms p]
  let ?r = "case answer of Inl e \<Rightarrow> toolErrorResult e
    | Inr q \<Rightarrow> if tc_callerAborted st1 \<and> \<not> isError q then cancellationResult st1 q else q"
  have "result_ok x ?r" using post cancellation_ok by (auto split: sum.split)
  then obtain final where f: "finishScheduledExecution env x ?r st1 = (record_event (ResultEvent final) st1, Inr final)"
      "result_ok x final" "lossless_parts final" "isError final \<or> xr_outcome final = xr_outcome ?r"
    using finish_ok [OF assms(1)] by blast
  have "tc_callerAborted st1 \<longrightarrow> isError ?r" by (auto split: sum.split)
  then have "tc_callerAborted st1 \<longrightarrow> isError final" using f(4) by (auto simp: isError_def)
  moreover have "finalizeScheduledExecution env x r st = finishScheduledExecution env x ?r st1"
    using p by (auto simp: finalizeScheduledExecution_def split: sum.split)
  ultimately show ?thesis using f post by auto
qed

section \<open>The gate\<close>

text \<open>Permission: the policy allowed the call, or asked and a human allowed it once, and then no guard denied it.\<close>

definition permitted :: "tool_env \<Rightarrow> execution \<Rightarrow> call_state \<Rightarrow> bool" where
  "permitted env x st \<longleftrightarrow> (\<exists>effects st'.
     te_pre env x (record_event PreExecute st) = (effects, Inr Allow) \<and> st' = applyEffects effects (record_event PreExecute st)
        \<and> guardReason (te_guard env x (record_event (Decided True) st')) (tc_registry st') (xe_agent x) = Inr None
     \<or> (\<exists>reason asked. te_pre env x (record_event PreExecute st) = (effects, Inr (Ask reason)) \<and> xe_agent x \<noteq> None
        \<and> te_approval env x reason (applyEffects effects (record_event PreExecute st)) = Some (asked, Inr AllowedOnce)
        \<and> st' = applyEffects asked (applyEffects effects (record_event PreExecute st))
        \<and> guardReason (te_guard env x (record_event (Decided True) st')) (tc_registry st') (xe_agent x) = Inr None))"

lemma gateDecision_ok:
  assumes "env_sane env" "call_ok st" "gateDecision env x st = (st', d)"
  shows "call_ok st' \<and> tc_events st' = tc_events st @ [PreExecute] \<and> tc_finalizer st' = tc_finalizer st
    \<and> (tc_callerAborted st \<longrightarrow> tc_callerAborted st')
    \<and> (\<forall>c. d = Inr (None, c) \<and> guardReason (te_guard env x (record_event (Decided True) st')) (tc_registry st') (xe_agent x) = Inr None \<longrightarrow> permitted env x st)"
proof -
  obtain effects answer where a: "te_pre env x (record_event PreExecute st) = (effects, answer)" by fastforce
  let ?st1 = "applyEffects effects (record_event PreExecute st)"
  have ok: "call_ok ?st1" using assms(2) env_saneD(1) [OF assms(1) a] by (intro applyEffects_call_ok) auto
  have frame: "tc_events ?st1 = tc_events st @ [PreExecute]" "tc_finalizer ?st1 = tc_finalizer st"
      "tc_callerAborted st \<longrightarrow> tc_callerAborted ?st1"
    by (simp_all add: applyEffects_frame)
  consider "\<exists>e. answer = Inl e" | "answer = Inr Allow" | "\<exists>r. answer = Inr (Deny r)" | reason where "answer = Inr (Ask reason)"
    by (metis pre_decision.exhaust sum.exhaust)
  then show ?thesis
  proof cases
    case 2
    with assms(3) a have "st' = ?st1" "d = Inr (None, False)" by (simp_all add: gateDecision_def Let_def)
    with ok frame a 2 show ?thesis by (auto simp: permitted_def)
  next
    case (4 reason)
    with assms(3) a have s: "serviceAsk env x reason ?st1 = (st', d)" by (simp add: gateDecision_def Let_def)
    show ?thesis
    proof (cases "xe_agent x = None \<or> te_approval env x reason ?st1 = None")
      case True
      with s have "st' = ?st1" "\<forall>c. d \<noteq> Inr (None, c)" by (auto simp: serviceAsk_def split: option.splits)
      with ok frame show ?thesis by auto
    next
      case False
      then obtain asked out where t: "te_approval env x reason ?st1 = Some (asked, out)" by auto
      with s False have d: "st' = applyEffects asked ?st1" "d = Inr (None, c) \<Longrightarrow> out = Inr AllowedOnce" for c
        by (auto simp: serviceAsk_def result_simps split: approval_outcome.split_asm) (metis approval_outcome.exhaust)
      have "call_ok st'" unfolding d(1) by (rule applyEffects_call_ok [OF env_saneD(2) [OF assms(1) t] ok])
      then show ?thesis
        using d frame 4 a t False by (auto simp: permitted_def applyEffects_frame)
    qed
  qed (use assms(3) a ok frame in \<open>auto simp: gateDecision_def Let_def\<close>)
qed

lemma denied_materialized: "\<exists>r. materializeFinalResult (deniedResult reason) = Inr r \<and> result_ok x r \<and> isError r"
  using materialize_error [of "\<lparr>th_message = reason, th_info = None\<rparr>"] materialize_ok [OF error_ok]
  by (fastforce simp: deniedResult_def isError_def)

lemma gate_ok:
  assumes "env_sane env" "call_ok st" "prepareGate env x st = (st', p)"
  shows "call_ok st' \<and> tc_finalizer st' = tc_finalizer st \<and> (tc_callerAborted st \<longrightarrow> tc_callerAborted st') \<and>
    (case p of
       PrepDispatch \<Rightarrow> tc_events st' = tc_events st @ [PreExecute, Decided True, Guarded None] \<and> permitted env x st
     | PrepPost r \<Rightarrow> result_ok x r \<and> isError r \<and> (\<exists>d g. tc_events st' = tc_events st @ [PreExecute, Decided d] @ g
         \<and> (g = [] \<or> (\<exists>reason. g = [Guarded reason])))
     | PrepFinal r \<Rightarrow> result_ok x r \<and> isError r
         \<and> (tc_events st' = tc_events st @ [PreExecute] \<or> (\<exists>d. tc_events st' = tc_events st @ [PreExecute, Decided d])))"
proof -
  obtain st1 d where g: "gateDecision env x st = (st1, d)" by fastforce
  note g1 = gateDecision_ok [OF assms(1,2) g]
  show ?thesis
  proof (cases d)
    case (Inl e)
    with assms(3) g g1 show ?thesis by (auto simp: prepareGate_def)
  next
    case (Inr a)
    obtain denial cancelled where a: "a = (denial, cancelled)" by fastforce
    let ?st2 = "record_event (Decided (denial = None)) st1"
    show ?thesis
    proof (cases "tc_callerAborted st1 \<and> cancelled")
      case True
      with assms(3) g Inr a have "st' = ?st2" "p = PrepPost (toolAbortedBeforeDispatchResult [])"
        by (auto simp: prepareGate_def Let_def)
      with g1 aborted_ok [of "[]" x] show ?thesis by auto
    next
      case no: False
      show ?thesis
      proof (cases denial)
        case (Some reason)
        with assms(3) g Inr a no have "st' = ?st2"
          "p = (case materializeFinalResult (deniedResult reason) of Inl e \<Rightarrow> PrepFinal (toolErrorResult e) | Inr r \<Rightarrow> PrepPost r)"
          by (auto simp: prepareGate_def Let_def)
        with g1 denied_materialized [of reason x] Some show ?thesis by auto
      next
        case None
        show ?thesis
        proof (cases "guardReason (te_guard env x (record_event (Decided True) st1)) (tc_registry st1) (xe_agent x)")
          case (Inl e)
          with assms(3) g Inr a no None have "st' = ?st2" "p = PrepFinal (toolErrorResult e)"
            by (auto simp: prepareGate_def Let_def)
          with g1 show ?thesis by auto
        next
          case guard: (Inr verdict)
          let ?st3 = "record_event (Guarded verdict) ?st2"
          show ?thesis
          proof (cases verdict)
            case (Some reason)
            with assms(3) g Inr a no None guard have "st' = ?st3"
              "p = (case materializeFinalResult (deniedResult reason) of Inl e \<Rightarrow> PrepFinal (toolErrorResult e) | Inr r \<Rightarrow> PrepPost r)"
              by (auto simp: prepareGate_def Let_def)
            with g1 denied_materialized [of reason x] None show ?thesis by auto
          next
            case pass: None
            with assms(3) g Inr a no None guard have "st' = ?st3"
              "p = (if tc_callerAborted st1 then PrepPost (toolAbortedBeforeDispatchResult []) else PrepDispatch)"
              by (auto simp: prepareGate_def Let_def split: if_splits)
            with g1 Inr a None guard pass aborted_ok [of "[]" x] show ?thesis by auto
          qed
        qed
      qed
    qed
  qed
qed

section \<open>A whole call\<close>

definition trace_ok :: "execution \<Rightarrow> tool_result \<Rightarrow> pipeline_event list \<Rightarrow> bool" where
  "trace_ok x final events \<longleftrightarrow>
     events = [ResultEvent final]
     \<or> events = [PreExecute, ResultEvent final]
     \<or> (\<exists>d. events = [PreExecute, Decided d, ResultEvent final])
     \<or> (\<exists>d g r. events = [PreExecute, Decided d] @ g @ [PostExecute r, ResultEvent final] \<and> (g = [] \<or> (\<exists>reason. g = [Guarded reason])))
     \<or> (\<exists>runs post. events = [PreExecute, Decided True, Guarded None, Execute] @ runs @ post @ [ResultEvent final]
         \<and> body_runs x runs \<and> (post = [] \<or> (\<exists>r. post = [PostExecute r])))"

lemma trace_dispatched:
  "events = [PreExecute, Decided True, Guarded None, Execute] @ runs @ post @ [ResultEvent final] \<Longrightarrow> body_runs x runs
    \<Longrightarrow> post = [] \<or> (\<exists>r. post = [PostExecute r]) \<Longrightarrow> trace_ok x final events"
  unfolding trace_ok_def by blast

lemma createExecution_ok:
  assumes "createExecution input st = (st1, x, created)" "sane (xi_arguments input)"
  shows "xe_name x = xi_name input \<and> xe_callId x = xi_callId input \<and> xe_agent x = xi_agent input \<and> xe_parent x = xi_parent input
    \<and> xe_arguments x = detach (xi_arguments input) \<and> (\<exists>f. st1 = st\<lparr>tc_finalizer := f\<rparr>)
    \<and> (created = None \<longrightarrow> xe_arguments x \<noteq> None) \<and> (\<forall>r. created = Some r \<longrightarrow> result_ok x r \<and> isError r)"
  using assms aborted_ok [of "[]"]
  by (auto simp: createExecution_def Let_def split: option.splits if_splits)

text \<open>The companion invariant of the package, on the events of one execution.\<close>

datatype tool_stage = StagePre | StageExecute | StagePost

definition stageStep :: "execution \<Rightarrow> tool_stage option \<Rightarrow> pipeline_event \<Rightarrow> string + tool_stage option" where
  "stageStep x stage event =
     (case event of
        PreExecute \<Rightarrow>
          if stage \<noteq> None then Inl ''tools/pre-execute repeated for one execution'' else Inr (Some StagePre)
      | Execute \<Rightarrow>
          if stage \<noteq> Some StagePre then Inl ''tools/execute must follow tools/pre-execute'' else Inr (Some StageExecute)
      | PostExecute _ \<Rightarrow>
          if stage \<noteq> Some StagePre \<and> stage \<noteq> Some StageExecute
          then Inl ''tools/post-execute must follow tools/pre-execute or tools/execute'' else Inr (Some StagePost)
      | ResultEvent _ \<Rightarrow>
          if xe_name x = [] \<or> xe_callId x = [] then Inl ''tools/result execution must carry non-empty name and callId''
          else Inr None
      | _ \<Rightarrow> Inr stage)"

lemma body_after_gate:
  assumes "trace_ok x final events" "events = before @ BodyRun tool args # after"
  shows "take 4 before = [PreExecute, Decided True, Guarded None, Execute]
    \<and> (\<exists>rg'. registry_ok rg' \<and> resolveExecution rg' (xe_name x) (xe_agent x) (xe_parent x \<noteq> None) = Some tool
         \<and> args = xe_arguments x)"
proof -
  have mem: "BodyRun tool args \<in> set events" using assms(2) by simp
  with assms(1) obtain runs post where tr: "events = [PreExecute, Decided True, Guarded None, Execute] @ runs @ post @ [ResultEvent final]"
    "body_runs x runs" "post = [] \<or> (\<exists>r. post = [PostExecute r])"
    unfolding trace_ok_def by auto
  have run: "BodyRun tool args \<in> set runs" using tr(1,3) mem by auto
  have "4 \<le> length before"
  proof (rule ccontr)
    assume "\<not> 4 \<le> length before"
    then consider "length before = 0" | "length before = 1" | "length before = 2" | "length before = 3" by linarith
    moreover have "events ! length before = BodyRun tool args" using assms(2) by simp
    ultimately show False unfolding tr(1) by cases (simp_all add: numeral_2_eq_2 numeral_3_eq_3)
  qed
  then have "take 4 before = take 4 events" using assms(2) by simp
  then show ?thesis using tr run unfolding body_runs_def by auto
qed

lemma stage_runs: "body_runs x runs \<Longrightarrow> foldE (stageStep x) s (runs @ rest) = foldE (stageStep x) s rest"
  by (induction runs) (auto simp: body_runs_def stageStep_def)

lemma trace_stages:
  assumes "trace_ok x final events" "xe_name x \<noteq> []" "xe_callId x \<noteq> []"
  shows "foldE (stageStep x) None events = Inr None"
  using assms unfolding trace_ok_def by (auto simp: stageStep_def stage_runs)

lemma execute_ok:
  assumes "env_sane env" "call_ok st" "sane (xi_arguments input)" "tc_events st = []"
    and c: "createExecution input st = (st1, x, created)"
  shows "\<exists>st' final. execute env input st = (st', Inr final) \<and> result_ok x final \<and> lossless_parts final
    \<and> trace_ok x final (tc_events st') \<and> (tc_callerAborted st' \<longrightarrow> isError final) \<and> (tc_callerAborted st \<longrightarrow> tc_callerAborted st')
    \<and> ((\<exists>d args. BodyRun d args \<in> set (tc_events st')) \<longrightarrow> created = None \<and> \<not> tc_callerAborted st \<and> permitted env x st1)"
proof -
  note cr = createExecution_ok [OF c assms(3)]
  have ok1: "call_ok st1" and ev1: "tc_events st1 = []" and ab1: "tc_callerAborted st1 = tc_callerAborted st"
    using cr assms(2,4) by (auto simp: call_ok_def)
  have final: ?thesis if p: "execute env input st = finishScheduledExecution env x r st2" "result_ok x r" "isError r"
      "tc_events st2 = [] \<or> tc_events st2 = [PreExecute] \<or> (\<exists>d. tc_events st2 = [PreExecute, Decided d])"
      "tc_callerAborted st \<longrightarrow> tc_callerAborted st2" for r st2
  proof -
    from finish_ok [OF assms(1) p(2)] obtain f where "finishScheduledExecution env x r st2 = (record_event (ResultEvent f) st2, Inr f)"
      "result_ok x f" "lossless_parts f" "isError f \<or> xr_outcome f = xr_outcome r" by blast
    moreover from this have "isError f" using p(3) by (auto simp: isError_def)
    ultimately show ?thesis using p(1,4,5) by (auto simp: trace_ok_def)
  qed
  show ?thesis
  proof (cases created)
    case (Some r)
    with cr have "result_ok x r" "isError r" by auto
    with Some c show ?thesis
      by (intro final [of r st1]) (auto simp: execute_def prepareExecution_def completeScheduledExecution_def ev1 ab1)
  next
    case None
    show ?thesis
    proof (cases "tc_callerAborted st1")
      case True
      with None c aborted_ok [of "[]" x] show ?thesis
        by (intro final [of "toolAbortedBeforeDispatchResult []" st1])
           (auto simp: execute_def prepareExecution_def completeScheduledExecution_def ev1 ab1)
    next
      case live: False
      obtain st2 p where g: "prepareGate env x st1 = (st2, p)" by fastforce
      note gate = gate_ok [OF assms(1) ok1 g]
      have run: "execute env input st = completeScheduledExecution env x p st2"
        using None c live g by (simp add: execute_def prepareExecution_def)
      show ?thesis
      proof (cases p)
        case (PrepFinal r)
        with gate run show ?thesis
          by (intro final [of r st2]) (auto simp: completeScheduledExecution_def ev1 ab1 live)
      next
        case (PrepPost r)
        then have r: "result_ok x r" "call_ok st2" using gate by auto
        from finalize_ok [OF assms(1) r(2,1)] obtain st' f where f: "finalizeScheduledExecution env x r st2 = (st', Inr f)"
          "tc_events st' = tc_events st2 @ [PostExecute r, ResultEvent f]" "result_ok x f" "lossless_parts f"
          "tc_callerAborted st' \<longrightarrow> isError f" "tc_callerAborted st2 \<longrightarrow> tc_callerAborted st'" by blast
        from gate PrepPost ev1 obtain d gs where "tc_events st2 = [PreExecute, Decided d] @ gs" "gs = [] \<or> (\<exists>reason. gs = [Guarded reason])"
          by auto
        then have "trace_ok x f (tc_events st')" "\<forall>d args. BodyRun d args \<notin> set (tc_events st')"
          using f(2) by (auto simp: trace_ok_def)
        with f run PrepPost live ab1 show ?thesis by (auto simp: completeScheduledExecution_def)
      next
        case PrepDispatch
        then have pd: "call_ok st2" "tc_events st2 = [PreExecute, Decided True, Guarded None]" "permitted env x st1"
          using gate ev1 by auto
        obtain st3 s where s: "dispatchScheduledExecution env x st2 = (st3, s)" by fastforce
        note d = dispatchScheduled_ok [OF assms(1) pd(1) s]
        then obtain runs where runs: "tc_events st3 = [PreExecute, Decided True, Guarded None, Execute] @ runs" "body_runs x runs"
          using pd(2) by (auto simp: advances_def)
        show ?thesis
        proof (cases s)
          case (PostResult r)
          then have r: "result_ok x r" "call_ok st3" using d by (auto simp: advances_def)
          from finalize_ok [OF assms(1) r(2,1)] obtain st' f where f: "finalizeScheduledExecution env x r st3 = (st', Inr f)"
            "tc_events st' = tc_events st3 @ [PostExecute r, ResultEvent f]" "result_ok x f" "lossless_parts f"
            "tc_callerAborted st' \<longrightarrow> isError f" by blast
          then have "trace_ok x f (tc_events st')"
            using runs by (intro trace_dispatched [of _ runs "[PostExecute r]"]) auto
          with f run PrepDispatch s PostResult live ab1 pd(3) None show ?thesis by (auto simp: completeScheduledExecution_def)
        next
          case (FinalResult r)
          with d have r: "result_ok x r" "isError r" by auto
          from finish_ok [OF assms(1) r(1)] obtain f where f: "finishScheduledExecution env x r st3 = (record_event (ResultEvent f) st3, Inr f)"
            "result_ok x f" "lossless_parts f" "isError f \<or> xr_outcome f = xr_outcome r" by blast
          have "isError f" using f(4) r(2) by (auto simp: isError_def)
          moreover have "trace_ok x f (tc_events (record_event (ResultEvent f) st3))"
            using runs by (intro trace_dispatched [of _ runs "[]"]) auto
          ultimately show ?thesis using f run PrepDispatch s FinalResult live ab1 pd(3) None
            by (auto simp: completeScheduledExecution_def)
        qed
      qed
    qed
  qed
qed

section \<open>Properties\<close>



text \<open>A native call of the sample tool, whose body throws; every listener lets it pass.\<close>

definition sampleEnv :: tool_env where
  "sampleEnv = \<lparr>te_pre = (\<lambda>x st. ([], Inr Allow)), te_approval = (\<lambda>x reason st. None), te_guard = (\<lambda>x st g. Inr None),
     te_around = (\<lambda>x. Next (\<lambda>st. []) (\<lambda>r. Answer (\<lambda>st. ([], Inr (Returned 0))))),
     te_body = (\<lambda>tool x st. ([], Inl (typeError ''no such file''))), te_render = (\<lambda>tool args v. Inr (textContent ''ok'')),
     te_meta = (\<lambda>tool args v. Inr ([], VNull)), te_post = (\<lambda>x r st. ([], Inr (AcceptContent None []))),
     te_finalize = (\<lambda>tool x r. Inr None)\<rparr>"

definition sampleInput :: exec_input where
  "sampleInput = \<lparr>xi_callId = ''c1'', xi_rootCallId = None, xi_name = ''read'', xi_arguments = ([], VNull), xi_agent = None,
     xi_parent = None\<rparr>"

lemma sampleEnv_sane: "env_sane sampleEnv"
  using textContent_json [of "''ok''"] by (simp add: env_sane_def sampleEnv_def sane_def wf_heap_def)

lemma sampleInput_sane: "sane (xi_arguments sampleInput)"
  by (simp add: sampleInput_def sane_def wf_heap_def)

lemma sampleTransport_ok: "td_name sampleTransport = RUN_CODE_NAME" "supportedOutput sampleTransport"
  by (auto simp: sampleTransport_def sampleTool_def supportedOutput_def supported_any)


lemma sample_view: "registryView sampleRegistry None =
    \<lparr>tv_visible = [(''read'', sampleTool)], tv_knownNames = [''read''], tv_restrictableNames = [''read'']\<rparr>" "modeFor sampleRegistry None = NativeMode"
  by (simp_all add: registryView_def modeFor_def Let_def sampleRegistry_def chainLayers_def List.map_filter_def peekLayer_def
      newLayer_def inheritedTools_def inheritedLayers_def setAll_def)

lemma sample_resolve: "getTool sampleRegistry ''read'' None = Some sampleTool" "\<not> collapses sampleRegistry ''read'' None False"
    "resolveExecution sampleRegistry ''read'' None False = Some sampleTool"
  by (simp_all add: resolveExecution_def getTool_def collapses_def sample_view)

lemma detach_null: "detach ([], VNull) = Some ([], VNull)"
  by (simp add: detach_def snapshotJsonValue_def walkJsonValue_def walkLoop.simps assign_def)

definition sampleExecution :: execution where
  "sampleExecution = \<lparr>xe_callId = ''c1'', xe_rootCallId = ''c1'', xe_name = ''read'', xe_arguments = Some ([], VNull), xe_agent = None,
     xe_parent = None\<rparr>"

lemma sample_created: "createExecution sampleInput (newCall sampleRegistry False) = (newCall sampleRegistry False, sampleExecution, None)"
  by (simp add: createExecution_def Let_def sampleInput_def newCall_def sample_resolve detach_null sampleTool_def sampleExecution_def)


end
