(* ===== verification/Agent_Inbox.thy ===== *)
theory Agent_Inbox
  imports Session_Log
begin

text \<open>
  The durable inbox of an agent, \<open>core/agent/src/inbox.ts\<close>: two ordered lists of pending messages, a
  projection of the \<open>agent/inbox/spliced\<close> events of the session log that the owner also keeps live.

  Every mutation normalises its coordinates, validates the splice, appends it to the log, and only
  then changes the lists. The log is reached through an append function \<open>app\<close>, the interface
  \<open>event_log\<close>; the lemmas inside that locale show that the live lists are always what a replay of
  the log gives (\<open>mirrors\<close>), and \<open>session_inbox\<close> interprets them on \<open>appendEvent\<close>.
\<close>

section \<open>State and splices\<close>

record inbox =
  ib_nextTurn :: "message list"
  ib_nextStep :: "message list"

definition emptyInbox :: inbox where
  "emptyInbox = \<lparr>ib_nextTurn = [], ib_nextStep = []\<rparr>"

fun inboxList :: "inbox \<Rightarrow> inbox_target \<Rightarrow> message list" where
  "inboxList ib NextTurn = ib_nextTurn ib"
| "inboxList ib NextStep = ib_nextStep ib"

fun setInboxList :: "inbox \<Rightarrow> inbox_target \<Rightarrow> message list \<Rightarrow> inbox" where
  "setInboxList ib NextTurn ms = ib\<lparr>ib_nextTurn := ms\<rparr>"
| "setInboxList ib NextStep ms = ib\<lparr>ib_nextStep := ms\<rparr>"

definition hasPending :: "inbox \<Rightarrow> bool" where
  "hasPending ib \<longleftrightarrow> ib_nextTurn ib \<noteq> [] \<or> ib_nextStep ib \<noteq> []"

datatype 'e inbox_error =
    InvalidSplice
  | AlreadyPending message_id
  | InvalidPersistedSplice int "'e inbox_error"
  | StartNotJson
  | LogRefused 'e

text \<open>The first id that repeats one before it, as the \<open>Set\<close> loop of \<open>validate\<close> finds it.\<close>

fun firstRepeated :: "message_id set \<Rightarrow> message list \<Rightarrow> message_id option" where
  "firstRepeated ids [] = None"
| "firstRepeated ids (m # ms) =
     (if msg_id m \<in> ids then Some (msg_id m) else firstRepeated (insert (msg_id m) ids) ms)"

definition removedCountOf :: "inbox_splice \<Rightarrow> int" where
  "removedCountOf p = (case sp_removedCount p of Some n \<Rightarrow> n | None \<Rightarrow> 0)"

definition validateSplice :: "inbox \<Rightarrow> inbox_splice \<Rightarrow> 'e inbox_error + unit" where
  "validateSplice ib p =
     (let box = inboxList ib (sp_target p); removedCount = removedCountOf p in
      if maxSafe < \<bar>sp_start p\<bar> \<or> sp_start p < 0 \<or> int (length box) < sp_start p
         \<or> maxSafe < \<bar>removedCount\<bar> \<or> removedCount < 0 \<or> int (length box) < sp_start p + removedCount
      then Inl InvalidSplice
      else
        let candidate = spliceAt (nat (sp_start p)) (nat removedCount) (sp_inserted p) box in
        (case firstRepeated {} (if sp_target p = NextTurn then candidate @ ib_nextStep ib
                                else ib_nextTurn ib @ candidate) of
           Some i \<Rightarrow> Inl (AlreadyPending i)
         | None \<Rightarrow> Inr ()))"

text \<open>Standard splice on the target list: the inbox after it and the messages it removed.\<close>

definition spliceInbox :: "inbox \<Rightarrow> inbox_splice \<Rightarrow> inbox \<times> message list" where
  "spliceInbox ib p =
     (let box = inboxList ib (sp_target p); i = nat (sp_start p); n = nat (removedCountOf p) in
      (setInboxList ib (sp_target p) (spliceAt i n (sp_inserted p) box), splicedOut i n box))"

definition applySplice :: "inbox \<Rightarrow> inbox_splice \<Rightarrow> 'e inbox_error + inbox" where
  "applySplice ib p = bindE (validateSplice ib p) (\<lambda>_. Inr (fst (spliceInbox ib p)))"

text \<open>The constructor: replay the events past the inherited seed.\<close>

definition inboxStep :: "inbox \<Rightarrow> session_event \<Rightarrow> 'e inbox_error + inbox" where
  "inboxStep ib e =
     (case ev_data e of
        InboxSpliced p \<Rightarrow>
          (case applySplice ib p of
             Inl err \<Rightarrow> Inl (InvalidPersistedSplice (ev_seq e) err)
           | Inr ib' \<Rightarrow> Inr ib')
      | _ \<Rightarrow> Inr ib)"

definition newInbox :: "int option \<Rightarrow> session_event list \<Rightarrow> 'e inbox_error + inbox" where
  "newInbox seedLength evs =
     foldE inboxStep emptyInbox (drop (case seedLength of Some n \<Rightarrow> nat n | None \<Rightarrow> 0) evs)"

section \<open>Mutations\<close>

text \<open>
  \<open>Math.trunc\<close>, and the clamping of a splice start and of a delete count. A start in (-1, 0) truncates
  to negative zero, and \<open>Math.min(-0, length)\<close> is negative zero again: a position like 0, but not a
  number \<open>session.append\<close> takes.
\<close>

fun js_trunc :: "js_number \<Rightarrow> js_number" where
  "js_trunc (Fin x) =
     (if x < 0 \<and> -1 < x then NegZero else Fin (of_int (if 0 \<le> x then \<lfloor>x\<rfloor> else \<lceil>x\<rceil>)))"
| "js_trunc n = n"

fun clampStart :: "js_number \<Rightarrow> nat \<Rightarrow> nat" where
  "clampStart (Fin x) len =
     (if x < 0 then nat (max (int len + \<lfloor>x\<rfloor>) 0) else nat (min \<lfloor>x\<rfloor> (int len)))"
| "clampStart NegZero len = 0"
| "clampStart PosInf len = len"
| "clampStart NegInf len = 0"
| "clampStart NaN len = 0"

fun clampCount :: "js_number \<Rightarrow> nat \<Rightarrow> nat" where
  "clampCount (Fin x) avail = nat (min (max \<lfloor>x\<rfloor> 0) (int avail))"
| "clampCount NegZero avail = 0"
| "clampCount PosInf avail = avail"
| "clampCount NegInf avail = 0"
| "clampCount NaN avail = 0"

datatype inbox_note = NoteInserted message | NoteDiscarded message | NoteClaimed message int

text \<open>
  The outcome of an operation: the log owner and the inbox after it, the notifications published,
  and the returned value or the thrown error.
\<close>

record ('s, 'e, 'a) inbox_outcome =
  io_log :: 's
  io_inbox :: inbox
  io_notes :: "inbox_note list"
  io_result :: "'e inbox_error + 'a"

definition mutate ::
    "('s \<Rightarrow> event_data \<Rightarrow> 's \<times> ('e + session_event)) \<Rightarrow> 's \<Rightarrow> inbox \<Rightarrow> inbox_target
      \<Rightarrow> js_number \<Rightarrow> js_number \<Rightarrow> message list \<Rightarrow> bool \<Rightarrow> ('s, 'e, message list) inbox_outcome" where
  "mutate app s ib target start deleteCount inserted discardRemoved =
     (let box = inboxList ib target;
          actualStart = clampStart (js_trunc start) (length box);
          actualDeleteCount = clampCount (js_trunc deleteCount) (length box - actualStart) in
      if actualDeleteCount = 0 \<and> inserted = []
      then \<lparr>io_log = s, io_inbox = ib, io_notes = [], io_result = Inr []\<rparr>
      else
        let p = \<lparr>sp_target = target, sp_start = int actualStart,
                 sp_removedCount = (if actualDeleteCount = 0 then None else Some (int actualDeleteCount)),
                 sp_inserted = inserted, sp_canceled = (discardRemoved \<and> 0 < actualDeleteCount)\<rparr> in
        (case validateSplice ib p of
           Inl err \<Rightarrow> \<lparr>io_log = s, io_inbox = ib, io_notes = [], io_result = Inl err\<rparr>
         | Inr _ \<Rightarrow>
             if js_trunc start = NegZero
             then \<lparr>io_log = s, io_inbox = ib, io_notes = [], io_result = Inl StartNotJson\<rparr>
             else
             (case app s (InboxSpliced p) of
                (s', Inl err) \<Rightarrow> \<lparr>io_log = s', io_inbox = ib, io_notes = [], io_result = Inl (LogRefused err)\<rparr>
              | (s', Inr _) \<Rightarrow>
                  let (ib', removed) = spliceInbox ib p in
                  \<lparr>io_log = s', io_inbox = ib',
                   io_notes = (if discardRemoved then map NoteDiscarded removed else [])
                     @ map NoteInserted inserted,
                   io_result = Inr removed\<rparr>)))"

definition inboxSplice ::
    "('s \<Rightarrow> event_data \<Rightarrow> 's \<times> ('e + session_event)) \<Rightarrow> 's \<Rightarrow> inbox \<Rightarrow> inbox_target
      \<Rightarrow> js_number \<Rightarrow> js_number \<Rightarrow> message list \<Rightarrow> ('s, 'e, message list) inbox_outcome" where
  "inboxSplice app s ib target start deleteCount inserted =
     mutate app s ib target start deleteCount inserted True"

definition natNum :: "nat \<Rightarrow> js_number" where
  "natNum n = Fin (of_nat n)"

text \<open>Two operations in sequence: the second runs only if the first returned.\<close>

definition andThen ::
    "('s, 'e, 'a) inbox_outcome \<Rightarrow> ('s \<Rightarrow> inbox \<Rightarrow> 'a \<Rightarrow> ('s, 'e, 'b) inbox_outcome)
      \<Rightarrow> ('s, 'e, 'b) inbox_outcome" where
  "andThen o1 f =
     (case io_result o1 of
        Inl err \<Rightarrow> \<lparr>io_log = io_log o1, io_inbox = io_inbox o1, io_notes = io_notes o1, io_result = Inl err\<rparr>
      | Inr a \<Rightarrow>
          let o2 = f (io_log o1) (io_inbox o1) a in
          o2\<lparr>io_notes := io_notes o1 @ io_notes o2\<rparr>)"

definition returning :: "inbox_note list \<Rightarrow> 'a \<Rightarrow> 's \<Rightarrow> inbox \<Rightarrow> ('s, 'e, 'a) inbox_outcome" where
  "returning notes a s ib = \<lparr>io_log = s, io_inbox = ib, io_notes = notes, io_result = Inr a\<rparr>"

definition clearInbox ::
    "('s \<Rightarrow> event_data \<Rightarrow> 's \<times> ('e + session_event)) \<Rightarrow> 's \<Rightarrow> inbox \<Rightarrow> ('s, 'e, unit) inbox_outcome" where
  "clearInbox app s ib =
     andThen (inboxSplice app s ib NextStep (natNum 0) (natNum (length (ib_nextStep ib))) []) (\<lambda>s1 ib1 _.
     andThen (inboxSplice app s1 ib1 NextTurn (natNum 0) (natNum (length (ib_nextTurn ib1))) []) (\<lambda>s2 ib2 _.
       returning [] () s2 ib2))"

text \<open>The second half of a claim: one queued turn on request, then the notifications.\<close>

definition claimTurn ::
    "('s \<Rightarrow> event_data \<Rightarrow> 's \<times> ('e + session_event)) \<Rightarrow> inbox_target \<Rightarrow> int \<Rightarrow> 's \<Rightarrow> inbox \<Rightarrow> message list
      \<Rightarrow> ('s, 'e, message list) inbox_outcome" where
  "claimTurn app target turn s ib steps =
     andThen (if target = NextTurn then mutate app s ib NextTurn (natNum 0) (natNum 1) [] False
              else returning [] [] s ib) (\<lambda>s2 ib2 turns.
       returning (map (\<lambda>m. NoteClaimed m turn) (steps @ turns)) (steps @ turns) s2 ib2)"

definition claim ::
    "('s \<Rightarrow> event_data \<Rightarrow> 's \<times> ('e + session_event)) \<Rightarrow> 's \<Rightarrow> inbox \<Rightarrow> inbox_target \<Rightarrow> int
      \<Rightarrow> ('s, 'e, message list) inbox_outcome" where
  "claim app s ib target turn =
     andThen (mutate app s ib NextStep (natNum 0) (natNum (length (ib_nextStep ib))) [] False)
       (claimTurn app target turn)"

definition appendMessage ::
    "('s \<Rightarrow> event_data \<Rightarrow> 's \<times> ('e + session_event)) \<Rightarrow> 's \<Rightarrow> inbox \<Rightarrow> inbox_target \<Rightarrow> message
      \<Rightarrow> ('s, 'e, message list) inbox_outcome" where
  "appendMessage app s ib target m =
     inboxSplice app s ib target (natNum (length (inboxList ib target))) (natNum 0) [m]"

definition prependMessage ::
    "('s \<Rightarrow> event_data \<Rightarrow> 's \<times> ('e + session_event)) \<Rightarrow> 's \<Rightarrow> inbox \<Rightarrow> inbox_target \<Rightarrow> message
      \<Rightarrow> ('s, 'e, message list) inbox_outcome" where
  "prependMessage app s ib target m = inboxSplice app s ib target (natNum 0) (natNum 0) [m]"

definition locate :: "inbox \<Rightarrow> message_id \<Rightarrow> (inbox_target \<times> nat) option" where
  "locate ib i =
     (case findIndex (\<lambda>m. msg_id m = i) (ib_nextTurn ib) of
        Some k \<Rightarrow> Some (NextTurn, k)
      | None \<Rightarrow>
          (case findIndex (\<lambda>m. msg_id m = i) (ib_nextStep ib) of
             Some k \<Rightarrow> Some (NextStep, k)
           | None \<Rightarrow> None))"

definition replaceMessage ::
    "('s \<Rightarrow> event_data \<Rightarrow> 's \<times> ('e + session_event)) \<Rightarrow> 's \<Rightarrow> inbox \<Rightarrow> message_id \<Rightarrow> message
      \<Rightarrow> ('s, 'e, bool) inbox_outcome" where
  "replaceMessage app s ib i m =
     (case locate ib i of
        None \<Rightarrow> returning [] False s ib
      | Some (target, k) \<Rightarrow>
          andThen (inboxSplice app s ib target (natNum k) (natNum 1) [m]) (\<lambda>s' ib' _. returning [] True s' ib'))"

definition removeMessage ::
    "('s \<Rightarrow> event_data \<Rightarrow> 's \<times> ('e + session_event)) \<Rightarrow> 's \<Rightarrow> inbox \<Rightarrow> message_id
      \<Rightarrow> ('s, 'e, bool) inbox_outcome" where
  "removeMessage app s ib i =
     (case locate ib i of
        None \<Rightarrow> returning [] False s ib
      | Some (target, k) \<Rightarrow>
          andThen (inboxSplice app s ib target (natNum k) (natNum 1) []) (\<lambda>s' ib' _. returning [] True s' ib'))"

section \<open>Splices keep the inbox well formed\<close>

definition pendingMessages :: "inbox \<Rightarrow> message list" where
  "pendingMessages ib = ib_nextTurn ib @ ib_nextStep ib"

definition inbox_ok :: "inbox \<Rightarrow> bool" where
  "inbox_ok ib \<longleftrightarrow> distinct (map msg_id (pendingMessages ib))"

lemma firstRepeated_None:
  "firstRepeated ids ms = None \<longleftrightarrow> distinct (map msg_id ms) \<and> ids \<inter> msg_id ` set ms = {}"
  by (induction ids ms rule: firstRepeated.induct) auto

text \<open>What a validated splice guarantees; it does not depend on the error type.\<close>

definition splice_fits :: "inbox \<Rightarrow> inbox_splice \<Rightarrow> bool" where
  "splice_fits ib p \<longleftrightarrow>
     0 \<le> sp_start p \<and> sp_start p \<le> maxSafe \<and> 0 \<le> removedCountOf p \<and> removedCountOf p \<le> maxSafe
     \<and> sp_start p + removedCountOf p \<le> int (length (inboxList ib (sp_target p)))
     \<and> inbox_ok (fst (spliceInbox ib p))"

lemma validateSplice_iff: "validateSplice ib p = Inr () \<longleftrightarrow> splice_fits ib p"
proof -
  have pick: "(case x of Some i \<Rightarrow> Inl (f i) | None \<Rightarrow> Inr ()) = Inr () \<longleftrightarrow> x = None"
    for x :: "message_id option" and f :: "message_id \<Rightarrow> 'a inbox_error"
    by (cases x) auto
  show ?thesis
    unfolding validateSplice_def Let_def Inr_if_iff pick firstRepeated_None
    by (cases "sp_target p")
      (auto simp: splice_fits_def inbox_ok_def pendingMessages_def spliceInbox_def Let_def)
qed

lemma applySplice_Inr: "applySplice ib p = Inr ib' \<longleftrightarrow> splice_fits ib p \<and> ib' = fst (spliceInbox ib p)"
  by (auto simp: applySplice_def result_simps validateSplice_iff)

lemma mset_spliceInbox:
  "mset (pendingMessages (fst (spliceInbox ib p))) + mset (snd (spliceInbox ib p))
     = mset (pendingMessages ib) + mset (sp_inserted p)"
  using mset_spliceAt [of "nat (sp_start p)" "nat (removedCountOf p)" "sp_inserted p" "inboxList ib (sp_target p)"]
  by (cases "sp_target p") (auto simp: spliceInbox_def pendingMessages_def Let_def ac_simps)

section \<open>Replay\<close>

definition inboxReplays :: "session_event list \<Rightarrow> inbox \<Rightarrow> bool" where
  "inboxReplays evs ib \<longleftrightarrow> (foldE inboxStep emptyInbox evs :: unit inbox_error + inbox) = Inr ib"

lemma inboxStep_Inr:
  "inboxStep ib e = (Inr ib' :: 'e inbox_error + inbox) \<longleftrightarrow>
     (case ev_data e of InboxSpliced p \<Rightarrow> splice_fits ib p \<and> ib' = fst (spliceInbox ib p) | _ \<Rightarrow> ib' = ib)"
proof (cases "ev_data e")
  case (InboxSpliced p)
  have "inboxStep ib e = (Inr ib' :: 'e inbox_error + inbox) \<longleftrightarrow> applySplice ib p = (Inr ib' :: 'e inbox_error + inbox)"
    using InboxSpliced by (auto simp: inboxStep_def split: sum.splits)
  with InboxSpliced applySplice_Inr [of ib p ib'] show ?thesis by simp
qed (auto simp: inboxStep_def)

lemma inboxFold_any_error:
  "foldE inboxStep ib evs = (Inr ib' :: 'e inbox_error + inbox)
     \<longleftrightarrow> foldE inboxStep ib evs = (Inr ib' :: unit inbox_error + inbox)"
  by (induction evs arbitrary: ib) (simp_all add: bindE_Inr_iff inboxStep_Inr)

lemma newInbox_Inr:
  "newInbox seedLength evs = (Inr ib :: 'e inbox_error + inbox)
     \<longleftrightarrow> inboxReplays (drop (case seedLength of Some n \<Rightarrow> nat n | None \<Rightarrow> 0) evs) ib"
  unfolding newInbox_def inboxReplays_def by (rule inboxFold_any_error)

lemma inboxReplays_snoc:
  "inboxReplays (evs @ [e]) ib' \<longleftrightarrow> (\<exists>ib. inboxReplays evs ib \<and>
     (case ev_data e of InboxSpliced p \<Rightarrow> splice_fits ib p \<and> ib' = fst (spliceInbox ib p) | _ \<Rightarrow> ib' = ib))"
  unfolding inboxReplays_def foldE_snoc_Inr inboxStep_Inr ..

lemma inboxReplays_Nil [simp]: "inboxReplays [] ib \<longleftrightarrow> ib = emptyInbox"
  by (auto simp: inboxReplays_def)

text \<open>The messages the splices of a log inserted, and those they took out.\<close>

fun insertedBy :: "session_event list \<Rightarrow> message list" where
  "insertedBy [] = []"
| "insertedBy (e # es) = (case ev_data e of InboxSpliced p \<Rightarrow> sp_inserted p | _ \<Rightarrow> []) @ insertedBy es"

fun removedBy :: "inbox \<Rightarrow> session_event list \<Rightarrow> message list" where
  "removedBy ib [] = []"
| "removedBy ib (e # es) =
     (case ev_data e of
        InboxSpliced p \<Rightarrow> snd (spliceInbox ib p) @ removedBy (fst (spliceInbox ib p)) es
      | _ \<Rightarrow> removedBy ib es)"

text \<open>The replay contract, as a checked fold whose invariant is identity and conservation.\<close>

lemma inboxFold_conserves:
  assumes "foldE inboxStep ib evs = (Inr ib' :: 'e inbox_error + inbox)"
  shows "mset (pendingMessages ib) + mset (insertedBy evs) = mset (pendingMessages ib') + mset (removedBy ib evs)"
  using assms
proof (induction evs arbitrary: ib)
  case Nil
  then show ?case by simp
next
  case (Cons e es)
  then obtain ib1 where step: "inboxStep ib e = (Inr ib1 :: 'e inbox_error + inbox)"
    and rest: "foldE inboxStep ib1 es = (Inr ib' :: 'e inbox_error + inbox)"
    by (auto simp: bindE_Inr_iff)
  note IH = Cons.IH [OF rest]
  show ?case
  proof (cases "ev_data e")
    case (InboxSpliced p)
    with step have "ib1 = fst (spliceInbox ib p)" by (simp add: inboxStep_Inr)
    with IH InboxSpliced mset_spliceInbox [of ib p] show ?thesis
      by (simp add: ac_simps) (metis (no_types, lifting) union_assoc union_commute)
  qed (use IH step in \<open>simp_all add: inboxStep_Inr\<close>)
qed

definition inboxInv :: "session_event list \<Rightarrow> inbox \<Rightarrow> bool" where
  "inboxInv evs ib \<longleftrightarrow> inbox_ok ib"

interpretation inbox_replay: checked_fold inboxStep emptyInbox inboxInv
proof unfold_locales
  show "inboxInv [] emptyInbox"
    by (simp add: inboxInv_def inbox_ok_def pendingMessages_def emptyInbox_def)
next
  fix evs ib e ib'
  assume "inboxInv evs ib" "inboxStep ib e = (Inr ib' :: 'a inbox_error + inbox)"
  then show "inboxInv (evs @ [e]) ib'"
    by (auto simp: inboxInv_def inboxStep_Inr splice_fits_def split: event_data.splits)
qed

section \<open>The live lists mirror the log\<close>

definition mirrors ::
    "('s \<Rightarrow> session_event list) \<Rightarrow> ('s \<Rightarrow> bool) \<Rightarrow> nat \<Rightarrow> 's \<Rightarrow> inbox \<Rightarrow> bool" where
  "mirrors contents valid k s ib \<longleftrightarrow>
     valid s \<and> k \<le> length (contents s) \<and> inboxReplays (drop k (contents s)) ib"

context event_log
begin

lemma mirrors_other:
  assumes "mirrors contents valid k s ib" "app s d = (s', r)" "\<And>p. d \<noteq> InboxSpliced p"
  shows "mirrors contents valid k s' ib"
proof (cases r)
  case (Inl err)
  with assms app_Inl [of s d s' err] app_valid [of s d s' r] show ?thesis by (simp add: mirrors_def)
next
  case (Inr e)
  with assms(1,2) app_Inr [of s d s' e] app_valid [of s d s' r]
  have "valid s'" "contents s' = contents s @ [e]" "ev_data e = d" by (auto simp: mirrors_def)
  with assms show ?thesis
    by (auto simp: mirrors_def inboxReplays_snoc split: event_data.split)
qed

lemma mirrors_splice:
  assumes "mirrors contents valid k s ib" "app s (InboxSpliced p) = (s', Inr e)" "splice_fits ib p"
  shows "mirrors contents valid k s' (fst (spliceInbox ib p))"
proof -
  from assms(1,2) app_Inr [of s "InboxSpliced p" s' e] app_valid [of s "InboxSpliced p" s' "Inr e"]
  have "valid s'" "contents s' = contents s @ [e]" "ev_data e = InboxSpliced p" by (auto simp: mirrors_def)
  with assms show ?thesis by (auto simp: mirrors_def inboxReplays_snoc)
qed

lemma mirrors_mutate:
  fixes o1 :: "('s, 'e, message list) inbox_outcome"
  assumes "mirrors contents valid k s ib"
    "mutate app s ib target start deleteCount inserted discardRemoved = o1"
  shows "mirrors contents valid k (io_log o1) (io_inbox o1)"
proof -
  let ?box = "inboxList ib target"
  let ?start = "clampStart (js_trunc start) (length ?box)"
  let ?n = "clampCount (js_trunc deleteCount) (length ?box - ?start)"
  let ?p = "\<lparr>sp_target = target, sp_start = int ?start,
                 sp_removedCount = (if ?n = 0 then None else Some (int ?n)),
                 sp_inserted = inserted, sp_canceled = (discardRemoved \<and> 0 < ?n)\<rparr>"
  show ?thesis
  proof (cases "(?n = 0 \<and> inserted = []) \<or> \<not> splice_fits ib ?p \<or> js_trunc start = NegZero")
    case True
    then have "io_log o1 = s \<and> io_inbox o1 = ib"
      using assms(2) validateSplice_iff [of ib ?p, where ?'a = 'e]
      by (auto simp: mutate_def Let_def split: sum.splits)
    with assms(1) show ?thesis by simp
  next
    case False
    then have v: "validateSplice ib ?p = (Inr () :: 'e inbox_error + unit)"
      by (simp only: validateSplice_iff) blast
    obtain s' r where a: "app s (InboxSpliced ?p) = (s', r)" by force
    show ?thesis
    proof (cases r)
      case (Inl err)
      then have "io_log o1 = s' \<and> io_inbox o1 = ib"
        using assms(2) False v a by (auto simp: mutate_def Let_def)
      moreover have "mirrors contents valid k s' ib"
        using assms(1) a Inl app_Inl [of s "InboxSpliced ?p" s' err] app_valid [of s "InboxSpliced ?p" s' r]
        by (simp add: mirrors_def)
      ultimately show ?thesis by simp
    next
      case (Inr e)
      then have "io_log o1 = s' \<and> io_inbox o1 = fst (spliceInbox ib ?p)"
        using assms(2) False v a by (auto simp: mutate_def Let_def split: prod.splits)
      with mirrors_splice [OF assms(1) a [unfolded Inr]] False show ?thesis by auto
    qed
  qed
qed

lemma mirrors_andThen:
  assumes "mirrors contents valid k (io_log o1) (io_inbox o1)"
    "\<And>a. io_result o1 = Inr a \<Longrightarrow>
       mirrors contents valid k (io_log (f (io_log o1) (io_inbox o1) a)) (io_inbox (f (io_log o1) (io_inbox o1) a))"
  shows "mirrors contents valid k (io_log (andThen o1 f)) (io_inbox (andThen o1 f))"
  using assms by (auto simp: andThen_def Let_def split: sum.split)

lemma mirrors_returning:
  "mirrors contents valid k s ib \<Longrightarrow>
     mirrors contents valid k (io_log (returning notes a s ib)) (io_inbox (returning notes a s ib))"
  by (simp add: returning_def)

lemma mirrors_inboxSplice:
  "mirrors contents valid k s ib \<Longrightarrow>
     mirrors contents valid k (io_log (inboxSplice app s ib target start n ins))
       (io_inbox (inboxSplice app s ib target start n ins))"
  unfolding inboxSplice_def by (rule mirrors_mutate [OF _ refl])

lemmas mirrors_intros =
  mirrors_andThen mirrors_returning mirrors_inboxSplice mirrors_mutate [OF _ refl]

lemma mirrors_clear:
  "mirrors contents valid k s ib \<Longrightarrow>
     mirrors contents valid k (io_log (clearInbox app s ib)) (io_inbox (clearInbox app s ib))"
  unfolding clearInbox_def by (intro mirrors_intros)

lemma mirrors_claim:
  "mirrors contents valid k s ib \<Longrightarrow>
     mirrors contents valid k (io_log (claim app s ib target turn)) (io_inbox (claim app s ib target turn))"
  unfolding claim_def claimTurn_def by (cases target) (simp_all add: mirrors_intros)

lemma mirrors_appendMessage:
  "mirrors contents valid k s ib \<Longrightarrow>
     mirrors contents valid k (io_log (appendMessage app s ib target m)) (io_inbox (appendMessage app s ib target m))"
  unfolding appendMessage_def by (rule mirrors_inboxSplice)

lemma mirrors_prependMessage:
  "mirrors contents valid k s ib \<Longrightarrow>
     mirrors contents valid k (io_log (prependMessage app s ib target m)) (io_inbox (prependMessage app s ib target m))"
  unfolding prependMessage_def by (rule mirrors_inboxSplice)

lemma mirrors_replaceMessage:
  "mirrors contents valid k s ib \<Longrightarrow>
     mirrors contents valid k (io_log (replaceMessage app s ib i m)) (io_inbox (replaceMessage app s ib i m))"
  unfolding replaceMessage_def by (auto split: option.split intro!: mirrors_intros)

lemma mirrors_removeMessage:
  "mirrors contents valid k s ib \<Longrightarrow>
     mirrors contents valid k (io_log (removeMessage app s ib i)) (io_inbox (removeMessage app s ib i))"
  unfolding removeMessage_def by (auto split: option.split intro!: mirrors_intros)

end

section \<open>What a claim takes\<close>

lemma clamp_natNum [simp]:
  "clampStart (js_trunc (natNum n)) len = min n len"
  "clampCount (js_trunc (natNum n)) len = min n len"
  "js_trunc (natNum n) \<noteq> NegZero"
  by (auto simp: natNum_def min_def)

lemma setInboxList_same [simp]: "setInboxList ib target (inboxList ib target) = ib"
  by (cases target) simp_all

lemma mutate_take:
  fixes o1 :: "('s, 'e, message list) inbox_outcome"
  assumes "mutate app s ib target (natNum 0) (natNum n) [] False = o1" "io_result o1 = Inr removed"
  shows "removed = take n (inboxList ib target)
    \<and> io_inbox o1 = setInboxList ib target (drop n (inboxList ib target)) \<and> io_notes o1 = []"
proof (cases "n = 0 \<or> inboxList ib target = []")
  case True
  with assms have "removed = []" "io_inbox o1 = ib" "io_notes o1 = []"
    by (auto simp: mutate_def Let_def)
  moreover have "setInboxList ib target (drop n (inboxList ib target)) = ib"
    using True by auto (metis setInboxList_same)
  ultimately show ?thesis using True by auto
next
  case False
  let ?box = "inboxList ib target"
  let ?p = "\<lparr>sp_target = target, sp_start = 0, sp_removedCount = Some (int (min n (length ?box))),
               sp_inserted = [], sp_canceled = False\<rparr>"
  have n: "clampStart (js_trunc (natNum 0)) (length ?box) = 0"
    "clampCount (js_trunc (natNum n)) (length ?box - 0) = min n (length ?box)" "min n (length ?box) \<noteq> 0"
    using False by auto
  obtain u where v: "validateSplice ib ?p = (Inr u :: 'e inbox_error + unit)"
    using assms n by (cases "validateSplice ib ?p :: 'e inbox_error + unit") (auto simp: mutate_def Let_def)
  obtain s' r where a: "app s (InboxSpliced ?p) = (s', r)" by force
  obtain e where r: "r = Inr e"
    using assms n v a by (cases r) (auto simp: mutate_def Let_def)
  have "o1 = \<lparr>io_log = s', io_inbox = fst (spliceInbox ib ?p), io_notes = [], io_result = Inr (snd (spliceInbox ib ?p))\<rparr>"
    using assms(1) n v a r by (auto simp: mutate_def Let_def split: prod.split)
  with assms(2) have "removed = take (min n (length ?box)) ?box"
    "io_inbox o1 = setInboxList ib target (drop (min n (length ?box)) ?box)" "io_notes o1 = []"
    by (auto simp: spliceInbox_def spliceAt_def splicedOut_def removedCountOf_def Let_def)
  then show ?thesis by (simp add: min_def)
qed

lemma andThen_Inr:
  assumes "andThen o1 f = o2" "io_result o2 = Inr b"
  obtains a where "io_result o1 = Inr a" "io_log o2 = io_log (f (io_log o1) (io_inbox o1) a)"
    "io_inbox o2 = io_inbox (f (io_log o1) (io_inbox o1) a)"
    "io_notes o2 = io_notes o1 @ io_notes (f (io_log o1) (io_inbox o1) a)"
    "io_result (f (io_log o1) (io_inbox o1) a) = Inr b"
  using assms by (cases "io_result o1") (auto simp: andThen_def Let_def)

lemma claim_result:
  fixes o2 :: "('s, 'e, message list) inbox_outcome"
  assumes "claim app s ib target turn = o2" "io_result o2 = Inr batch"
  shows "batch = ib_nextStep ib @ (if target = NextTurn then take 1 (ib_nextTurn ib) else [])
    \<and> io_inbox o2 = \<lparr>ib_nextTurn = (if target = NextTurn then drop 1 (ib_nextTurn ib) else ib_nextTurn ib),
                    ib_nextStep = []\<rparr>
    \<and> io_notes o2 = map (\<lambda>m. NoteClaimed m turn) batch"
proof -
  let ?o1 = "mutate app s ib NextStep (natNum 0) (natNum (length (ib_nextStep ib))) [] False"
  let ?o3 = "\<lambda>steps. claimTurn app target turn (io_log ?o1) (io_inbox ?o1) steps"
  obtain steps where steps: "io_result ?o1 = Inr steps"
    and o3: "io_inbox o2 = io_inbox (?o3 steps)" "io_notes o2 = io_notes ?o1 @ io_notes (?o3 steps)"
      "io_result (?o3 steps) = Inr batch"
    by (rule andThen_Inr [OF assms(1) [unfolded claim_def] assms(2)])
  have first: "steps = ib_nextStep ib" "io_inbox ?o1 = ib\<lparr>ib_nextStep := []\<rparr>" "io_notes ?o1 = []"
    using mutate_take [OF refl steps] by simp_all
  show ?thesis
  proof (cases target)
    case NextTurn
    let ?o2 = "mutate app (io_log ?o1) (io_inbox ?o1) NextTurn (natNum 0) (natNum 1) [] False"
    obtain turns where turns: "io_result ?o2 = Inr turns"
      "io_inbox (?o3 steps) = io_inbox ?o2"
      "io_notes (?o3 steps) = io_notes ?o2 @ map (\<lambda>m. NoteClaimed m turn) (steps @ turns)"
      "batch = steps @ turns"
      using o3(3) NextTurn by (auto simp: claimTurn_def returning_def elim!: andThen_Inr [OF refl])
    from mutate_take [OF refl turns(1)] first
    have "turns = take 1 (ib_nextTurn ib)" "io_notes ?o2 = []"
      "io_inbox ?o2 = ib\<lparr>ib_nextStep := [], ib_nextTurn := drop 1 (ib_nextTurn ib)\<rparr>" by simp_all
    with turns first o3 NextTurn show ?thesis by simp
  next
    case NextStep
    with o3(3) have "io_inbox (?o3 steps) = io_inbox ?o1" "batch = steps"
      "io_notes (?o3 steps) = map (\<lambda>m. NoteClaimed m turn) steps"
      by (auto simp: claimTurn_def andThen_def returning_def Let_def)
    with first o3 NextStep show ?thesis by simp
  qed
qed

section \<open>The inbox of a session\<close>

text \<open>
  Any use of an inbox whose owner also appends other events to the session. Each call carries the
  state of the store attachment and the clock at that moment; a refused call leaves what the code
  had committed by then.
\<close>

datatype inbox_call =
    CallSplice inbox_target js_number js_number "message list"
  | CallClear
  | CallClaim inbox_target int
  | CallAppendMessage inbox_target message
  | CallPrependMessage inbox_target message
  | CallReplace message_id message
  | CallRemove message_id
  | CallOther event_data surface_intent

fun isInboxSplice :: "event_data \<Rightarrow> bool" where
  "isInboxSplice (InboxSpliced _) = True"
| "isInboxSplice _ = False"

abbreviation sessionAppend ::
    "attachment option \<Rightarrow> int \<Rightarrow> session \<Rightarrow> event_data \<Rightarrow> session \<times> (session_error + session_event)" where
  "sessionAppend entry now \<equiv> \<lambda>s d. appendEvent s entry now d NoIntent"

definition outcomeState :: "('s, 'e, 'a) inbox_outcome \<Rightarrow> 's \<times> inbox" where
  "outcomeState o1 = (io_log o1, io_inbox o1)"

fun inboxCall ::
    "session \<times> inbox \<Rightarrow> attachment option \<times> int \<times> inbox_call \<Rightarrow> session \<times> inbox" where
  "inboxCall (s, ib) (entry, now, CallSplice target start n ins) =
     outcomeState (inboxSplice (sessionAppend entry now) s ib target start n ins)"
| "inboxCall (s, ib) (entry, now, CallClear) = outcomeState (clearInbox (sessionAppend entry now) s ib)"
| "inboxCall (s, ib) (entry, now, CallClaim target turn) =
     outcomeState (claim (sessionAppend entry now) s ib target turn)"
| "inboxCall (s, ib) (entry, now, CallAppendMessage target m) =
     outcomeState (appendMessage (sessionAppend entry now) s ib target m)"
| "inboxCall (s, ib) (entry, now, CallPrependMessage target m) =
     outcomeState (prependMessage (sessionAppend entry now) s ib target m)"
| "inboxCall (s, ib) (entry, now, CallReplace i m) =
     outcomeState (replaceMessage (sessionAppend entry now) s ib i m)"
| "inboxCall (s, ib) (entry, now, CallRemove i) =
     outcomeState (removeMessage (sessionAppend entry now) s ib i)"
| "inboxCall (s, ib) (entry, now, CallOther d intent) =
     (if isInboxSplice d then (s, ib) else (fst (appendEvent s entry now d intent), ib))"

abbreviation sessionMirrors :: "nat \<Rightarrow> session \<times> inbox \<Rightarrow> bool" where
  "sessionMirrors k st \<equiv> mirrors ss_log session_ok k (fst st) (snd st)"

lemma inboxCall_mirrors: "sessionMirrors k st \<Longrightarrow> sessionMirrors k (inboxCall st c)"
proof -
  assume m: "sessionMirrors k st"
  obtain s ib where st: "st = (s, ib)" by (cases st)
  obtain entry now call where c: "c = (entry, now, call)" by (cases c)
  note m = m [unfolded st fst_conv snd_conv]
  show ?thesis
  proof (cases call)
    case (CallOther d intent)
    show ?thesis
    proof (cases "isInboxSplice d")
      case True
      with m st c CallOther show ?thesis by simp
    next
      case False
      then have other: "d \<noteq> InboxSpliced p" for p by auto
      have "mirrors ss_log session_ok k (fst (appendEvent s entry now d intent)) ib"
        by (rule session_log.mirrors_other [OF m surjective_pairing other])
      with False st c CallOther show ?thesis by simp
    qed
  qed (use m st c in \<open>simp_all add: outcomeState_def session_log.mirrors_inboxSplice session_log.mirrors_clear
      session_log.mirrors_claim session_log.mirrors_appendMessage session_log.mirrors_prependMessage
      session_log.mirrors_replaceMessage session_log.mirrors_removeMessage\<close>)
qed

lemma inboxCalls_mirrors: "sessionMirrors k st \<Longrightarrow> sessionMirrors k (foldl inboxCall st calls)"
  by (induction calls arbitrary: st) (simp_all add: inboxCall_mirrors)

lemma inboxReplays_ok:
  assumes "inboxReplays evs ib"
  shows "inbox_ok ib"
    and "mset (insertedBy evs) = mset (pendingMessages ib) + mset (removedBy emptyInbox evs)"
proof -
  note r = assms [unfolded inboxReplays_def]
  show "inbox_ok ib" using inbox_replay.replay_inv [OF r] by (simp add: inboxInv_def)
  show "mset (insertedBy evs) = mset (pendingMessages ib) + mset (removedBy emptyInbox evs)"
    using inboxFold_conserves [OF r] by (simp add: pendingMessages_def emptyInbox_def)
qed

section \<open>Properties\<close>

text \<open>
  C11. The inbox survives a restart exactly: after any calls on an inbox (with any outcome of
  their appends) interleaved with other appends to the session, rebuilding the inbox from the log
  gives the live lists; no two pending messages share an id; and every message ever inserted is
  either pending or was removed by a logged splice.
\<close>

theorem inbox_replay_is_live:
  assumes "newSession isAbsolute sid now0 mode seed header = Inr s0"
    and "newInbox seedLength (ss_log s0) = (Inr ib0 :: session_error inbox_error + inbox)"
    and "(case seedLength of Some n \<Rightarrow> nat n | None \<Rightarrow> 0) \<le> length (ss_log s0)"
    and "(s, ib) = foldl inboxCall (s0, ib0) calls"
  shows "newInbox seedLength (ss_log s) = (Inr ib :: session_error inbox_error + inbox)
    \<and> distinct (map msg_id (ib_nextTurn ib @ ib_nextStep ib))
    \<and> (let live = drop (case seedLength of Some n \<Rightarrow> nat n | None \<Rightarrow> 0) (ss_log s) in
        mset (insertedBy live) = mset (ib_nextTurn ib @ ib_nextStep ib) + mset (removedBy emptyInbox live))"
proof -
  let ?k = "case seedLength of Some n \<Rightarrow> nat n | None \<Rightarrow> 0"
  have "sessionMirrors ?k (s0, ib0)"
    using newSession_ok [OF assms(1)] assms(2,3) by (simp add: mirrors_def newInbox_Inr)
  from inboxCalls_mirrors [OF this, of calls] assms(4) have "sessionMirrors ?k (s, ib)" by metis
  then have r: "inboxReplays (drop ?k (ss_log s)) ib" by (simp add: mirrors_def)
  with inboxReplays_ok [OF r] show ?thesis
    by (simp only: newInbox_Inr inbox_ok_def pendingMessages_def Let_def)
qed

text \<open>
  C12. A claim takes the whole next-step list followed by at most one queued turn, in order, leaves
  the rest queued, and announces each claimed message once, in that order, to the claiming turn.
\<close>

theorem claim_takes_batch:
  assumes "io_result (claim app s ib target turn) = (Inr batch :: 'e inbox_error + message list)"
  shows "batch = ib_nextStep ib @ (if target = NextTurn then take 1 (ib_nextTurn ib) else [])
    \<and> io_inbox (claim app s ib target turn) =
        \<lparr>ib_nextTurn = (if target = NextTurn then drop 1 (ib_nextTurn ib) else ib_nextTurn ib), ib_nextStep = []\<rparr>
    \<and> io_notes (claim app s ib target turn) = map (\<lambda>m. NoteClaimed m turn) batch"
  using claim_result [OF refl assms] .

definition sampleInboxCalls :: "(attachment option \<times> int \<times> inbox_call) list" where
  "sampleInboxCalls =
     [(None, 1, CallAppendMessage NextTurn (sampleMessage ''a'')),
      (None, 2, CallAppendMessage NextTurn (sampleMessage ''b'')),
      (None, 3, CallOther (TurnStart 1) NoIntent),
      (None, 4, CallPrependMessage NextStep (sampleMessage ''a'')),
      (None, 5, CallAppendMessage NextStep (sampleMessage ''c'')),
      (None, 6, CallReplace ''b'' (sampleMessage ''d'')),
      (None, 7, CallClaim NextTurn 1)]"

lemmas inbox_eval =
  mutate_def inboxSplice_def appendMessage_def prependMessage_def replaceMessage_def removeMessage_def
  clearInbox_def claim_def claimTurn_def andThen_def returning_def outcomeState_def locate_def natNum_def emptyInbox_def
  validateSplice_def removedCountOf_def spliceInbox_def spliceAt_def splicedOut_def splice_json_def
  sampleMessage_def maxSafe_def

lemma sampleInbox_run:
  "map ev_data (ss_log (fst (foldl inboxCall (sampleSession, emptyInbox) sampleInboxCalls))) =
     [InboxSpliced \<lparr>sp_target = NextTurn, sp_start = 0, sp_removedCount = None,
        sp_inserted = [sampleMessage ''a''], sp_canceled = False\<rparr>,
      InboxSpliced \<lparr>sp_target = NextTurn, sp_start = 1, sp_removedCount = None,
        sp_inserted = [sampleMessage ''b''], sp_canceled = False\<rparr>,
      TurnStart 1,
      InboxSpliced \<lparr>sp_target = NextStep, sp_start = 0, sp_removedCount = None,
        sp_inserted = [sampleMessage ''c''], sp_canceled = False\<rparr>,
      InboxSpliced \<lparr>sp_target = NextTurn, sp_start = 1, sp_removedCount = Some 1,
        sp_inserted = [sampleMessage ''d''], sp_canceled = True\<rparr>,
      InboxSpliced \<lparr>sp_target = NextStep, sp_start = 0, sp_removedCount = Some 1,
        sp_inserted = [], sp_canceled = False\<rparr>,
      InboxSpliced \<lparr>sp_target = NextTurn, sp_start = 0, sp_removedCount = Some 1,
        sp_inserted = [], sp_canceled = False\<rparr>]
   \<and> snd (foldl inboxCall (sampleSession, emptyInbox) sampleInboxCalls) =
     \<lparr>ib_nextTurn = [sampleMessage ''d''], ib_nextStep = []\<rparr>"
  by (simp add: sampleInboxCalls_def inbox_eval session_eval surface_eval Let_def)

theorem inbox_replay_is_live_witness:
  "newInbox None (ss_log (fst (foldl inboxCall (sampleSession, emptyInbox) sampleInboxCalls)))
     = (Inr \<lparr>ib_nextTurn = [sampleMessage ''d''], ib_nextStep = []\<rparr> :: session_error inbox_error + inbox)"
proof -
  have "newInbox None (ss_log sampleSession) = (Inr emptyInbox :: session_error inbox_error + inbox)"
    by (simp add: newInbox_def sampleSession_def)
  from inbox_replay_is_live [OF sampleSession_new [of "\<lambda>_. True"] this _ prod.collapse, of sampleInboxCalls]
  show ?thesis by (simp add: sampleInbox_run)
qed

theorem claim_takes_batch_witness:
  "io_notes (claim (sessionAppend None 0) sampleSession
      \<lparr>ib_nextTurn = [sampleMessage ''a''], ib_nextStep = [sampleMessage ''c'']\<rparr> NextTurn 1) =
     [NoteClaimed (sampleMessage ''c'') 1, NoteClaimed (sampleMessage ''a'') 1]"
proof -
  let ?ib = "\<lparr>ib_nextTurn = [sampleMessage ''a''], ib_nextStep = [sampleMessage ''c'']\<rparr>"
  have "io_result (claim (sessionAppend None 0) sampleSession ?ib NextTurn 1)
      = Inr [sampleMessage ''c'', sampleMessage ''a'']"
    by (simp add: inbox_eval session_eval surface_eval Let_def)
  from claim_takes_batch [OF this] show ?thesis by simp
qed

end
