(* ===== verification/Block_Assembler.thy ===== *)
theory Block_Assembler
  imports Events
begin

text \<open>
  The chunk-to-message assembler, \<open>llm/llm/src/assembler.ts\<close>: it folds a stream of chunks into per-index
  partial blocks and assembles them in the order in which their indices first appeared.

  The lemmas show that every index in the order has exactly one partial (\<open>assembler_ok\<close>), that the
  partial of an index depends only on the chunks of that index (\<open>partial_projection\<close>), so no
  interleaving of the blocks of a stream matters, and that emitted blocks and replay metadata
  are cut by the same decision. \<open>char\<close> is an 8-bit character, so text is Latin-1 here and the
  white space \<open>trim\<close> removes is the Latin-1 part of the JavaScript white space.
\<close>

section \<open>State\<close>

record partial_block =
  pb_blockType :: string
  pb_text :: string
  pb_toolCallId :: "call_id option"
  pb_toolCallName :: "string option"
  pb_toolCallArguments :: string
  pb_block :: "content_block option"

definition newPartial :: "string \<Rightarrow> partial_block" where
  "newPartial t = \<lparr>pb_blockType = t, pb_text = [], pb_toolCallId = None, pb_toolCallName = None,
     pb_toolCallArguments = [], pb_block = None\<rparr>"

record assembler =
  as_partials :: "(int \<times> partial_block) list"
  as_order :: "int list"
  as_usage :: "token_usage option"
  as_finish :: "finish_reason option"
  as_replayState :: "replay_envelope option"

definition newAssembler :: assembler where
  "newAssembler = \<lparr>as_partials = [], as_order = [], as_usage = None, as_finish = None, as_replayState = None\<rparr>"

text \<open>\<open>ensure\<close>: the partial of an index, created and ordered when it is new.\<close>

definition ensure :: "assembler \<Rightarrow> int \<Rightarrow> string \<Rightarrow> assembler \<times> partial_block" where
  "ensure a index blockType =
     (case map_of (as_partials a) index of
        Some p \<Rightarrow> (a, p)
      | None \<Rightarrow>
          let p = newPartial blockType in
          (a\<lparr>as_partials := map_set index p (as_partials a), as_order := as_order a @ [index]\<rparr>, p))"

text \<open>Writing through the reference \<open>ensure\<close> returned; a partial closed by \<open>block-end\<close> ignores it.\<close>

definition writePartial ::
    "assembler \<Rightarrow> int \<Rightarrow> string \<Rightarrow> (partial_block \<Rightarrow> partial_block) \<Rightarrow> assembler" where
  "writePartial a index blockType f =
     (let (a', p) = ensure a index blockType in
      if pb_block p \<noteq> None then a'
      else a'\<lparr>as_partials := map_set index (f p) (as_partials a')\<rparr>)"

fun push :: "assembler \<Rightarrow> stream_chunk \<Rightarrow> assembler" where
  "push a (BlockStart index blockType) = fst (ensure a index blockType)"
| "push a (TextDelta index t) =
     writePartial a index ''text'' (\<lambda>p. p\<lparr>pb_text := pb_text p @ t\<rparr>)"
| "push a (ReasoningDelta index t) =
     writePartial a index ''reasoning'' (\<lambda>p. p\<lparr>pb_text := pb_text p @ t\<rparr>)"
| "push a (ToolCallDelta index i name argumentsDelta) =
     writePartial a index ''tool-call'' (\<lambda>p. p\<lparr>pb_toolCallId := Some i,
       pb_toolCallName := (case name of Some (c # cs) \<Rightarrow> Some (c # cs) | _ \<Rightarrow> pb_toolCallName p),
       pb_toolCallArguments := pb_toolCallArguments p @ argumentsDelta\<rparr>)"
| "push a (BlockEnd index block) =
     writePartial a index (block_type block) (\<lambda>p. p\<lparr>pb_block := Some block\<rparr>)"
| "push a (UsageChunk u) = a\<lparr>as_usage := Some u\<rparr>"
| "push a (FinishChunk r st) = a\<lparr>as_finish := Some r, as_replayState := st\<rparr>"

definition pushAll :: "stream_chunk list \<Rightarrow> assembler" where
  "pushAll cs = foldl push newAssembler cs"

section \<open>Assembly\<close>

datatype assembly_error = CannotAssemble string | NoPartial int

definition assemble :: "partial_block \<Rightarrow> int \<Rightarrow> assembly_error + content_block" where
  "assemble p index =
     (case pb_block p of
        Some b \<Rightarrow> Inr b
      | None \<Rightarrow>
          if pb_blockType p = ''text'' then Inr (TextBlock (pb_text p))
          else if pb_blockType p = ''reasoning'' then Inr (ReasoningBlock (pb_text p))
          else if pb_blockType p = ''tool-call'' then
            Inr (ToolCallBlock
                   (case pb_toolCallId p of Some i \<Rightarrow> i | None \<Rightarrow> ''call-'' @ text_of_int index)
                   (case pb_toolCallName p of Some n \<Rightarrow> n | None \<Rightarrow> [])
                   (pb_toolCallArguments p))
          else Inl (CannotAssemble (pb_blockType p)))"

definition mustGet :: "assembler \<Rightarrow> int \<Rightarrow> assembly_error + partial_block" where
  "mustGet a index =
     (case map_of (as_partials a) index of Some p \<Rightarrow> Inr p | None \<Rightarrow> Inl (NoPartial index))"

definition finish :: "assembler \<Rightarrow> finish_reason" where
  "finish a = (case as_finish a of Some r \<Rightarrow> r | None \<Rightarrow> FinishStop)"

definition allBlocks :: "assembler \<Rightarrow> assembly_error + content_block list" where
  "allBlocks a = mapE (\<lambda>index. bindE (mustGet a index) (\<lambda>p. assemble p index)) (as_order a)"

text \<open>The items of a list at the positions a list of booleans keeps.\<close>

definition keepAt :: "bool list \<Rightarrow> 'a list \<Rightarrow> 'a list" where
  "keepAt kept xs = map snd (filter fst (zip kept xs))"

definition assembled :: "assembler \<Rightarrow> assembly_error + content_block list \<times> replay_envelope option" where
  "assembled a =
     bindE (allBlocks a) (\<lambda>all.
       let kept = (if finish a = FinishMaxTokens
                   then Some (map (\<lambda>b. block_type b \<noteq> ''tool-call'') all) else None);
           blocks = (case kept of None \<Rightarrow> all | Some ks \<Rightarrow> keepAt ks all) in
       case as_replayState a of
         None \<Rightarrow> Inr (blocks, None)
       | Some envelope \<Rightarrow>
           (case re_blocks envelope of
              None \<Rightarrow> Inr (blocks, Some envelope)
            | Some entries \<Rightarrow>
                if length entries \<noteq> length all then Inr (blocks, None)
                else
                  (case kept of
                     None \<Rightarrow> Inr (blocks, Some envelope)
                   | Some ks \<Rightarrow>
                       if length blocks = length all then Inr (blocks, Some envelope)
                       else Inr (blocks, Some (envelope\<lparr>re_blocks := Some (keepAt ks entries)\<rparr>)))))"

definition blocks :: "assembler \<Rightarrow> assembly_error + content_block list" where
  "blocks a = bindE (assembled a) (\<lambda>(bs, _). Inr bs)"

definition replayState :: "assembler \<Rightarrow> assembly_error + replay_envelope option" where
  "replayState a = bindE (assembled a) (\<lambda>(_, r). Inr r)"

section \<open>Interrupted streams\<close>

definition js_space :: "char \<Rightarrow> bool" where
  "js_space c \<longleftrightarrow> of_char c \<in> {9, 10, 11, 12, 13, 32, 160 :: nat}"

fun nonBlank :: "content_block \<Rightarrow> bool" where
  "nonBlank (TextBlock t) \<longleftrightarrow> \<not> list_all js_space t"
| "nonBlank (ReasoningBlock t) \<longleftrightarrow> \<not> list_all js_space t"
| "nonBlank _ \<longleftrightarrow> False"

definition interruptedBlocks :: "assembler \<Rightarrow> assembly_error + content_block list" where
  "interruptedBlocks a =
     bindE (mapE (\<lambda>index. bindE (mustGet a index) (\<lambda>p.
         let t = (case pb_block p of Some b \<Rightarrow> block_type b | None \<Rightarrow> pb_blockType p) in
         if t \<noteq> ''text'' \<and> t \<noteq> ''reasoning'' then Inr None
         else bindE (assemble p index) (\<lambda>b. Inr (Some b)))) (as_order a))
       (\<lambda>bs. Inr (filter nonBlank (List.map_filter id bs)))"

section \<open>Every index has one partial\<close>

fun chunk_index :: "stream_chunk \<Rightarrow> int option" where
  "chunk_index (BlockStart i _) = Some i"
| "chunk_index (TextDelta i _) = Some i"
| "chunk_index (ReasoningDelta i _) = Some i"
| "chunk_index (ToolCallDelta i _ _ _) = Some i"
| "chunk_index (BlockEnd i _) = Some i"
| "chunk_index _ = None"

text \<open>What one chunk does to the partial of its own index.\<close>

definition openPartial :: "string \<Rightarrow> partial_block option \<Rightarrow> partial_block" where
  "openPartial t p = (case p of Some q \<Rightarrow> q | None \<Rightarrow> newPartial t)"

definition writeOpen ::
    "string \<Rightarrow> (partial_block \<Rightarrow> partial_block) \<Rightarrow> partial_block option \<Rightarrow> partial_block" where
  "writeOpen t f p = (let q = openPartial t p in if pb_block q \<noteq> None then q else f q)"

fun partialStep :: "partial_block option \<Rightarrow> stream_chunk \<Rightarrow> partial_block option" where
  "partialStep p (BlockStart _ t) = Some (openPartial t p)"
| "partialStep p (TextDelta _ t) = Some (writeOpen ''text'' (\<lambda>q. q\<lparr>pb_text := pb_text q @ t\<rparr>) p)"
| "partialStep p (ReasoningDelta _ t) = Some (writeOpen ''reasoning'' (\<lambda>q. q\<lparr>pb_text := pb_text q @ t\<rparr>) p)"
| "partialStep p (ToolCallDelta _ i name d) = Some (writeOpen ''tool-call'' (\<lambda>q. q\<lparr>pb_toolCallId := Some i,
       pb_toolCallName := (case name of Some (c # cs) \<Rightarrow> Some (c # cs) | _ \<Rightarrow> pb_toolCallName q),
       pb_toolCallArguments := pb_toolCallArguments q @ d\<rparr>) p)"
| "partialStep p (BlockEnd _ b) = Some (writeOpen (block_type b) (\<lambda>q. q\<lparr>pb_block := Some b\<rparr>) p)"
| "partialStep p _ = p"

lemma ensure_facts:
  "map_of (as_partials (fst (ensure a i t))) = (map_of (as_partials a))(i \<mapsto> openPartial t (map_of (as_partials a) i))"
  "snd (ensure a i t) = openPartial t (map_of (as_partials a) i)"
  "as_order (fst (ensure a i t)) = as_order a @ (if map_of (as_partials a) i = None then [i] else [])"
  by (auto simp: ensure_def openPartial_def Let_def fun_upd_idem split: option.split)

lemma writePartial_facts:
  "map_of (as_partials (writePartial a i t f)) = (map_of (as_partials a))(i \<mapsto> writeOpen t f (map_of (as_partials a) i))"
  "as_order (writePartial a i t f) = as_order a @ (if map_of (as_partials a) i = None then [i] else [])"
proof -
  obtain a' p where e: "ensure a i t = (a', p)" by force
  note f = ensure_facts [of a i t, unfolded e fst_conv snd_conv]
  show "map_of (as_partials (writePartial a i t f)) = (map_of (as_partials a))(i \<mapsto> writeOpen t f (map_of (as_partials a) i))"
    using f by (simp add: writePartial_def e writeOpen_def Let_def)
  show "as_order (writePartial a i t f) = as_order a @ (if map_of (as_partials a) i = None then [i] else [])"
    using f by (simp add: writePartial_def e)
qed

lemma push_partials:
  "map_of (as_partials (push a c)) =
     (case chunk_index c of
        None \<Rightarrow> map_of (as_partials a)
      | Some i \<Rightarrow> (map_of (as_partials a))(i := partialStep (map_of (as_partials a) i) c))"
  by (cases c) (simp_all add: ensure_facts writePartial_facts)

lemma push_order:
  "as_order (push a c) = as_order a @
     (case chunk_index c of Some i \<Rightarrow> if map_of (as_partials a) i = None then [i] else [] | None \<Rightarrow> [])"
  by (cases c) (simp_all add: ensure_facts writePartial_facts)

lemma partialStep_Some: "chunk_index c \<noteq> None \<Longrightarrow> partialStep p c \<noteq> None"
  by (cases c) auto

definition assembler_ok :: "assembler \<Rightarrow> bool" where
  "assembler_ok a \<longleftrightarrow> distinct (as_order a) \<and> set (as_order a) = dom (map_of (as_partials a))"

lemma pushAll_snoc: "pushAll (cs @ [c]) = push (pushAll cs) c"
  by (simp add: pushAll_def)

lemma pushAll_ok: "assembler_ok (pushAll cs)"
proof (induction cs rule: rev_induct)
  case Nil
  then show ?case by (simp add: pushAll_def assembler_ok_def newAssembler_def)
next
  case (snoc c cs)
  then show ?case
    by (cases "chunk_index c")
      (auto simp: pushAll_snoc assembler_ok_def push_order push_partials partialStep_Some domIff)
qed

lemma partial_projection:
  "map_of (as_partials (pushAll cs)) i = foldl partialStep None (filter (\<lambda>c. chunk_index c = Some i) cs)"
proof (induction cs rule: rev_induct)
  case Nil
  then show ?case by (simp add: pushAll_def newAssembler_def)
next
  case (snoc c cs)
  then show ?case by (auto simp: pushAll_snoc push_partials split: option.split)
qed

text \<open>The order is the order of first appearance.\<close>

fun firsts :: "int list \<Rightarrow> int list" where
  "firsts [] = []"
| "firsts (i # is) = i # filter (\<lambda>j. j \<noteq> i) (firsts is)"

definition chunk_indices :: "stream_chunk list \<Rightarrow> int list" where
  "chunk_indices cs = List.map_filter chunk_index cs"

lemma set_firsts [simp]: "set (firsts is) = set is"
  by (induction "is") auto

lemma firsts_snoc: "firsts (is @ [i]) = firsts is @ (if i \<in> set is then [] else [i])"
  by (induction "is") auto

lemma chunk_indices_snoc:
  "chunk_indices (cs @ [c]) = chunk_indices cs @ (case chunk_index c of Some i \<Rightarrow> [i] | None \<Rightarrow> [])"
  by (simp add: chunk_indices_def List.map_filter_def split: option.split)

lemma order_projection: "as_order (pushAll cs) = firsts (chunk_indices cs)"
proof (induction cs rule: rev_induct)
  case Nil
  then show ?case by (simp add: pushAll_def newAssembler_def chunk_indices_def)
next
  case (snoc c cs)
  have "map_of (as_partials (pushAll cs)) i = None \<longleftrightarrow> i \<notin> set (as_order (pushAll cs))" for i
    using pushAll_ok [of cs] by (auto simp: assembler_ok_def)
  with snoc show ?case
    by (simp add: pushAll_snoc push_order chunk_indices_snoc firsts_snoc split: option.split)
qed

section \<open>What a block assembles to\<close>

text \<open>
  The chunks of one index, read declaratively: the first \<open>block-end\<close> is authoritative; without
  one, the block has the type of the first chunk and the concatenation of the deltas.
\<close>

fun closing_block :: "stream_chunk \<Rightarrow> content_block option" where
  "closing_block (BlockEnd _ b) = Some b"
| "closing_block _ = None"

fun opened_type :: "stream_chunk \<Rightarrow> string" where
  "opened_type (BlockStart _ t) = t"
| "opened_type (TextDelta _ _) = ''text''"
| "opened_type (ReasoningDelta _ _) = ''reasoning''"
| "opened_type (ToolCallDelta _ _ _ _) = ''tool-call''"
| "opened_type (BlockEnd _ b) = block_type b"
| "opened_type _ = []"

fun chunk_text :: "stream_chunk \<Rightarrow> string" where
  "chunk_text (TextDelta _ t) = t"
| "chunk_text (ReasoningDelta _ t) = t"
| "chunk_text _ = []"

fun chunk_arguments :: "stream_chunk \<Rightarrow> string" where
  "chunk_arguments (ToolCallDelta _ _ _ d) = d"
| "chunk_arguments _ = []"

fun chunk_call_id :: "stream_chunk \<Rightarrow> call_id option" where
  "chunk_call_id (ToolCallDelta _ i _ _) = Some i"
| "chunk_call_id _ = None"

fun chunk_call_name :: "stream_chunk \<Rightarrow> string option" where
  "chunk_call_name (ToolCallDelta _ _ (Some (c # cs)) _) = Some (c # cs)"
| "chunk_call_name _ = None"

definition last_some :: "('a \<Rightarrow> 'b option) \<Rightarrow> 'a list \<Rightarrow> 'b option" where
  "last_some f xs = foldl (\<lambda>acc x. case f x of Some y \<Rightarrow> Some y | None \<Rightarrow> acc) None xs"

lemma last_some_snoc [simp]:
  "last_some f (xs @ [x]) = (case f x of Some y \<Rightarrow> Some y | None \<Rightarrow> last_some f xs)"
  by (simp add: last_some_def split: option.split)

lemma last_some_Nil [simp]: "last_some f [] = None"
  by (simp add: last_some_def)

definition openSummary :: "stream_chunk list \<Rightarrow> partial_block" where
  "openSummary ds =
     \<lparr>pb_blockType = opened_type (hd ds), pb_text = concat (map chunk_text ds),
      pb_toolCallId = last_some chunk_call_id ds, pb_toolCallName = last_some chunk_call_name ds,
      pb_toolCallArguments = concat (map chunk_arguments ds), pb_block = None\<rparr>"

lemma partialStep_open:
  assumes "chunk_index c \<noteq> None" "closing_block c = None" "pb_block q = None"
  shows "partialStep (Some q) c = Some (q\<lparr>pb_text := pb_text q @ chunk_text c,
      pb_toolCallId := (case chunk_call_id c of Some i \<Rightarrow> Some i | None \<Rightarrow> pb_toolCallId q),
      pb_toolCallName := (case chunk_call_name c of Some n \<Rightarrow> Some n | None \<Rightarrow> pb_toolCallName q),
      pb_toolCallArguments := pb_toolCallArguments q @ chunk_arguments c\<rparr>)"
proof (cases c)
  case (ToolCallDelta i cid name d)
  then show ?thesis using assms
    by (cases name; cases "the name") (auto simp: writeOpen_def openPartial_def Let_def)
qed (use assms in \<open>auto simp: writeOpen_def openPartial_def Let_def\<close>)

lemma partialStep_first:
  assumes "chunk_index c \<noteq> None" "closing_block c = None"
  shows "partialStep None c = Some (openSummary [c])"
proof (cases c)
  case (ToolCallDelta i cid name d)
  then show ?thesis
    by (cases name; cases "the name")
      (auto simp: writeOpen_def openPartial_def newPartial_def openSummary_def last_some_def Let_def)
qed (use assms in \<open>auto simp: writeOpen_def openPartial_def newPartial_def openSummary_def last_some_def Let_def\<close>)

lemma partialStep_closed:
  assumes "pb_block q \<noteq> None"
  shows "chunk_index c \<noteq> None \<Longrightarrow> partialStep (Some q) c = Some q"
  using assms by (cases c) (auto simp: writeOpen_def openPartial_def Let_def)

lemma partialStep_closing:
  assumes "closing_block c = Some b" "\<And>q. p = Some q \<Longrightarrow> pb_block q = None"
  shows "\<exists>q. partialStep p c = Some q \<and> pb_block q = Some b"
  using assms by (cases c; cases p) (auto simp: writeOpen_def openPartial_def newPartial_def Let_def)

text \<open>The fold over the chunks of one index.\<close>

lemma partial_summary:
  assumes "\<forall>c \<in> set ds. chunk_index c \<noteq> None"
  shows "(case List.map_filter closing_block ds of
      [] \<Rightarrow> foldl partialStep None ds = (if ds = [] then None else Some (openSummary ds))
    | b # _ \<Rightarrow> \<exists>q. foldl partialStep None ds = Some q \<and> pb_block q = Some b)"
  using assms
proof (induction ds rule: rev_induct)
  case Nil
  then show ?case by (simp add: List.map_filter_def)
next
  case (snoc c ds)
  let ?p = "foldl partialStep None ds"
  have idx: "chunk_index c \<noteq> None" using snoc.prems by simp
  have app: "List.map_filter closing_block (ds @ [c]) = List.map_filter closing_block ds @
      (case closing_block c of Some b \<Rightarrow> [b] | None \<Rightarrow> [])"
    by (simp add: List.map_filter_def split: option.split)
  show ?case
  proof (cases "List.map_filter closing_block ds")
    case (Cons b bs)
    with snoc obtain q where "?p = Some q" "pb_block q = Some b" by auto
    with Cons app partialStep_closed [of q c] idx show ?thesis by simp
  next
    case Nil
    with snoc have p: "?p = (if ds = [] then None else Some (openSummary ds))" by simp
    show ?thesis
    proof (cases "closing_block c")
      case (Some b)
      with Nil app partialStep_closing [of c b ?p] p show ?thesis by (auto simp: openSummary_def split: if_splits)
    next
      case None
      show ?thesis
      proof (cases "ds = []")
        case True
        with p None Nil app partialStep_first [OF idx None] show ?thesis by simp
      next
        case False
        with p None Nil app partialStep_open [OF idx None, of "openSummary ds"] show ?thesis
          by (simp add: openSummary_def split: option.splits)
      qed
    qed
  qed
qed

definition chunksAt :: "int \<Rightarrow> stream_chunk list \<Rightarrow> stream_chunk list" where
  "chunksAt i cs = filter (\<lambda>c. chunk_index c = Some i) cs"

definition blockAt :: "int \<Rightarrow> stream_chunk list \<Rightarrow> assembly_error + content_block" where
  "blockAt i cs =
     (case List.map_filter closing_block (chunksAt i cs) of
        b # _ \<Rightarrow> Inr b
      | [] \<Rightarrow> assemble (openSummary (chunksAt i cs)) i)"

lemma chunksAt_nonempty: "i \<in> set (chunk_indices cs) \<longleftrightarrow> chunksAt i cs \<noteq> []"
  by (induction cs) (auto simp: chunk_indices_def chunksAt_def split: option.splits)

lemma assemble_blockAt:
  assumes "i \<in> set (as_order (pushAll cs))"
  shows "bindE (mustGet (pushAll cs) i) (\<lambda>p. assemble p i) = blockAt i cs"
proof -
  have ne: "chunksAt i cs \<noteq> []"
    using assms by (simp add: order_projection chunksAt_nonempty)
  have idx: "\<forall>c \<in> set (chunksAt i cs). chunk_index c \<noteq> None" by (simp add: chunksAt_def)
  have "map_of (as_partials (pushAll cs)) i = foldl partialStep None (chunksAt i cs)"
    by (simp add: partial_projection chunksAt_def)
  with partial_summary [OF idx] ne show ?thesis
    by (auto simp: mustGet_def blockAt_def assemble_def split: list.splits)
qed

lemma allBlocks_blockAt:
  "allBlocks (pushAll cs) = mapE (\<lambda>i. blockAt i cs) (firsts (chunk_indices cs))"
  unfolding allBlocks_def order_projection [symmetric]
  by (rule mapE_cong) (rule assemble_blockAt)

section \<open>Truncation and replay metadata\<close>

lemma keepAt_map: "keepAt (map f xs) xs = filter f xs"
  by (induction xs) (auto simp: keepAt_def)

lemma keepAt_zip:
  "length ys = length xs \<Longrightarrow> zip (keepAt (map f xs) xs) (keepAt (map f xs) ys) = filter (\<lambda>(x, _). f x) (zip xs ys)"
  by (induction xs ys rule: list_induct2') (auto simp: keepAt_def)

lemma length_keepAt: "length ys = length xs \<Longrightarrow> length (keepAt (map f xs) ys) = length (filter f xs)"
  by (induction xs ys rule: list_induct2') (auto simp: keepAt_def)

lemma keepAt_all:
  assumes "length (keepAt (map f xs) xs) = length xs"
  shows "keepAt (map f xs) xs = xs" "length ys = length xs \<Longrightarrow> keepAt (map f xs) ys = ys"
proof -
  from assms have "filter f xs = xs"
    by (metis keepAt_map filter_id_conv length_filter_less nat_neq_iff)
  then have all: "\<forall>x \<in> set xs. f x" by (simp add: filter_id_conv)
  then show "keepAt (map f xs) xs = xs" by (simp add: keepAt_map filter_id_conv)
  show "keepAt (map f xs) ys = ys" if "length ys = length xs"
    using that all by (induction xs ys rule: list_induct2') (auto simp: keepAt_def)
qed

definition keptBlock :: "assembler \<Rightarrow> content_block \<Rightarrow> bool" where
  "keptBlock a b \<longleftrightarrow> (finish a = FinishMaxTokens \<longrightarrow> block_type b \<noteq> ''tool-call'')"

lemma keptBlock_cases:
  "keptBlock a = (if finish a = FinishMaxTokens then (\<lambda>b. block_type b \<noteq> ''tool-call'') else (\<lambda>_. True))"
  by (auto simp: keptBlock_def fun_eq_iff)

lemma assembled_Inr:
  assumes "assembled a = Inr (bs, r)"
  obtains all where "allBlocks a = Inr all" "bs = filter (keptBlock a) all"
    "\<And>env. as_replayState a = Some env \<Longrightarrow> re_blocks env = None \<Longrightarrow> r = Some env"
    "\<And>env es. as_replayState a = Some env \<Longrightarrow> re_blocks env = Some es \<Longrightarrow>
       if length es = length all
       then \<exists>es'. r = Some (env\<lparr>re_blocks := Some es'\<rparr>) \<and> length es' = length bs
              \<and> zip bs es' = filter (\<lambda>(b, _). keptBlock a b) (zip all es)
       else r = None"
    "as_replayState a = None \<Longrightarrow> r = None"
proof -
  from assms obtain all where all: "allBlocks a = Inr all"
    by (cases "allBlocks a") (auto simp: assembled_def)
  let ?f = "\<lambda>b. block_type b \<noteq> ''tool-call''"
  have same: "env\<lparr>re_blocks := Some es\<rparr> = env" if "re_blocks env = Some es" for env :: replay_envelope and es
    using that by simp
  have self: "\<exists>es'. x = Some (env\<lparr>re_blocks := Some es'\<rparr>) \<and> P es'"
    if "Some env = x" "re_blocks env = Some es" "P es" for env :: replay_envelope and es P x
    using that same by metis
  show thesis
  proof (cases "finish a = FinishMaxTokens")
    case False
    then have k: "keptBlock a = (\<lambda>_. True)" by (simp add: keptBlock_cases)
    show thesis
      by (rule that [OF all]; use assms all False in
          \<open>auto simp: assembled_def k intro: self split: option.splits if_splits\<close>)
  next
    case True
    then have k: "keptBlock a = ?f" by (simp add: keptBlock_cases)
    have zip: "length es = length all \<Longrightarrow> length (keepAt (map ?f all) all) = length all \<Longrightarrow>
        filter (\<lambda>(b, _). ?f b) (zip all es) = zip all es" for es :: "json list"
      using keepAt_zip [of es all ?f] keepAt_all(1) [of ?f all] keepAt_all(2) [of ?f all es] by simp
    have cut: "\<exists>es'. env\<lparr>re_blocks := Some (keepAt (map ?f all) es)\<rparr> = env\<lparr>re_blocks := Some es'\<rparr>
        \<and> length es' = length (filter ?f all) \<and> zip (filter ?f all) es' = filter (\<lambda>(b, _). ?f b) (zip all es)"
      if "length es = length all" for env :: replay_envelope and es
      using that keepAt_zip [of es all ?f]
      by (intro exI [of _ "keepAt (map ?f all) es"]) (simp add: keepAt_map length_keepAt)
    show thesis
      by (rule that [OF all]; use assms all True zip keepAt_all(1) [of ?f all] keepAt_all(2) [of ?f all] in
          \<open>auto simp: assembled_def k keepAt_map length_keepAt Let_def intro: self cut split: option.splits if_splits\<close>)
  qed
qed

section \<open>Interruption\<close>

lemma assemble_text:
  assumes "(case pb_block p of Some b \<Rightarrow> block_type b | None \<Rightarrow> pb_blockType p) \<in> {''text'', ''reasoning''}"
  shows "\<exists>b. assemble p i = Inr b"
  using assms by (cases "pb_block p") (auto simp: assemble_def)

lemma interruptedBlocks_total:
  assumes "assembler_ok a"
  shows "\<exists>bs. interruptedBlocks a = Inr bs \<and> list_all nonBlank bs"
proof -
  let ?f = "\<lambda>index. bindE (mustGet a index) (\<lambda>p.
         let t = (case pb_block p of Some b \<Rightarrow> block_type b | None \<Rightarrow> pb_blockType p) in
         if t \<noteq> ''text'' \<and> t \<noteq> ''reasoning'' then Inr None
         else bindE (assemble p index) (\<lambda>b. Inr (Some b)))"
  have ok: "\<exists>y. ?f i = Inr y" if i: "i \<in> set (as_order a)" for i
  proof -
    from i assms obtain p where "map_of (as_partials a) i = Some p" by (auto simp: assembler_ok_def)
    then show ?thesis
      using assemble_text [of p i] by (auto simp: mustGet_def Let_def result_simps)
  qed
  have "\<exists>ys. mapE ?f xs = Inr ys" if "set xs \<subseteq> set (as_order a)" for xs
    using that
  proof (induction xs)
    case Nil
    then show ?case by simp
  next
    case (Cons x xs)
    then obtain y ys where "?f x = Inr y" "mapE ?f xs = Inr ys" using ok [of x] by auto
    then show ?case by (simp only: mapE.simps bindE.simps) blast
  qed
  then obtain ys where "mapE ?f (as_order a) = Inr ys" by blast
  then show ?thesis by (simp add: interruptedBlocks_def list_all_iff)
qed

section \<open>Properties\<close>


text \<open>
  Emitted blocks and replay metadata are cut together: the emitted blocks are the assembled
  blocks in order, without tool calls exactly when the stream ended at the token ceiling; replay entries
  survive only if there was one per assembled block, and then entry and block stay paired.
\<close>

theorem replay_aligned:
  assumes "assembled (pushAll cs) = Inr (bs, r)"
  shows "\<exists>all. allBlocks (pushAll cs) = Inr all \<and> bs = filter (keptBlock (pushAll cs)) all
    \<and> (\<forall>env es. as_replayState (pushAll cs) = Some env \<and> re_blocks env = Some es \<longrightarrow>
        (if length es = length all
         then \<exists>es'. r = Some (env\<lparr>re_blocks := Some es'\<rparr>) \<and> length es' = length bs
                \<and> zip bs es' = filter (\<lambda>(b, _). keptBlock (pushAll cs) b) (zip all es)
         else r = None))"
  using assms by (elim assembled_Inr) blast

definition sampleStream :: "stream_chunk list" where
  "sampleStream =
     [BlockStart 0 ''text'', ToolCallDelta 1 ''c'' (Some ''read'') ''{'', TextDelta 0 ''hi'',
      ToolCallDelta 1 ''c'' None ''}'', TextDelta 0 '' there'',
      FinishChunk FinishMaxTokens (Some \<lparr>re_response = JNull, re_blocks = Some [JStr ''x'', JStr ''y'']\<rparr>)]"

theorem replay_aligned_witness:
  "assembled (pushAll sampleStream) =
     Inr ([TextBlock ''hi there''], Some \<lparr>re_response = JNull, re_blocks = Some [JStr ''x'']\<rparr>)
   \<and> (\<exists>all. allBlocks (pushAll sampleStream) = Inr all \<and> length all = 2
        \<and> [TextBlock ''hi there''] = filter (keptBlock (pushAll sampleStream)) all)"
proof -
  have eval: "assembled (pushAll sampleStream) =
      Inr ([TextBlock ''hi there''], Some \<lparr>re_response = JNull, re_blocks = Some [JStr ''x'']\<rparr>)"
    "allBlocks (pushAll sampleStream) = Inr [TextBlock ''hi there'', ToolCallBlock ''c'' ''read'' ''{}'']"
    by (simp_all add: sampleStream_def pushAll_def newAssembler_def ensure_def newPartial_def
        writePartial_def assembled_def allBlocks_def mustGet_def assemble_def finish_def keepAt_def Let_def)
  from replay_aligned [OF eval(1)] eval show ?thesis by simp
qed

text \<open>
  Finalising an interrupted stream always succeeds, whatever was cut off, and keeps only text
  and reasoning with visible content: no tool call reaches the transcript without a result.
\<close>

theorem interrupted_blocks_safe:
  "\<exists>bs. interruptedBlocks (pushAll cs) = Inr bs \<and> list_all nonBlank bs"
  by (rule interruptedBlocks_total [OF pushAll_ok])

end
