(* ===== verification/Llm_Retry.thy ===== *)
theory Llm_Retry
  imports Session_Log "HOL-Library.Char_ord" "HOL-Library.List_Lexorder"
begin

text \<open>
  Request retries: the provider policy of \<open>llm/llm/src/retry-policy.ts\<close>, the recovery of
  \<open>llm/llm-retry/src/index.ts\<close>, and the durable invariants of \<open>history.ts\<close> and \<open>invariant.ts\<close>.

  A scheduled retry is logged (\<open>llm/retry\<close>) before its wait and the completed wait after it
  (\<open>llm/retry-started\<close>); the next attempt number is read back from the log. The lemmas show the
  bounds of the delay, that every retry of one policy chain in a log the invariant accepts is
  numbered 1, 2, 3, ..., and that what \<open>recover\<close> appends is what the invariant accepts.

  Delays are doubles computed with rounding: \<open>rnd\<close> is the rounding of one operation, and the facts
  about it that are used (monotone, exact on 0) are premises. The log is reached through the
  interface \<open>event_log\<close>; the downstream policy \<open>next\<close>, the timer \<open>wait\<close>, the random sample and the
  fresh id are arguments, and the first two may themselves change the log.
\<close>

section \<open>Policies\<close>

definition MAX_TIMER_DELAY_MS :: rat where
  "MAX_TIMER_DELAY_MS = 2147483647"

definition DEFAULT_MAX_RETRIES :: int where "DEFAULT_MAX_RETRIES = 5"
definition DEFAULT_INITIAL_DELAY_MS :: rat where "DEFAULT_INITIAL_DELAY_MS = 500"
definition DEFAULT_MAX_DELAY_MS :: rat where "DEFAULT_MAX_DELAY_MS = 10000"
definition DEFAULT_JITTER_RATIO :: rat where "DEFAULT_JITTER_RATIO = 1 / 10"

definition DEFAULT_RETRYABLE_CODES :: "string list" where
  "DEFAULT_RETRYABLE_CODES = [''EMPTY_RESPONSE'', ''RATE_LIMIT'', ''SERVER'', ''TIMEOUT'', ''TRANSPORT'']"

text \<open>A configuration object: its own keys, and the values of the keys the code reads.\<close>

record backoff_config =
  bc_keys :: "string list"
  bc_initialDelayMs :: "js_number option"
  bc_maxDelayMs :: "js_number option"
  bc_jitterRatio :: "js_number option"

record retry_policy_config =
  pc_mode :: string
  pc_keys :: "string list"
  pc_maxRetries :: "js_number option"
  pc_retryableCodes :: "json list option"
  pc_backoff :: "backoff_config option"

record retry_backoff =
  rb_initialDelayMs :: rat
  rb_maxDelayMs :: rat
  rb_jitterRatio :: rat

datatype retry_policy = NormalPolicy int "string list" retry_backoff | AlwaysPolicy retry_backoff

fun policy_backoff :: "retry_policy \<Rightarrow> retry_backoff" where
  "policy_backoff (NormalPolicy _ _ b) = b"
| "policy_backoff (AlwaysPolicy b) = b"

datatype policy_error =
    UnknownKey string
  | BadInitialDelay
  | BadMaxDelay
  | InitialAboveMax
  | BadJitter
  | BadMaxRetries
  | NoRetryableCodes
  | BadRetryableCode
  | DuplicateRetryableCodes
  | BadMode

fun js_value :: "js_number \<Rightarrow> rat" where
  "js_value (Fin x) = x"
| "js_value _ = 0"

definition js_safe_integer :: "js_number \<Rightarrow> bool" where
  "js_safe_integer n \<longleftrightarrow> isFinite n \<and> isSafeInteger (js_value n)"

fun validateKeys :: "string list \<Rightarrow> string list \<Rightarrow> policy_error + unit" where
  "validateKeys [] allowed = Inr ()"
| "validateKeys (k # ks) allowed = (if k \<notin> set allowed then Inl (UnknownKey k) else validateKeys ks allowed)"

definition BACKOFF_KEYS :: "string list" where
  "BACKOFF_KEYS = [''initialDelayMs'', ''maxDelayMs'', ''jitterRatio'']"

definition POLICY_KEYS :: "string list" where
  "POLICY_KEYS = [''mode'', ''maxRetries'', ''retryableCodes'', ''backoff'']"

definition orDefault :: "js_number option \<Rightarrow> rat \<Rightarrow> js_number" where
  "orDefault v d = (case v of Some n \<Rightarrow> n | None \<Rightarrow> Fin d)"

definition resolveBackoff :: "backoff_config option \<Rightarrow> policy_error + retry_backoff" where
  "resolveBackoff config =
     bindE (case config of Some c \<Rightarrow> validateKeys (bc_keys c) BACKOFF_KEYS | None \<Rightarrow> Inr ()) (\<lambda>_.
       let initialDelayMs = orDefault (Option.bind config bc_initialDelayMs) DEFAULT_INITIAL_DELAY_MS;
           maxDelayMs = orDefault (Option.bind config bc_maxDelayMs) DEFAULT_MAX_DELAY_MS;
           jitterRatio = orDefault (Option.bind config bc_jitterRatio) DEFAULT_JITTER_RATIO in
       if \<not> isFinite initialDelayMs \<or> js_value initialDelayMs \<le> 0 \<or> MAX_TIMER_DELAY_MS < js_value initialDelayMs
       then Inl BadInitialDelay
       else if \<not> isFinite maxDelayMs \<or> js_value maxDelayMs \<le> 0 \<or> MAX_TIMER_DELAY_MS < js_value maxDelayMs
       then Inl BadMaxDelay
       else if js_value maxDelayMs < js_value initialDelayMs then Inl InitialAboveMax
       else if \<not> isFinite jitterRatio \<or> js_value jitterRatio < 0 \<or> 1 < js_value jitterRatio then Inl BadJitter
       else Inr \<lparr>rb_initialDelayMs = js_value initialDelayMs, rb_maxDelayMs = js_value maxDelayMs,
                 rb_jitterRatio = js_value jitterRatio\<rparr>)"

definition goodCode :: "json \<Rightarrow> bool" where
  "goodCode c = (case c of JStr s \<Rightarrow> s \<noteq> [] | _ \<Rightarrow> False)"

definition resolveRetryPolicy :: "retry_policy_config option \<Rightarrow> policy_error + retry_policy" where
  "resolveRetryPolicy config =
     (case config of
        None \<Rightarrow> bindE (resolveBackoff None) (\<lambda>b. Inr (NormalPolicy DEFAULT_MAX_RETRIES DEFAULT_RETRYABLE_CODES b))
      | Some c \<Rightarrow>
          if pc_mode c = ''normal'' then
            bindE (validateKeys (pc_keys c) POLICY_KEYS) (\<lambda>_.
              let maxRetries = orDefault (pc_maxRetries c) (of_int DEFAULT_MAX_RETRIES);
                  codes = (case pc_retryableCodes c of Some cs \<Rightarrow> cs | None \<Rightarrow> map JStr DEFAULT_RETRYABLE_CODES) in
              if \<not> js_safe_integer maxRetries \<or> js_value maxRetries < 0 then Inl BadMaxRetries
              else if codes = [] then Inl NoRetryableCodes
              else if \<not> list_all goodCode codes then Inl BadRetryableCode
              else if length (remdups codes) \<noteq> length codes then Inl DuplicateRetryableCodes
              else bindE (resolveBackoff (pc_backoff c)) (\<lambda>b.
                Inr (NormalPolicy \<lfloor>js_value maxRetries\<rfloor> (map (\<lambda>v. as_str (Some v)) codes) b)))
          else if pc_mode c = ''always'' then
            bindE (validateKeys (pc_keys c) POLICY_KEYS) (\<lambda>_.
              bindE (resolveBackoff (pc_backoff c)) (\<lambda>b. Inr (AlwaysPolicy b)))
          else Inl BadMode)"

section \<open>Delays\<close>

text \<open>\<open>2 ** 1024\<close> is infinite, so at the cap of the exponent the local delay is \<open>maxDelayMs\<close>.\<close>

definition localDelay :: "(rat \<Rightarrow> rat) \<Rightarrow> retry_backoff \<Rightarrow> int \<Rightarrow> rat \<Rightarrow> rat" where
  "localDelay rnd b retry sample =
     (let exponent = min (retry - 1) 1024;
          exponential = (if exponent = 1024 then rb_maxDelayMs b
                         else min (rnd (rb_initialDelayMs b * 2 ^ nat exponent)) (rb_maxDelayMs b));
          jitter = rnd (rnd (1 - rb_jitterRatio b) + rnd (rnd (2 * rb_jitterRatio b) * sample))
      in min (rnd (exponential * jitter)) (rb_maxDelayMs b))"

text \<open>\<open>JSON.stringify\<close> is an argument; \<open>sort\<close> orders the codes by code unit.\<close>

definition retryPolicyKey :: "(json \<Rightarrow> string) \<Rightarrow> retry_policy \<Rightarrow> string" where
  "retryPolicyKey stringify p =
     (case p of
        AlwaysPolicy b \<Rightarrow> stringify (JArr [JStr ''always'', JNum (rb_initialDelayMs b), JNum (rb_maxDelayMs b),
                                     JNum (rb_jitterRatio b)])
      | NormalPolicy n codes b \<Rightarrow>
          stringify (JArr [JStr ''normal'', JNum (of_int n), JArr (map JStr (sort codes)),
            JNum (rb_initialDelayMs b), JNum (rb_maxDelayMs b), JNum (rb_jitterRatio b)]))"

section \<open>Reading the history\<close>

fun retryData :: "event_data \<Rightarrow> retry_data option" where
  "retryData (LlmRetry r) = Some r"
| "retryData _ = None"

definition inChain :: "int \<Rightarrow> int \<Rightarrow> string \<Rightarrow> string \<Rightarrow> session_event \<Rightarrow> bool" where
  "inChain turn step provider key e \<longleftrightarrow>
     (case retryData (ev_data e) of
        Some r \<Rightarrow> rd_turn r = turn \<and> rd_step r = step \<and> rd_provider r = provider \<and> rd_policyKey r = key
      | None \<Rightarrow> False)"

definition priorPolicyRetry ::
    "session_event list \<Rightarrow> int \<Rightarrow> int \<Rightarrow> string \<Rightarrow> string \<Rightarrow> retry_data option" where
  "priorPolicyRetry evs turn step provider key =
     Option.bind (findLast (inChain turn step provider key) evs) (\<lambda>e. retryData (ev_data e))"

fun isStepStart :: "int \<Rightarrow> int \<Rightarrow> event_data \<Rightarrow> bool" where
  "isStepStart turn step (StepStart t s) \<longleftrightarrow> t = turn \<and> s = step"
| "isStepStart turn step _ \<longleftrightarrow> False"

fun endsStep :: "event_data \<Rightarrow> bool" where
  "endsStep (StepEnd _ _) \<longleftrightarrow> True"
| "endsStep (TurnEnd _ _) \<longleftrightarrow> True"
| "endsStep _ \<longleftrightarrow> False"

fun headerProvider :: "event_data \<Rightarrow> string option" where
  "headerProvider (RequestHeader h _) = Some (cc_provider (eh_config h))"
| "headerProvider _ = None"

text \<open>
  Scanning from the end: the step is open if its start is met before any end of a step or turn.
\<close>

fun stepStillOpen :: "int \<Rightarrow> int \<Rightarrow> session_event list \<Rightarrow> bool" where
  "stepStillOpen turn step [] \<longleftrightarrow> False"
| "stepStillOpen turn step (e # revd) \<longleftrightarrow>
     isStepStart turn step (ev_data e) \<or> \<not> endsStep (ev_data e) \<and> stepStillOpen turn step revd"

definition providerForOpenStep :: "session_event list \<Rightarrow> int \<Rightarrow> int \<Rightarrow> string option" where
  "providerForOpenStep evs turn step =
     (if \<not> stepStillOpen turn step (rev evs) then None
      else Option.bind (findLast (\<lambda>e. headerProvider (ev_data e) \<noteq> None) evs)
             (\<lambda>e. headerProvider (ev_data e)))"

section \<open>Recovery\<close>

datatype request_action = NoAction | Retry

datatype ('e, 'x) recovery = Returned request_action | AppendThrew 'e | DownstreamThrew 'x

text \<open>
  One failed request: the payload of \<open>agent/request-error\<close>, the abort flags as they are read at the
  three points where the code reads them, the random sample and a fresh retry id.
\<close>

record recover_input =
  ri_turn :: int
  ri_step :: int
  ri_provider :: string
  ri_failure :: llm_failure
  ri_policy :: "retry_policy option"
  ri_abortedAtEntry :: bool
  ri_abortedAfterNext :: bool
  ri_abortedAtBackoff :: bool
  ri_random :: rat
  ri_freshId :: string

definition retryEvent ::
    "recover_input \<Rightarrow> retry_policy \<Rightarrow> string \<Rightarrow> int \<Rightarrow> string \<Rightarrow> rat \<Rightarrow> retry_data" where
  "retryEvent i policy key retry rid delayMs =
     \<lparr>rd_retryId = rid, rd_turn = ri_turn i, rd_step = ri_step i, rd_provider = ri_provider i,
      rd_mode = (case policy of NormalPolicy n _ _ \<Rightarrow> RetryNormal n | AlwaysPolicy _ \<Rightarrow> RetryAlways),
      rd_policyKey = key, rd_retry = retry, rd_delayMs = Fin delayMs, rd_failure = ri_failure i\<rparr>"

definition backoff ::
    "('s \<Rightarrow> event_data \<Rightarrow> 's \<times> ('e + session_event)) \<Rightarrow> ('s \<Rightarrow> rat \<Rightarrow> 's \<times> bool) \<Rightarrow> recover_input
      \<Rightarrow> retry_data \<Rightarrow> rat \<Rightarrow> 's \<Rightarrow> 's \<times> ('e, 'x) recovery" where
  "backoff app wait i r delayMs s =
     (if ri_abortedAtBackoff i then (s, Returned NoAction)
      else
        (case app s (LlmRetry r) of
           (s1, Inl err) \<Rightarrow> (s1, AppendThrew err)
         | (s1, Inr _) \<Rightarrow>
             (case wait s1 delayMs of
                (s2, False) \<Rightarrow> (s2, Returned NoAction)
              | (s2, True) \<Rightarrow>
                  (case app s2 (LlmRetryStarted (rd_retryId r) (rd_turn r) (rd_step r) (rd_retry r)) of
                     (s3, Inl err) \<Rightarrow> (s3, AppendThrew err)
                   | (s3, Inr _) \<Rightarrow> (s3, Returned Retry)))))"

text \<open>The delay the policy chooses; \<open>None\<close> hands the failure to the downstream policy.\<close>

definition chooseDelay ::
    "(rat \<Rightarrow> rat) \<Rightarrow> retry_policy \<Rightarrow> llm_failure \<Rightarrow> int \<Rightarrow> rat \<Rightarrow> rat option" where
  "chooseDelay rnd policy failure retry sample =
     (let b = policy_backoff policy in
      case lf_providerRetryAfterMs failure of
        Some n \<Rightarrow>
          if isFinite n \<and> 0 < js_value n then
            if rb_maxDelayMs b < js_value n then
              (case policy of NormalPolicy _ _ _ \<Rightarrow> None | AlwaysPolicy _ \<Rightarrow> Some (localDelay rnd b retry sample))
            else Some (js_value n)
          else Some (localDelay rnd b retry sample)
      | None \<Rightarrow> Some (localDelay rnd b retry sample))"

text \<open>The part of \<open>recover\<close> after the downstream policy, if any, was consulted.\<close>

definition schedule ::
    "('s \<Rightarrow> event_data \<Rightarrow> 's \<times> ('e + session_event)) \<Rightarrow> ('s \<Rightarrow> session_event list)
      \<Rightarrow> ('s \<Rightarrow> 's \<times> ('x + request_action)) \<Rightarrow> ('s \<Rightarrow> rat \<Rightarrow> 's \<times> bool)
      \<Rightarrow> (rat \<Rightarrow> rat) \<Rightarrow> (json \<Rightarrow> string) \<Rightarrow> recover_input \<Rightarrow> retry_policy \<Rightarrow> 's \<Rightarrow> 's \<times> ('e, 'x) recovery" where
  "schedule app contents nxt wait rnd stringify i policy s =
     (let delegate = (case nxt s of (s', Inl x) \<Rightarrow> (s', DownstreamThrew x) | (s', Inr a) \<Rightarrow> (s', Returned a));
          key = retryPolicyKey stringify policy;
          prior = priorPolicyRetry (contents s) (ri_turn i) (ri_step i) (ri_provider i) key;
          previousRetry = (case prior of Some r \<Rightarrow> rd_retry r | None \<Rightarrow> 0) in
      if (case policy of NormalPolicy n _ _ \<Rightarrow> n \<le> previousRetry | AlwaysPolicy _ \<Rightarrow> False) then delegate
      else
        let retry = previousRetry + 1;
            rid = (case prior of Some r \<Rightarrow> rd_retryId r | None \<Rightarrow> ri_freshId i) in
        (case chooseDelay rnd policy (ri_failure i) retry (ri_random i) of
           None \<Rightarrow> delegate
         | Some delayMs \<Rightarrow> backoff app wait i (retryEvent i policy key retry rid delayMs) delayMs s))"

definition recover ::
    "('s \<Rightarrow> event_data \<Rightarrow> 's \<times> ('e + session_event)) \<Rightarrow> ('s \<Rightarrow> session_event list)
      \<Rightarrow> ('s \<Rightarrow> 's \<times> ('x + request_action)) \<Rightarrow> ('s \<Rightarrow> rat \<Rightarrow> 's \<times> bool)
      \<Rightarrow> (rat \<Rightarrow> rat) \<Rightarrow> (json \<Rightarrow> string) \<Rightarrow> recover_input \<Rightarrow> 's \<Rightarrow> 's \<times> ('e, 'x) recovery" where
  "recover app contents nxt wait rnd stringify i s =
     (let delegate = (\<lambda>s. case nxt s of (s', Inl x) \<Rightarrow> (s', DownstreamThrew x) | (s', Inr a) \<Rightarrow> (s', Returned a)) in
      case ri_policy i of
        None \<Rightarrow> delegate s
      | Some (AlwaysPolicy b) \<Rightarrow>
          if ri_abortedAtEntry i then (s, Returned NoAction)
          else
            let (s1, downstream) = nxt s in
            if ri_abortedAfterNext i then (s1, Returned NoAction)
            else if downstream = Inr Retry then (s1, Returned Retry)
            else schedule app contents nxt wait rnd stringify i (AlwaysPolicy b) s1
      | Some (NormalPolicy n codes b) \<Rightarrow>
          if lf_code (ri_failure i) \<notin> set codes then delegate s
          else schedule app contents nxt wait rnd stringify i (NormalPolicy n codes b) s)"

text \<open>The registered listener: a callback that outlives the plugin does nothing.\<close>

definition onRequestError ::
    "bool \<Rightarrow> ('s \<Rightarrow> event_data \<Rightarrow> 's \<times> ('e + session_event)) \<Rightarrow> ('s \<Rightarrow> session_event list)
      \<Rightarrow> ('s \<Rightarrow> 's \<times> ('x + request_action)) \<Rightarrow> ('s \<Rightarrow> rat \<Rightarrow> 's \<times> bool)
      \<Rightarrow> (rat \<Rightarrow> rat) \<Rightarrow> (json \<Rightarrow> string) \<Rightarrow> recover_input \<Rightarrow> 's \<Rightarrow> 's \<times> ('e, 'x) recovery" where
  "onRequestError disposed app contents nxt wait rnd stringify i s =
     (if disposed then (s, Returned NoAction) else recover app contents nxt wait rnd stringify i s)"

section \<open>The durable invariants\<close>

datatype retry_error =
    EmptyRetryId
  | BadFailure
  | BadRetryNumber
  | EmptyProvider
  | EmptyPolicyKey
  | AboveMaxRetries
  | BadDelay
  | NotInOpenTurn
  | WrongTurn
  | NotInOpenStep
  | WrongStep
  | WrongProvider
  | UnexpectedRetry int
  | ChangedRetryId
  | ForeignRetryId
  | NotScheduled
  | StartedElsewhere
  | StartedTwice

definition validateFailure :: "llm_failure \<Rightarrow> retry_error + unit" where
  "validateFailure f =
     (if lf_message f = [] \<or> lf_code f = []
         \<or> (\<exists>n. lf_status f = Some n \<and>
             (\<not> isFinite n \<or> \<not> isInteger (js_value n) \<or> js_value n < 100 \<or> 599 < js_value n))
         \<or> (\<exists>n. lf_providerRetryAfterMs f = Some n \<and> (\<not> isFinite n \<or> js_value n \<le> 0))
         \<or> lf_requestId f = Some []
      then Inl BadFailure else Inr ())"

fun isRetryRecord :: "string \<Rightarrow> event_data \<Rightarrow> bool" where
  "isRetryRecord rid (LlmRetry r) \<longleftrightarrow> rd_retryId r = rid"
| "isRetryRecord rid (LlmRetryStarted i _ _ _) \<longleftrightarrow> i = rid"
| "isRetryRecord rid _ \<longleftrightarrow> False"

fun isStepBoundary :: "event_data \<Rightarrow> bool" where
  "isStepBoundary (StepStart _ _) = True"
| "isStepBoundary (StepEnd _ _) = True"
| "isStepBoundary _ = False"

text \<open>\<open>validateRetry\<close> in two parts: where in the log the record may stand, and its own fields.\<close>

definition validateRetryPlace :: "session_event list \<Rightarrow> retry_data \<Rightarrow> retry_error + unit" where
  "validateRetryPlace history r =
     (case map_option ev_data (findLast (\<lambda>e. isTurnBoundary (ev_data e)) history) of
        Some (TurnStart turn) \<Rightarrow>
          if rd_turn r \<noteq> turn then Inl WrongTurn
          else
            (case map_option ev_data (findLast (\<lambda>e. isStepBoundary (ev_data e)) history) of
               Some (StepStart t s) \<Rightarrow>
                 if rd_step r \<noteq> s \<or> rd_turn r \<noteq> t then Inl WrongStep
                 else if providerForOpenStep history (rd_turn r) (rd_step r) \<noteq> Some (rd_provider r)
                 then Inl WrongProvider
                 else
                   let prior = priorPolicyRetry history (rd_turn r) (rd_step r) (rd_provider r) (rd_policyKey r);
                       expected = (case prior of Some p \<Rightarrow> rd_retry p | None \<Rightarrow> 0) + 1 in
                   if rd_retry r \<noteq> expected then Inl (UnexpectedRetry expected)
                   else
                     (case prior of
                        Some p \<Rightarrow> if rd_retryId p \<noteq> rd_retryId r then Inl ChangedRetryId else Inr ()
                      | None \<Rightarrow>
                          if list_ex (\<lambda>e. isRetryRecord (rd_retryId r) (ev_data e)) history
                          then Inl ForeignRetryId else Inr ())
             | _ \<Rightarrow> Inl NotInOpenStep)
      | _ \<Rightarrow> Inl NotInOpenTurn)"

definition validateRetry :: "session_event list \<Rightarrow> retry_data \<Rightarrow> retry_error + unit" where
  "validateRetry history r =
     (if rd_retryId r = [] then Inl EmptyRetryId
      else bindE (validateFailure (rd_failure r)) (\<lambda>_.
        if maxSafe < rd_retry r \<or> rd_retry r < 1 then Inl BadRetryNumber
        else if rd_provider r = [] then Inl EmptyProvider
        else if rd_policyKey r = [] then Inl EmptyPolicyKey
        else if (case rd_mode r of
                   RetryNormal n \<Rightarrow> maxSafe < n \<or> n < 1 \<or> n < rd_retry r
                 | RetryAlways \<Rightarrow> False) then Inl AboveMaxRetries
        else if \<not> isFinite (rd_delayMs r) \<or> js_value (rd_delayMs r) < 0
                \<or> MAX_TIMER_DELAY_MS < js_value (rd_delayMs r) then Inl BadDelay
        else validateRetryPlace history r))"

fun isSchedule :: "string \<Rightarrow> int \<Rightarrow> event_data \<Rightarrow> bool" where
  "isSchedule rid n (LlmRetry r) \<longleftrightarrow> rd_retryId r = rid \<and> rd_retry r = n"
| "isSchedule rid n _ \<longleftrightarrow> False"

fun isStarted :: "string \<Rightarrow> int \<Rightarrow> event_data \<Rightarrow> bool" where
  "isStarted rid n (LlmRetryStarted i _ _ k) \<longleftrightarrow> i = rid \<and> k = n"
| "isStarted rid n _ \<longleftrightarrow> False"

definition validateStarted ::
    "session_event list \<Rightarrow> string \<Rightarrow> int \<Rightarrow> int \<Rightarrow> int \<Rightarrow> retry_error + unit" where
  "validateStarted history rid turn step n =
     (if rid = [] then Inl EmptyRetryId
      else
        (case Option.bind (findLast (\<lambda>e. isSchedule rid n (ev_data e)) history) (\<lambda>e. retryData (ev_data e)) of
           None \<Rightarrow> Inl NotScheduled
         | Some r \<Rightarrow>
             if rd_turn r \<noteq> turn \<or> rd_step r \<noteq> step then Inl StartedElsewhere
             else if list_ex (\<lambda>e. isStarted rid n (ev_data e)) history then Inl StartedTwice
             else Inr ()))"

text \<open>The check of one event against its history, and the loop over a session.\<close>

definition validateLlmEvent :: "session_event list \<Rightarrow> event_data \<Rightarrow> retry_error + unit" where
  "validateLlmEvent history d =
     (case d of
        LlmRetry r \<Rightarrow> validateRetry history r
      | LlmRetryStarted rid turn step n \<Rightarrow> validateStarted history rid turn step n
      | _ \<Rightarrow> Inr ())"

definition retryStep :: "session_event list \<Rightarrow> session_event \<Rightarrow> retry_error + session_event list" where
  "retryStep history e = bindE (validateLlmEvent history (ev_data e)) (\<lambda>_. Inr (history @ [e]))"

definition validateSession :: "session_event list \<Rightarrow> retry_error + session_event list" where
  "validateSession evs = foldE retryStep [] evs"

section \<open>Bounds of the delay\<close>

definition good_backoff :: "retry_backoff \<Rightarrow> bool" where
  "good_backoff b \<longleftrightarrow> 0 < rb_initialDelayMs b \<and> rb_initialDelayMs b \<le> rb_maxDelayMs b
     \<and> rb_maxDelayMs b \<le> MAX_TIMER_DELAY_MS \<and> 0 \<le> rb_jitterRatio b \<and> rb_jitterRatio b \<le> 1"

lemma resolveBackoff_good: "resolveBackoff c = Inr b \<Longrightarrow> good_backoff b"
  by (auto simp: resolveBackoff_def good_backoff_def result_simps Let_def)

lemma resolveRetryPolicy_good:
  assumes "resolveRetryPolicy c = Inr p"
  shows "good_backoff (policy_backoff p)"
    and "\<And>n codes b. p = NormalPolicy n codes b \<Longrightarrow> 0 \<le> n \<and> n \<le> maxSafe \<and> codes \<noteq> []"
proof -
  have safe: "0 \<le> \<lfloor>x\<rfloor> \<and> \<lfloor>x\<rfloor> \<le> maxSafe" if "isSafeInteger x" "\<not> x < 0" for x
    using that by (auto simp: isSafeInteger_def isInteger_def floor_le_iff)
  show "good_backoff (policy_backoff p)"
    using assms by (auto simp: resolveRetryPolicy_def result_simps Let_def resolveBackoff_good
        split: option.splits if_splits)
  show "0 \<le> n \<and> n \<le> maxSafe \<and> codes \<noteq> []" if "p = NormalPolicy n codes b" for n codes b
    using assms that safe
    by (auto simp: resolveRetryPolicy_def result_simps Let_def js_safe_integer_def
        DEFAULT_MAX_RETRIES_def DEFAULT_RETRYABLE_CODES_def maxSafe_def split: option.splits if_splits)
qed

lemma localDelay_bounds:
  assumes b: "good_backoff b" and rnd: "mono rnd" "rnd 0 = 0" and u: "0 \<le> sample"
  shows "0 \<le> localDelay rnd b retry sample" "localDelay rnd b retry sample \<le> rb_maxDelayMs b"
proof -
  have pos: "0 \<le> rnd x" if "0 \<le> x" for x
    using that rnd by (metis monoD)
  have max0: "0 \<le> rb_maxDelayMs b" "0 \<le> rb_initialDelayMs b" "0 \<le> rb_jitterRatio b" "rb_jitterRatio b \<le> 1"
    using b by (auto simp: good_backoff_def)
  let ?e = "if min (retry - 1) 1024 = 1024 then rb_maxDelayMs b
     else min (rnd (rb_initialDelayMs b * 2 ^ nat (min (retry - 1) 1024))) (rb_maxDelayMs b)"
  let ?j = "rnd (rnd (1 - rb_jitterRatio b) + rnd (rnd (2 * rb_jitterRatio b) * sample))"
  have "0 \<le> ?e" using max0 pos by simp
  moreover have "0 \<le> ?j" using max0 u by (intro pos add_nonneg_nonneg mult_nonneg_nonneg) auto
  ultimately have "0 \<le> ?e * ?j" by (rule mult_nonneg_nonneg)
  then have "0 \<le> rnd (?e * ?j)" by (rule pos)
  with max0 show "0 \<le> localDelay rnd b retry sample"
    by (simp add: localDelay_def Let_def)
  show "localDelay rnd b retry sample \<le> rb_maxDelayMs b"
    by (simp add: localDelay_def Let_def)
qed

lemma chooseDelay_bounds:
  assumes "good_backoff (policy_backoff policy)" "mono rnd" "rnd 0 = 0" "0 \<le> sample"
    and "chooseDelay rnd policy f retry sample = Some delay"
  shows "0 \<le> delay \<and> delay \<le> rb_maxDelayMs (policy_backoff policy) \<and> delay \<le> MAX_TIMER_DELAY_MS"
proof -
  have "rb_maxDelayMs (policy_backoff policy) \<le> MAX_TIMER_DELAY_MS"
    using assms(1) by (simp add: good_backoff_def)
  moreover have "0 \<le> delay \<and> delay \<le> rb_maxDelayMs (policy_backoff policy)"
    using assms(5) localDelay_bounds [OF assms(1-4), of retry]
    by (auto simp: chooseDelay_def Let_def split: option.splits if_splits retry_policy.splits)
  ultimately show ?thesis by auto
qed

section \<open>Chains in an accepted log\<close>

definition chain :: "session_event list \<Rightarrow> int \<Rightarrow> int \<Rightarrow> string \<Rightarrow> string \<Rightarrow> retry_data list" where
  "chain evs turn step provider key =
     List.map_filter (\<lambda>e. retryData (ev_data e)) (filter (inChain turn step provider key) evs)"

definition retriesOf :: "session_event list \<Rightarrow> retry_data list" where
  "retriesOf evs = List.map_filter (\<lambda>e. retryData (ev_data e)) evs"

fun startedData :: "event_data \<Rightarrow> (string \<times> int \<times> int \<times> int) option" where
  "startedData (LlmRetryStarted i t s n) = Some (i, t, s, n)"
| "startedData _ = None"

definition startedOf :: "session_event list \<Rightarrow> (string \<times> int \<times> int \<times> int) list" where
  "startedOf evs = List.map_filter (\<lambda>e. startedData (ev_data e)) evs"

definition chain_key :: "retry_data \<Rightarrow> int \<times> int \<times> string \<times> string" where
  "chain_key r = (rd_turn r, rd_step r, rd_provider r, rd_policyKey r)"

lemma map_filter_snoc: "List.map_filter f (xs @ [x]) = List.map_filter f xs @ (case f x of Some y \<Rightarrow> [y] | None \<Rightarrow> [])"
  by (simp add: List.map_filter_def split: option.split)

lemma inChain_iff:
  "inChain turn step provider key e \<longleftrightarrow>
     (\<exists>r. retryData (ev_data e) = Some r \<and> chain_key r = (turn, step, provider, key))"
  by (cases "retryData (ev_data e)") (auto simp: inChain_def chain_key_def)

lemma chain_snoc:
  "chain (evs @ [e]) turn step provider key = chain evs turn step provider key @
     (case retryData (ev_data e) of
        Some r \<Rightarrow> if chain_key r = (turn, step, provider, key) then [r] else []
      | None \<Rightarrow> [])"
  by (cases "retryData (ev_data e)") (auto simp: chain_def map_filter_snoc inChain_iff)

lemma chain_retriesOf:
  "chain evs turn step provider key = filter (\<lambda>r. chain_key r = (turn, step, provider, key)) (retriesOf evs)"
proof (induction evs rule: rev_induct)
  case Nil
  then show ?case by (simp add: chain_def retriesOf_def)
next
  case (snoc e evs)
  then show ?case by (simp add: chain_snoc retriesOf_def map_filter_snoc split: option.split)
qed

lemma priorPolicyRetry_chain:
  "priorPolicyRetry evs turn step provider key =
     (let rs = chain evs turn step provider key in if rs = [] then None else Some (last rs))"
proof (induction evs rule: rev_induct)
  case Nil
  then show ?case by (simp add: priorPolicyRetry_def chain_def)
next
  case (snoc e evs)
  show ?case
  proof (cases "inChain turn step provider key e")
    case True
    then obtain r where "retryData (ev_data e) = Some r" "chain_key r = (turn, step, provider, key)"
      by (auto simp: inChain_iff)
    with True show ?thesis
      by (simp add: priorPolicyRetry_def chain_snoc Let_def)
  next
    case False
    then have "chain (evs @ [e]) turn step provider key = chain evs turn step provider key"
      by (auto simp: chain_snoc inChain_iff split: option.split)
    with False snoc show ?thesis by (simp add: priorPolicyRetry_def)
  qed
qed

text \<open>
  The invariant of an accepted history: each chain is numbered from 1, a retry id belongs to one chain, a
  normal retry respects the limit it names, and every started record answers a scheduled one, once.
\<close>

definition chains_numbered :: "session_event list \<Rightarrow> bool" where
  "chains_numbered evs \<longleftrightarrow>
     (\<forall>t s p k. map rd_retry (chain evs t s p k) = map int [1..<length (chain evs t s p k) + 1])"

definition retry_ids_ok :: "retry_data list \<Rightarrow> bool" where
  "retry_ids_ok rs \<longleftrightarrow> (\<forall>a \<in> set rs. \<forall>b \<in> set rs. rd_retryId a = rd_retryId b \<longrightarrow> chain_key a = chain_key b)"

definition retry_limits_ok :: "retry_data list \<Rightarrow> bool" where
  "retry_limits_ok rs \<longleftrightarrow> (\<forall>r \<in> set rs. \<forall>n. rd_mode r = RetryNormal n \<longrightarrow> rd_retry r \<le> n)"

definition started_ok :: "retry_data list \<Rightarrow> (string \<times> int \<times> int \<times> int) list \<Rightarrow> bool" where
  "started_ok rs sts \<longleftrightarrow> distinct (map (\<lambda>(i, t, s, n). (i, n)) sts)
     \<and> (\<forall>(i, t, s, n) \<in> set sts. \<exists>r \<in> set rs. rd_retryId r = i \<and> rd_retry r = n \<and> rd_turn r = t \<and> rd_step r = s)"

definition retryInv :: "session_event list \<Rightarrow> session_event list \<Rightarrow> bool" where
  "retryInv evs history \<longleftrightarrow> history = evs \<and> chains_numbered evs \<and> retry_ids_ok (retriesOf evs)
     \<and> retry_limits_ok (retriesOf evs) \<and> started_ok (retriesOf evs) (startedOf evs)"

lemma retriesOf_snoc: "retriesOf (evs @ [e]) = retriesOf evs @ (case retryData (ev_data e) of Some r \<Rightarrow> [r] | None \<Rightarrow> [])"
  by (simp add: retriesOf_def map_filter_snoc)

lemma startedOf_snoc: "startedOf (evs @ [e]) = startedOf evs @ (case startedData (ev_data e) of Some r \<Rightarrow> [r] | None \<Rightarrow> [])"
  by (simp add: startedOf_def map_filter_snoc)

lemma in_retriesOf: "r \<in> set (retriesOf evs) \<longleftrightarrow> (\<exists>e \<in> set evs. ev_data e = LlmRetry r)"
proof -
  have "retryData d = Some r \<longleftrightarrow> d = LlmRetry r" for d by (cases d) auto
  then show ?thesis by (force simp: retriesOf_def List.map_filter_def image_iff)
qed

lemma in_startedOf: "(i, t, s, n) \<in> set (startedOf evs) \<longleftrightarrow> (\<exists>e \<in> set evs. ev_data e = LlmRetryStarted i t s n)"
proof -
  have "startedData d = Some (i, t, s, n) \<longleftrightarrow> d = LlmRetryStarted i t s n" for d by (cases d) auto
  then show ?thesis by (force simp: startedOf_def List.map_filter_def image_iff)
qed

text \<open>What acceptance of a retry means.\<close>

definition openRequest :: "session_event list \<Rightarrow> int \<Rightarrow> int \<Rightarrow> string \<Rightarrow> bool" where
  "openRequest evs turn step provider \<longleftrightarrow>
     map_option ev_data (findLast (\<lambda>e. isTurnBoundary (ev_data e)) evs) = Some (TurnStart turn)
     \<and> map_option ev_data (findLast (\<lambda>e. isStepBoundary (ev_data e)) evs) = Some (StepStart turn step)
     \<and> providerForOpenStep evs turn step = Some provider"

definition retry_shape :: "retry_data \<Rightarrow> bool" where
  "retry_shape r \<longleftrightarrow> rd_retryId r \<noteq> [] \<and> validateFailure (rd_failure r) = Inr ()
     \<and> 1 \<le> rd_retry r \<and> rd_retry r \<le> maxSafe \<and> rd_provider r \<noteq> [] \<and> rd_policyKey r \<noteq> []
     \<and> (\<forall>n. rd_mode r = RetryNormal n \<longrightarrow> rd_retry r \<le> n \<and> n \<le> maxSafe)
     \<and> isFinite (rd_delayMs r) \<and> 0 \<le> js_value (rd_delayMs r) \<and> js_value (rd_delayMs r) \<le> MAX_TIMER_DELAY_MS"

lemma isRetryRecord_iff:
  "list_ex (\<lambda>e. isRetryRecord rid (ev_data e)) evs \<longleftrightarrow>
     (\<exists>r \<in> set (retriesOf evs). rd_retryId r = rid) \<or> (\<exists>t s n. (rid, t, s, n) \<in> set (startedOf evs))"
proof (induction evs rule: rev_induct)
  case Nil
  then show ?case by (simp add: retriesOf_def startedOf_def)
next
  case (snoc e evs)
  then show ?case by (cases "ev_data e") (simp_all add: retriesOf_snoc startedOf_snoc, blast+)
qed

lemma case_TurnStart_Inr:
  "(case d of Some (TurnStart t) \<Rightarrow> f t | _ \<Rightarrow> Inl err) = Inr u \<longleftrightarrow> (\<exists>t. d = Some (TurnStart t) \<and> f t = Inr u)"
proof (cases d)
  case (Some x)
  then show ?thesis by (cases x) auto
qed simp

lemma case_StepStart_Inr:
  "(case d of Some (StepStart t s) \<Rightarrow> f t s | _ \<Rightarrow> Inl err) = Inr u
     \<longleftrightarrow> (\<exists>t s. d = Some (StepStart t s) \<and> f t s = Inr u)"
proof (cases d)
  case (Some x)
  then show ?thesis by (cases x) auto
qed simp

lemma validateRetryPlace_Inr:
  "validateRetryPlace evs r = Inr () \<longleftrightarrow>
     openRequest evs (rd_turn r) (rd_step r) (rd_provider r)
     \<and> (let rs = chain evs (rd_turn r) (rd_step r) (rd_provider r) (rd_policyKey r) in
        if rs = [] then rd_retry r = 1 \<and> \<not> list_ex (\<lambda>e. isRetryRecord (rd_retryId r) (ev_data e)) evs
        else rd_retry r = rd_retry (last rs) + 1 \<and> rd_retryId r = rd_retryId (last rs))"
  unfolding validateRetryPlace_def case_TurnStart_Inr case_StepStart_Inr Inr_if_iff
    openRequest_def priorPolicyRetry_chain Let_def
  by auto

lemma validateRetry_Inr:
  "validateRetry evs r = Inr () \<longleftrightarrow> retry_shape r \<and> validateRetryPlace evs r = Inr ()"
proof -
  have mode: "(case rd_mode r of RetryNormal n \<Rightarrow> maxSafe < n \<or> n < 1 \<or> n < rd_retry r | RetryAlways \<Rightarrow> False)
      \<longleftrightarrow> \<not> (\<forall>n. rd_mode r = RetryNormal n \<longrightarrow> rd_retry r \<le> n \<and> n \<le> maxSafe)" if "1 \<le> rd_retry r"
    using that by (cases "rd_mode r") auto
  show ?thesis
    unfolding validateRetry_def Inr_if_iff bindE_Inr_iff retry_shape_def
    using mode by (auto simp: not_less)
qed


lemma retryStep_Inr:
  "retryStep history e = Inr h \<longleftrightarrow> validateLlmEvent history (ev_data e) = Inr () \<and> h = history @ [e]"
  by (auto simp: retryStep_def result_simps)

lemma validateSession_Inr: "validateSession evs = Inr h \<Longrightarrow> h = evs"
  unfolding validateSession_def
  by (induction evs arbitrary: h rule: rev_induct) (auto simp: foldE_snoc_Inr retryStep_Inr)

lemma validateSession_snoc:
  "validateSession (evs @ [e]) = Inr h \<longleftrightarrow>
     validateSession evs = Inr evs \<and> validateLlmEvent evs (ev_data e) = Inr () \<and> h = evs @ [e]"
  using validateSession_Inr [of evs] by (auto simp: validateSession_def foldE_snoc_Inr retryStep_Inr)

lemma upt_snoc_last: "rs \<noteq> [] \<Longrightarrow> map rd_retry rs = map int [1..<length rs + 1] \<Longrightarrow> rd_retry (last rs) = int (length rs)"
  by (metis (no_types, lifting) One_nat_def add.commute add_diff_cancel_left' diff_is_0_eq last_map last_upt le_add1
      length_0_conv map_is_Nil_conv not_less_eq_eq plus_1_eq_Suc upt_conv_Nil zero_less_one less_add_same_cancel1 length_greater_0_conv)

lemma chain_other: "retryData (ev_data e) = None \<Longrightarrow> chain (evs @ [e]) t s p k = chain evs t s p k"
  by (simp add: chain_snoc)

lemma chains_numbered_retry:
  assumes "chains_numbered evs" "ev_data e = LlmRetry r"
    and "rd_retry r = int (length (chain evs (rd_turn r) (rd_step r) (rd_provider r) (rd_policyKey r))) + 1"
  shows "chains_numbered (evs @ [e])"
  unfolding chains_numbered_def
proof (intro allI)
  fix t s p k
  have "map rd_retry (chain evs t s p k) = map int [1..<length (chain evs t s p k) + 1]"
    using assms(1) by (simp add: chains_numbered_def)
  then show "map rd_retry (chain (evs @ [e]) t s p k) = map int [1..<length (chain (evs @ [e]) t s p k) + 1]"
    using assms(2,3) by (cases "chain_key r = (t, s, p, k)") (auto simp: chain_snoc chain_key_def)
qed

lemma retry_ids_snoc:
  assumes "retry_ids_ok rs" "\<And>a. a \<in> set rs \<Longrightarrow> rd_retryId a = rd_retryId r \<Longrightarrow> chain_key a = chain_key r"
  shows "retry_ids_ok (rs @ [r])"
  using assms unfolding retry_ids_ok_def by (metis UnE empty_iff insert_iff list.set(1) list.simps(15) set_append)

lemma retry_limits_snoc:
  assumes "retry_limits_ok rs" "\<And>n. rd_mode r = RetryNormal n \<Longrightarrow> rd_retry r \<le> n"
  shows "retry_limits_ok (rs @ [r])"
  using assms unfolding retry_limits_ok_def by simp

lemma started_ok_retry: "started_ok rs sts \<Longrightarrow> started_ok (rs @ [r]) sts"
  unfolding started_ok_def split_beta set_append by blast

lemma chain_last:
  assumes "chain evs t s p k \<noteq> []" "chains_numbered evs"
  shows "last (chain evs t s p k) \<in> set (retriesOf evs)"
    and "chain_key (last (chain evs t s p k)) = (t, s, p, k)"
    and "rd_retry (last (chain evs t s p k)) = int (length (chain evs t s p k))"
proof -
  have "last (chain evs t s p k) \<in> set (chain evs t s p k)" using assms(1) by (rule last_in_set)
  then show "last (chain evs t s p k) \<in> set (retriesOf evs)" "chain_key (last (chain evs t s p k)) = (t, s, p, k)"
    by (simp_all add: chain_retriesOf)
  show "rd_retry (last (chain evs t s p k)) = int (length (chain evs t s p k))"
    using assms by (intro upt_snoc_last) (auto simp: chains_numbered_def)
qed

text \<open>What a retry at its place continues.\<close>

lemma retry_continues:
  assumes "chains_numbered evs" "retry_ids_ok (retriesOf evs)" "validateRetryPlace evs r = Inr ()"
  shows "rd_retry r = int (length (chain evs (rd_turn r) (rd_step r) (rd_provider r) (rd_policyKey r))) + 1"
    and "\<And>a. a \<in> set (retriesOf evs) \<Longrightarrow> rd_retryId a = rd_retryId r \<Longrightarrow> chain_key a = chain_key r"
proof -
  let ?rs = "chain evs (rd_turn r) (rd_step r) (rd_provider r) (rd_policyKey r)"
  have place: "if ?rs = [] then rd_retry r = 1 \<and> \<not> list_ex (\<lambda>e. isRetryRecord (rd_retryId r) (ev_data e)) evs
        else rd_retry r = rd_retry (last ?rs) + 1 \<and> rd_retryId r = rd_retryId (last ?rs)"
    using assms(3) by (simp add: validateRetryPlace_Inr Let_def)
  note lst = chain_last [OF _ assms(1)]
  show "rd_retry r = int (length ?rs) + 1"
    using place lst(3) by (auto split: if_splits)
  show "chain_key a = chain_key r" if a: "a \<in> set (retriesOf evs)" "rd_retryId a = rd_retryId r" for a
  proof (cases "?rs = []")
    case True
    with place a show ?thesis by (auto simp: isRetryRecord_iff)
  next
    case False
    with place a(2) have "rd_retryId a = rd_retryId (last ?rs)" by simp
    then have "chain_key a = chain_key (last ?rs)"
      using assms(2) a(1) lst(1) [OF False] unfolding retry_ids_ok_def by blast
    also have "\<dots> = chain_key r" unfolding lst(2) [OF False] by (simp add: chain_key_def)
    finally show ?thesis .
  qed
qed

lemma retryInv_retry:
  assumes inv: "retryInv evs evs" and d: "ev_data e = LlmRetry r" and ok: "validateRetry evs r = Inr ()"
  shows "retryInv (evs @ [e]) (evs @ [e])"
proof -
  have parts: "startedOf (evs @ [e]) = startedOf evs" "retriesOf (evs @ [e]) = retriesOf evs @ [r]"
    using d by (simp_all add: startedOf_snoc retriesOf_snoc)
  have ok': "retry_shape r" "validateRetryPlace evs r = Inr ()" using ok by (simp_all add: validateRetry_Inr)
  from inv have i: "chains_numbered evs" "retry_ids_ok (retriesOf evs)" "retry_limits_ok (retriesOf evs)"
    "started_ok (retriesOf evs) (startedOf evs)" by (auto simp: retryInv_def)
  show ?thesis
    unfolding retryInv_def parts
    using chains_numbered_retry [OF i(1) d] retry_continues [OF i(1,2) ok'(2)]
      retry_ids_snoc [OF i(2)] retry_limits_snoc [OF i(3)] started_ok_retry [OF i(4)] ok'(1)
    by (simp add: retry_shape_def)
qed

lemma validateStarted_Inr:
  assumes "validateStarted evs rid t s n = Inr ()"
  shows "\<exists>r \<in> set (retriesOf evs). rd_retryId r = rid \<and> rd_retry r = n \<and> rd_turn r = t \<and> rd_step r = s"
    and "\<And>t' s'. (rid, t', s', n) \<notin> set (startedOf evs)"
proof -
  from assms obtain r where f: "Option.bind (findLast (\<lambda>e. isSchedule rid n (ev_data e)) evs) (\<lambda>e. retryData (ev_data e)) = Some r"
    "rd_turn r = t" "rd_step r = s" "\<not> list_ex (\<lambda>e. isStarted rid n (ev_data e)) evs"
    by (auto simp: validateStarted_def split: option.splits if_splits)
  from f(1) obtain e where e: "findLast (\<lambda>e. isSchedule rid n (ev_data e)) evs = Some e" "retryData (ev_data e) = Some r"
    by (auto simp: bind_eq_Some_conv)
  then have "e \<in> set evs" "isSchedule rid n (ev_data e)"
    using findLast_Some [OF e(1)] by auto
  with e(2) f(2,3) show "\<exists>r \<in> set (retriesOf evs). rd_retryId r = rid \<and> rd_retry r = n \<and> rd_turn r = t \<and> rd_step r = s"
    unfolding in_retriesOf Bex_def by (cases "ev_data e") auto
  from f(4) show "\<And>t' s'. (rid, t', s', n) \<notin> set (startedOf evs)"
    by (force simp: in_startedOf list_ex_iff)
qed

lemma retryInv_started:
  assumes inv: "retryInv evs evs" and d: "ev_data e = LlmRetryStarted i t s n"
    and ok: "validateStarted evs i t s n = Inr ()"
  shows "retryInv (evs @ [e]) (evs @ [e])"
proof -
  have parts: "startedOf (evs @ [e]) = startedOf evs @ [(i, t, s, n)]" "retriesOf (evs @ [e]) = retriesOf evs"
    using d by (simp_all add: startedOf_snoc retriesOf_snoc)
  have "chains_numbered (evs @ [e]) = chains_numbered evs"
    using d by (simp add: chains_numbered_def chain_other)
  moreover have "started_ok (retriesOf evs) (startedOf evs @ [(i, t, s, n)])"
  proof -
    have "(i, n) \<notin> (\<lambda>(i, t, s, n). (i, n)) ` set (startedOf evs)"
      using validateStarted_Inr(2) [OF ok] by auto
    then show ?thesis
      using inv validateStarted_Inr(1) [OF ok] by (simp add: retryInv_def started_ok_def)
  qed
  ultimately show ?thesis using inv by (simp add: retryInv_def parts)
qed

definition retryFree :: "event_data \<Rightarrow> bool" where
  "retryFree d \<longleftrightarrow> retryData d = None \<and> startedData d = None"

lemma retryInv_free:
  assumes "retryInv evs evs" "retryFree (ev_data e)"
  shows "retryInv (evs @ [e]) (evs @ [e])"
proof -
  have "chains_numbered (evs @ [e]) = chains_numbered evs" "startedOf (evs @ [e]) = startedOf evs"
    "retriesOf (evs @ [e]) = retriesOf evs"
    using assms(2) by (simp_all add: retryFree_def chains_numbered_def chain_other startedOf_snoc retriesOf_snoc)
  with assms(1) show ?thesis by (simp add: retryInv_def)
qed

lemma retryInv_snoc:
  assumes "retryInv evs evs" "validateLlmEvent evs (ev_data e) = Inr ()"
  shows "retryInv (evs @ [e]) (evs @ [e])"
proof (cases "retryFree (ev_data e)")
  case True
  with assms(1) show ?thesis by (rule retryInv_free)
next
  case False
  then show ?thesis
    using assms retryInv_retry [of evs e] retryInv_started [of evs e]
    by (cases "ev_data e") (auto simp: retryFree_def validateLlmEvent_def)
qed

interpretation llm_retry: checked_fold retryStep "[]" retryInv
proof unfold_locales
  show "retryInv [] []"
    by (simp add: retryInv_def chains_numbered_def retry_ids_ok_def retry_limits_ok_def started_ok_def
        chain_def retriesOf_def startedOf_def)
next
  fix evs h e h'
  assume "retryInv evs h" and step: "retryStep h e = Inr h'"
  then have "h = evs" by (simp add: retryInv_def)
  with \<open>retryInv evs h\<close> step show "retryInv (evs @ [e]) h'"
    by (auto simp: retryStep_Inr intro: retryInv_snoc)
qed

lemma validateSession_inv: "validateSession evs = Inr h \<Longrightarrow> retryInv evs evs"
  using llm_retry.replay_inv [of evs h] validateSession_Inr [of evs h] by (simp add: validateSession_def)

section \<open>What the listener appends\<close>

text \<open>An event that neither belongs to a retry nor moves the open turn, step or request.\<close>

definition quietEvent :: "event_data \<Rightarrow> bool" where
  "quietEvent d \<longleftrightarrow> retryFree d \<and> \<not> isTurnBoundary d \<and> \<not> isStepBoundary d \<and> headerProvider d = None"

definition quietExt :: "session_event list \<Rightarrow> session_event list \<Rightarrow> bool" where
  "quietExt evs evs' \<longleftrightarrow> (\<exists>ws. evs' = evs @ ws \<and> list_all (\<lambda>e. quietEvent (ev_data e)) ws)"

lemma quiet_open: "quietEvent (ev_data e) \<Longrightarrow> openRequest (evs @ [e]) turn step p = openRequest evs turn step p"
  unfolding openRequest_def providerForOpenStep_def quietEvent_def
  by (cases "ev_data e") auto

lemma quiet_valid:
  assumes "quietEvent (ev_data e)" "validateSession evs = Inr evs"
  shows "validateSession (evs @ [e]) = Inr (evs @ [e])"
  using assms unfolding validateSession_snoc quietEvent_def retryFree_def
  by (cases "ev_data e") (auto simp: validateLlmEvent_def)

lemma quietExt_keeps:
  assumes "quietExt evs evs'"
  shows "openRequest evs' turn step p = openRequest evs turn step p"
    and "validateSession evs = Inr evs \<Longrightarrow> validateSession evs' = Inr evs'"
    and "chain evs' turn step p k = chain evs turn step p k"
    and "retriesOf evs' = retriesOf evs" and "startedOf evs' = startedOf evs"
proof -
  from assms obtain ws where ws: "evs' = evs @ ws" "list_all (\<lambda>e. quietEvent (ev_data e)) ws"
    by (auto simp: quietExt_def)
  have "openRequest (evs @ ws) turn step p = openRequest evs turn step p
      \<and> (validateSession evs = Inr evs \<longrightarrow> validateSession (evs @ ws) = Inr (evs @ ws))
      \<and> chain (evs @ ws) turn step p k = chain evs turn step p k
      \<and> retriesOf (evs @ ws) = retriesOf evs \<and> startedOf (evs @ ws) = startedOf evs"
    using ws(2)
  proof (induction ws rule: rev_induct)
    case (snoc e ws)
    have q: "quietEvent (ev_data e)" using snoc.prems by simp
    then have "retryData (ev_data e) = None" "startedData (ev_data e) = None"
      by (simp_all add: quietEvent_def retryFree_def)
    with snoc q show ?case
      using quiet_open [of e "evs @ ws"] quiet_valid [of e "evs @ ws"] chain_other [of e "evs @ ws"]
        retriesOf_snoc [of "evs @ ws" e] startedOf_snoc [of "evs @ ws" e]
      by simp
  qed simp
  with ws(1) show "openRequest evs' turn step p = openRequest evs turn step p"
    "validateSession evs = Inr evs \<Longrightarrow> validateSession evs' = Inr evs'"
    "chain evs' turn step p k = chain evs turn step p k"
    "retriesOf evs' = retriesOf evs" "startedOf evs' = startedOf evs" by auto
qed

text \<open>The retry just recorded may be started while only quiet events follow it.\<close>

lemma started_after_wait:
  assumes acc: "validateSession (evs @ [e]) = Inr (evs @ [e])" and d: "ev_data e = LlmRetry r"
    and q: "quietExt (evs @ [e]) evs'"
  shows "validateStarted evs' (rd_retryId r) (rd_turn r) (rd_step r) (rd_retry r) = Inr ()"
proof -
  from q obtain ws where ws: "evs' = (evs @ [e]) @ ws" "list_all (\<lambda>e. quietEvent (ev_data e)) ws"
    by (auto simp: quietExt_def)
  have "findLast (\<lambda>e. isSchedule (rd_retryId r) (rd_retry r) (ev_data e)) ws = None"
    using ws(2)
  proof (induction ws rule: rev_induct)
    case (snoc x ws)
    then show ?case by (cases "ev_data x") (auto simp: quietEvent_def retryFree_def)
  qed simp
  then have f: "findLast (\<lambda>e. isSchedule (rd_retryId r) (rd_retry r) (ev_data e)) evs' = Some e"
    using d by (simp add: ws(1) findLast_append findLast_snoc [of _ "[]", simplified] del: append_assoc)
  have inv: "retryInv evs evs" and ok: "validateRetry evs r = Inr ()"
    using acc d validateSession_inv [of evs] by (auto simp: validateSession_snoc validateLlmEvent_def)
  have st: "startedOf evs' = startedOf evs"
    using quietExt_keeps(5) [OF q] d by (simp add: startedOf_snoc)
  have "(rd_retryId r, t, s, rd_retry r) \<notin> set (startedOf evs)" for t s
  proof
    assume "(rd_retryId r, t, s, rd_retry r) \<in> set (startedOf evs)"
    then obtain a where a: "a \<in> set (retriesOf evs)" "rd_retryId a = rd_retryId r" "rd_retry a = rd_retry r"
      using inv by (auto simp: retryInv_def started_ok_def)
    let ?rs = "chain evs (rd_turn r) (rd_step r) (rd_provider r) (rd_policyKey r)"
    have cont: "rd_retry r = int (length ?rs) + 1" "chain_key a = chain_key r"
      using inv ok a(1,2) retry_continues [of evs r] by (auto simp: retryInv_def validateRetry_Inr)
    then have "a \<in> set ?rs" using a(1) by (simp add: chain_retriesOf chain_key_def)
    then have "rd_retry a \<in> set (map rd_retry ?rs)" by simp
    also have "map rd_retry ?rs = map int [1..<length ?rs + 1]"
      using inv by (simp add: retryInv_def chains_numbered_def)
    finally have "rd_retry a \<le> int (length ?rs)" by auto
    with cont(1) a(3) show False by simp
  qed
  then have "\<not> list_ex (\<lambda>e. isStarted (rd_retryId r) (rd_retry r) (ev_data e)) evs'"
    unfolding list_ex_iff using st in_startedOf [of "rd_retryId r" _ _ "rd_retry r" evs']
    by (metis isStarted.elims(2))
  moreover have "rd_retryId r \<noteq> []" using ok by (simp add: validateRetry_Inr retry_shape_def)
  ultimately show ?thesis
    using f d by (simp add: validateStarted_def)
qed

lemma accepted_shape: "validateSession evs = Inr evs \<Longrightarrow> r \<in> set (retriesOf evs) \<Longrightarrow> retry_shape r"
proof (induction evs rule: rev_induct)
  case Nil
  then show ?case by (simp add: retriesOf_def)
next
  case (snoc e evs)
  then show ?case
    by (cases "ev_data e") (auto simp: retriesOf_snoc validateSession_snoc validateLlmEvent_def validateRetry_Inr)
qed

lemma length_map_filter_le: "length (List.map_filter f xs) \<le> length xs"
  by (induction xs) (auto simp: List.map_filter_simps split: option.split)

lemma chain_length: "length (chain evs t s p k) \<le> length evs"
  using length_map_filter_le [of "\<lambda>e. retryData (ev_data e)" "filter (inChain t s p k) evs"]
    length_filter_le [of "inChain t s p k" evs]
  unfolding chain_def by (rule le_trans)

text \<open>What the caller of the listener provides: a failed request of the open step, as the agent reports it.\<close>

definition failed_request :: "session_event list \<Rightarrow> recover_input \<Rightarrow> bool" where
  "failed_request evs i \<longleftrightarrow> openRequest evs (ri_turn i) (ri_step i) (ri_provider i)
     \<and> validateFailure (ri_failure i) = Inr () \<and> ri_provider i \<noteq> []
     \<and> ri_freshId i \<noteq> [] \<and> \<not> list_ex (\<lambda>e. isRetryRecord (ri_freshId i) (ev_data e)) evs
     \<and> int (length evs) < maxSafe"

lemma scheduled_valid:
  fixes evs key i
  defines "rs \<equiv> chain evs (ri_turn i) (ri_step i) (ri_provider i) key"
  assumes acc: "validateSession evs = Inr evs" and req: "failed_request evs i" and key: "key \<noteq> []"
    and n: "retry = int (length rs) + 1"
    and rid: "rid = (if rs = [] then ri_freshId i else rd_retryId (last rs))"
    and limit: "\<And>n codes b. policy = NormalPolicy n codes b \<Longrightarrow> retry \<le> n \<and> n \<le> maxSafe"
    and delay: "0 \<le> delayMs" "delayMs \<le> MAX_TIMER_DELAY_MS"
  shows "validateRetry evs (retryEvent i policy key retry rid delayMs) = Inr ()"
proof -
  have inv: "chains_numbered evs" using validateSession_inv [OF acc] by (simp add: retryInv_def)
  note lst = chain_last [OF _ inv, of "ri_turn i" "ri_step i" "ri_provider i" key, folded rs_def]
  have "length rs \<le> length evs" unfolding rs_def by (rule chain_length)
  then have small: "retry \<le> maxSafe" using req n by (simp add: failed_request_def)
  have "rid \<noteq> []"
    using rid req accepted_shape [OF acc lst(1)] by (auto simp: failed_request_def retry_shape_def)
  then have "retry_shape (retryEvent i policy key retry rid delayMs)"
    using req key n small limit delay
    by (cases policy) (auto simp: retry_shape_def retryEvent_def failed_request_def)
  moreover have "validateRetryPlace evs (retryEvent i policy key retry rid delayMs) = Inr ()"
    using req n rid lst(3) unfolding validateRetryPlace_Inr
    by (simp add: retryEvent_def rs_def [symmetric] failed_request_def)
  ultimately show ?thesis by (simp add: validateRetry_Inr)
qed

lemma backoff_cases:
  assumes "backoff app wait i r delayMs s = (s', res)"
  obtains (aborted) "s' = s" "res = Returned NoAction"
  | (vetoed) err where "app s (LlmRetry r) = (s', Inl err)" "res = AppendThrew err"
  | (stopped) e s1 where "app s (LlmRetry r) = (s1, Inr e)" "wait s1 delayMs = (s', False)" "res = Returned NoAction"
  | (elapsed) e s1 s2 r3 where "app s (LlmRetry r) = (s1, Inr e)" "wait s1 delayMs = (s2, True)"
      "app s2 (LlmRetryStarted (rd_retryId r) (rd_turn r) (rd_step r) (rd_retry r)) = (s', r3)"
      "res = (case r3 of Inl err \<Rightarrow> AppendThrew err | Inr _ \<Rightarrow> Returned Retry)"
proof (cases "ri_abortedAtBackoff i")
  case True
  with assms aborted show thesis by (simp add: backoff_def)
next
  case False
  obtain s1 r1 where a: "app s (LlmRetry r) = (s1, r1)" by force
  show thesis
  proof (cases r1)
    case (Inl err)
    with assms a False vetoed show thesis by (simp add: backoff_def)
  next
    case (Inr e)
    obtain s2 b where w: "wait s1 delayMs = (s2, b)" by force
    obtain s3 r3 where a3: "app s2 (LlmRetryStarted (rd_retryId r) (rd_turn r) (rd_step r) (rd_retry r)) = (s3, r3)"
      by force
    show thesis
      using assms a False Inr w a3 stopped [of s1 e] elapsed [of s1 e s2 r3]
      by (cases b; cases r3) (auto simp: backoff_def)
  qed
qed

definition retried :: "retry_data \<Rightarrow> session_event list \<Rightarrow> session_event list \<Rightarrow> bool" where
  "retried r evs evs' \<longleftrightarrow> (\<exists>e1 ws e2. evs' = evs @ e1 # ws @ [e2] \<and> ev_data e1 = LlmRetry r
     \<and> ev_data e2 = LlmRetryStarted (rd_retryId r) (rd_turn r) (rd_step r) (rd_retry r))"

context event_log begin

lemma backoff_keeps:
  assumes s: "valid s" and acc: "validateSession (contents s) = Inr (contents s)"
    and ok: "validateRetry (contents s) r = Inr ()"
    and waits: "\<And>s d s' b. valid s \<Longrightarrow> wait s d = (s', b) \<Longrightarrow> valid s' \<and> quietExt (contents s) (contents s')"
    and run: "backoff app wait i r delayMs s = (s', res)"
  shows "valid s' \<and> validateSession (contents s') = Inr (contents s')
    \<and> (res = Returned Retry \<longrightarrow> retried r (contents s) (contents s'))"
proof -
  have first: "valid s1 \<and> validateSession (contents s1) = Inr (contents s1) \<and> contents s1 = contents s @ [e]
      \<and> ev_data e = LlmRetry r" if "app s (LlmRetry r) = (s1, Inr e)" for s1 e
    using that app_Inr [OF s that] app_valid [OF s that] acc ok
    by (simp add: validateSession_snoc validateLlmEvent_def)
  show ?thesis
    using run
  proof (cases rule: backoff_cases)
    case aborted
    with s acc show ?thesis by simp
  next
    case (vetoed err)
    then show ?thesis using s acc app_Inl app_valid by auto
  next
    case (stopped e s1)
    then show ?thesis using first waits quietExt_keeps(2) by blast
  next
    case (elapsed e s1 s2 r3)
    note f = first [OF elapsed(1)]
    then have w: "valid s2" "quietExt (contents s @ [e]) (contents s2)"
      "validateSession (contents s2) = Inr (contents s2)"
      using waits [OF _ elapsed(2)] quietExt_keeps(2) [of "contents s1" "contents s2"] by auto
    then have st: "validateStarted (contents s2) (rd_retryId r) (rd_turn r) (rd_step r) (rd_retry r) = Inr ()"
      using started_after_wait [of "contents s" e r "contents s2"] f by metis
    note v = app_valid [OF w(1) elapsed(3)]
    show ?thesis
    proof (cases r3)
      case (Inl err)
      with elapsed(3,4) w v app_Inl [OF w(1), of _ s' err] show ?thesis by simp
    next
      case (Inr e2)
      with elapsed(3) app_Inr [OF w(1), of _ s' e2] have c: "contents s' = contents s2 @ [e2]"
        "ev_data e2 = LlmRetryStarted (rd_retryId r) (rd_turn r) (rd_step r) (rd_retry r)" by auto
      then have "validateSession (contents s') = Inr (contents s')"
        using w(3) st by (simp add: validateSession_snoc validateLlmEvent_def)
      moreover have "retried r (contents s) (contents s')"
        using w(2) c f by (auto simp: retried_def quietExt_def)
      ultimately show ?thesis using v by simp
    qed
  qed
qed

lemma schedule_keeps:
  assumes s: "valid s" and acc: "validateSession (contents s) = Inr (contents s)"
    and req: "failed_request (contents s) i"
    and pol: "good_backoff (policy_backoff policy)" "\<And>n codes b. policy = NormalPolicy n codes b \<Longrightarrow> n \<le> maxSafe"
    and rnd: "mono rnd" "rnd 0 = 0" "0 \<le> ri_random i"
    and key: "\<And>j. stringify j \<noteq> []"
    and nxts: "\<And>s s' r. valid s \<Longrightarrow> failed_request (contents s) i \<Longrightarrow> nxt s = (s', r) \<Longrightarrow>
      valid s' \<and> quietExt (contents s) (contents s')"
    and waits: "\<And>s d s' b. valid s \<Longrightarrow> wait s d = (s', b) \<Longrightarrow> valid s' \<and> quietExt (contents s) (contents s')"
    and run: "schedule app contents nxt wait rnd stringify i policy s = (s', res)"
  shows "valid s' \<and> validateSession (contents s') = Inr (contents s')"
proof -
  let ?key = "retryPolicyKey stringify policy"
  let ?rs = "chain (contents s) (ri_turn i) (ri_step i) (ri_provider i) ?key"
  let ?prior = "priorPolicyRetry (contents s) (ri_turn i) (ri_step i) (ri_provider i) ?key"
  define prev where "prev = (case ?prior of Some r \<Rightarrow> rd_retry r | None \<Rightarrow> 0)"
  define rid where "rid = (case ?prior of Some r \<Rightarrow> rd_retryId r | None \<Rightarrow> ri_freshId i)"
  have inv: "chains_numbered (contents s)" using validateSession_inv [OF acc] by (simp add: retryInv_def)
  have prior: "prev = int (length ?rs)" "rid = (if ?rs = [] then ri_freshId i else rd_retryId (last ?rs))"
    using chain_last(3) [OF _ inv] by (auto simp: prev_def rid_def priorPolicyRetry_chain Let_def)
  have keyne: "?key \<noteq> []" using key by (cases policy) (auto simp: retryPolicyKey_def)
  have delegate: "valid s' \<and> validateSession (contents s') = Inr (contents s')"
    if "(case nxt s of (s', Inl x) \<Rightarrow> (s', DownstreamThrew x) | (s', Inr a) \<Rightarrow> (s', Returned a)) = (s', res)"
    using that nxts [OF s req] quietExt_keeps(2) acc by (auto split: prod.splits sum.splits)
  show ?thesis
  proof (cases "(case policy of NormalPolicy n _ _ \<Rightarrow> n \<le> prev | AlwaysPolicy _ \<Rightarrow> False)
      \<or> chooseDelay rnd policy (ri_failure i) (prev + 1) (ri_random i) = None")
    case True
    then show ?thesis
      using run delegate unfolding schedule_def Let_def prev_def [symmetric]
      by (auto split: if_splits)
  next
    case False
    then obtain delayMs where d: "chooseDelay rnd policy (ri_failure i) (prev + 1) (ri_random i) = Some delayMs"
      by auto
    have v: "validateRetry (contents s) (retryEvent i policy ?key (prev + 1) rid delayMs) = Inr ()"
      using chooseDelay_bounds [OF pol(1) rnd d] False prior pol(2)
      by (intro scheduled_valid [OF acc req keyne]) auto
    have b: "backoff app wait i (retryEvent i policy ?key (prev + 1) rid delayMs) delayMs s = (s', res)"
      using run False d unfolding schedule_def Let_def prev_def [symmetric] rid_def [symmetric]
      by (auto split: if_splits)
    from backoff_keeps [OF s acc v _ b] waits show ?thesis by auto
  qed
qed

lemma recover_keeps:
  assumes s: "valid s" and acc: "validateSession (contents s) = Inr (contents s)"
    and req: "failed_request (contents s) i"
    and pol: "\<And>p. ri_policy i = Some p \<Longrightarrow> \<exists>c. resolveRetryPolicy c = Inr p"
    and rnd: "mono rnd" "rnd 0 = 0" "0 \<le> ri_random i"
    and key: "\<And>j. stringify j \<noteq> []"
    and nxts: "\<And>s s' r. valid s \<Longrightarrow> failed_request (contents s) i \<Longrightarrow> nxt s = (s', r) \<Longrightarrow>
      valid s' \<and> quietExt (contents s) (contents s') \<and> failed_request (contents s') i"
    and waits: "\<And>s d s' b. valid s \<Longrightarrow> wait s d = (s', b) \<Longrightarrow> valid s' \<and> quietExt (contents s) (contents s')"
    and run: "onRequestError disposed app contents nxt wait rnd stringify i s = (s', res)"
  shows "valid s' \<and> validateSession (contents s') = Inr (contents s')"
proof -
  have after: "valid s1 \<and> validateSession (contents s1) = Inr (contents s1) \<and> failed_request (contents s1) i"
    if "nxt s = (s1, r)" for s1 r
    using nxts [OF s req that] quietExt_keeps(2) acc by blast
  have delegate: "valid s' \<and> validateSession (contents s') = Inr (contents s')"
    if "(case nxt s of (s', Inl x) \<Rightarrow> (s', DownstreamThrew x) | (s', Inr a) \<Rightarrow> (s', Returned a)) = (s', res)"
    using that after by (auto split: prod.splits sum.splits)
  have sched: "valid s' \<and> validateSession (contents s') = Inr (contents s')"
    if "ri_policy i = Some p" "valid s1" "validateSession (contents s1) = Inr (contents s1)"
      "failed_request (contents s1) i"
      "schedule app contents nxt wait rnd stringify i p s1 = (s', res)" for p s1
  proof -
    from pol [OF that(1)] obtain c where c: "resolveRetryPolicy c = Inr p" by blast
    show ?thesis
    proof (rule schedule_keeps [OF that(2-4) _ _ rnd key _ _ that(5)])
      show "good_backoff (policy_backoff p)" by (rule resolveRetryPolicy_good(1) [OF c])
      show "n \<le> maxSafe" if "p = NormalPolicy n codes b" for n codes b
        using resolveRetryPolicy_good(2) [OF c that] by blast
      show "valid s' \<and> quietExt (contents s) (contents s')"
        if "valid s" "failed_request (contents s) i" "nxt s = (s', r)" for s s' r
        using nxts [OF that] by blast
    qed (rule waits)
  qed
  show ?thesis
  proof (cases "disposed \<or> ri_policy i = None")
    case True
    then show ?thesis using run s acc delegate by (auto simp: onRequestError_def recover_def split: if_splits)
  next
    case False
    then obtain p where p: "ri_policy i = Some p" and nd: "\<not> disposed" by auto
    obtain s1 r1 where n: "nxt s = (s1, r1)" by force
    show ?thesis
    proof (cases p)
      case (NormalPolicy m codes b)
      with run p nd show ?thesis
        using delegate sched [OF p s acc req]
        by (simp add: onRequestError_def recover_def split: if_splits)
    next
      case (AlwaysPolicy b)
      with run p nd n show ?thesis
        using s acc after [OF n] sched [OF p, of s1]
        by (auto simp: onRequestError_def recover_def Let_def split: if_splits)
    qed
  qed
qed

end

section \<open>Properties\<close>


definition sampleFailure :: llm_failure where
  "sampleFailure = \<lparr>lf_message = ''busy'', lf_code = ''SERVER'', lf_status = Some (Fin 503),
     lf_providerRetryAfterMs = Some (Fin 900), lf_requestId = None\<rparr>"

definition sampleRequestHeader :: epoch_header where
  "sampleRequestHeader = \<lparr>eh_config = \<lparr>cc_provider = ''p'', cc_model = ''m'', cc_reasoningEffort = None,
     cc_temperature = None, cc_maxTokens = None, cc_stop = None\<rparr>,
     eh_adapterDefaults = None, eh_system = None, eh_tools = None\<rparr>"

definition sampleOpenLog :: "session_event list" where
  "sampleOpenLog =
     [sampleEvent 0 (TurnStart 0) None None, sampleEvent 1 (StepStart 0 0) None None,
      sampleEvent 2 (RequestHeader sampleRequestHeader ''user'') None None]"

definition sampleRetry :: "int \<Rightarrow> retry_data" where
  "sampleRetry n = \<lparr>rd_retryId = ''r'', rd_turn = 0, rd_step = 0, rd_provider = ''p'', rd_mode = RetryNormal 5,
     rd_policyKey = ''k'', rd_retry = n, rd_delayMs = Fin 900, rd_failure = sampleFailure\<rparr>"

definition sampleRetryLog :: "session_event list" where
  "sampleRetryLog = sampleOpenLog @
     [sampleEvent 3 (LlmRetry (sampleRetry 1)) None None, sampleEvent 4 (LlmRetryStarted ''r'' 0 0 1) None None,
      sampleEvent 5 (LlmRetry (sampleRetry 2)) None None, sampleEvent 6 (LlmRetryStarted ''r'' 0 0 2) None None]"

lemmas retry_eval =
  sampleOpenLog_def sampleRetryLog_def sampleRetry_def sampleEvent_def sampleFailure_def sampleRequestHeader_def
  validateSession_def retryStep_def validateLlmEvent_def validateRetry_def validateRetryPlace_def
  validateStarted_def validateFailure_def priorPolicyRetry_def providerForOpenStep_def inChain_def
  findLast_def maxSafe_def MAX_TIMER_DELAY_MS_def isInteger_def

lemma sampleRetryLog_ok: "validateSession sampleRetryLog = Inr sampleRetryLog"
  by (simp add: retry_eval Let_def)


text \<open>C16.
  Whatever policy, downstream listener and timer meet a failed request of the open step, the records the
  listener appends keep the session's log acceptable to the durable invariant: on the paths that give up,
  on a veto of the first or of the second append, on an aborted wait, and on a retry.
\<close>

theorem recovery_keeps_log:
  fixes s :: session
  assumes "session_ok s" "validateSession (ss_log s) = Inr (ss_log s)" "failed_request (ss_log s) i"
    and "\<And>p. ri_policy i = Some p \<Longrightarrow> \<exists>c. resolveRetryPolicy c = Inr p"
    and "mono rnd" "rnd 0 = 0" "0 \<le> ri_random i" "\<And>j. stringify j \<noteq> []"
    and "\<And>s s' r. session_ok s \<Longrightarrow> failed_request (ss_log s) i \<Longrightarrow> nxt s = (s', r) \<Longrightarrow>
      session_ok s' \<and> quietExt (ss_log s) (ss_log s') \<and> failed_request (ss_log s') i"
    and "\<And>s d s' b. session_ok s \<Longrightarrow> wait s d = (s', b) \<Longrightarrow> session_ok s' \<and> quietExt (ss_log s) (ss_log s')"
    and "onRequestError disposed (\<lambda>s d. appendEvent s entry now d intent) ss_log nxt wait rnd stringify i s = (s', res)"
  shows "session_ok s' \<and> validateSession (ss_log s') = Inr (ss_log s')"
  by (rule session_log.recover_keeps [OF assms])

definition sampleRecoverInput :: recover_input where
  "sampleRecoverInput = \<lparr>ri_turn = 0, ri_step = 0, ri_provider = ''p'', ri_failure = sampleFailure,
     ri_policy = Some (NormalPolicy 5 DEFAULT_RETRYABLE_CODES
       \<lparr>rb_initialDelayMs = 500, rb_maxDelayMs = 10000, rb_jitterRatio = 1 / 10\<rparr>),
     ri_abortedAtEntry = False, ri_abortedAfterNext = False, ri_abortedAtBackoff = False,
     ri_random = 0, ri_freshId = ''r''\<rparr>"

definition sampleOpenSession :: session where
  "sampleOpenSession = freshSession (minimalHeader ''s'' 0) sampleOpenLog (newSurfaceManager 0)"

lemma sample_default_policy:
  "resolveRetryPolicy None = Inr (NormalPolicy 5 DEFAULT_RETRYABLE_CODES
     \<lparr>rb_initialDelayMs = 500, rb_maxDelayMs = 10000, rb_jitterRatio = 1 / 10\<rparr>)"
  by (simp add: resolveRetryPolicy_def resolveBackoff_def orDefault_def DEFAULT_MAX_RETRIES_def
      DEFAULT_INITIAL_DELAY_MS_def DEFAULT_MAX_DELAY_MS_def DEFAULT_JITTER_RATIO_def MAX_TIMER_DELAY_MS_def Let_def)

lemma sampleOpenSession_ok: "session_ok sampleOpenSession"
proof -
  have "\<not> isl (foldSurface sampleOpenLog)" by (simp add: foldSurface_def retry_eval surface_eval)
  then show ?thesis
    unfolding sampleOpenSession_def foldSurface_ok_iff by (rule session_ok_fresh [OF manager_ok_new])
qed

theorem recovery_keeps_log_witness:
  "\<exists>s' res. onRequestError False (\<lambda>s d. appendEvent s None 9 d NoIntent) ss_log
       (\<lambda>s. (s, Inr NoAction :: string + request_action)) (\<lambda>s d. (s, True)) id (\<lambda>_. ''k'')
       sampleRecoverInput sampleOpenSession = (s', res)
     \<and> validateSession (ss_log s') = Inr (ss_log s')"
proof -
  obtain s' res where r: "onRequestError False (\<lambda>s d. appendEvent s None 9 d NoIntent) ss_log
       (\<lambda>s. (s, Inr NoAction :: string + request_action)) (\<lambda>s d. (s, True)) id (\<lambda>_. ''k'')
       sampleRecoverInput sampleOpenSession = (s', res)" by force
  have v: "validateSession (ss_log sampleOpenSession) = Inr (ss_log sampleOpenSession)"
    by (simp add: sampleOpenSession_def retry_eval)
  have f: "failed_request (ss_log sampleOpenSession) sampleRecoverInput"
    by (simp add: failed_request_def openRequest_def sampleOpenSession_def sampleRecoverInput_def retry_eval)
  have p: "\<exists>c. resolveRetryPolicy c = Inr p" if "ri_policy sampleRecoverInput = Some p" for p
    using that sample_default_policy by (auto simp: sampleRecoverInput_def)
  have q: "quietExt evs evs" for evs by (simp add: quietExt_def)
  have "session_ok s' \<and> validateSession (ss_log s') = Inr (ss_log s')"
    by (rule recovery_keeps_log [OF sampleOpenSession_ok v f p _ _ _ _ _ _ r])
      (use q in \<open>auto simp: sampleRecoverInput_def mono_def\<close>)
  with r show ?thesis by blast
qed

text \<open>C17.
  A resolved policy has a safe-integer limit, and every delay chosen under it is non-negative, at most its
  \<open>maxDelayMs\<close> and short enough for a timer; a delay the provider asked for within the maximum is honoured
  exactly, and a longer one is only replaced when the policy retries always.
\<close>

theorem retry_delay_bounds:
  assumes "resolveRetryPolicy c = Inr p" "mono rnd" "rnd 0 = 0" "0 \<le> sample"
    and "chooseDelay rnd p f retry sample = Some d"
  shows "0 \<le> d \<and> d \<le> rb_maxDelayMs (policy_backoff p) \<and> d \<le> MAX_TIMER_DELAY_MS
       \<and> (\<forall>n codes b. p = NormalPolicy n codes b \<longrightarrow> 0 \<le> n \<and> n \<le> maxSafe)
       \<and> (\<forall>x. lf_providerRetryAfterMs f = Some (Fin x) \<and> 0 < x \<longrightarrow>
            (if x \<le> rb_maxDelayMs (policy_backoff p) then d = x else \<exists>b. p = AlwaysPolicy b))"
proof -
  note g = resolveRetryPolicy_good [OF assms(1)]
  have "0 \<le> n \<and> n \<le> maxSafe" if "p = NormalPolicy n codes b" for n codes b
    using g(2) [OF that] by simp
  moreover have "if x \<le> rb_maxDelayMs (policy_backoff p) then d = x else \<exists>b. p = AlwaysPolicy b"
    if "lf_providerRetryAfterMs f = Some (Fin x)" "0 < x" for x
    using assms(5) that by (cases p) (auto simp: chooseDelay_def Let_def split: if_splits)
  ultimately show ?thesis using chooseDelay_bounds [OF g(1) assms(2-5)] by blast
qed

theorem retry_delay_bounds_witness:
  "localDelay id \<lparr>rb_initialDelayMs = 500, rb_maxDelayMs = 10000, rb_jitterRatio = 1 / 10\<rparr> 5 (1 / 2) \<le> 10000"
  using retry_delay_bounds [OF sample_default_policy, of id "1 / 2" "sampleFailure\<lparr>lf_providerRetryAfterMs := None\<rparr>" 5]
  by (simp add: chooseDelay_def mono_def)

end

