(* ===== verification/Consumed_Work.thy ===== *)
theory Consumed_Work
  imports Session_Trace
begin

text \<open>
  How one agent log accounts for the work it consumed: \<open>foldConsumedWork\<close> of
  \<open>core/agent/src/consumed-work.ts\<close>, one pass over the log or an owned suffix of it.

  The account is specified without the pass: a closed turn \<^emph>\<open>accounts\<close> for work when it entered a step, or
  claimed inbox input and did not complete; input is dropped unrun when a cancellation left nothing behind.
  The theorem says the pass returns the last accounting turn of any suffix of a log the trace monitor accepts,
  and whether anything was dropped after it.
\<close>

section \<open>The pass\<close>

fun accountsForClaim :: "turn_end_reason \<Rightarrow> bool" where
  "accountsForClaim EndCompleted = False"
| "accountsForClaim EndBlocked = True"
| "accountsForClaim (EndAborted _) = True"
| "accountsForClaim EndInterrupted = True"
| "accountsForClaim (EndError _) = True"
| "accountsForClaim _ = True"

record consumed_work =
  cw_stepped :: "int set"
  cw_claimed :: "int set"
  cw_open :: "int option"
  cw_end :: "session_event option"
  cw_droppedUnrun :: bool

definition consumedStart :: consumed_work where
  "consumedStart = \<lparr>cw_stepped = {}, cw_claimed = {}, cw_open = None, cw_end = None, cw_droppedUnrun = False\<rparr>"

definition consumedStep :: "consumed_work \<Rightarrow> session_event \<Rightarrow> consumed_work" where
  "consumedStep w e =
     (case ev_data e of
        TurnStart turn \<Rightarrow> w\<lparr>cw_open := Some turn\<rparr>
      | StepStart turn _ \<Rightarrow> w\<lparr>cw_stepped := insert turn (cw_stepped w)\<rparr>
      | InboxSpliced sp \<Rightarrow>
          (if sp_removedCount sp = None then w
           else if sp_canceled sp then w\<lparr>cw_droppedUnrun := cw_droppedUnrun w \<or> sp_inserted sp = []\<rparr>
           else (case cw_open w of
                   Some open_turn \<Rightarrow> w\<lparr>cw_claimed := insert open_turn (cw_claimed w)\<rparr>
                 | None \<Rightarrow> w))
      | TurnEnd turn reason \<Rightarrow>
          (let w' = w\<lparr>cw_open := None\<rparr> in
           if turn \<in> cw_stepped w' then
             w'\<lparr>cw_stepped := cw_stepped w' - {turn}, cw_end := Some e, cw_droppedUnrun := False\<rparr>
           else if turn \<in> cw_claimed w' then
             (if accountsForClaim reason then
                w'\<lparr>cw_claimed := cw_claimed w' - {turn}, cw_end := Some e, cw_droppedUnrun := False\<rparr>
              else w'\<lparr>cw_claimed := cw_claimed w' - {turn}\<rparr>)
           else w')
      | _ \<Rightarrow> w)"

definition foldConsumedWork :: "session_event list \<Rightarrow> session_event option \<times> bool" where
  "foldConsumedWork evs = (let w = foldl consumedStep consumedStart evs in (cw_end w, cw_droppedUnrun w))"

section \<open>The account, without the pass\<close>

fun openTurnStep :: "int option \<Rightarrow> event_data \<Rightarrow> int option" where
  "openTurnStep _ (TurnStart n) = Some n"
| "openTurnStep _ (TurnEnd _ _) = None"
| "openTurnStep t _ = t"

definition openTurnOf :: "session_event list \<Rightarrow> int option" where
  "openTurnOf evs = foldl openTurnStep None (map ev_data evs)"

fun isClaim :: "event_data \<Rightarrow> bool" where
  "isClaim (InboxSpliced sp) \<longleftrightarrow> sp_removedCount sp \<noteq> None \<and> \<not> sp_canceled sp"
| "isClaim _ \<longleftrightarrow> False"

fun isDrop :: "event_data \<Rightarrow> bool" where
  "isDrop (InboxSpliced sp) \<longleftrightarrow> sp_removedCount sp \<noteq> None \<and> sp_canceled sp \<and> sp_inserted sp = []"
| "isDrop _ \<longleftrightarrow> False"

definition enteredStep :: "session_event list \<Rightarrow> int \<Rightarrow> bool" where
  "enteredStep evs n \<longleftrightarrow> (\<exists>e \<in> set evs. \<exists>s. ev_data e = StepStart n s)"

definition claimedInput :: "session_event list \<Rightarrow> int \<Rightarrow> bool" where
  "claimedInput evs n \<longleftrightarrow>
     (\<exists>j < length evs. isClaim (ev_data (evs ! j)) \<and> openTurnOf (take j evs) = Some n)"

definition accountsAt :: "session_event list \<Rightarrow> nat \<Rightarrow> bool" where
  "accountsAt evs k \<longleftrightarrow> k < length evs \<and>
     (\<exists>n r. ev_data (evs ! k) = TurnEnd n r
        \<and> (enteredStep (take k evs) n \<or> accountsForClaim r \<and> claimedInput (take k evs) n))"

definition droppedUnrun :: "session_event list \<Rightarrow> bool" where
  "droppedUnrun evs \<longleftrightarrow> (\<exists>e \<in> set evs. isDrop (ev_data e))"

fun endOf :: "event_data \<Rightarrow> int list" where
  "endOf (TurnEnd n _) = [n]"
| "endOf _ = []"

definition turnEnds :: "session_event list \<Rightarrow> int list" where
  "turnEnds evs = concat (map (\<lambda>e. endOf (ev_data e)) evs)"

section \<open>Growing a log by one event\<close>

lemma openTurnOf_snoc [simp]: "openTurnOf (evs @ [e]) = openTurnStep (openTurnOf evs) (ev_data e)"
  by (simp add: openTurnOf_def)

lemma enteredStep_snoc:
  "enteredStep (evs @ [e]) n \<longleftrightarrow> enteredStep evs n \<or> (\<exists>s. ev_data e = StepStart n s)"
  by (auto simp: enteredStep_def)

lemma claimedInput_snoc:
  "claimedInput (evs @ [e]) n \<longleftrightarrow> claimedInput evs n \<or> isClaim (ev_data e) \<and> openTurnOf evs = Some n"
proof -
  have "isClaim (ev_data ((evs @ [e]) ! j)) \<and> openTurnOf (take j (evs @ [e])) = Some n
      \<longleftrightarrow> isClaim (ev_data (evs ! j)) \<and> openTurnOf (take j evs) = Some n" if "j < length evs" for j
    using that by (simp add: nth_append)
  then show ?thesis by (auto simp: claimedInput_def Ex_less_Suc cong: conj_cong)
qed

lemma accountsAt_snoc:
  "accountsAt (evs @ [e]) k \<longleftrightarrow> accountsAt evs k \<or> k = length evs \<and>
     (\<exists>n r. ev_data e = TurnEnd n r \<and> (enteredStep evs n \<or> accountsForClaim r \<and> claimedInput evs n))"
  by (auto simp: accountsAt_def nth_append less_Suc_eq)

lemma accountsAt_less: "accountsAt evs k \<Longrightarrow> k < length evs"
  by (simp add: accountsAt_def)

lemma droppedUnrun_snoc: "droppedUnrun (evs @ [e]) \<longleftrightarrow> droppedUnrun evs \<or> isDrop (ev_data e)"
  by (auto simp: droppedUnrun_def)

lemma turnEnds_snoc: "turnEnds (evs @ [e]) = turnEnds evs @ endOf (ev_data e)"
  by (simp add: turnEnds_def)

text \<open>The returned account, as a relation between a log and the two fields.\<close>

definition accountOf :: "session_event list \<Rightarrow> session_event option \<Rightarrow> bool \<Rightarrow> bool" where
  "accountOf evs fin dropped \<longleftrightarrow>
     (case fin of
        None \<Rightarrow> (\<forall>k. \<not> accountsAt evs k) \<and> dropped = droppedUnrun evs
      | Some e \<Rightarrow> (\<exists>k. accountsAt evs k \<and> (\<forall>j > k. \<not> accountsAt evs j) \<and> evs ! k = e
                     \<and> dropped = droppedUnrun (drop (Suc k) evs)))"

lemma accountOf_last:
  assumes "ev_data e = TurnEnd n r" "enteredStep evs n \<or> accountsForClaim r \<and> claimedInput evs n"
  shows "accountOf (evs @ [e]) (Some e) False"
  using assms accountsAt_less [of evs]
  by (force simp: accountOf_def accountsAt_snoc droppedUnrun_def)

lemma accountOf_keep:
  assumes "accountOf evs fin dropped"
    and "\<not> (\<exists>n r. ev_data e = TurnEnd n r \<and> (enteredStep evs n \<or> accountsForClaim r \<and> claimedInput evs n))"
  shows "accountOf (evs @ [e]) fin (dropped \<or> isDrop (ev_data e))"
proof -
  have same: "accountsAt (evs @ [e]) k = accountsAt evs k" for k
    using assms(2) by (auto simp: accountsAt_snoc)
  show ?thesis
  proof (cases fin)
    case None
    with assms(1) show ?thesis by (simp add: accountOf_def same droppedUnrun_snoc)
  next
    case (Some x)
    with assms(1) obtain k where k: "accountsAt evs k" "\<forall>j > k. \<not> accountsAt evs j" "evs ! k = x"
      "dropped = droppedUnrun (drop (Suc k) evs)" by (auto simp: accountOf_def)
    with accountsAt_less [OF k(1)] have "(evs @ [e]) ! k = x"
      "(dropped \<or> isDrop (ev_data e)) = droppedUnrun (drop (Suc k) (evs @ [e]))"
      by (simp_all add: nth_append droppedUnrun_snoc)
    with k(1,2) Some show ?thesis by (auto simp: accountOf_def same)
  qed
qed

definition consumedInv :: "session_event list \<Rightarrow> consumed_work \<Rightarrow> bool" where
  "consumedInv evs w \<longleftrightarrow> cw_open w = openTurnOf evs
     \<and> (\<forall>n. n \<notin> set (turnEnds evs) \<longrightarrow> (n \<in> cw_stepped w \<longleftrightarrow> enteredStep evs n)
                                     \<and> (n \<in> cw_claimed w \<longleftrightarrow> claimedInput evs n))
     \<and> accountOf evs (cw_end w) (cw_droppedUnrun w)"

lemma consumedInv_TurnEnd:
  assumes inv: "consumedInv evs w" and e: "ev_data e = TurnEnd n r" and new: "n \<notin> set (turnEnds evs)"
  shows "consumedInv (evs @ [e]) (consumedStep w e)"
proof -
  have mem: "n \<in> cw_stepped w \<longleftrightarrow> enteredStep evs n" "n \<in> cw_claimed w \<longleftrightarrow> claimedInput evs n"
    using inv new by (auto simp: consumedInv_def)
  have acc: "accountOf (evs @ [e]) (cw_end (consumedStep w e)) (cw_droppedUnrun (consumedStep w e))"
  proof (cases "enteredStep evs n \<or> accountsForClaim r \<and> claimedInput evs n")
    case True
    with accountOf_last [OF e True] e mem show ?thesis
      by (auto simp: consumedStep_def Let_def)
  next
    case False
    with accountOf_keep [of evs "cw_end w" "cw_droppedUnrun w" e] inv e mem show ?thesis
      by (simp add: consumedStep_def Let_def consumedInv_def)
  qed
  have "cw_open (consumedStep w e) = None"
    "\<And>m. m \<noteq> n \<Longrightarrow> m \<in> cw_stepped (consumedStep w e) \<longleftrightarrow> m \<in> cw_stepped w"
    "\<And>m. m \<noteq> n \<Longrightarrow> m \<in> cw_claimed (consumedStep w e) \<longleftrightarrow> m \<in> cw_claimed w"
    using e by (auto simp: consumedStep_def Let_def)
  with acc inv e show ?thesis
    by (simp add: consumedInv_def turnEnds_snoc enteredStep_snoc claimedInput_snoc)
qed

lemma consumedInv_other:
  assumes inv: "consumedInv evs w" and e: "\<And>n r. ev_data e \<noteq> TurnEnd n r"
  shows "consumedInv (evs @ [e]) (consumedStep w e)"
proof -
  have "endOf (ev_data e) = []" using e by (cases "ev_data e") auto
  moreover have "cw_open (consumedStep w e) = openTurnStep (cw_open w) (ev_data e)"
    using e by (cases "ev_data e") (auto simp: consumedStep_def split: option.split)
  moreover have "m \<in> cw_stepped (consumedStep w e) \<longleftrightarrow> m \<in> cw_stepped w \<or> (\<exists>s. ev_data e = StepStart m s)" for m
    using e by (cases "ev_data e") (auto simp: consumedStep_def split: option.split)
  moreover have "m \<in> cw_claimed (consumedStep w e)
      \<longleftrightarrow> m \<in> cw_claimed w \<or> isClaim (ev_data e) \<and> cw_open w = Some m" for m
    using e by (cases "ev_data e") (auto simp: consumedStep_def split: option.split)
  moreover have "cw_end (consumedStep w e) = cw_end w"
    "cw_droppedUnrun (consumedStep w e) = (cw_droppedUnrun w \<or> isDrop (ev_data e))"
    using e by (cases "ev_data e"; auto simp: consumedStep_def split: option.split)+
  moreover have "accountOf (evs @ [e]) (cw_end w) (cw_droppedUnrun w \<or> isDrop (ev_data e))"
    using inv e by (intro accountOf_keep) (auto simp: consumedInv_def)
  ultimately show ?thesis
    using inv by (simp add: consumedInv_def turnEnds_snoc enteredStep_snoc claimedInput_snoc)
qed

lemma consumedInv_fold: "distinct (turnEnds evs) \<Longrightarrow> consumedInv evs (foldl consumedStep consumedStart evs)"
proof (induction evs rule: rev_induct)
  case Nil
  show ?case
    by (simp add: consumedInv_def consumedStart_def openTurnOf_def enteredStep_def claimedInput_def
        accountOf_def accountsAt_def droppedUnrun_def)
next
  case (snoc e evs)
  then have inv: "consumedInv evs (foldl consumedStep consumedStart evs)" by (simp add: turnEnds_snoc)
  show ?case
  proof (cases "\<exists>n r. ev_data e = TurnEnd n r")
    case True
    with inv snoc.prems show ?thesis by (auto simp: turnEnds_snoc intro: consumedInv_TurnEnd)
  next
    case False
    with inv show ?thesis by (auto intro: consumedInv_other)
  qed
qed

text \<open>A log the monitor accepts ends each turn once, and so does every suffix of it.\<close>

lemma turnEnds_below:
  "seedSession evs = Inr t \<Longrightarrow> distinct (turnEnds evs) \<and> (\<forall>n \<in> set (turnEnds evs). n < tc_nextTurn t)
     \<and> (\<forall>n. tc_openTurn t = Some n \<longrightarrow> n = tc_nextTurn t)"
proof (induction evs arbitrary: t rule: rev_induct)
  case Nil
  then show ?case by (auto simp: seedSession_def freshTrace_def turnEnds_def)
next
  case (snoc e evs)
  from snoc.prems obtain t0 where t0: "seedSession evs = Inr t0" "traceStep t0 e = Inr t"
    by (auto simp: seedSession_def foldE_snoc_Inr)
  note IH = snoc.IH [OF t0(1)]
  show ?case
  proof (cases "data_marks (ev_data e) = []")
    case True
    then have "endOf (ev_data e) = []" by (cases "ev_data e") auto
    with traceStep_quiet [OF t0(2) True] IH show ?thesis by (simp add: turnEnds_snoc)
  next
    case False
    with IH t0(2) show ?thesis
      using traceStep_TurnStart [of e _ t0 t] traceStep_TurnEnd [of e _ _ t0 t]
        traceStep_StepStart [of e _ _ t0 t] traceStep_StepEnd [of e _ _ t0 t]
      by (cases "ev_data e") (auto simp: turnEnds_snoc)
  qed
qed

lemma turnEnds_append: "turnEnds (xs @ ys) = turnEnds xs @ turnEnds ys"
  by (simp add: turnEnds_def)

section \<open>Property\<close>

text \<open>C18.
  Of any suffix of a log the trace monitor accepts, the pass returns the last closed turn that entered a
  step or claimed input without completing, if there is one, and reports dropped work exactly when a
  cancellation after that turn (anywhere, if there is none) removed pending input and left nothing in its
  place.
\<close>

theorem consumed_work_account:
  assumes "seedSession (earlier @ evs) = Inr t" "foldConsumedWork evs = (fin, dropped)"
  shows "case fin of
       None \<Rightarrow> (\<forall>k. \<not> accountsAt evs k) \<and> dropped = droppedUnrun evs
     | Some e \<Rightarrow> \<exists>k. accountsAt evs k \<and> (\<forall>j > k. \<not> accountsAt evs j) \<and> evs ! k = e
                   \<and> dropped = droppedUnrun (drop (Suc k) evs)"
proof -
  have "distinct (turnEnds evs)"
    using turnEnds_below [OF assms(1)] by (simp add: turnEnds_append)
  from consumedInv_fold [OF this] assms(2) have "accountOf evs fin dropped"
    by (auto simp: consumedInv_def foldConsumedWork_def Let_def)
  then show ?thesis by (simp only: accountOf_def)
qed

definition sampleClaim :: "inbox_target \<Rightarrow> event_data" where
  "sampleClaim target = InboxSpliced \<lparr>sp_target = target, sp_start = 0, sp_removedCount = Some 1,
     sp_inserted = [], sp_canceled = False\<rparr>"

definition sampleCancel :: event_data where
  "sampleCancel = InboxSpliced \<lparr>sp_target = NextTurn, sp_start = 0, sp_removedCount = Some 1,
     sp_inserted = [], sp_canceled = True\<rparr>"

definition sampleWorkLog :: "session_event list" where
  "sampleWorkLog =
     [sampleEvent 0 (TurnStart 1) None None, sampleEvent 1 (sampleClaim NextTurn) None None,
      sampleEvent 2 (TurnEnd 1 EndBlocked) None None, sampleEvent 3 sampleCancel None None,
      sampleEvent 4 (TurnStart 2) None None, sampleEvent 5 (TurnEnd 2 EndCompleted) None None]"

theorem consumed_work_account_witness:
  "\<exists>k. accountsAt sampleWorkLog k \<and> (\<forall>j > k. \<not> accountsAt sampleWorkLog j) \<and> ev_seq (sampleWorkLog ! k) = 2
     \<and> droppedUnrun (drop (Suc k) sampleWorkLog)"
proof -
  have "\<exists>t. seedSession ([] @ sampleWorkLog) = Inr t"
    by (simp add: sampleWorkLog_def sampleEvent_def sampleClaim_def sampleCancel_def seedSession_def
        freshTrace_def trace_simps)
  then obtain t where t: "seedSession ([] @ sampleWorkLog) = Inr t" by blast
  have f: "foldConsumedWork sampleWorkLog = (Some (sampleEvent 2 (TurnEnd 1 EndBlocked) None None), True)"
    by (simp add: foldConsumedWork_def sampleWorkLog_def sampleEvent_def sampleClaim_def sampleCancel_def
        consumedStep_def consumedStart_def Let_def)
  from consumed_work_account [OF t f] obtain k where "accountsAt sampleWorkLog k" "\<forall>j > k. \<not> accountsAt sampleWorkLog j"
    "sampleWorkLog ! k = sampleEvent 2 (TurnEnd 1 EndBlocked) None None"
    "droppedUnrun (drop (Suc k) sampleWorkLog)"
    by auto
  then show ?thesis by (intro exI [of _ k]) (simp add: sampleEvent_def)
qed

end
