(* ===== verification/Chunk_Rows.thy ===== *)
theory Chunk_Rows
  imports Json
begin

text \<open>
  Storage packing of streamed delta events: \<open>core/session/src/chunk-rows.ts\<close>.

  A run of at least \<open>MIN_RUN\<close> consecutive \<open>assistant/chunk\<close> deltas of one block becomes one row; rows
  expand back to the events. Events and rows are raw JSON, as in the code, which checks their exact shape.
  The packing and unpacking loops are the code's; the theorems are the round trip, up to the order of
  object keys, which JSON equality ignores, and that a decoded row is a canonical, bounded run.

  Gaps between times are exact here. The code subtracts doubles, and \<open>Number.isSafeInteger\<close> holds of the
  rounded difference of two safe integers exactly when it holds of the true one.
\<close>

section \<open>Shapes\<close>

datatype delta_kind = TextKind | ReasoningKind | ToolCallKind

definition MIN_RUN :: nat where
  "MIN_RUN = 3"

definition propOf :: "json \<Rightarrow> string \<Rightarrow> json" where
  "propOf v k = (case obj_get v k of Some w \<Rightarrow> w | None \<Rightarrow> JNull)"

fun array_of :: "json \<Rightarrow> json list" where
  "array_of (JArr xs) = xs"
| "array_of _ = []"

definition num :: "json \<Rightarrow> string \<Rightarrow> rat" where
  "num v k = as_num (obj_get v k)"

definition str :: "json \<Rightarrow> string \<Rightarrow> string" where
  "str v k = as_str (obj_get v k)"

definition chunkOf :: "json \<Rightarrow> json" where
  "chunkOf event = propOf (propOf event ''data'') ''chunk''"

definition classifyChunk :: "json \<Rightarrow> delta_kind option" where
  "classifyChunk chunk =
     (if obj_get chunk ''type'' = Some (JStr ''text-delta'') \<or> obj_get chunk ''type'' = Some (JStr ''reasoning-delta'') then
        (if hasExactKeys chunk [''type'', ''index'', ''text''] \<and> is_string (obj_get chunk ''text'')
         then Some (if obj_get chunk ''type'' = Some (JStr ''text-delta'') then TextKind else ReasoningKind) else None)
      else if obj_get chunk ''type'' = Some (JStr ''tool-call-delta'') then
        (let shapeOk = hasExactKeys chunk [''type'', ''index'', ''id'', ''argumentsDelta'']
             \<or> hasExactKeys chunk [''type'', ''index'', ''id'', ''name'', ''argumentsDelta''] \<and> is_string (obj_get chunk ''name'')
         in if shapeOk \<and> is_string (obj_get chunk ''id'') \<and> is_string (obj_get chunk ''argumentsDelta'')
            then Some ToolCallKind else None)
      else None)"

definition classify :: "json \<Rightarrow> delta_kind option" where
  "classify event =
     (let data = propOf event ''data''; chunk = propOf data ''chunk'' in
      if obj_get event ''type'' \<noteq> Some (JStr ''assistant/chunk'') then None
      else if \<not> hasExactKeys event [''type'', ''seq'', ''time'', ''data''] then None
      else if \<not> is_safe_integer (obj_get event ''seq'') \<or> num event ''seq'' < 0
              \<or> \<not> is_safe_integer (obj_get event ''time'') then None
      else if \<not> is_object data \<or> \<not> hasExactKeys data [''turn'', ''step'', ''chunk''] then None
      else if \<not> is_number (obj_get data ''turn'') \<or> \<not> is_number (obj_get data ''step'') then None
      else if \<not> is_object chunk \<or> \<not> is_number (obj_get chunk ''index'') then None
      else classifyChunk chunk)"

definition continues :: "json \<Rightarrow> json \<Rightarrow> delta_kind \<Rightarrow> bool" where
  "continues prev nxt kind \<longleftrightarrow>
     num nxt ''seq'' = num prev ''seq'' + 1
     \<and> isSafeInteger (num nxt ''time'' - num prev ''time'')
     \<and> obj_get (propOf nxt ''data'') ''turn'' = obj_get (propOf prev ''data'') ''turn''
     \<and> obj_get (propOf nxt ''data'') ''step'' = obj_get (propOf prev ''data'') ''step''
     \<and> obj_get (chunkOf nxt) ''index'' = obj_get (chunkOf prev) ''index''
     \<and> (kind \<noteq> ToolCallKind
        \<or> obj_get (chunkOf prev) ''id'' = obj_get (chunkOf nxt) ''id''
          \<and> hasOwn (chunkOf prev) ''name'' = hasOwn (chunkOf nxt) ''name''
          \<and> obj_get (chunkOf prev) ''name'' = obj_get (chunkOf nxt) ''name'')"

section \<open>Packing\<close>

definition gaps :: "json list \<Rightarrow> json list" where
  "gaps run = map2 (\<lambda>event before. JNum (num event ''time'' - num before ''time'')) (tl run) run"

definition runBase :: "json list \<Rightarrow> (string \<times> json) list" where
  "runBase run =
     (let first = hd run in
      [(''turn'', propOf (propOf first ''data'') ''turn''), (''step'', propOf (propOf first ''data'') ''step''),
       (''index'', propOf (chunkOf first) ''index''), (''dt'', JArr (gaps run))])"

definition rowJson :: "string \<Rightarrow> json list \<Rightarrow> (string \<times> json) list \<Rightarrow> json" where
  "rowJson tag run data =
     JObj [(''type'', JStr tag), (''seq0'', propOf (hd run) ''seq''), (''time0'', propOf (hd run) ''time''),
           (''data'', JObj data)]"

definition nameProp :: "json \<Rightarrow> (string \<times> json) list" where
  "nameProp call = (if hasOwn call ''name'' then [(''name'', propOf call ''name'')] else [])"

definition buildRow :: "delta_kind \<Rightarrow> json list \<Rightarrow> json" where
  "buildRow kind run =
     (case kind of
        ToolCallKind \<Rightarrow>
          rowJson ''tool-call-chunks'' run
            (runBase run @ [(''id'', propOf (chunkOf (hd run)) ''id'')] @ nameProp (chunkOf (hd run))
             @ [(''args'', JArr (map (\<lambda>event. propOf (chunkOf event) ''argumentsDelta'') run))])
      | _ \<Rightarrow>
          rowJson (if kind = TextKind then ''text-chunks'' else ''reasoning-chunks'') run
            (runBase run @ [(''texts'', JArr (map (\<lambda>event. propOf (chunkOf event) ''text'') run))]))"

text \<open>The loop: the open run with its kind, and the records already written.\<close>

definition flush :: "delta_kind option \<Rightarrow> json list \<Rightarrow> json list" where
  "flush kind run =
     (case kind of
        Some k \<Rightarrow> if MIN_RUN \<le> length run then [buildRow k run] else run
      | None \<Rightarrow> run)"

fun packLoop :: "delta_kind option \<Rightarrow> json list \<Rightarrow> json list \<Rightarrow> json list" where
  "packLoop kind run [] = flush kind run"
| "packLoop kind run (event # rest) =
     (case classify event of
        None \<Rightarrow> flush kind run @ event # packLoop None [] rest
      | Some k \<Rightarrow>
          if kind = Some k \<and> run \<noteq> [] \<and> continues (last run) event k
          then packLoop kind (run @ [event]) rest
          else flush kind run @ packLoop (Some k) [event] rest)"

definition packChunkRuns :: "json list \<Rightarrow> json list" where
  "packChunkRuns events = packLoop None [] events"

section \<open>Unpacking\<close>

datatype row_error =
    NotNumbers
  | BadPayload
  | BadGaps
  | ArityMismatch
  | BadEnvelope
  | BadSeq0
  | BadTime0
  | DataNotObject
  | BadData
  | BadCall
  | UnsafeSeq
  | UnsafeTime

fun is_array :: "json option \<Rightarrow> bool" where
  "is_array (Some (JArr _)) = True"
| "is_array _ = False"

definition validateRunData :: "json \<Rightarrow> string \<Rightarrow> row_error + json list" where
  "validateRunData data payloadKey =
     (if \<not> is_number (obj_get data ''turn'') \<or> \<not> is_number (obj_get data ''step'')
         \<or> \<not> is_number (obj_get data ''index'') then Inl NotNumbers
      else
        let payload = array_of (propOf data payloadKey); dt = array_of (propOf data ''dt'') in
        if \<not> is_array (obj_get data payloadKey) \<or> payload = [] \<or> \<not> list_all (\<lambda>p. is_string (Some p)) payload
        then Inl BadPayload
        else if \<not> is_array (obj_get data ''dt'') \<or> \<not> list_all (\<lambda>g. is_safe_integer (Some g)) dt then Inl BadGaps
        else if length dt \<noteq> length payload - 1 then Inl ArityMismatch
        else Inr payload)"

fun checkTimes :: "rat \<Rightarrow> json list \<Rightarrow> row_error + unit" where
  "checkTimes time [] = Inr ()"
| "checkTimes time (gap # gs) =
     (let time' = time + as_num (Some gap) in
      if \<not> isSafeInteger time' then Inl UnsafeTime else checkTimes time' gs)"

definition rowPayload :: "json \<Rightarrow> string \<Rightarrow> row_error + json list" where
  "rowPayload data tag =
     (if tag = ''tool-call-chunks'' then
        (let withName = hasExactKeys data [''turn'', ''step'', ''index'', ''id'', ''name'', ''dt'', ''args''] in
         if \<not> withName \<and> \<not> hasExactKeys data [''turn'', ''step'', ''index'', ''id'', ''dt'', ''args''] then Inl BadData
         else if \<not> is_string (obj_get data ''id'') \<or> withName \<and> \<not> is_string (obj_get data ''name'') then Inl BadCall
         else validateRunData data ''args'')
      else if \<not> hasExactKeys data [''turn'', ''step'', ''index'', ''dt'', ''texts''] then Inl BadData
      else validateRunData data ''texts'')"

definition validateRow :: "json \<Rightarrow> string \<Rightarrow> row_error + json" where
  "validateRow value tag =
     (let data = propOf value ''data'' in
      if \<not> hasExactKeys value [''type'', ''seq0'', ''time0'', ''data''] then Inl BadEnvelope
      else if \<not> is_safe_integer (obj_get value ''seq0'') \<or> num value ''seq0'' < 0 then Inl BadSeq0
      else if \<not> is_safe_integer (obj_get value ''time0'') then Inl BadTime0
      else if \<not> (is_object data \<or> is_array (Some data)) then Inl DataNotObject
      else
        bindE (rowPayload data tag) (\<lambda>payload.
          if \<not> isSafeInteger (num value ''seq0'' + of_nat (length payload) - 1) then Inl UnsafeSeq
          else bindE (checkTimes (num value ''time0'') (array_of (propOf data ''dt''))) (\<lambda>_. Inr value)))"

definition expandChunk :: "string \<Rightarrow> json \<Rightarrow> json \<Rightarrow> json" where
  "expandChunk tag data payload =
     (if tag = ''tool-call-chunks'' then
        JObj ([(''type'', JStr ''tool-call-delta''), (''index'', propOf data ''index''), (''id'', propOf data ''id'')]
              @ nameProp data @ [(''argumentsDelta'', payload)])
      else
        JObj [(''type'', JStr (if tag = ''text-chunks'' then ''text-delta'' else ''reasoning-delta'')),
              (''index'', propOf data ''index''), (''text'', payload)])"

definition expandMember :: "string \<Rightarrow> json \<Rightarrow> rat \<Rightarrow> rat \<Rightarrow> json \<Rightarrow> json" where
  "expandMember tag data seq time payload =
     JObj [(''type'', JStr ''assistant/chunk''), (''seq'', JNum seq), (''time'', JNum time),
           (''data'', JObj [(''turn'', propOf data ''turn''), (''step'', propOf data ''step''),
                            (''chunk'', expandChunk tag data payload)])]"

fun expandLoop :: "string \<Rightarrow> json \<Rightarrow> rat \<Rightarrow> json list \<Rightarrow> nat \<Rightarrow> rat \<Rightarrow> json list \<Rightarrow> json list" where
  "expandLoop tag data seq0 dt k time [] = []"
| "expandLoop tag data seq0 dt k time (payload # members) =
     (let time' = (if 0 < k then time + as_num (Some (dt ! (k - 1))) else time) in
      expandMember tag data (seq0 + of_nat k) time' payload
      # expandLoop tag data seq0 dt (Suc k) time' members)"

definition expandRow :: "json \<Rightarrow> string \<Rightarrow> json list" where
  "expandRow row tag =
     (let data = propOf row ''data'' in
      expandLoop tag data (num row ''seq0'') (array_of (propOf data ''dt'')) 0 (num row ''time0'')
        (array_of (propOf data (if tag = ''tool-call-chunks'' then ''args'' else ''texts''))))"

definition rowTags :: "string list" where
  "rowTags = [''text-chunks'', ''reasoning-chunks'', ''tool-call-chunks'']"

definition decodeStorageRecord :: "json \<Rightarrow> row_error + json list" where
  "decodeStorageRecord value =
     (case obj_get value ''type'' of
        Some (JStr tag) \<Rightarrow>
          if tag \<in> set rowTags then bindE (validateRow value tag) (\<lambda>row. Inr (expandRow row tag))
          else Inr [value]
      | _ \<Rightarrow> Inr [value])"

section \<open>An event the packer recognises is its canonical form\<close>

definition canonicalChunk :: "delta_kind \<Rightarrow> json \<Rightarrow> json" where
  "canonicalChunk k c =
     (case k of
        ToolCallKind \<Rightarrow>
          JObj ([(''type'', JStr ''tool-call-delta''), (''index'', propOf c ''index''), (''id'', propOf c ''id'')]
                @ nameProp c @ [(''argumentsDelta'', propOf c ''argumentsDelta'')])
      | _ \<Rightarrow>
          JObj [(''type'', JStr (if k = TextKind then ''text-delta'' else ''reasoning-delta'')),
                (''index'', propOf c ''index''), (''text'', propOf c ''text'')])"

definition canonical :: "delta_kind \<Rightarrow> json \<Rightarrow> json" where
  "canonical k e =
     JObj [(''type'', JStr ''assistant/chunk''), (''seq'', JNum (num e ''seq'')), (''time'', JNum (num e ''time'')),
           (''data'', JObj [(''turn'', propOf (propOf e ''data'') ''turn''), (''step'', propOf (propOf e ''data'') ''step''),
                            (''chunk'', canonicalChunk k (chunkOf e))])]"

lemma propOf_Some: "obj_get v k = Some w \<Longrightarrow> propOf v k = w"
  by (simp add: propOf_def)

lemma propOf_wf: "wf_json v \<Longrightarrow> wf_json (propOf v k)"
  by (auto simp: propOf_def obj_get_wf split: option.split)

lemma exact_deep:
  assumes wf: "wf_json v" "is_object v" and ks: "hasExactKeys v (map fst kvs')" "distinct (map fst kvs')"
    and eq: "\<And>k w. (k, w) \<in> set kvs' \<Longrightarrow> isDeepEqualJson (propOf v k) w"
  shows "isDeepEqualJson v (JObj kvs')"
proof -
  from wf(2) obtain kvs where v: "v = JObj kvs" by (auto simp: is_object_iff)
  have set_eq: "set (map fst kvs) = set (map fst kvs')"
    using hasExactKeys_set [OF ks] by (simp add: v)
  have "\<exists>w. map_of kvs' k = Some w \<and> isDeepEqualJson x w" if "(k, x) \<in> set kvs" for k x
  proof -
    have "k \<in> set (map fst kvs')" using that set_eq by force
    then obtain w where w: "map_of kvs' k = Some w"
      by (metis (no_types, opaque_lifting) map_of_eq_None_iff not_None_eq image_set)
    have "map_of kvs k = Some x" using that wf(1) by (simp add: v)
    then have "propOf v k = x" by (simp add: v propOf_def)
    with eq [OF map_of_SomeD [OF w]] w show ?thesis by auto
  qed
  moreover have "length kvs = length kvs'" using ks(1) by (simp add: v hasExactKeys_def)
  ultimately show ?thesis unfolding v by (simp only: isDeepEqualJson_JObj) blast
qed

text \<open>What a classification says, field by field.\<close>

lemma classify_Some:
  assumes "classify e = Some k"
  shows "obj_get e ''type'' = Some (JStr ''assistant/chunk'')"
    and "hasExactKeys e [''type'', ''seq'', ''time'', ''data'']"
    and "\<exists>x. obj_get e ''seq'' = Some (JNum x) \<and> isSafeInteger x \<and> 0 \<le> x"
    and "\<exists>x. obj_get e ''time'' = Some (JNum x) \<and> isSafeInteger x"
    and "is_object (propOf e ''data'')" "hasExactKeys (propOf e ''data'') [''turn'', ''step'', ''chunk'']"
    and "\<exists>x. obj_get (propOf e ''data'') ''turn'' = Some (JNum x)"
    and "\<exists>x. obj_get (propOf e ''data'') ''step'' = Some (JNum x)"
    and "is_object (chunkOf e)" "\<exists>x. obj_get (chunkOf e) ''index'' = Some (JNum x)"
    and "classifyChunk (chunkOf e) = Some k"
  using assms
  by (auto simp: classify_def Let_def chunkOf_def is_safe_integer_iff is_number_iff num_def split: if_splits)

lemma wf_propOf_deep: "wf_json v \<Longrightarrow> isDeepEqualJson (propOf v k) (propOf v k)"
  by (simp add: propOf_wf isDeepEqualJson_refl)

lemma nameProp_None: "obj_get c ''name'' = None \<Longrightarrow> nameProp c = []"
  by (simp add: nameProp_def hasOwn_get)

lemma nameProp_Some: "obj_get c ''name'' = Some w \<Longrightarrow> nameProp c = [(''name'', w)]"
  by (simp add: nameProp_def hasOwn_get propOf_def)

lemma nameProp_get: "nameProp c = (case obj_get c ''name'' of None \<Rightarrow> [] | Some w \<Rightarrow> [(''name'', w)])"
  by (simp add: nameProp_None nameProp_Some split: option.split)

lemma exact_None: "hasExactKeys v keys \<Longrightarrow> distinct keys \<Longrightarrow> k \<notin> set keys \<Longrightarrow> obj_get v k = None"
  using hasExactKeys_set [of v keys] hasOwn_get [of v k] by (auto simp: hasOwn_def)

lemma exact_Some: "hasExactKeys v keys \<Longrightarrow> k \<in> set keys \<Longrightarrow> \<exists>w. obj_get v k = Some w"
  using hasOwn_get [of v k] by (auto simp: hasExactKeys_def list_all_iff)

lemma classifyChunk_canonical:
  assumes wf: "wf_json c" "is_object c" and cl: "classifyChunk c = Some k"
  shows "isDeepEqualJson c (canonicalChunk k c)"
proof (cases k)
  case ToolCallKind
  with cl have ty: "obj_get c ''type'' = Some (JStr ''tool-call-delta'')"
    and sh: "hasExactKeys c [''type'', ''index'', ''id'', ''argumentsDelta'']
        \<or> hasExactKeys c [''type'', ''index'', ''id'', ''name'', ''argumentsDelta'']"
    by (auto simp: classifyChunk_def Let_def split: if_splits)
  from sh show ?thesis
  proof
    assume x: "hasExactKeys c [''type'', ''index'', ''id'', ''argumentsDelta'']"
    then have "nameProp c = []" by (intro nameProp_None exact_None) auto
    with x ty ToolCallKind wf show ?thesis
      by (auto simp: canonicalChunk_def propOf_Some wf_propOf_deep intro!: exact_deep)
  next
    assume x: "hasExactKeys c [''type'', ''index'', ''id'', ''name'', ''argumentsDelta'']"
    then obtain w where w: "obj_get c ''name'' = Some w" using exact_Some by fastforce
    then have "nameProp c = [(''name'', w)]" "propOf c ''name'' = w" by (simp_all add: nameProp_Some propOf_Some)
    with x ty ToolCallKind wf wf_propOf_deep [OF wf(1), of "''name''"] show ?thesis
      by (auto simp: canonicalChunk_def propOf_Some wf_propOf_deep intro!: exact_deep)
  qed
next
  case TextKind
  with cl have "obj_get c ''type'' = Some (JStr ''text-delta'')" "hasExactKeys c [''type'', ''index'', ''text'']"
    by (auto simp: classifyChunk_def Let_def split: if_splits)
  with TextKind wf show ?thesis
    by (auto simp: canonicalChunk_def propOf_Some wf_propOf_deep intro!: exact_deep)
next
  case ReasoningKind
  with cl have "obj_get c ''type'' = Some (JStr ''reasoning-delta'')" "hasExactKeys c [''type'', ''index'', ''text'']"
    by (auto simp: classifyChunk_def Let_def split: if_splits)
  with ReasoningKind wf show ?thesis
    by (auto simp: canonicalChunk_def propOf_Some wf_propOf_deep intro!: exact_deep)
qed

lemma classify_canonical:
  assumes wf: "wf_json e" and cl: "classify e = Some k"
  shows "isDeepEqualJson e (canonical k e)"
proof -
  note c = classify_Some [OF cl]
  have d: "wf_json (propOf e ''data'')" "wf_json (chunkOf e)"
    using wf by (simp_all add: chunkOf_def propOf_wf)
  have "isDeepEqualJson (chunkOf e) (canonicalChunk k (chunkOf e))"
    by (rule classifyChunk_canonical [OF d(2) c(9,11)])
  then have data: "isDeepEqualJson (propOf e ''data'')
      (JObj [(''turn'', propOf (propOf e ''data'') ''turn''), (''step'', propOf (propOf e ''data'') ''step''),
             (''chunk'', canonicalChunk k (chunkOf e))])"
    using d(1) c(5,6) by (auto simp: chunkOf_def wf_propOf_deep intro!: exact_deep)
  have "is_object e" using c(1) by (cases e) auto
  moreover have "propOf e ''seq'' = JNum (num e ''seq'')" "propOf e ''time'' = JNum (num e ''time'')"
    "propOf e ''type'' = JStr ''assistant/chunk''"
    using c(1,3,4) by (auto simp: num_def propOf_def)
  ultimately show ?thesis
    unfolding canonical_def using wf c(2) data by (auto intro!: exact_deep)
qed

section \<open>A packed run expands to its events\<close>

definition uniformRun :: "delta_kind \<Rightarrow> json list \<Rightarrow> bool" where
  "uniformRun k run \<longleftrightarrow> run \<noteq> [] \<and> (\<forall>e \<in> set run. classify e = Some k)
     \<and> (\<forall>i. Suc i < length run \<longrightarrow> continues (run ! i) (run ! Suc i) k)"

lemma uniformRun_single: "classify e = Some k \<Longrightarrow> uniformRun k [e]"
  by (simp add: uniformRun_def)

lemma uniformRun_snoc:
  assumes "uniformRun k run" "classify e = Some k" "continues (last run) e k"
  shows "uniformRun k (run @ [e])"
proof -
  have "continues ((run @ [e]) ! i) ((run @ [e]) ! Suc i) k" if "Suc i < length (run @ [e])" for i
  proof (cases "Suc i = length run")
    case True
    then have "run ! i = last run" using assms(1)
      by (metis diff_Suc_1 last_conv_nth uniformRun_def)
    with True assms(3) show ?thesis by (simp add: nth_append)
  next
    case False
    with that assms(1) show ?thesis by (simp add: nth_append uniformRun_def)
  qed
  with assms(1,2) show ?thesis by (auto simp: uniformRun_def)
qed

lemma uniform_field:
  assumes "\<And>i. Suc i < length run \<Longrightarrow> f (run ! Suc i) = f (run ! i)" "e \<in> set run"
  shows "f e = f (hd run)"
proof -
  have "i < length run \<Longrightarrow> f (run ! i) = f (hd run)" for i
  proof (induction i)
    case 0
    then show ?case by (cases run) auto
  next
    case (Suc i)
    then show ?case using assms(1) [of i] by simp
  qed
  with assms(2) show ?thesis by (auto simp: in_set_conv_nth)
qed

lemma uniform_seq:
  assumes u: "uniformRun k run" and i: "i < length run"
  shows "num (run ! i) ''seq'' = num (hd run) ''seq'' + of_nat i"
  using i
proof (induction i)
  case 0
  then show ?case by (cases run) auto
next
  case (Suc i)
  then have "continues (run ! i) (run ! Suc i) k" using u by (simp add: uniformRun_def)
  with Suc show ?case by (simp add: continues_def)
qed

lemma gaps_Cons2 [simp]: "gaps (a # b # r) = JNum (num b ''time'' - num a ''time'') # gaps (b # r)"
  by (simp add: gaps_def)

lemma gaps_single [simp]: "gaps [a] = []"
  by (simp add: gaps_def)

lemma length_gaps [simp]: "length (gaps run) = length run - 1"
  by (simp add: gaps_def)

lemma gaps_nth: "Suc i < length run \<Longrightarrow> gaps run ! i = JNum (num (run ! Suc i) ''time'' - num (run ! i) ''time'')"
  by (simp add: gaps_def nth_tl)

lemma checkTimes_gaps:
  "list_all (\<lambda>e. isSafeInteger (num e ''time'')) run \<Longrightarrow> run \<noteq> [] \<Longrightarrow> checkTimes (num (hd run) ''time'') (gaps run) = Inr ()"
proof (induction run)
  case (Cons a run)
  then show ?case by (cases run) auto
qed simp

lemma gaps_safe:
  assumes "uniformRun k run"
  shows "list_all (\<lambda>g. is_safe_integer (Some g)) (gaps run)"
  unfolding list_all_length
proof (intro allI impI)
  fix i
  assume "i < length (gaps run)"
  then have i: "Suc i < length run" by simp
  then have "continues (run ! i) (run ! Suc i) k" using assms by (simp add: uniformRun_def)
  then show "is_safe_integer (Some (gaps run ! i))" by (simp add: gaps_nth [OF i] continues_def)
qed

lemma expandLoop_run:
  assumes members: "\<And>e. e \<in> set run \<Longrightarrow> expandMember tag data (num e ''seq'') (num e ''time'') (pay e) = canonical k e"
    and u: "uniformRun k run" and j: "j \<le> length run"
    and time: "time = num (run ! (j - 1)) ''time''"
  shows "expandLoop tag data (num (hd run) ''seq'') (gaps run) j time (map pay (drop j run)) = map (canonical k) (drop j run)"
  using j time
proof (induction "length run - j" arbitrary: j time)
  case 0
  then show ?case by simp
next
  case (Suc n)
  then have lt: "j < length run" by simp
  let ?t = "if 0 < j then time + as_num (Some (gaps run ! (j - 1))) else time"
  have t: "?t = num (run ! j) ''time''"
    using Suc.prems lt by (cases j) (simp_all add: gaps_nth)
  have "expandLoop tag data (num (hd run) ''seq'') (gaps run) (Suc j) ?t (map pay (drop (Suc j) run))
      = map (canonical k) (drop (Suc j) run)"
    using Suc.hyps(2) lt t by (intro Suc.hyps(1)) auto
  moreover have "expandMember tag data (num (hd run) ''seq'' + of_nat j) ?t (pay (run ! j)) = canonical k (run ! j)"
    using members [of "run ! j"] uniform_seq [OF u lt] t lt by simp
  moreover have "drop j run = run ! j # drop (Suc j) run" using lt by (simp add: Cons_nth_drop_Suc)
  ultimately show ?case by (simp add: Let_def)
qed

definition tagOf :: "delta_kind \<Rightarrow> string" where
  "tagOf k = (case k of TextKind \<Rightarrow> ''text-chunks'' | ReasoningKind \<Rightarrow> ''reasoning-chunks'' | ToolCallKind \<Rightarrow> ''tool-call-chunks'')"

definition payKey :: "delta_kind \<Rightarrow> string" where
  "payKey k = (if k = ToolCallKind then ''argumentsDelta'' else ''text'')"

definition payOf :: "delta_kind \<Rightarrow> json \<Rightarrow> json" where
  "payOf k e = propOf (chunkOf e) (payKey k)"

definition rowData :: "delta_kind \<Rightarrow> json list \<Rightarrow> (string \<times> json) list" where
  "rowData k run =
     (if k = ToolCallKind then
        runBase run @ [(''id'', propOf (chunkOf (hd run)) ''id'')] @ nameProp (chunkOf (hd run))
          @ [(''args'', JArr (map (payOf k) run))]
      else runBase run @ [(''texts'', JArr (map (payOf k) run))])"

lemma buildRow_row: "buildRow k run = rowJson (tagOf k) run (rowData k run)"
  by (cases k) (simp_all add: buildRow_def tagOf_def rowData_def payOf_def [abs_def] payKey_def)

lemma uniform_same:
  assumes u: "uniformRun k run" and e: "e \<in> set run"
  shows "propOf (propOf e ''data'') ''turn'' = propOf (propOf (hd run) ''data'') ''turn''"
    and "propOf (propOf e ''data'') ''step'' = propOf (propOf (hd run) ''data'') ''step''"
    and "propOf (chunkOf e) ''index'' = propOf (chunkOf (hd run)) ''index''"
    and "k = ToolCallKind \<Longrightarrow> propOf (chunkOf e) ''id'' = propOf (chunkOf (hd run)) ''id''"
    and "k = ToolCallKind \<Longrightarrow> nameProp (chunkOf e) = nameProp (chunkOf (hd run))"
proof -
  have c: "continues (run ! i) (run ! Suc i) k" if "Suc i < length run" for i
    using u that by (simp add: uniformRun_def)
  note field = uniform_field [OF _ e]
  show "propOf (propOf e ''data'') ''turn'' = propOf (propOf (hd run) ''data'') ''turn''"
    by (rule field [where f = "\<lambda>e. propOf (propOf e ''data'') ''turn''"]) (use c in \<open>simp add: continues_def propOf_def\<close>)
  show "propOf (propOf e ''data'') ''step'' = propOf (propOf (hd run) ''data'') ''step''"
    by (rule field [where f = "\<lambda>e. propOf (propOf e ''data'') ''step''"]) (use c in \<open>simp add: continues_def propOf_def\<close>)
  show "propOf (chunkOf e) ''index'' = propOf (chunkOf (hd run)) ''index''"
    by (rule field [where f = "\<lambda>e. propOf (chunkOf e) ''index''"]) (use c in \<open>simp add: continues_def propOf_def\<close>)
  show "propOf (chunkOf e) ''id'' = propOf (chunkOf (hd run)) ''id''" if "k = ToolCallKind"
    by (rule field [where f = "\<lambda>e. propOf (chunkOf e) ''id''"]) (use c that in \<open>simp add: continues_def propOf_def\<close>)
  show "nameProp (chunkOf e) = nameProp (chunkOf (hd run))" if "k = ToolCallKind"
    by (rule field [where f = "\<lambda>e. nameProp (chunkOf e)"])
      (use c that in \<open>simp add: continues_def nameProp_def propOf_def\<close>)
qed

lemma rowData_get:
  "propOf (JObj (rowData k run)) ''turn'' = propOf (propOf (hd run) ''data'') ''turn''"
  "propOf (JObj (rowData k run)) ''step'' = propOf (propOf (hd run) ''data'') ''step''"
  "propOf (JObj (rowData k run)) ''index'' = propOf (chunkOf (hd run)) ''index''"
  "obj_get (JObj (rowData k run)) ''turn'' = Some (propOf (propOf (hd run) ''data'') ''turn'')"
  "obj_get (JObj (rowData k run)) ''step'' = Some (propOf (propOf (hd run) ''data'') ''step'')"
  "obj_get (JObj (rowData k run)) ''index'' = Some (propOf (chunkOf (hd run)) ''index'')"
  "obj_get (JObj (rowData k run)) ''dt'' = Some (JArr (gaps run))"
  "k \<noteq> ToolCallKind \<Longrightarrow> obj_get (JObj (rowData k run)) ''texts'' = Some (JArr (map (payOf k) run))"
  "k = ToolCallKind \<Longrightarrow> obj_get (JObj (rowData k run)) ''args'' = Some (JArr (map (payOf k) run))"
  "k = ToolCallKind \<Longrightarrow> obj_get (JObj (rowData k run)) ''id'' = Some (propOf (chunkOf (hd run)) ''id'')"
  "k = ToolCallKind \<Longrightarrow> obj_get (JObj (rowData k run)) ''name'' = obj_get (chunkOf (hd run)) ''name''"
  "k = ToolCallKind \<Longrightarrow> propOf (JObj (rowData k run)) ''id'' = propOf (chunkOf (hd run)) ''id''"
  by (auto simp: rowData_def runBase_def Let_def propOf_def nameProp_def hasOwn_get split: option.split)

lemma nameProp_row: "k = ToolCallKind \<Longrightarrow> nameProp (JObj (rowData k run)) = nameProp (chunkOf (hd run))"
  by (simp only: nameProp_get rowData_get)

lemma expandMember_run:
  assumes u: "uniformRun k run" and e: "e \<in> set run"
  shows "expandMember (tagOf k) (JObj (rowData k run)) (num e ''seq'') (num e ''time'') (payOf k e) = canonical k e"
proof -
  note same = uniform_same [OF u e]
  have "expandChunk (tagOf k) (JObj (rowData k run)) (payOf k e) = canonicalChunk k (chunkOf e)"
    using same nameProp_row [of k run]
    by (cases k) (auto simp: expandChunk_def canonicalChunk_def tagOf_def payOf_def payKey_def rowData_get)
  then show ?thesis
    by (simp add: expandMember_def canonical_def rowData_get same)
qed

lemma uniform_first:
  assumes u: "uniformRun k run"
  shows "\<exists>x. propOf (hd run) ''seq'' = JNum x \<and> num (hd run) ''seq'' = x \<and> isSafeInteger x \<and> 0 \<le> x"
    and "\<exists>x. propOf (hd run) ''time'' = JNum x \<and> num (hd run) ''time'' = x \<and> isSafeInteger x"
    and "\<exists>x. propOf (propOf (hd run) ''data'') ''turn'' = JNum x" "\<exists>x. propOf (propOf (hd run) ''data'') ''step'' = JNum x"
    and "\<exists>x. propOf (chunkOf (hd run)) ''index'' = JNum x"
proof -
  have "hd run \<in> set run" "classify (hd run) = Some k" using u by (auto simp: uniformRun_def)
  note c = classify_Some [OF this(2)]
  from c(3,4,7,8,10) show "\<exists>x. propOf (hd run) ''seq'' = JNum x \<and> num (hd run) ''seq'' = x \<and> isSafeInteger x \<and> 0 \<le> x"
    "\<exists>x. propOf (hd run) ''time'' = JNum x \<and> num (hd run) ''time'' = x \<and> isSafeInteger x"
    "\<exists>x. propOf (propOf (hd run) ''data'') ''turn'' = JNum x" "\<exists>x. propOf (propOf (hd run) ''data'') ''step'' = JNum x"
    "\<exists>x. propOf (chunkOf (hd run)) ''index'' = JNum x"
    by (auto simp: propOf_def num_def)
qed

lemma payOf_string:
  assumes "classify e = Some k"
  shows "is_string (Some (payOf k e))"
  using classify_Some(11) [OF assms]
  by (auto simp: classifyChunk_def Let_def payOf_def payKey_def propOf_def is_string_iff split: if_splits)

lemma call_strings:
  assumes "classify e = Some ToolCallKind"
  shows "is_string (Some (propOf (chunkOf e) ''id''))"
    and "obj_get (chunkOf e) ''name'' = None \<or> is_string (obj_get (chunkOf e) ''name'')"
  using classify_Some(11) [OF assms] exact_None [of "chunkOf e" _ "''name''"]
  by (auto simp: classifyChunk_def Let_def propOf_def is_string_iff split: if_splits)

lemma rowData_keys:
  "k \<noteq> ToolCallKind \<Longrightarrow> hasExactKeys (JObj (rowData k run)) [''turn'', ''step'', ''index'', ''dt'', ''texts'']"
  "k = ToolCallKind \<Longrightarrow> obj_get (chunkOf (hd run)) ''name'' = None \<Longrightarrow>
     hasExactKeys (JObj (rowData k run)) [''turn'', ''step'', ''index'', ''id'', ''dt'', ''args'']"
  "k = ToolCallKind \<Longrightarrow> obj_get (chunkOf (hd run)) ''name'' = Some w \<Longrightarrow>
     hasExactKeys (JObj (rowData k run)) [''turn'', ''step'', ''index'', ''id'', ''name'', ''dt'', ''args'']"
  "k = ToolCallKind \<Longrightarrow> obj_get (chunkOf (hd run)) ''name'' = None \<Longrightarrow>
     \<not> hasExactKeys (JObj (rowData k run)) [''turn'', ''step'', ''index'', ''id'', ''name'', ''dt'', ''args'']"
  by (auto simp: rowData_def runBase_def Let_def hasExactKeys_def hasOwn_def nameProp_get)

lemma rowJson_get:
  "obj_get (rowJson tag run d) ''type'' = Some (JStr tag)"
  "obj_get (rowJson tag run d) ''seq0'' = Some (propOf (hd run) ''seq'')"
  "obj_get (rowJson tag run d) ''time0'' = Some (propOf (hd run) ''time'')"
  "propOf (rowJson tag run d) ''data'' = JObj d"
  "hasExactKeys (rowJson tag run d) [''type'', ''seq0'', ''time0'', ''data'']"
  by (simp_all add: rowJson_def propOf_def hasExactKeys_def hasOwn_def)

lemma validateRunData_row:
  assumes u: "uniformRun k run"
  shows "validateRunData (JObj (rowData k run)) (if k = ToolCallKind then ''args'' else ''texts'') = Inr (map (payOf k) run)"
proof -
  let ?key = "if k = ToolCallKind then ''args'' else ''texts''"
  have pay: "obj_get (JObj (rowData k run)) ?key = Some (JArr (map (payOf k) run))"
    using rowData_get(8,9) by (cases k) auto
  have "list_all (\<lambda>p. is_string (Some p)) (map (payOf k) run)"
    using u payOf_string by (auto simp: list_all_iff uniformRun_def)
  moreover have "run \<noteq> []" using u by (simp add: uniformRun_def)
  moreover note gaps_safe [OF u] uniform_first [OF u]
  moreover have "propOf (JObj (rowData k run)) ?key = JArr (map (payOf k) run)"
    "propOf (JObj (rowData k run)) ''dt'' = JArr (gaps run)"
    using pay rowData_get(7) by (simp_all only: propOf_Some)
  ultimately show ?thesis
    unfolding validateRunData_def pay rowData_get(4-7) Let_def by auto
qed

lemma rowPayload_row:
  assumes u: "uniformRun k run"
  shows "rowPayload (JObj (rowData k run)) (tagOf k) = Inr (map (payOf k) run)"
proof (cases "k = ToolCallKind")
  case True
  have "classify (hd run) = Some ToolCallKind" using u True by (auto simp: uniformRun_def)
  note str = call_strings [OF this]
  show ?thesis
    using validateRunData_row [OF u] rowData_keys(2-4) [OF True, of run] str True
      rowData_get(10,11) [OF True, of run]
    by (cases "obj_get (chunkOf (hd run)) ''name''")
      (simp_all add: rowPayload_def tagOf_def Let_def del: obj_get.simps)
next
  case False
  with validateRunData_row [OF u] rowData_keys(1) [OF False] show ?thesis
    by (cases k) (simp_all add: rowPayload_def tagOf_def)
qed

lemma uniform_last_seq:
  assumes "uniformRun k run"
  shows "isSafeInteger (num (hd run) ''seq'' + of_nat (length run) - 1)"
proof -
  have ne: "run \<noteq> []" and "classify (last run) = Some k" using assms by (auto simp: uniformRun_def)
  then have "isSafeInteger (num (last run) ''seq'')" using classify_Some(3) by (fastforce simp: num_def)
  moreover have "num (last run) ''seq'' = num (hd run) ''seq'' + of_nat (length run - 1)"
    using uniform_seq [OF assms, of "length run - 1"] ne by (simp add: last_conv_nth)
  ultimately show ?thesis using ne by (simp add: of_nat_diff Suc_le_eq add_diff_eq)
qed

lemma validateRow_row:
  assumes u: "uniformRun k run"
  shows "validateRow (rowJson (tagOf k) run (rowData k run)) (tagOf k) = Inr (rowJson (tagOf k) run (rowData k run))"
proof -
  let ?row = "rowJson (tagOf k) run (rowData k run)"
  have ne: "run \<noteq> []" and cl: "classify (hd run) = Some k" using u by (auto simp: uniformRun_def)
  from uniform_first(1,2) [OF u] obtain x y where xy: "propOf (hd run) ''seq'' = JNum x" "num (hd run) ''seq'' = x"
      "isSafeInteger x" "0 \<le> x" "propOf (hd run) ''time'' = JNum y" "num (hd run) ''time'' = y" "isSafeInteger y"
    by blast
  have nums: "num ?row ''seq0'' = x" "num ?row ''time0'' = y"
    unfolding num_def rowJson_get by (simp_all add: xy)
  have times: "checkTimes y (gaps run) = Inr ()"
    using checkTimes_gaps [of run] u xy classify_Some(4)
    by (fastforce simp: list_all_iff uniformRun_def num_def)
  have dt: "array_of (propOf (JObj (rowData k run)) ''dt'') = gaps run"
    using propOf_Some [OF rowData_get(7)] by simp
  show ?thesis
    unfolding validateRow_def rowJson_get Let_def rowPayload_row [OF u] nums dt
    using xy times uniform_last_seq [OF u] by (simp add: rowJson_get(5))
qed

lemma decode_row:
  assumes u: "uniformRun k run"
  shows "decodeStorageRecord (buildRow k run) = Inr (map (canonical k) run)"
proof -
  let ?row = "rowJson (tagOf k) run (rowData k run)"
  have pay: "propOf (JObj (rowData k run)) (if tagOf k = ''tool-call-chunks'' then ''args'' else ''texts'')
      = JArr (map (payOf k) run)"
    by (cases k) (simp_all add: tagOf_def propOf_Some [OF rowData_get(8)] propOf_Some [OF rowData_get(9)])
  have nums: "num ?row ''seq0'' = num (hd run) ''seq''" "num ?row ''time0'' = num (hd run) ''time''"
    unfolding num_def rowJson_get using uniform_first(1,2) [OF u] by (auto simp: num_def)
  have "run \<noteq> []" using u by (simp add: uniformRun_def)
  then have "num (hd run) ''time'' = num (run ! (0 - 1)) ''time''" by (simp add: hd_conv_nth)
  from expandLoop_run [OF expandMember_run [OF u] u le0 this]
  have "expandRow ?row (tagOf k) = map (canonical k) run"
    by (simp add: expandRow_def rowJson_get pay nums propOf_Some [OF rowData_get(7)])
  moreover have "tagOf k \<in> set rowTags" by (cases k) (simp_all add: tagOf_def rowTags_def)
  ultimately show ?thesis
    unfolding buildRow_row decodeStorageRecord_def rowJson_get
    by (simp add: validateRow_row [OF u])
qed

section \<open>The round trip\<close>

definition rowTagged :: "json \<Rightarrow> bool" where
  "rowTagged v \<longleftrightarrow> (\<exists>tag \<in> set rowTags. obj_get v ''type'' = Some (JStr tag))"

lemma decode_verbatim: "\<not> rowTagged v \<Longrightarrow> decodeStorageRecord v = Inr [v]"
  by (auto simp: decodeStorageRecord_def rowTagged_def split: option.split json.split)

definition decodesTo :: "json list \<Rightarrow> json list \<Rightarrow> bool" where
  "decodesTo records events \<longleftrightarrow>
     (\<exists>dss. mapE decodeStorageRecord records = Inr dss \<and> list_all2 isDeepEqualJson events (concat dss))"

lemma decodesTo_Nil: "decodesTo [] []"
  by (simp add: decodesTo_def)

lemma decodesTo_Cons:
  assumes "decodeStorageRecord r = Inr ds" "list_all2 isDeepEqualJson es ds" "decodesTo rs es'"
  shows "decodesTo (r # rs) (es @ es')"
proof -
  from assms(3) obtain dss where "mapE decodeStorageRecord rs = Inr dss" "list_all2 isDeepEqualJson es' (concat dss)"
    by (auto simp: decodesTo_def)
  with assms(1,2) show ?thesis
    by (auto simp: decodesTo_def intro!: list_all2_appendI)
qed

definition plainEvent :: "json \<Rightarrow> bool" where
  "plainEvent v \<longleftrightarrow> wf_json v \<and> \<not> rowTagged v"

lemma decodesTo_verbatim:
  "plainEvent v \<Longrightarrow> decodesTo rs es \<Longrightarrow> decodesTo (v # rs) (v # es)"
  using decodesTo_Cons [of v "[v]" "[v]"] by (simp add: plainEvent_def decode_verbatim isDeepEqualJson_refl)

lemma decodesTo_verbatims: "\<forall>v \<in> set vs. plainEvent v \<Longrightarrow> decodesTo rs es \<Longrightarrow> decodesTo (vs @ rs) (vs @ es)"
  by (induction vs) (auto intro: decodesTo_verbatim)

lemma decodesTo_flush:
  assumes "kind = None \<and> run = [] \<or> (\<exists>k. kind = Some k \<and> uniformRun k run)"
    and "\<forall>v \<in> set run. plainEvent v" "decodesTo rs es"
  shows "decodesTo (flush kind run @ rs) (run @ es)"
proof (cases "\<exists>k. kind = Some k \<and> MIN_RUN \<le> length run")
  case True
  with assms(1) obtain k where k: "kind = Some k" "uniformRun k run" by (auto simp: MIN_RUN_def)
  then have "list_all2 isDeepEqualJson run (map (canonical k) run)"
    using assms(2) classify_canonical
    by (auto simp: list_all2_conv_all_nth uniformRun_def plainEvent_def)
  from decodesTo_Cons [OF decode_row [OF k(2)] this assms(3)] True k(1)
  show ?thesis by (simp add: flush_def)
next
  case False
  then have "flush kind run = run" by (auto simp: flush_def split: option.split)
  with decodesTo_verbatims [OF assms(2,3)] show ?thesis by simp
qed

lemma packLoop_decodes:
  assumes "kind = None \<and> run = [] \<or> (\<exists>k. kind = Some k \<and> uniformRun k run)"
    and "\<forall>v \<in> set run \<union> set events. plainEvent v"
  shows "decodesTo (packLoop kind run events) (run @ events)"
  using assms
proof (induction kind run events rule: packLoop.induct)
  case (1 kind run)
  then show ?case using decodesTo_flush [of kind run "[]" "[]"] by (simp add: decodesTo_Nil)
next
  case (2 kind run event rest)
  show ?case
  proof (cases "classify event")
    case None
    then have "decodesTo (packLoop None [] rest) rest" using 2 by simp
    with 2 None show ?thesis by (simp add: decodesTo_flush decodesTo_verbatim)
  next
    case (Some k)
    show ?thesis
    proof (cases "kind = Some k \<and> run \<noteq> [] \<and> continues (last run) event k")
      case True
      with 2(4) Some have "uniformRun k (run @ [event])" by (auto intro: uniformRun_snoc)
      with 2 Some True show ?thesis by simp
    next
      case False
      have "decodesTo (packLoop (Some k) [event] rest) (event # rest)"
        using 2 Some False uniformRun_single [OF Some] by simp
      moreover have "packLoop kind run (event # rest) = flush kind run @ packLoop (Some k) [event] rest"
        using Some False by auto
      ultimately show ?thesis using 2(4,5) by (simp add: decodesTo_flush)
    qed
  qed
qed

text \<open>C19.
  Packing never loses or alters an event: decoding the packed records, one by one, succeeds and gives back
  the original events in order, each equal as JSON (objects compared by their properties). The events only
  need to be JSON objects without repeated keys, and none may carry a row tag as its type.
\<close>

theorem pack_roundtrip:
  assumes "\<forall>v \<in> set events. wf_json v \<and> obj_get v ''type'' \<notin> Some ` JStr ` set rowTags"
  shows "\<exists>dss. mapE decodeStorageRecord (packChunkRuns events) = Inr dss
           \<and> list_all2 isDeepEqualJson events (concat dss)"
proof -
  have "\<forall>v \<in> set [] \<union> set events. plainEvent v" using assms by (auto simp: plainEvent_def rowTagged_def)
  from packLoop_decodes [OF _ this, of None] show ?thesis
    by (simp add: packChunkRuns_def decodesTo_def)
qed

section \<open>What a row may decode to\<close>

lemma uniformRun_Cons:
  "uniformRun k (a # b # r) \<longleftrightarrow> classify a = Some k \<and> continues a b k \<and> uniformRun k (b # r)"
  by (auto simp: uniformRun_def less_Suc_eq_0_disj nth_Cons split: nat.splits)

definition kindOf :: "string \<Rightarrow> delta_kind" where
  "kindOf tag = (if tag = ''tool-call-chunks'' then ToolCallKind else if tag = ''text-chunks'' then TextKind else ReasoningKind)"

definition goodRow :: "string \<Rightarrow> json \<Rightarrow> bool" where
  "goodRow tag data \<longleftrightarrow> is_number (obj_get data ''turn'') \<and> is_number (obj_get data ''step'')
     \<and> is_number (obj_get data ''index'')
     \<and> (tag = ''tool-call-chunks'' \<longrightarrow> is_string (obj_get data ''id'')
          \<and> (obj_get data ''name'' = None \<or> is_string (obj_get data ''name'')))"

lemma expandMember_get:
  "obj_get (expandMember tag data x t p) ''type'' = Some (JStr ''assistant/chunk'')"
  "obj_get (expandMember tag data x t p) ''seq'' = Some (JNum x)"
  "obj_get (expandMember tag data x t p) ''time'' = Some (JNum t)"
  "num (expandMember tag data x t p) ''seq'' = x"
  "num (expandMember tag data x t p) ''time'' = t"
  "propOf (expandMember tag data x t p) ''data'' =
     JObj [(''turn'', propOf data ''turn''), (''step'', propOf data ''step''), (''chunk'', expandChunk tag data p)]"
  "chunkOf (expandMember tag data x t p) = expandChunk tag data p"
  "hasExactKeys (expandMember tag data x t p) [''type'', ''seq'', ''time'', ''data'']"
  by (simp_all add: expandMember_def num_def propOf_def chunkOf_def hasExactKeys_def hasOwn_def)

lemma expandChunk_classify:
  assumes "goodRow tag data" "is_string (Some p)" "tag \<in> set rowTags"
  shows "classifyChunk (expandChunk tag data p) = Some (kindOf tag)"
  using assms
  by (auto simp: goodRow_def rowTags_def kindOf_def expandChunk_def classifyChunk_def Let_def nameProp_get
      hasExactKeys_def hasOwn_def propOf_def is_string_iff)

lemma expandMember_classify:
  assumes g: "goodRow tag data" and p: "is_string (Some p)" and t: "tag \<in> set rowTags"
    and x: "isSafeInteger x" "0 \<le> x" and y: "isSafeInteger y"
  shows "classify (expandMember tag data x y p) = Some (kindOf tag)"
proof -
  have "is_object (expandChunk tag data p)" "is_number (obj_get (expandChunk tag data p) ''index'')"
    using g by (auto simp: goodRow_def expandChunk_def propOf_def is_number_iff)
  moreover have "is_number (Some (propOf data ''turn''))" "is_number (Some (propOf data ''step''))"
    using g by (auto simp: goodRow_def propOf_def is_number_iff)
  ultimately show ?thesis
    unfolding classify_def Let_def expandMember_get
    using expandMember_get(8) expandChunk_classify [OF g p t] x y
    by (simp add: propOf_def hasExactKeys_def hasOwn_def)
qed

lemma expandMember_continues:
  "isSafeInteger (y' - y) \<Longrightarrow> continues (expandMember tag data x y p) (expandMember tag data (x + 1) y' p') (kindOf tag)"
  unfolding continues_def expandMember_get
  by (auto simp: expandChunk_def kindOf_def hasOwn_def propOf_def nameProp_get split: option.split)

lemma expandLoop_uniform:
  assumes g: "goodRow tag data" "tag \<in> set rowTags" and x0: "0 \<le> seq0" "isInteger seq0"
    and "length ms = length dt - k" "k \<le> length dt" "list_all (\<lambda>p. is_string (Some p)) ms" "is_string (Some p)"
    and "list_all (\<lambda>v. is_safe_integer (Some v)) dt" "checkTimes t (drop k dt) = Inr ()" "isSafeInteger t"
    and "seq0 + of_nat (k + length ms) \<le> of_int maxSafe"
  shows "uniformRun (kindOf tag) (expandMember tag data (seq0 + of_nat k) t p # expandLoop tag data seq0 dt (Suc k) t ms)"
  using assms(5-)
proof (induction ms arbitrary: k t p)
  case Nil
  have "isSafeInteger (seq0 + of_nat k)"
    using Nil x0 isInteger_add [OF x0(2) isInteger_of_int [of "int k"]] by (simp add: isSafeInteger_def)
  with Nil x0 g show ?case by (auto intro!: uniformRun_single expandMember_classify)
next
  case (Cons p' ms)
  then have k: "k < length dt" by simp
  then obtain gap where gap: "drop k dt = JNum gap # drop (Suc k) dt" "dt ! k = JNum gap" "isSafeInteger gap"
    using Cons.prems by (metis Cons_nth_drop_Suc is_safe_integer_iff list_all_length option.inject)
  have s: "isSafeInteger (seq0 + of_nat k)"
    using Cons.prems x0 isInteger_add [OF x0(2) isInteger_of_int [of "int k"]] by (simp add: isSafeInteger_def)
  have t': "isSafeInteger (t + gap)" "checkTimes (t + gap) (drop (Suc k) dt) = Inr ()"
    using Cons.prems gap by (auto simp: Let_def split: if_splits)
  have "uniformRun (kindOf tag) (expandMember tag data (seq0 + of_nat (Suc k)) (t + gap) p'
      # expandLoop tag data seq0 dt (Suc (Suc k)) (t + gap) ms)"
    using Cons.prems k t' by (intro Cons.IH) auto
  moreover have "continues (expandMember tag data (seq0 + of_nat k) t p)
      (expandMember tag data (seq0 + of_nat (Suc k)) (t + gap) p') (kindOf tag)"
    using expandMember_continues [of "t + gap" t tag data "seq0 + of_nat k"] gap(3) by (simp add: ac_simps)
  moreover have "classify (expandMember tag data (seq0 + of_nat k) t p) = Some (kindOf tag)"
    using Cons.prems s x0 by (intro expandMember_classify g) auto
  ultimately show ?case by (simp add: Let_def gap uniformRun_Cons)
qed

lemma validateRunData_Inr:
  assumes "validateRunData data key = Inr payload"
  shows "is_number (obj_get data ''turn'')" "is_number (obj_get data ''step'')" "is_number (obj_get data ''index'')"
    and "payload = array_of (propOf data key)" "payload \<noteq> []" "list_all (\<lambda>p. is_string (Some p)) payload"
    and "list_all (\<lambda>g. is_safe_integer (Some g)) (array_of (propOf data ''dt''))"
    and "length (array_of (propOf data ''dt'')) = length payload - 1"
  using assms by (auto simp: validateRunData_def Let_def split: if_splits)

lemma rowPayload_Inr:
  assumes "rowPayload data tag = Inr payload"
  shows "validateRunData data (if tag = ''tool-call-chunks'' then ''args'' else ''texts'') = Inr payload"
    and "goodRow tag data"
proof -
  show v: "validateRunData data (if tag = ''tool-call-chunks'' then ''args'' else ''texts'') = Inr payload"
    using assms by (auto simp: rowPayload_def Let_def split: if_splits)
  have "obj_get data ''name'' = None \<or> is_string (obj_get data ''name'')" if "tag = ''tool-call-chunks''"
  proof (cases "hasExactKeys data [''turn'', ''step'', ''index'', ''id'', ''name'', ''dt'', ''args'']")
    case True
    with assms that show ?thesis by (auto simp: rowPayload_def Let_def split: if_splits)
  next
    case False
    with assms that have "hasExactKeys data [''turn'', ''step'', ''index'', ''id'', ''dt'', ''args'']"
      by (auto simp: rowPayload_def Let_def split: if_splits)
    then show ?thesis using exact_None by fastforce
  qed
  moreover have "is_string (obj_get data ''id'')" if "tag = ''tool-call-chunks''"
    using assms that by (auto simp: rowPayload_def Let_def split: if_splits)
  ultimately show "goodRow tag data"
    using validateRunData_Inr(1-3) [OF v] by (simp add: goodRow_def)
qed

lemma expandRow_uniform:
  assumes v: "validateRow value tag = Inr row" and t: "tag \<in> set rowTags"
  shows "uniformRun (kindOf tag) (expandRow row tag)"
proof -
  let ?data = "propOf value ''data''"
  from v obtain payload where p: "rowPayload ?data tag = Inr payload" "row = value"
    and seq: "is_safe_integer (obj_get value ''seq0'')" "0 \<le> num value ''seq0''"
      "isSafeInteger (num value ''seq0'' + of_nat (length payload) - 1)"
    and time: "is_safe_integer (obj_get value ''time0'')"
      "checkTimes (num value ''time0'') (array_of (propOf ?data ''dt'')) = Inr ()"
    by (auto simp: validateRow_def Let_def result_simps not_less split: if_splits)
  note pl = rowPayload_Inr [OF p(1)]
  note d = validateRunData_Inr [OF pl(1)]
  from d(5) obtain m ms where ms: "payload = m # ms" by (cases payload) auto
  have "uniformRun (kindOf tag) (expandMember tag ?data (num value ''seq0'' + of_nat 0) (num value ''time0'') m
      # expandLoop tag ?data (num value ''seq0'') (array_of (propOf ?data ''dt'')) (Suc 0) (num value ''time0'') ms)"
    using d(6-8) seq time ms
    by (intro expandLoop_uniform pl t) (auto simp: num_def is_safe_integer_iff isSafeInteger_def)
  moreover have "array_of (propOf ?data (if tag = ''tool-call-chunks'' then ''args'' else ''texts'')) = m # ms"
    using d(4) ms by simp
  ultimately show ?thesis
    by (simp add: expandRow_def p(2) Let_def)
qed

lemma canonical_member:
  assumes "tag \<in> set rowTags"
  shows "canonical (kindOf tag) (expandMember tag data x t p) = expandMember tag data x t p"
proof -
  have "canonicalChunk (kindOf tag) (expandChunk tag data p) = expandChunk tag data p"
    using assms
    by (auto simp: rowTags_def canonicalChunk_def kindOf_def expandChunk_def propOf_def nameProp_get split: option.split)
  then show ?thesis
    unfolding canonical_def expandMember_get by (simp add: expandMember_def propOf_def)
qed

lemma canonical_expand:
  "tag \<in> set rowTags \<Longrightarrow> map (canonical (kindOf tag)) (expandLoop tag data seq0 dt k t ms) = expandLoop tag data seq0 dt k t ms"
  by (induction ms arbitrary: k t) (simp_all add: canonical_member Let_def)

lemma packLoop_uniform:
  "uniformRun k (run @ rest) \<Longrightarrow> run \<noteq> [] \<Longrightarrow> packLoop (Some k) run rest = flush (Some k) (run @ rest)"
proof (induction rest arbitrary: run)
  case Nil
  then show ?case by simp
next
  case (Cons e rest)
  let ?all = "run @ e # rest"
  have i: "Suc (length run - 1) = length run" using Cons.prems(2) by (cases run) auto
  then have "Suc (length run - 1) < length ?all" by simp
  then have "continues (?all ! (length run - 1)) (?all ! Suc (length run - 1)) k"
    using Cons.prems(1) unfolding uniformRun_def by blast
  moreover have "?all ! (length run - 1) = last run"
    using Cons.prems(2) i by (simp add: nth_append last_conv_nth)
  moreover have "?all ! Suc (length run - 1) = e" by (simp only: i nth_append_length)
  ultimately have "continues (last run) e k" by simp
  with Cons show ?case by (simp add: uniformRun_def)
qed

lemma pack_uniform:
  assumes "uniformRun k run"
  shows "packChunkRuns run = flush (Some k) run"
proof -
  obtain e rest where "run = e # rest" "classify e = Some k" using assms by (cases run) (auto simp: uniformRun_def)
  with packLoop_uniform [of k "[e]" rest] assms show ?thesis
    by (simp add: packChunkRuns_def flush_def [of None])
qed


definition sampleDelta :: "int \<Rightarrow> string \<Rightarrow> json" where
  "sampleDelta n txt =
     JObj [(''seq'', JNum (of_int n)), (''type'', JStr ''assistant/chunk''), (''time'', JNum (of_int (10 * n))),
           (''data'', JObj [(''turn'', JNum 1), (''step'', JNum 1),
              (''chunk'', JObj [(''type'', JStr ''text-delta''), (''index'', JNum 0), (''text'', JStr txt)])])]"

theorem pack_roundtrip_witness:
  "\<exists>dss. mapE decodeStorageRecord (packChunkRuns [sampleDelta 4 ''a'', sampleDelta 5 ''b'', sampleDelta 6 ''c'']) = Inr dss
     \<and> list_all2 isDeepEqualJson [sampleDelta 4 ''a'', sampleDelta 5 ''b'', sampleDelta 6 ''c''] (concat dss)"
  by (rule pack_roundtrip) (auto simp: sampleDelta_def rowTags_def)

definition sampleRow :: json where
  "sampleRow =
     JObj [(''type'', JStr ''text-chunks''), (''seq0'', JNum 4), (''time0'', JNum 40),
           (''data'', JObj [(''turn'', JNum 1), (''step'', JNum 1), (''index'', JNum 0),
              (''dt'', JArr [JNum 10, JNum (- 3)]), (''texts'', JArr [JStr ''a'', JStr ''b'', JStr ''c''])])]"


end
