(* ===== verification/Tool_Scheduler.thy ===== *)
theory Tool_Scheduler
  imports Session_Trace
begin

text \<open>
  The scheduler of one assistant step's tool calls: \<open>core/agent-loop/src/tool-calls.ts\<close>.

  Exclusive calls form barriers; parallel calls run in a bounded rolling pool; results commit in model
  order. The code is one asynchronous activity (\<open>executeToolCalls\<close> with \<open>runGroup\<close>, \<open>fillPool\<close>,
  \<open>startCall\<close> and \<open>commitReady\<close>) interleaved with the tool bodies it dispatched and with anyone who appends
  to the session or aborts. It is modelled as a step relation: one rule per stretch between two awaits,
  \<open>sc_pc\<close> naming the await or loop head, and one rule each for a body that settles, an abort, and a foreign
  append. The tool runtime (\<open>prepare\<close>, \<open>dispatch\<close>, \<open>finalize\<close>, \<open>finish\<close>, \<open>executionMode\<close>) is another
  package: every answer it may give is a rule instance, every call that may throw has a throwing rule.

  The abstract specification is the \<open>ledger\<close>: calls are logged in model order, results in model order, each
  after its call and citing it, with any foreign events between. The scheduler refines it at every step.
\<close>

section \<open>Calls and results\<close>

record tool_call =
  tl_id :: call_id
  tl_name :: string
  tl_arguments :: string

record tool_execution_result =
  er_content :: "content_block list"
  er_isError :: bool
  er_errorInfo :: "(string \<times> string) option"
  er_meta :: "json option"
  er_additionalContexts :: "message list"
  er_concludesTurn :: bool

record slot =
  sl_result :: tool_execution_result
  sl_needsPost :: bool

definition toolCallData :: "int \<Rightarrow> int \<Rightarrow> tool_call \<Rightarrow> event_data" where
  "toolCallData turn step block = ToolCall turn step (tl_id block) (tl_name block) (tl_arguments block)"

definition toolResultData :: "int \<Rightarrow> int \<Rightarrow> tool_call \<Rightarrow> message_id \<Rightarrow> tool_execution_result \<Rightarrow> event_data" where
  "toolResultData turn step block mid result =
     ToolResult turn step
       \<lparr>tr_id = mid, tr_callId = tl_id block, tr_toolCallId = tl_id block,
        tr_content = er_content result, tr_isError = Some (er_isError result)\<rparr>
       (er_errorInfo result) (er_meta result)"

text \<open>\<open>session.append\<close> when it succeeds: the next sequence number, and the surface metadata given.\<close>

definition logged :: "session_event list \<Rightarrow> int \<Rightarrow> event_data \<Rightarrow> int list option \<Rightarrow> session_event" where
  "logged slog now d sources =
     \<lparr>ev_seq = int (length slog), ev_time = now, ev_data = d,
      ev_surfaceOp = (if sources = None then None else Some op_append),
      ev_sourceEventSeqs = map_option seqs_json sources, ev_ignorable = False\<rparr>"

definition callEvent :: "session_event list \<Rightarrow> int \<Rightarrow> int \<Rightarrow> int \<Rightarrow> tool_call \<Rightarrow> session_event" where
  "callEvent slog now turn step block = logged slog now (toolCallData turn step block) None"

definition resultEvent ::
    "session_event list \<Rightarrow> int \<Rightarrow> int \<Rightarrow> int \<Rightarrow> tool_call \<Rightarrow> message_id \<Rightarrow> tool_execution_result \<Rightarrow> int \<Rightarrow> session_event" where
  "resultEvent slog now turn step block mid result callSeq =
     logged slog now (toolResultData turn step block mid result) (Some [callSeq])"

definition skippedResult :: tool_execution_result where
  "skippedResult =
     \<lparr>er_content = [TextBlock ''Error: tool call aborted before dispatch''], er_isError = True,
      er_errorInfo = Some (''AbortError'', ''ABORTED_BEFORE_DISPATCH''), er_meta = None,
      er_additionalContexts = [], er_concludesTurn = False\<rparr>"

text \<open>An event of another producer inside the open step: one the trace monitor lets pass without moving.\<close>

fun foreignData :: "event_data \<Rightarrow> bool" where
  "foreignData (UserMessage _) = True"
| "foreignData (TodoWrite _) = True"
| "foreignData (RequestHeader _ _) = True"
| "foreignData (RequestContext _) = True"
| "foreignData (InboxSpliced _) = True"
| "foreignData (LlmRetry _) = True"
| "foreignData (LlmRetryStarted _ _ _ _) = True"
| "foreignData (PluginEvent _ _) = True"
| "foreignData _ = False"

definition foreignEvent :: "session_event \<Rightarrow> bool" where
  "foreignEvent e \<longleftrightarrow> foreignData (ev_data e)
     \<or> (\<exists>turn step m err meta. ev_data e = ToolResult turn step m err meta) \<and> ev_surfaceOp e \<noteq> Some op_append"

section \<open>The scheduler\<close>

datatype sched_pc =
    Outer
  | Filling
  | Preparing
  | CheckCommit
  | Committing
  | Finalizing
  | Racing
  | Draining
  | SkippingGroup nat
  | SkippingRest nat
  | Returned
  | Failed

record sched =
  sc_log :: "session_event list"
  sc_signal :: bool
  sc_contexts :: "message list"
  sc_pc :: sched_pc
  sc_next :: nat
  sc_concluded :: bool
  sc_size :: nat
  sc_parallel :: bool
  sc_slots :: "slot option list"
  sc_callSeqs :: "int list"
  sc_nextToStart :: nat
  sc_committed :: nat
  sc_started :: nat
  sc_aborted :: bool
  sc_groupConcluded :: bool
  sc_failure :: "string option"
  sc_inFlight :: "nat list"
  sc_running :: "nat list"

text \<open>\<open>schedulerFailure ??= error\<close>, on the way to draining the pool.\<close>

definition noteFailure :: "string \<Rightarrow> sched \<Rightarrow> sched" where
  "noteFailure err s = (if sc_failure s = None then s\<lparr>sc_failure := Some err\<rparr> else s)"

definition failing :: "string \<Rightarrow> sched \<Rightarrow> sched" where
  "failing err s = (noteFailure err s)\<lparr>sc_pc := Draining\<rparr>"

text \<open>The initial state of \<open>runGroup\<close>.\<close>

definition enterGroup :: "nat \<Rightarrow> bool \<Rightarrow> sched \<Rightarrow> sched" where
  "enterGroup n parallel s =
     s\<lparr>sc_pc := Filling, sc_size := n, sc_parallel := parallel,
       sc_slots := replicate n None, sc_callSeqs := replicate n (- 1),
       sc_nextToStart := 0, sc_committed := 0, sc_started := 0, sc_aborted := sc_signal s,
       sc_groupConcluded := False, sc_failure := None, sc_inFlight := [], sc_running := []\<rparr>"

text \<open>Whether \<open>fillPool\<close> may start another call.\<close>

definition canStart :: "nat \<Rightarrow> sched \<Rightarrow> bool" where
  "canStart maxParallel s \<longleftrightarrow> \<not> sc_aborted s \<and> sc_nextToStart s < sc_size s \<and> length (sc_inFlight s) < maxParallel"

definition block_at :: "tool_call list \<Rightarrow> sched \<Rightarrow> nat \<Rightarrow> tool_call" where
  "block_at calls s i = calls ! (sc_next s + i)"

text \<open>The commit of the slot at \<open>committed\<close> with its final result: log, contexts, conclusion.\<close>

definition commitResult ::
    "tool_call list \<Rightarrow> int \<Rightarrow> int \<Rightarrow> int \<Rightarrow> message_id \<Rightarrow> tool_execution_result \<Rightarrow> sched \<Rightarrow> sched" where
  "commitResult calls turn step now mid result s =
     s\<lparr>sc_log := sc_log s @ [resultEvent (sc_log s) now turn step (block_at calls s (sc_committed s)) mid result
                                  (sc_callSeqs s ! sc_committed s)]\<rparr>"

definition afterContexts :: "tool_execution_result \<Rightarrow> sched \<Rightarrow> sched" where
  "afterContexts result s =
     s\<lparr>sc_contexts := sc_contexts s @ er_additionalContexts result,
       sc_groupConcluded := sc_groupConcluded s \<or> er_concludesTurn result,
       sc_committed := sc_committed s + 1, sc_pc := Committing\<rparr>"

definition readySlot :: "sched \<Rightarrow> slot option" where
  "readySlot s = (if sc_committed s < sc_size s then sc_slots s ! sc_committed s else None)"

text \<open>The durable pair of a call skipped after cancellation.\<close>

definition skipCall :: "tool_call list \<Rightarrow> int \<Rightarrow> int \<Rightarrow> int \<Rightarrow> message_id \<Rightarrow> nat \<Rightarrow> session_event list \<Rightarrow> session_event list" where
  "skipCall calls turn step now mid k slog =
     (let c = callEvent slog now turn step (calls ! k); slog' = slog @ [c] in
      slog' @ [resultEvent slog' now turn step (calls ! k) mid skippedResult (ev_seq c)])"

inductive sched_step ::
    "tool_call list \<Rightarrow> int \<Rightarrow> int \<Rightarrow> nat \<Rightarrow> sched \<Rightarrow> sched \<Rightarrow> bool"
  for calls :: "tool_call list" and turn :: int and step :: int and maxParallel :: nat where
  all_done: "\<lbrakk>sc_pc s = Outer; length calls \<le> sc_next s\<rbrakk>
    \<Longrightarrow> sched_step calls turn step maxParallel s (s\<lparr>sc_pc := Returned\<rparr>)"
| group: "\<lbrakk>sc_pc s = Outer; sc_next s < length calls;
     n = (if parallel then length calls - sc_next s else 1)\<rbrakk>
    \<Longrightarrow> sched_step calls turn step maxParallel s (enterGroup n parallel s)"
| pool_full: "\<lbrakk>sc_pc s = Filling; \<not> canStart maxParallel s\<rbrakk>
    \<Longrightarrow> sched_step calls turn step maxParallel s (s\<lparr>sc_pc := Racing\<rparr>)"
| barrier: "\<lbrakk>sc_pc s = Filling; canStart maxParallel s; 0 < sc_nextToStart s; sc_parallel s\<rbrakk>
    \<Longrightarrow> sched_step calls turn step maxParallel s (s\<lparr>sc_pc := Racing\<rparr>)"
| start: "\<lbrakk>sc_pc s = Filling; canStart maxParallel s;
     e = callEvent (sc_log s) now turn step (block_at calls s (sc_nextToStart s))\<rbrakk>
    \<Longrightarrow> sched_step calls turn step maxParallel s
         (s\<lparr>sc_log := sc_log s @ [e], sc_callSeqs := (sc_callSeqs s)[sc_nextToStart s := ev_seq e],
            sc_started := sc_started s + 1, sc_pc := Preparing\<rparr>)"
| start_throws: "\<lbrakk>sc_pc s = Filling; canStart maxParallel s\<rbrakk>
    \<Longrightarrow> sched_step calls turn step maxParallel s (failing err s)"
| prepare_throws: "sc_pc s = Preparing \<Longrightarrow> sched_step calls turn step maxParallel s (failing err s)"
| prepare_late: "\<lbrakk>sc_pc s = Preparing; sc_failure s = Some err\<rbrakk>
    \<Longrightarrow> sched_step calls turn step maxParallel s (s\<lparr>sc_pc := Draining\<rparr>)"
| prepare_dispatch: "\<lbrakk>sc_pc s = Preparing; sc_failure s = None\<rbrakk>
    \<Longrightarrow> sched_step calls turn step maxParallel s
         (s\<lparr>sc_inFlight := sc_inFlight s @ [sc_nextToStart s], sc_running := sc_running s @ [sc_nextToStart s],
            sc_nextToStart := sc_nextToStart s + 1, sc_pc := CheckCommit\<rparr>)"
| prepare_result: "\<lbrakk>sc_pc s = Preparing; sc_failure s = None\<rbrakk>
    \<Longrightarrow> sched_step calls turn step maxParallel s
         (s\<lparr>sc_slots := (sc_slots s)[sc_nextToStart s := Some sl],
            sc_nextToStart := sc_nextToStart s + 1, sc_pc := CheckCommit\<rparr>)"
| check_failed: "\<lbrakk>sc_pc s = CheckCommit; sc_failure s = Some err\<rbrakk>
    \<Longrightarrow> sched_step calls turn step maxParallel s (s\<lparr>sc_pc := Draining\<rparr>)"
| check_ok: "\<lbrakk>sc_pc s = CheckCommit; sc_failure s = None\<rbrakk>
    \<Longrightarrow> sched_step calls turn step maxParallel s (s\<lparr>sc_pc := Committing\<rparr>)"
| commit_stop: "\<lbrakk>sc_pc s = Committing; readySlot s = None; sc_failure s = None\<rbrakk>
    \<Longrightarrow> sched_step calls turn step maxParallel s
         (s\<lparr>sc_aborted := sc_aborted s \<or> sc_signal s, sc_pc := Filling\<rparr>)"
| commit_failed: "\<lbrakk>sc_pc s = Committing; readySlot s = None; sc_failure s = Some err\<rbrakk>
    \<Longrightarrow> sched_step calls turn step maxParallel s (s\<lparr>sc_pc := Draining\<rparr>)"
| finalize: "\<lbrakk>sc_pc s = Committing; readySlot s = Some sl; sl_needsPost sl\<rbrakk>
    \<Longrightarrow> sched_step calls turn step maxParallel s (s\<lparr>sc_pc := Finalizing\<rparr>)"
| commit: "\<lbrakk>sc_pc s = Committing \<and> readySlot s = Some sl \<and> \<not> sl_needsPost sl \<or> sc_pc s = Finalizing\<rbrakk>
    \<Longrightarrow> sched_step calls turn step maxParallel s
         (afterContexts result (commitResult calls turn step now mid result s))"
| commit_throws: "\<lbrakk>sc_pc s = Committing \<and> readySlot s = Some sl \<and> \<not> sl_needsPost sl \<or> sc_pc s = Finalizing\<rbrakk>
    \<Longrightarrow> sched_step calls turn step maxParallel s (failing err s)"
| context_throws: "\<lbrakk>sc_pc s = Committing \<and> readySlot s = Some sl \<and> \<not> sl_needsPost sl \<or> sc_pc s = Finalizing;
     accepted < length (er_additionalContexts result)\<rbrakk>
    \<Longrightarrow> sched_step calls turn step maxParallel s
         (failing err ((commitResult calls turn step now mid result s)
            \<lparr>sc_contexts := sc_contexts s @ take accepted (er_additionalContexts result)\<rparr>))"
| race: "\<lbrakk>sc_pc s = Racing; i \<in> set (sc_inFlight s); i \<notin> set (sc_running s)\<rbrakk>
    \<Longrightarrow> sched_step calls turn step maxParallel s
         (s\<lparr>sc_inFlight := remove1 i (sc_inFlight s), sc_pc := CheckCommit\<rparr>)"
| group_aborted: "\<lbrakk>sc_pc s = Racing; sc_inFlight s = []; sc_aborted s\<rbrakk>
    \<Longrightarrow> sched_step calls turn step maxParallel s (s\<lparr>sc_pc := SkippingGroup (sc_started s)\<rparr>)"
| group_uncommitted: "\<lbrakk>sc_pc s = Racing; sc_inFlight s = []; \<not> sc_aborted s; sc_committed s \<noteq> sc_started s\<rbrakk>
    \<Longrightarrow> sched_step calls turn step maxParallel s (s\<lparr>sc_failure := Some ''uncommitted settled calls'', sc_pc := Failed\<rparr>)"
| group_done: "\<lbrakk>sc_pc s = Racing; sc_inFlight s = []; \<not> sc_aborted s; sc_committed s = sc_started s\<rbrakk>
    \<Longrightarrow> sched_step calls turn step maxParallel s
         (s\<lparr>sc_next := sc_next s + sc_started s, sc_concluded := sc_concluded s \<or> sc_groupConcluded s, sc_pc := Outer\<rparr>)"
| skip_group: "\<lbrakk>sc_pc s = SkippingGroup k; k < sc_size s\<rbrakk>
    \<Longrightarrow> sched_step calls turn step maxParallel s
         (s\<lparr>sc_log := skipCall calls turn step now mid (sc_next s + k) (sc_log s), sc_pc := SkippingGroup (k + 1)\<rparr>)"
| skip_group_done: "\<lbrakk>sc_pc s = SkippingGroup k; sc_size s \<le> k\<rbrakk>
    \<Longrightarrow> sched_step calls turn step maxParallel s
         (s\<lparr>sc_next := sc_next s + sc_size s, sc_concluded := sc_concluded s \<or> sc_groupConcluded s,
            sc_pc := SkippingRest (sc_next s + sc_size s)\<rparr>)"
| skip_rest: "\<lbrakk>sc_pc s = SkippingRest k; k < length calls\<rbrakk>
    \<Longrightarrow> sched_step calls turn step maxParallel s
         (s\<lparr>sc_log := skipCall calls turn step now mid k (sc_log s), sc_pc := SkippingRest (k + 1)\<rparr>)"
| skip_rest_done: "\<lbrakk>sc_pc s = SkippingRest k; length calls \<le> k\<rbrakk>
    \<Longrightarrow> sched_step calls turn step maxParallel s (s\<lparr>sc_pc := Returned\<rparr>)"
| skip_throws: "\<lbrakk>sc_pc s = SkippingGroup k \<and> k < sc_size s \<and> n = sc_next s + k \<or> sc_pc s = SkippingRest k \<and> k < length calls \<and> n = k;
     slog' = sc_log s \<or> slog' = sc_log s @ [callEvent (sc_log s) now turn step (calls ! n)]\<rbrakk>
    \<Longrightarrow> sched_step calls turn step maxParallel s (s\<lparr>sc_log := slog', sc_failure := Some err, sc_pc := Failed\<rparr>)"
| drained: "\<lbrakk>sc_pc s = Draining; sc_running s = []\<rbrakk>
    \<Longrightarrow> sched_step calls turn step maxParallel s (s\<lparr>sc_pc := Failed\<rparr>)"
| settle: "i \<in> set (sc_running s)
    \<Longrightarrow> sched_step calls turn step maxParallel s
         (s\<lparr>sc_slots := (sc_slots s)[i := Some sl], sc_running := remove1 i (sc_running s)\<rparr>)"
| reject: "i \<in> set (sc_running s)
    \<Longrightarrow> sched_step calls turn step maxParallel s
         ((noteFailure err s)\<lparr>sc_running := remove1 i (sc_running s)\<rparr>)"
| abort: "\<not> sc_signal s \<Longrightarrow> sched_step calls turn step maxParallel s (s\<lparr>sc_signal := True\<rparr>)"
| foreign: "\<lbrakk>foreignEvent e; ev_seq e = int (length (sc_log s))\<rbrakk>
    \<Longrightarrow> sched_step calls turn step maxParallel s (s\<lparr>sc_log := sc_log s @ [e]\<rparr>)"

definition sched_start :: "session_event list \<Rightarrow> bool \<Rightarrow> sched" where
  "sched_start slog signal =
     \<lparr>sc_log = slog, sc_signal = signal, sc_contexts = [], sc_pc = Outer, sc_next = 0, sc_concluded = False,
      sc_size = 0, sc_parallel = False, sc_slots = [], sc_callSeqs = [], sc_nextToStart = 0, sc_committed = 0,
      sc_started = 0, sc_aborted = False, sc_groupConcluded = False, sc_failure = None, sc_inFlight = [],
      sc_running = []\<rparr>"

section \<open>The ledger: what may be logged\<close>

text \<open>
  \<open>ledger calls turn step base slog seqs r\<close>: \<open>slog\<close> extends \<open>base\<close> by the first \<open>length seqs\<close> calls (logged at
  \<open>seqs\<close>), the first \<open>r\<close> results, each after its call and citing it, and foreign events.
\<close>

inductive ledger ::
    "tool_call list \<Rightarrow> int \<Rightarrow> int \<Rightarrow> session_event list \<Rightarrow> session_event list \<Rightarrow> int list \<Rightarrow> nat \<Rightarrow> bool"
  for calls :: "tool_call list" and turn :: int and step :: int and base :: "session_event list" where
  ledger_base: "ledger calls turn step base base [] 0"
| ledger_foreign: "\<lbrakk>ledger calls turn step base slog seqs r; foreignEvent e; ev_seq e = int (length slog)\<rbrakk>
    \<Longrightarrow> ledger calls turn step base (slog @ [e]) seqs r"
| ledger_call: "\<lbrakk>ledger calls turn step base slog seqs r; length seqs < length calls;
     e = callEvent slog now turn step (calls ! length seqs)\<rbrakk>
    \<Longrightarrow> ledger calls turn step base (slog @ [e]) (seqs @ [ev_seq e]) r"
| ledger_result: "\<lbrakk>ledger calls turn step base slog seqs r; r < length seqs;
     e = resultEvent slog now turn step (calls ! r) mid result (seqs ! r)\<rbrakk>
    \<Longrightarrow> ledger calls turn step base (slog @ [e]) seqs (r + 1)"

lemma ledger_bounds: "ledger calls turn step base slog seqs r \<Longrightarrow> r \<le> length seqs \<and> length seqs \<le> length calls"
  by (induction rule: ledger.induct) auto

lemma logged_simps [simp]:
  "ev_seq (logged slog now d sources) = int (length slog)" "ev_data (logged slog now d sources) = d"
  by (simp_all add: logged_def)

lemma ledger_skip:
  assumes l: "ledger calls turn step base slog seqs (length seqs)" and k: "length seqs = k" "k < length calls"
  shows "ledger calls turn step base (skipCall calls turn step now mid k slog) (seqs @ [int (length slog)]) (k + 1)"
proof -
  let ?c = "callEvent slog now turn step (calls ! k)"
  have "ledger calls turn step base (slog @ [?c]) (seqs @ [ev_seq ?c]) k"
    using ledger_call [OF l, of ?c now] k by simp
  from ledger_result [OF this] k show ?thesis
    by (simp add: skipCall_def Let_def callEvent_def nth_append)
qed

section \<open>The invariant of the scheduler\<close>

text \<open>The counters of the running group, and how the log stands to them.\<close>

definition pool_ok :: "nat \<Rightarrow> sched \<Rightarrow> bool" where
  "pool_ok maxParallel s \<longleftrightarrow>
     length (sc_slots s) = sc_size s \<and> length (sc_callSeqs s) = sc_size s
     \<and> sc_nextToStart s \<le> sc_size s \<and> sc_committed s \<le> sc_nextToStart s
     \<and> distinct (sc_inFlight s) \<and> length (sc_inFlight s) \<le> maxParallel
     \<and> distinct (sc_running s) \<and> set (sc_running s) \<subseteq> set (sc_inFlight s)
     \<and> (\<forall>i \<in> set (sc_inFlight s). i < sc_nextToStart s)
     \<and> (\<forall>i < sc_size s. sc_slots s ! i \<noteq> None \<longrightarrow> i < sc_nextToStart s)
     \<and> (sc_failure s = None \<longrightarrow> (\<forall>i < sc_nextToStart s. sc_slots s ! i = None \<longrightarrow> i \<in> set (sc_running s)))"

definition log_ok ::
    "tool_call list \<Rightarrow> int \<Rightarrow> int \<Rightarrow> session_event list \<Rightarrow> session_event list \<Rightarrow> int list \<Rightarrow> nat \<Rightarrow> nat
      \<Rightarrow> nat \<Rightarrow> nat \<Rightarrow> bool" where
  "log_ok calls turn step base slog callSeqs nxt started n r \<longleftrightarrow>
     (\<exists>seqs. ledger calls turn step base slog seqs r \<and> length seqs = n
        \<and> (\<forall>i < started. callSeqs ! i = seqs ! (nxt + i)))"

abbreviation log_done ::
    "tool_call list \<Rightarrow> int \<Rightarrow> int \<Rightarrow> session_event list \<Rightarrow> sched \<Rightarrow> nat \<Rightarrow> nat \<Rightarrow> bool" where
  "log_done calls turn step base s n r \<equiv> log_ok calls turn step base (sc_log s) [] 0 0 n r"

definition log_some :: "tool_call list \<Rightarrow> int \<Rightarrow> int \<Rightarrow> session_event list \<Rightarrow> sched \<Rightarrow> bool" where
  "log_some calls turn step base s \<longleftrightarrow> (\<exists>n r. log_done calls turn step base s n r)"

definition raced :: "sched \<Rightarrow> bool" where
  "raced s \<longleftrightarrow> (sc_committed s < sc_nextToStart s \<longrightarrow> sc_committed s \<in> set (sc_inFlight s))"

definition group_inv ::
    "tool_call list \<Rightarrow> int \<Rightarrow> int \<Rightarrow> nat \<Rightarrow> session_event list \<Rightarrow> sched \<Rightarrow> bool" where
  "group_inv calls turn step maxParallel base s \<longleftrightarrow>
     pool_ok maxParallel s \<and> sc_next s + sc_size s \<le> length calls
     \<and> log_ok calls turn step base (sc_log s) (sc_callSeqs s) (sc_next s) (sc_started s)
          (sc_next s + sc_started s) (sc_next s + sc_committed s)
     \<and> sc_started s = (if sc_pc s = Preparing then sc_nextToStart s + 1 else sc_nextToStart s)
     \<and> (sc_pc s = Preparing \<longrightarrow> sc_nextToStart s < sc_size s \<and> length (sc_inFlight s) < maxParallel)
     \<and> (sc_pc s = Finalizing \<longrightarrow> readySlot s \<noteq> None)
     \<and> (sc_pc s = Filling \<or> sc_pc s = Racing \<longrightarrow> raced s)"

definition sched_inv ::
    "tool_call list \<Rightarrow> int \<Rightarrow> int \<Rightarrow> nat \<Rightarrow> session_event list \<Rightarrow> sched \<Rightarrow> bool" where
  "sched_inv calls turn step maxParallel base s \<longleftrightarrow>
     (case sc_pc s of
        Outer \<Rightarrow> log_done calls turn step base s (sc_next s) (sc_next s) \<and> sc_running s = []
      | Returned \<Rightarrow> log_done calls turn step base s (length calls) (length calls) \<and> sc_running s = []
      | SkippingRest k \<Rightarrow> log_done calls turn step base s k k \<and> k \<le> length calls \<and> sc_running s = []
      | SkippingGroup k \<Rightarrow> log_done calls turn step base s (sc_next s + k) (sc_next s + k)
          \<and> k \<le> sc_size s \<and> sc_next s + sc_size s \<le> length calls \<and> sc_running s = []
      | Failed \<Rightarrow> log_some calls turn step base s
      | Draining \<Rightarrow> log_some calls turn step base s \<and> pool_ok maxParallel s
      | _ \<Rightarrow> group_inv calls turn step maxParallel base s)"

section \<open>Every step keeps it\<close>

lemma log_ok_foreign:
  "\<lbrakk>log_ok calls turn step base slog css nxt st n r; foreignEvent e; ev_seq e = int (length slog)\<rbrakk>
    \<Longrightarrow> log_ok calls turn step base (slog @ [e]) css nxt st n r"
  unfolding log_ok_def by (blast intro: ledger_foreign)

lemma log_ok_weaken: "log_ok calls turn step base slog css nxt st n r \<Longrightarrow> log_ok calls turn step base slog [] 0 0 n r"
  by (auto simp: log_ok_def)

lemma log_some_cong: "sc_log s' = sc_log s \<Longrightarrow> log_some calls turn step base s' = log_some calls turn step base s"
  by (simp add: log_some_def)

lemma log_someI: "log_ok calls turn step base (sc_log s) css nxt st n r \<Longrightarrow> log_some calls turn step base s"
  unfolding log_some_def by (blast dest: log_ok_weaken)

lemma log_some_foreign:
  "\<lbrakk>log_some calls turn step base s; foreignEvent e; ev_seq e = int (length (sc_log s)); sc_log s' = sc_log s @ [e]\<rbrakk>
    \<Longrightarrow> log_some calls turn step base s'"
  unfolding log_some_def using log_ok_foreign by fastforce

lemma log_ok_bounds: "log_ok calls turn step base slog css nxt st n r \<Longrightarrow> r \<le> n \<and> n \<le> length calls"
  by (auto simp: log_ok_def dest: ledger_bounds)

lemma log_ok_call:
  assumes "log_ok calls turn step base slog css nxt st (nxt + st) r" "nxt + st < length calls" "st < length css"
    and "e = callEvent slog now turn step (calls ! (nxt + st))"
  shows "log_ok calls turn step base (slog @ [e]) (css[st := ev_seq e]) nxt (st + 1) (nxt + (st + 1)) r"
proof -
  from assms(1) obtain seqs where l: "ledger calls turn step base slog seqs r" "length seqs = nxt + st"
    "\<forall>i < st. css ! i = seqs ! (nxt + i)" by (auto simp: log_ok_def)
  have "ledger calls turn step base (slog @ [e]) (seqs @ [ev_seq e]) r"
    using ledger_call [OF l(1), of e now] l(2) assms(2,4) by simp
  moreover have "\<forall>i < st + 1. css[st := ev_seq e] ! i = (seqs @ [ev_seq e]) ! (nxt + i)"
    using l(2,3) assms(3) by (auto simp: nth_append nth_list_update less_Suc_eq)
  ultimately show ?thesis using l(2) unfolding log_ok_def by (intro exI [of _ "seqs @ [ev_seq e]"]) simp
qed

lemma log_ok_result:
  assumes "log_ok calls turn step base slog css nxt st n (nxt + c)" "c < st" "nxt + c < n"
    and "e = resultEvent slog now turn step (calls ! (nxt + c)) mid result (css ! c)"
  shows "log_ok calls turn step base (slog @ [e]) css nxt st n (nxt + c + 1)"
proof -
  from assms(1) obtain seqs where l: "ledger calls turn step base slog seqs (nxt + c)" "length seqs = n"
    "\<forall>i < st. css ! i = seqs ! (nxt + i)" by (auto simp: log_ok_def)
  have "ledger calls turn step base (slog @ [e]) seqs (nxt + c + 1)"
    using ledger_result [OF l(1), of e now mid result] l(2,3) assms(2-4) by simp
  with l(2,3) show ?thesis unfolding log_ok_def by blast
qed

lemma log_ok_half:
  assumes "log_ok calls turn step base slog css nxt st k k" "k < length calls"
    and "slog' = slog \<or> slog' = slog @ [callEvent slog now turn step (calls ! k)]"
  shows "\<exists>n r. log_ok calls turn step base slog' [] 0 0 n r"
proof -
  from assms(1) obtain seqs where l: "ledger calls turn step base slog seqs k" "length seqs = k"
    by (auto simp: log_ok_def)
  from ledger_call [OF l(1), of "callEvent slog now turn step (calls ! k)" now] assms(2,3) l show ?thesis
    unfolding log_ok_def by (elim disjE) (simp, blast, auto)
qed

lemma log_ok_skip:
  assumes "log_ok calls turn step base slog css nxt st k k" "k < length calls"
  shows "log_ok calls turn step base (skipCall calls turn step now mid k slog) [] 0 0 (k + 1) (k + 1)"
proof -
  from assms(1) obtain seqs where l: "ledger calls turn step base slog seqs k" "length seqs = k"
    by (auto simp: log_ok_def)
  from ledger_skip [of calls turn step base slog seqs k now mid] l assms(2) show ?thesis
    unfolding log_ok_def by (intro exI [of _ "seqs @ [int (length slog)]"]) auto
qed

lemma failing_simps [simp]:
  "sc_pc (failing err s) = Draining" "sc_log (failing err s) = sc_log s"
  "pool_ok m (failing err s) \<longleftrightarrow> pool_ok m (noteFailure err s)"
  "sc_log (noteFailure err s) = sc_log s" "sc_pc (noteFailure err s) = sc_pc s"
  by (simp_all add: failing_def noteFailure_def pool_ok_def)

lemma pool_noteFailure: "pool_ok m s \<Longrightarrow> pool_ok m (noteFailure err s)"
  by (simp add: noteFailure_def pool_ok_def)

lemma inv_failing:
  assumes "pool_ok m s" "log_ok calls turn step base (sc_log s) css nxt st n r"
  shows "sched_inv calls turn step m base (failing err s)"
  using assms(1) log_someI [OF assms(2)] log_some_cong [of "failing err s" s]
  by (simp add: sched_inv_def pool_noteFailure)

lemma inv_draining:
  assumes "pool_ok m s" "log_ok calls turn step base (sc_log s) css nxt st n r"
  shows "sched_inv calls turn step m base (s\<lparr>sc_pc := Draining\<rparr>)"
  using assms(1) log_someI [OF assms(2)] log_some_cong [of "s\<lparr>sc_pc := Draining\<rparr>" s]
  by (simp add: sched_inv_def pool_ok_def)

lemma inv_group:
  assumes "sched_inv calls turn step m base s" "sc_pc s \<in> {Filling, Preparing, CheckCommit, Committing, Finalizing, Racing}"
  shows "group_inv calls turn step m base s"
  using assms by (auto simp: sched_inv_def)

lemma groupI:
  assumes "group_inv calls turn step m base s" "sc_pc s \<in> {Filling, Preparing, CheckCommit, Committing, Finalizing, Racing}"
  shows "sched_inv calls turn step m base s"
  using assms by (auto simp: sched_inv_def)

lemma inv_enterGroup:
  assumes "sched_inv calls turn step m base s" "sc_pc s = Outer" "sc_next s < length calls"
    and "n = (if parallel then length calls - sc_next s else 1)"
  shows "sched_inv calls turn step m base (enterGroup n parallel s)"
  using assms
  by (intro groupI) (auto simp: sched_inv_def group_inv_def pool_ok_def raced_def enterGroup_def log_ok_def)

lemma inv_start:
  assumes inv: "sched_inv calls turn step m base s" and pc: "sc_pc s = Filling" and can: "canStart m s"
    and e: "e = callEvent (sc_log s) now turn step (block_at calls s (sc_nextToStart s))"
  shows "sched_inv calls turn step m base
    (s\<lparr>sc_log := sc_log s @ [e], sc_callSeqs := (sc_callSeqs s)[sc_nextToStart s := ev_seq e],
       sc_started := sc_started s + 1, sc_pc := Preparing\<rparr>)"
proof -
  have g: "group_inv calls turn step m base s" using inv_group [OF inv] pc by simp
  then have st: "sc_started s = sc_nextToStart s" "sc_next s + sc_started s < length calls"
    "sc_started s < length (sc_callSeqs s)"
    using can pc by (auto simp: group_inv_def pool_ok_def canStart_def)
  then have "log_ok calls turn step base (sc_log s @ [e]) ((sc_callSeqs s)[sc_started s := ev_seq e]) (sc_next s)
      (sc_started s + 1) (sc_next s + (sc_started s + 1)) (sc_next s + sc_committed s)"
    using g e by (intro log_ok_call) (auto simp: group_inv_def block_at_def)
  then show ?thesis
    using g can st(1) by (intro groupI) (simp_all add: group_inv_def pool_ok_def canStart_def)
qed

lemma inv_dispatch:
  assumes inv: "sched_inv calls turn step m base s" and pc: "sc_pc s = Preparing"
  shows "sched_inv calls turn step m base
    (s\<lparr>sc_inFlight := sc_inFlight s @ [sc_nextToStart s], sc_running := sc_running s @ [sc_nextToStart s],
       sc_nextToStart := sc_nextToStart s + 1, sc_pc := CheckCommit\<rparr>)"
proof -
  have g: "group_inv calls turn step m base s" using inv_group [OF inv] pc by simp
  have new: "sc_nextToStart s \<notin> set (sc_inFlight s)" "sc_nextToStart s \<notin> set (sc_running s)"
    using g by (auto simp: group_inv_def pool_ok_def)
  show ?thesis
    using g pc new
    by (intro groupI) (auto simp: group_inv_def pool_ok_def less_Suc_eq)
qed

lemma inv_prepared:
  assumes inv: "sched_inv calls turn step m base s" and pc: "sc_pc s = Preparing"
  shows "sched_inv calls turn step m base
    (s\<lparr>sc_slots := (sc_slots s)[sc_nextToStart s := Some sl],
       sc_nextToStart := sc_nextToStart s + 1, sc_pc := CheckCommit\<rparr>)"
proof -
  have g: "group_inv calls turn step m base s" using inv_group [OF inv] pc by simp
  show ?thesis
    using g pc
    by (intro groupI) (auto simp: group_inv_def pool_ok_def less_Suc_eq nth_list_update)
qed

lemma ready_less:
  assumes "pool_ok m s" "readySlot s \<noteq> None"
  shows "sc_committed s < sc_nextToStart s"
  using assms by (auto simp: readySlot_def pool_ok_def split: if_splits)

lemma commitResult_log:
  assumes g: "group_inv calls turn step m base s" and pc: "sc_pc s = Committing \<or> sc_pc s = Finalizing"
    and r: "readySlot s \<noteq> None"
  shows "log_ok calls turn step base (sc_log (commitResult calls turn step now mid result s)) (sc_callSeqs s)
    (sc_next s) (sc_started s) (sc_next s + sc_started s) (sc_next s + sc_committed s + 1)"
proof -
  have "sc_committed s < sc_started s"
    using g pc ready_less [of m s] r by (auto simp: group_inv_def)
  moreover have l: "log_ok calls turn step base (sc_log s) (sc_callSeqs s) (sc_next s) (sc_started s)
      (sc_next s + sc_started s) (sc_next s + sc_committed s)" using g unfolding group_inv_def by blast
  ultimately show ?thesis
    using log_ok_result [OF l _ _ refl, of now mid result] by (simp add: commitResult_def block_at_def)
qed

lemma inv_commit:
  assumes inv: "sched_inv calls turn step m base s" and pc: "sc_pc s = Committing \<or> sc_pc s = Finalizing"
    and r: "readySlot s \<noteq> None"
  shows "sched_inv calls turn step m base (afterContexts result (commitResult calls turn step now mid result s))"
proof -
  have g: "group_inv calls turn step m base s" using inv_group [OF inv] pc by auto
  then have "sc_committed s < sc_nextToStart s" using ready_less [of m s] r by (simp add: group_inv_def)
  then show ?thesis
    using g pc commitResult_log [OF g pc r, of now mid result]
    by (intro groupI) (auto simp: group_inv_def pool_ok_def afterContexts_def commitResult_def)
qed

lemma inv_context_throws:
  assumes inv: "sched_inv calls turn step m base s" and pc: "sc_pc s = Committing \<or> sc_pc s = Finalizing"
    and r: "readySlot s \<noteq> None"
  shows "sched_inv calls turn step m base
    (failing err ((commitResult calls turn step now mid result s)\<lparr>sc_contexts := cs\<rparr>))"
proof -
  have g: "group_inv calls turn step m base s" using inv_group [OF inv] pc by auto
  from commitResult_log [OF g pc r, of now mid result] g show ?thesis
    by (intro inv_failing) (auto simp: group_inv_def pool_ok_def commitResult_def)
qed

lemma inv_commit_stop:
  assumes inv: "sched_inv calls turn step m base s" and pc: "sc_pc s = Committing"
    and r: "readySlot s = None" "sc_failure s = None"
  shows "sched_inv calls turn step m base (s\<lparr>sc_aborted := a, sc_pc := Filling\<rparr>)"
proof -
  have g: "group_inv calls turn step m base s" using inv_group [OF inv] pc by auto
  have "raced s"
    using g r by (auto simp: raced_def group_inv_def pool_ok_def readySlot_def split: if_splits)
  with g pc show ?thesis
    by (intro groupI) (auto simp: group_inv_def pool_ok_def raced_def)
qed

lemma group_weak:
  assumes "group_inv calls turn step m base s"
  shows "pool_ok m s" "log_ok calls turn step base (sc_log s) (sc_callSeqs s) (sc_next s) (sc_started s)
    (sc_next s + sc_started s) (sc_next s + sc_committed s)"
  using assms unfolding group_inv_def by blast+

lemma slot_update: "xs ! j = Some z \<Longrightarrow> \<exists>z'. xs[i := Some y] ! j = Some z'"
  by (cases "i = j"; cases "j < length xs") (auto simp: not_less list_update_beyond)

lemma inv_settle:
  assumes inv: "sched_inv calls turn step m base s" and i: "i \<in> set (sc_running s)"
    and run: "sc_running s' = remove1 i (sc_running s)"
    and same: "sc_log s' = sc_log s" "sc_pc s' = sc_pc s" "sc_next s' = sc_next s" "sc_size s' = sc_size s"
      "sc_callSeqs s' = sc_callSeqs s" "sc_nextToStart s' = sc_nextToStart s" "sc_committed s' = sc_committed s"
      "sc_started s' = sc_started s" "sc_inFlight s' = sc_inFlight s"
    and slots: "sc_slots s' = sc_slots s \<and> sc_failure s' \<noteq> None
      \<or> (\<exists>sl. sc_slots s' = (sc_slots s)[i := Some sl]) \<and> sc_failure s' = sc_failure s"
  shows "sched_inv calls turn step m base s'"
proof -
  have pool: "pool_ok m s'" if p: "pool_ok m s"
  proof -
    have "distinct (sc_running s)" using p by (simp add: pool_ok_def)
    then have "set (sc_running s') = set (sc_running s) - {i}" using run by simp
    moreover have "i < sc_nextToStart s" using p i by (auto simp: pool_ok_def)
    ultimately show ?thesis
      using p run slots unfolding pool_ok_def same
      by (auto simp: nth_list_update distinct_remove1 split: if_splits)
  qed
  have ready: "readySlot s' \<noteq> None" if "readySlot s \<noteq> None"
    using that slots slot_update [of "sc_slots s" "sc_committed s"]
    by (auto simp: readySlot_def same split: if_splits)
  have "raced s' = raced s" by (simp add: raced_def same)
  with pool ready have group: "group_inv calls turn step m base s'" if "group_inv calls turn step m base s"
    using that unfolding group_inv_def same by auto
  have "log_some calls turn step base s' = log_some calls turn step base s" by (rule log_some_cong [OF same(1)])
  with inv i group pool run show ?thesis
    unfolding sched_inv_def same by (cases "sc_pc s") auto
qed

lemma inv_foreign:
  assumes inv: "sched_inv calls turn step m base s" and e: "foreignEvent e" "ev_seq e = int (length (sc_log s))"
  shows "sched_inv calls turn step m base (s\<lparr>sc_log := sc_log s @ [e]\<rparr>)"
proof -
  let ?s = "s\<lparr>sc_log := sc_log s @ [e]\<rparr>"
  have same: "readySlot ?s = readySlot s" "raced ?s = raced s" "pool_ok m ?s = pool_ok m s"
    by (simp_all add: readySlot_def raced_def pool_ok_def)
  note grow = log_ok_foreign [OF _ e]
  have group: "group_inv calls turn step m base ?s" if "group_inv calls turn step m base s"
    using that grow unfolding group_inv_def same by auto
  have some: "log_some calls turn step base ?s" if "log_some calls turn step base s"
    using log_some_foreign [OF that e] by simp
  show ?thesis
    using inv grow group some unfolding sched_inv_def same by (cases "sc_pc s") auto
qed

lemma inv_finished:
  assumes inv: "sched_inv calls turn step m base s" and pc: "sc_pc s = Racing" and idle: "sc_inFlight s = []"
  shows "sc_committed s = sc_started s" "sc_running s = []"
    "log_done calls turn step base s (sc_next s + sc_started s) (sc_next s + sc_started s)"
    "sc_started s \<le> sc_size s" "sc_next s + sc_size s \<le> length calls"
proof -
  have g: "group_inv calls turn step m base s" using inv_group [OF inv] pc by auto
  then show c: "sc_committed s = sc_started s" "sc_running s = []"
    using pc idle by (auto simp: group_inv_def pool_ok_def raced_def)
  show "log_done calls turn step base s (sc_next s + sc_started s) (sc_next s + sc_started s)"
    using log_ok_weaken [OF group_weak(2) [OF g]] c(1) by simp
  show "sc_started s \<le> sc_size s" "sc_next s + sc_size s \<le> length calls"
    using g pc by (auto simp: group_inv_def pool_ok_def)
qed

lemma same_simps [simp]:
  "readySlot (s\<lparr>sc_pc := pc\<rparr>) = readySlot s" "raced (s\<lparr>sc_pc := pc\<rparr>) = raced s"
  "pool_ok m (s\<lparr>sc_pc := pc\<rparr>) = pool_ok m s"
  "readySlot (s\<lparr>sc_signal := b\<rparr>) = readySlot s" "raced (s\<lparr>sc_signal := b\<rparr>) = raced s"
  "pool_ok m (s\<lparr>sc_signal := b\<rparr>) = pool_ok m s"
  by (simp_all add: readySlot_def raced_def pool_ok_def)

lemma inv_goto:
  assumes inv: "sched_inv calls turn step m base s"
    and pc: "sc_pc s \<in> {Filling, CheckCommit, Committing}"
    and to: "pc' \<in> {Committing, Finalizing, Racing}" "pc' = Racing \<longrightarrow> raced s" "pc' = Finalizing \<longrightarrow> readySlot s \<noteq> None"
  shows "sched_inv calls turn step m base (s\<lparr>sc_pc := pc'\<rparr>)"
proof -
  have "group_inv calls turn step m base s" using inv_group [OF inv] pc by auto
  moreover have "sc_pc s \<noteq> Preparing" "pc' \<noteq> Preparing" "pc' \<noteq> Filling" using pc to(1) by auto
  ultimately have "group_inv calls turn step m base (s\<lparr>sc_pc := pc'\<rparr>)"
    using to(2,3) by (auto simp: group_inv_def)
  with to(1) show ?thesis by (intro groupI) auto
qed

lemma inv_abort:
  assumes inv: "sched_inv calls turn step m base s"
  shows "sched_inv calls turn step m base (s\<lparr>sc_signal := b\<rparr>)"
proof -
  have "group_inv calls turn step m base (s\<lparr>sc_signal := b\<rparr>) = group_inv calls turn step m base s"
    by (simp add: group_inv_def)
  moreover have "log_some calls turn step base (s\<lparr>sc_signal := b\<rparr>) = log_some calls turn step base s"
    by (rule log_some_cong) simp
  ultimately show ?thesis using inv by (cases "sc_pc s") (simp_all add: sched_inv_def)
qed

theorem sched_inv_step:
  assumes step: "sched_step calls turn step m s s'" and inv: "sched_inv calls turn step m base s"
  shows "sched_inv calls turn step m base s'"
  using step
proof cases
  case all_done
  with inv log_ok_bounds show ?thesis by (fastforce simp: sched_inv_def)
next
  case (group n parallel)
  with inv show ?thesis by (simp add: inv_enterGroup)
next
  case pool_full
  with inv show ?thesis using inv_group [OF inv] by (auto intro!: inv_goto simp: group_inv_def)
next
  case barrier
  with inv show ?thesis using inv_group [OF inv] by (auto intro!: inv_goto simp: group_inv_def)
next
  case (start e now)
  with inv show ?thesis by (simp only: inv_start)
next
  case (start_throws err)
  with group_weak [OF inv_group [OF inv]] show ?thesis by (auto intro: inv_failing)
next
  case (prepare_throws err)
  with group_weak [OF inv_group [OF inv]] show ?thesis by (auto intro: inv_failing)
next
  case (prepare_late err)
  with group_weak [OF inv_group [OF inv]] show ?thesis by (auto intro: inv_draining)
next
  case prepare_dispatch
  with inv show ?thesis by (simp only: inv_dispatch)
next
  case (prepare_result sl)
  with inv show ?thesis by (simp only: inv_prepared)
next
  case (check_failed err)
  with group_weak [OF inv_group [OF inv]] show ?thesis by (auto intro: inv_draining)
next
  case check_ok
  with inv show ?thesis by (auto intro!: inv_goto)
next
  case commit_stop
  with inv show ?thesis by (simp only: inv_commit_stop)
next
  case (commit_failed err)
  with group_weak [OF inv_group [OF inv]] show ?thesis by (auto intro: inv_draining)
next
  case (finalize sl)
  with inv show ?thesis by (auto intro!: inv_goto)
next
  case (commit sl result now mid)
  then have "sc_pc s = Committing \<or> sc_pc s = Finalizing" "readySlot s \<noteq> None"
    using inv_group [OF inv] by (auto simp: group_inv_def)
  then show ?thesis unfolding commit(1) by (rule inv_commit [OF inv])
next
  case (commit_throws sl err)
  with group_weak [OF inv_group [OF inv]] show ?thesis by (auto intro: inv_failing)
next
  case (context_throws sl accepted result err now mid)
  then have "sc_pc s = Committing \<or> sc_pc s = Finalizing" "readySlot s \<noteq> None"
    using inv_group [OF inv] by (auto simp: group_inv_def)
  then show ?thesis unfolding context_throws(1) by (rule inv_context_throws [OF inv])
next
  case (race i)
  then have g: "group_inv calls turn step m base s" using inv_group [OF inv] by auto
  with race show ?thesis
    by (intro groupI) (auto simp: group_inv_def pool_ok_def distinct_remove1 length_remove1)
next
  case group_aborted
  with inv_finished [OF inv] show ?thesis by (simp add: sched_inv_def)
next
  case group_uncommitted
  with inv_finished [OF inv] show ?thesis by simp
next
  case group_done
  with inv_finished [OF inv] show ?thesis by (simp add: sched_inv_def)
next
  case (skip_group k now mid)
  with inv log_ok_skip [of calls turn step base "sc_log s" "[]" 0 0 "sc_next s + k" now mid] show ?thesis
    by (simp add: sched_inv_def)
next
  case (skip_group_done k)
  with inv show ?thesis by (auto simp: sched_inv_def)
next
  case (skip_rest k now mid)
  with inv log_ok_skip [of calls turn step base "sc_log s" "[]" 0 0 k now mid] show ?thesis
    by (simp add: sched_inv_def)
next
  case (skip_rest_done k)
  with inv show ?thesis by (auto simp: sched_inv_def)
next
  case (skip_throws k n slog' now err)
  have "log_done calls turn step base s n n" "n < length calls"
    using inv skip_throws(2) by (auto simp: sched_inv_def)
  from log_ok_half [OF this skip_throws(3)] show ?thesis
    using skip_throws(1) by (simp add: sched_inv_def log_some_def)
next
  case drained
  with inv show ?thesis by (simp add: sched_inv_def log_some_def)
next
  case (settle i sl)
  show ?thesis unfolding settle(1) by (rule inv_settle [OF inv settle(2)]) (simp_all, blast)
next
  case (reject i err)
  show ?thesis unfolding reject(1) by (rule inv_settle [OF inv reject(2)]) (simp_all add: noteFailure_def)
next
  case abort
  show ?thesis unfolding abort(1) by (rule inv_abort [OF inv])
next
  case (foreign e)
  with inv show ?thesis by (simp only: inv_foreign)
qed

section \<open>The monitor accepts every ledger\<close>

lemma foreign_trace:
  assumes "foreignEvent e" "tc_openTurn t = Some turn" "tc_lastSeq t < ev_seq e"
  shows "traceStep t e = Inr (t\<lparr>tc_lastSeq := ev_seq e\<rparr>)"
  using assms by (cases "ev_data e") (auto simp: foreignEvent_def trace_simps)

lemma call_trace:
  assumes "tc_openTurn t = Some turn" "tc_openStep t = Some step" "tc_lastSeq t < int (length slog)"
  shows "traceStep t (callEvent slog now turn step block) =
    Inr (t\<lparr>tc_lastSeq := int (length slog), tc_pendingCalls := insert (tl_id block) (tc_pendingCalls t)\<rparr>)"
  using assms by (simp add: callEvent_def toolCallData_def trace_simps)

lemma result_trace:
  assumes "tc_openTurn t = Some turn" "tc_openStep t = Some step" "tc_lastSeq t < int (length slog)"
    and "tl_id block \<in> tc_pendingCalls t"
  shows "traceStep t (resultEvent slog now turn step block mid result callSeq) =
    Inr (t\<lparr>tc_lastSeq := int (length slog), tc_pendingCalls := tc_pendingCalls t - {tl_id block}\<rparr>)"
  using assms by (simp add: resultEvent_def toolResultData_def logged_def trace_simps)

text \<open>The calls logged and not yet answered.\<close>

definition openCalls :: "tool_call list \<Rightarrow> nat \<Rightarrow> nat \<Rightarrow> call_id set" where
  "openCalls calls n r = tl_id ` set (drop r (take n calls))"

lemma openCalls_call: "r \<le> n \<Longrightarrow> n < length calls \<Longrightarrow> openCalls calls (Suc n) r = insert (tl_id (calls ! n)) (openCalls calls n r)"
  by (simp add: openCalls_def take_Suc_conv_app_nth)

lemma openCalls_result:
  assumes "r < n" "n \<le> length calls" "distinct (map tl_id calls)"
  shows "tl_id (calls ! r) \<in> openCalls calls n r"
    and "openCalls calls n (r + 1) = openCalls calls n r - {tl_id (calls ! r)}"
proof -
  let ?xs = "take n calls"
  have d: "drop r ?xs = calls ! r # drop (Suc r) ?xs"
    using assms(1,2) by (metis Cons_nth_drop_Suc length_take min.absorb2 nth_take)
  then show "tl_id (calls ! r) \<in> openCalls calls n r" by (simp add: openCalls_def)
  have "distinct (map tl_id (drop r ?xs))"
    using assms(3) by (simp add: drop_map [symmetric] take_map [symmetric])
  with d show "openCalls calls n (r + 1) = openCalls calls n r - {tl_id (calls ! r)}"
    by (auto simp: openCalls_def)
qed

lemma ledger_monitored:
  assumes "ledger calls turn step base slog seqs r" "distinct (map tl_id calls)"
    and "seedSession base = Inr t0" "tc_openTurn t0 = Some turn" "tc_openStep t0 = Some step"
    and "tc_pendingCalls t0 = {}" "tc_lastSeq t0 < int (length base)"
  shows "\<exists>t. seedSession slog = Inr t \<and> tc_openTurn t = Some turn \<and> tc_openStep t = Some step
    \<and> tc_lastSeq t < int (length slog) \<and> tc_pendingCalls t = openCalls calls (length seqs) r"
  using assms(1)
proof (induction rule: ledger.induct)
  case ledger_base
  with assms show ?case by (simp add: openCalls_def)
next
  case (ledger_foreign slog seqs r e)
  then obtain t where t: "seedSession slog = Inr t" "tc_openTurn t = Some turn" "tc_openStep t = Some step"
    "tc_lastSeq t < int (length slog)" "tc_pendingCalls t = openCalls calls (length seqs) r" by blast
  with ledger_foreign foreign_trace [of e t turn] show ?case
    by (simp add: seedSession_def foldE_snoc_Inr)
next
  case (ledger_call slog seqs r e now)
  then obtain t where t: "seedSession slog = Inr t" "tc_openTurn t = Some turn" "tc_openStep t = Some step"
    "tc_lastSeq t < int (length slog)" "tc_pendingCalls t = openCalls calls (length seqs) r" by blast
  have "r \<le> length seqs" using ledger_bounds [OF ledger_call(1)] by simp
  with t ledger_call call_trace [OF t(2-4)] show ?case
    by (simp add: seedSession_def foldE_snoc_Inr openCalls_call)
next
  case (ledger_result slog seqs r e now mid result)
  then obtain t where t: "seedSession slog = Inr t" "tc_openTurn t = Some turn" "tc_openStep t = Some step"
    "tc_lastSeq t < int (length slog)" "tc_pendingCalls t = openCalls calls (length seqs) r" by blast
  have "length seqs \<le> length calls" using ledger_bounds [OF ledger_result(1)] by simp
  note o = openCalls_result [OF ledger_result(2) this assms(2)]
  with t ledger_result result_trace [OF t(2-4), of "calls ! r"] show ?case
    by (simp add: seedSession_def foldE_snoc_Inr)
qed

section \<open>Progress\<close>

fun pcRank :: "sched_pc \<Rightarrow> nat" where
  "pcRank CheckCommit = 7"
| "pcRank Committing = 6"
| "pcRank Finalizing = 5"
| "pcRank Filling = 5"
| "pcRank Racing = 4"
| "pcRank _ = 0"

definition sched_measure :: "tool_call list \<Rightarrow> sched \<Rightarrow> nat" where
  "sched_measure calls s =
     length (sc_running s) + (if sc_signal s then 0 else 1)
     + (let rest = (length calls - sc_next s) * (20 * length calls + 24) in
        case sc_pc s of
          Outer \<Rightarrow> rest + 20 * (length calls - sc_next s) + 21
        | Returned \<Rightarrow> 0
        | Failed \<Rightarrow> 0
        | Draining \<Rightarrow> 1
        | SkippingRest k \<Rightarrow> length calls - k + 1
        | SkippingGroup k \<Rightarrow> rest + (sc_size s - k) + 3
        | pc \<Rightarrow> rest + 14 * (sc_size s - sc_started s) + 13 * (sc_started s - sc_nextToStart s)
                + 4 * length (sc_inFlight s) + 2 * (sc_size s - sc_committed s) + pcRank pc)"

definition startedSome :: "sched \<Rightarrow> bool" where
  "startedSome s \<longleftrightarrow> (sc_pc s \<in> {Filling, Preparing, CheckCommit, Committing, Finalizing, Racing} \<longrightarrow> 0 < sc_size s)
     \<and> (sc_pc s \<in> {Preparing, CheckCommit, Committing, Finalizing} \<longrightarrow> 0 < sc_started s)
     \<and> (sc_pc s = Racing \<longrightarrow> 0 < sc_started s \<or> sc_aborted s)"

lemma inFlight_started: "group_inv calls turn step m base s \<Longrightarrow> i \<in> set (sc_inFlight s) \<Longrightarrow> 0 < sc_started s"
  by (auto simp: group_inv_def pool_ok_def split: if_splits)

lemma startedSome_step:
  assumes "sched_step calls turn step m s s'" "sched_inv calls turn step m base s" "startedSome s" "0 < m"
  shows "startedSome s'"
  using assms(1)
proof cases
  case pool_full
  then have g: "group_inv calls turn step m base s" using inv_group [OF assms(2)] by simp
  have "0 < sc_started s" if "\<not> sc_aborted s"
  proof (cases "sc_inFlight s")
    case Nil
    with that pool_full assms(3,4) g show ?thesis
      by (auto simp: canStart_def startedSome_def group_inv_def pool_ok_def)
  next
    case (Cons i rest)
    then show ?thesis using inFlight_started [OF g, of i] by simp
  qed
  with pool_full assms(3) show ?thesis by (auto simp: startedSome_def)
next
  case barrier
  then have "group_inv calls turn step m base s" using inv_group [OF assms(2)] by simp
  with barrier assms(3) show ?thesis by (auto simp: startedSome_def group_inv_def)
next
  case (race i)
  then have "group_inv calls turn step m base s" using inv_group [OF assms(2)] by simp
  with race assms(3) inFlight_started show ?thesis by (auto simp: startedSome_def)
qed (use assms(3) in \<open>simp_all add: startedSome_def enterGroup_def failing_def noteFailure_def
      afterContexts_def commitResult_def, auto?\<close>)

lemma measure_group_done:
  assumes "0 < d" "n + z \<le> L" "d \<le> z"
  shows "(L - (n + d)) * (20 * L + 24) + 20 * (L - (n + d)) + 21 < (L - n) * (20 * L + 24) + (4::nat)"
proof -
  have "(L - n) * (20 * L + 24) = (L - (n + d)) * (20 * L + 24) + d * (20 * L + 24)"
    using assms by (simp add: add_mult_distrib [symmetric])
  moreover have "20 * L + 24 \<le> d * (20 * L + 24)" using assms(1) by (cases d) auto
  moreover have "20 * (L - (n + d)) \<le> 20 * L" by simp
  ultimately show ?thesis by linarith
qed

lemma remove1_less: "i \<in> set xs \<Longrightarrow> length (remove1 i xs) < length xs"
  by (metis diff_less length_pos_if_in_set length_remove1 less_numeral_extra(1))

lemmas measure_simps = sched_measure_def Let_def enterGroup_def failing_def noteFailure_def afterContexts_def
  commitResult_def

lemma pool_bounds:
  assumes "group_inv calls turn step m base s"
  shows "sc_next s + sc_size s \<le> length calls" "sc_started s \<le> sc_size s" "sc_nextToStart s \<le> sc_started s"
    "sc_started s = (if sc_pc s = Preparing then sc_nextToStart s + 1 else sc_nextToStart s)"
    "readySlot s \<noteq> None \<Longrightarrow> sc_committed s < sc_size s"
  using assms by (auto simp: group_inv_def pool_ok_def readySlot_def split: if_splits)

text \<open>Every step but a foreign append comes closer to the end.\<close>

lemma sched_measure_step:
  assumes step: "sched_step calls turn step m s s'" and inv: "sched_inv calls turn step m base s"
    and some: "startedSome s"
  shows "sched_measure calls s' < sched_measure calls s
    \<or> (\<exists>e. foreignEvent e \<and> s' = s\<lparr>sc_log := sc_log s @ [e]\<rparr>)"
  using step
proof cases
  case (group n parallel)
  then show ?thesis using inv by (auto simp: measure_simps sched_inv_def)
next
  case (start e now)
  with pool_bounds [OF inv_group [OF inv]] show ?thesis by (auto simp: measure_simps canStart_def)
next
  case (commit sl result now mid)
  then have "group_inv calls turn step m base s" using inv_group [OF inv] by auto
  then have "sc_committed s < sc_size s"
    using commit(2) pool_bounds(5) by (fastforce simp: group_inv_def)
  with commit show ?thesis by (auto simp: measure_simps)
next
  case (commit_throws sl err)
  then show ?thesis by (auto simp: measure_simps)
next
  case (context_throws sl accepted result err now mid)
  then show ?thesis by (auto simp: measure_simps)
next
  case (race i)
  with remove1_less [of i "sc_inFlight s"] show ?thesis by (simp add: measure_simps)
next
  case group_done
  have "sc_started s \<le> sc_size s" "sc_next s + sc_size s \<le> length calls"
    using inv_finished [OF inv group_done(2,3)] by auto
  moreover have "0 < sc_started s" using some group_done by (simp add: startedSome_def)
  ultimately have "(length calls - (sc_next s + sc_started s)) * (20 * length calls + 24)
      + 20 * (length calls - (sc_next s + sc_started s)) + 21
      < (length calls - sc_next s) * (20 * length calls + 24) + 4"
    by (intro measure_group_done [where z = "sc_size s"])
  with group_done show ?thesis by (simp add: measure_simps)
next
  case group_aborted
  obtain z where "sc_size s = sc_started s + z"
    using inv_finished(4) [OF inv group_aborted(2,3)] le_Suc_ex by blast
  with group_aborted show ?thesis by (simp add: measure_simps)
next
  case (skip_group_done k)
  have "length calls - (sc_next s + sc_size s) \<le> (length calls - sc_next s) * (20 * length calls + 24)"
    by (rule le_trans [of _ "length calls - sc_next s"]) simp_all
  with skip_group_done show ?thesis by (simp add: measure_simps)
next
  case (settle i sl)
  with remove1_less [of i "sc_running s"] show ?thesis by (cases "sc_pc s") (simp_all add: measure_simps)
next
  case (reject i err)
  with remove1_less [of i "sc_running s"] show ?thesis by (cases "sc_pc s") (simp_all add: measure_simps)
next
  case abort
  then show ?thesis by (cases "sc_pc s") (simp_all add: measure_simps)
next
  case (foreign e)
  then show ?thesis by blast
next
  case prepare_dispatch
  with pool_bounds [OF inv_group [OF inv]] show ?thesis by (auto simp: measure_simps)
next
  case (prepare_result sl)
  with pool_bounds [OF inv_group [OF inv]] show ?thesis by (auto simp: measure_simps)
next
  case (prepare_throws err)
  with pool_bounds [OF inv_group [OF inv]] show ?thesis by (auto simp: measure_simps)
next
  case (prepare_late err)
  with pool_bounds [OF inv_group [OF inv]] show ?thesis by (auto simp: measure_simps)
qed (auto simp: measure_simps)

lemma not_foreign: "sc_log s' = sc_log s \<Longrightarrow> \<not> (\<exists>e. foreignEvent e \<and> s' = s\<lparr>sc_log := sc_log s @ [e]\<rparr>)"
  by (metis append_self_conv not_Cons_self2 select_convs(1) simps(1) surjective update_convs(1))

definition ownStep :: "tool_call list \<Rightarrow> int \<Rightarrow> int \<Rightarrow> nat \<Rightarrow> sched \<Rightarrow> sched \<Rightarrow> bool" where
  "ownStep calls turn step m s s' \<longleftrightarrow> sched_step calls turn step m s s'
     \<and> \<not> (\<exists>e. foreignEvent e \<and> s' = s\<lparr>sc_log := sc_log s @ [e]\<rparr>)"

text \<open>A step that neither sees an abort nor hands out a context.\<close>

definition plainStep :: "tool_call list \<Rightarrow> int \<Rightarrow> int \<Rightarrow> nat \<Rightarrow> sched \<Rightarrow> sched \<Rightarrow> bool" where
  "plainStep calls turn step m s s' \<longleftrightarrow> ownStep calls turn step m s s'
     \<and> sc_signal s' = sc_signal s \<and> sc_contexts s' = sc_contexts s"

lemma ownI:
  "\<lbrakk>sched_step calls turn step m s s'; sc_pc s' \<noteq> sc_pc s; sc_signal s' = sc_signal s; sc_contexts s' = sc_contexts s\<rbrakk>
    \<Longrightarrow> \<exists>s'. plainStep calls turn step m s s'"
  unfolding ownStep_def plainStep_def by auto

text \<open>Until it returns or fails the scheduler, or a body it waits for, can move.\<close>

lemma sched_enabled:
  assumes inv: "sched_inv calls turn step m base s" and live: "sc_pc s \<notin> {Returned, Failed}"
  shows "\<exists>s'. plainStep calls turn step m s s'"
proof -
  have settle: ?thesis if "sc_running s \<noteq> []"
  proof -
    let ?s' = "(noteFailure [] s)\<lparr>sc_running := remove1 (hd (sc_running s)) (sc_running s)\<rparr>"
    have "sched_step calls turn step m s ?s'"
      using that by (intro sched_step.reject) simp
    then have "ownStep calls turn step m s ?s'" using not_foreign [of ?s' s] by (simp add: ownStep_def)
    moreover have "sc_signal ?s' = sc_signal s" "sc_contexts ?s' = sc_contexts s"
      by (simp_all add: noteFailure_def)
    ultimately show ?thesis unfolding plainStep_def by blast
  qed
  show ?thesis
  proof (cases "sc_pc s")
    case Outer
    then show ?thesis
    proof (cases "length calls \<le> sc_next s")
      case True
      from ownI [OF all_done [OF Outer True]] Outer show ?thesis by simp
    next
      case False
      from ownI [OF group [OF Outer _ refl, where calls = calls and parallel = False]] Outer False show ?thesis by (simp add: enterGroup_def)
    qed
  next
    case Filling
    show ?thesis
    proof (cases "canStart m s")
      case True
      from ownI [OF start [OF Filling True refl]] Filling show ?thesis by simp
    next
      case False
      from ownI [OF pool_full [OF Filling False]] Filling show ?thesis by simp
    qed
  next
    case Preparing
    show ?thesis
    proof (cases "sc_failure s")
      case None
      from ownI [OF prepare_dispatch [OF Preparing None]] Preparing show ?thesis by simp
    next
      case (Some err)
      from ownI [OF prepare_late [OF Preparing Some]] Preparing show ?thesis by simp
    qed
  next
    case CheckCommit
    show ?thesis
    proof (cases "sc_failure s")
      case None
      from ownI [OF check_ok [OF CheckCommit None]] CheckCommit show ?thesis by simp
    next
      case (Some err)
      from ownI [OF check_failed [OF CheckCommit Some]] CheckCommit show ?thesis by simp
    qed
  next
    case Committing
    consider "readySlot s = None" "sc_failure s = None" | err where "readySlot s = None" "sc_failure s = Some err"
      | sl where "readySlot s = Some sl" "sl_needsPost sl" | sl where "readySlot s = Some sl" "\<not> sl_needsPost sl"
      by (cases "readySlot s"; cases "sc_failure s") auto
    then show ?thesis
    proof cases
      case 1
      from ownI [OF commit_stop [OF Committing 1]] Committing show ?thesis by simp
    next
      case 2
      from ownI [OF commit_failed [OF Committing 2]] Committing show ?thesis by simp
    next
      case 3
      from ownI [OF finalize [OF Committing 3]] Committing show ?thesis by simp
    next
      case 4
      from ownI [OF commit_throws [of s "the (readySlot s)"]] Committing 4 show ?thesis by (simp add: failing_def noteFailure_def)
    qed
  next
    case Finalizing
    from ownI [OF commit_throws [of s "the (readySlot s)"]] Finalizing show ?thesis by (simp add: failing_def noteFailure_def)
  next
    case Racing
    consider "sc_running s \<noteq> []" | "sc_running s = []" "sc_inFlight s \<noteq> []"
      | "sc_inFlight s = []" "sc_aborted s" | "sc_inFlight s = []" "\<not> sc_aborted s" by blast
    then show ?thesis
    proof cases
      case 2
      from ownI [OF race [OF Racing, of "hd (sc_inFlight s)"]] Racing 2 show ?thesis by simp
    next
      case 3
      from ownI [OF group_aborted [OF Racing 3]] Racing show ?thesis by simp
    next
      case 4
      from ownI [OF group_done [OF Racing 4 inv_finished(1) [OF inv Racing 4(1)]]] Racing show ?thesis by simp
    qed (use settle in blast)
  next
    case Draining
    show ?thesis
    proof (cases "sc_running s = []")
      case True
      from ownI [OF drained [OF Draining True]] Draining show ?thesis by simp
    qed (use settle in blast)
  next
    case (SkippingGroup k)
    show ?thesis
    proof (cases "k < sc_size s")
      case True
      from ownI [OF skip_group [OF SkippingGroup True]] SkippingGroup show ?thesis by simp
    next
      case False
      from ownI [OF skip_group_done [OF SkippingGroup]] False SkippingGroup show ?thesis by simp
    qed
  next
    case (SkippingRest k)
    show ?thesis
    proof (cases "k < length calls")
      case True
      from ownI [OF skip_rest [OF SkippingRest True]] SkippingRest show ?thesis by simp
    next
      case False
      from ownI [OF skip_rest_done [OF SkippingRest]] False SkippingRest show ?thesis by simp
    qed
  qed (use live in auto)
qed

section \<open>Properties\<close>

abbreviation reaches :: "tool_call list \<Rightarrow> int \<Rightarrow> int \<Rightarrow> nat \<Rightarrow> sched \<Rightarrow> sched \<Rightarrow> bool" where
  "reaches calls turn step m \<equiv> (sched_step calls turn step m)\<^sup>*\<^sup>*"

definition good_sched :: "tool_call list \<Rightarrow> int \<Rightarrow> int \<Rightarrow> nat \<Rightarrow> session_event list \<Rightarrow> sched \<Rightarrow> bool" where
  "good_sched calls turn step m base s \<longleftrightarrow>
     sched_inv calls turn step m base s \<and> startedSome s \<and> length (sc_inFlight s) \<le> m"

lemma inFlight_bound:
  assumes "sched_step calls turn step m s s'" "sched_inv calls turn step m base s'" "length (sc_inFlight s) \<le> m"
  shows "length (sc_inFlight s') \<le> m"
proof (cases "sc_pc s' \<in> {Filling, Preparing, CheckCommit, Committing, Finalizing, Racing, Draining}")
  case True
  then have "pool_ok m s'"
    using assms(2) inv_group [OF assms(2)] group_weak(1) by (cases "sc_pc s' = Draining") (auto simp: sched_inv_def)
  then show ?thesis by (simp add: pool_ok_def)
next
  case False
  from assms(1) have "sc_inFlight s' = sc_inFlight s"
    by cases (use False in \<open>auto simp: enterGroup_def failing_def noteFailure_def afterContexts_def commitResult_def\<close>)
  with assms(3) show ?thesis by simp
qed

lemma reaches_good:
  assumes "reaches calls turn step m (sched_start base signal) s" "0 < m"
  shows "good_sched calls turn step m base s"
  using assms(1)
proof (induction rule: rtranclp_induct)
  case base
  show ?case
    by (simp add: good_sched_def sched_inv_def startedSome_def sched_start_def log_ok_def ledger_base)
next
  case (step s s')
  then show ?case
    using sched_inv_step startedSome_step [OF _ _ _ assms(2)] inFlight_bound
    unfolding good_sched_def by blast
qed

lemma inv_some:
  assumes "sched_inv calls turn step m base s"
  shows "log_some calls turn step base s"
proof (cases "sc_pc s \<in> {Filling, Preparing, CheckCommit, Committing, Finalizing, Racing}")
  case True
  from log_someI [OF group_weak(2) [OF inv_group [OF assms True]]] show ?thesis .
next
  case False
  with assms show ?thesis
    unfolding sched_inv_def by (cases "sc_pc s") (auto simp: log_some_def)
qed

lemma good_sched_log:
  assumes "good_sched calls turn step m base s"
  shows "\<exists>seqs r. ledger calls turn step base (sc_log s) seqs r
    \<and> (sc_pc s = Returned \<longrightarrow> length seqs = length calls \<and> r = length calls)"
proof (cases "sc_pc s = Returned")
  case True
  with assms show ?thesis by (auto simp: good_sched_def sched_inv_def log_ok_def)
next
  case False
  have "log_some calls turn step base s"
    using assms unfolding good_sched_def by (blast intro: inv_some)
  with False show ?thesis by (auto simp: log_ok_def log_some_def)
qed

text \<open>C21.
  In every interleaving, the scheduler's log is a legal ledger: calls in model order, results in model
  order, each after its call and citing it. At most \<open>maxParallelToolCalls\<close> bodies are in flight. When it
  returns, aborted or not, every call has its call event and its result, and the code's "uncommitted
  settled calls" failure is never reached.
\<close>

theorem scheduler_refines_ledger:
  assumes "(sched_step calls turn step maxParallel)\<^sup>*\<^sup>* (sched_start base signal) s" "0 < maxParallel"
  shows "(\<exists>seqs r. ledger calls turn step base (sc_log s) seqs r
            \<and> (sc_pc s = Returned \<longrightarrow> length seqs = length calls \<and> r = length calls))
       \<and> length (sc_inFlight s) \<le> maxParallel
       \<and> \<not> (sc_pc s = Racing \<and> sc_inFlight s = [] \<and> sc_committed s \<noteq> sc_started s)"
proof -
  note g = reaches_good [OF assms]
  then have "sched_inv calls turn step maxParallel base s" "length (sc_inFlight s) \<le> maxParallel"
    by (simp_all add: good_sched_def)
  with good_sched_log [OF g] inv_finished(1) [of calls turn step maxParallel base s] show ?thesis by blast
qed

text \<open>C22.
  If the session's log was accepted up to the open step, no call was pending, and the call ids of the
  message are distinct, then the trace monitor accepts the log at every moment of the schedule, and after a
  return the step has no pending call.
\<close>

theorem scheduler_log_accepted:
  assumes "(sched_step calls turn step maxParallel)\<^sup>*\<^sup>* (sched_start base signal) s" "0 < maxParallel"
    and "distinct (map tl_id calls)" "seedSession base = Inr t0" "tc_openTurn t0 = Some turn"
    and "tc_openStep t0 = Some step" "tc_pendingCalls t0 = {}" "tc_lastSeq t0 < int (length base)"
  shows "\<exists>t. seedSession (sc_log s) = Inr t \<and> tc_openTurn t = Some turn \<and> tc_openStep t = Some step
           \<and> (sc_pc s = Returned \<longrightarrow> tc_pendingCalls t = {})"
proof -
  from good_sched_log [OF reaches_good [OF assms(1,2)]] obtain seqs r where
    l: "ledger calls turn step base (sc_log s) seqs r"
    and fin: "sc_pc s = Returned \<longrightarrow> length seqs = length calls \<and> r = length calls" by blast
  from ledger_monitored [OF l assms(3-8)] fin show ?thesis by (auto simp: openCalls_def)
qed

text \<open>C23.
  The scheduler cannot hang or spin: from any state it reaches, every step other than another producer's
  append strictly decreases a measure, and until it has returned or failed such a step exists. An execution
  whose tool bodies settle therefore ends after finitely many own steps.
\<close>

theorem scheduler_progress:
  assumes "(sched_step calls turn step maxParallel)\<^sup>*\<^sup>* (sched_start base signal) s" "0 < maxParallel"
  shows "(\<forall>s'. ownStep calls turn step maxParallel s s' \<longrightarrow> sched_measure calls s' < sched_measure calls s)
       \<and> (sc_pc s \<in> {Returned, Failed} \<or> (\<exists>s'. ownStep calls turn step maxParallel s s'))"
proof -
  have inv: "sched_inv calls turn step maxParallel base s" and some: "startedSome s"
    using reaches_good [OF assms] by (simp_all add: good_sched_def)
  have "sched_measure calls s' < sched_measure calls s" if "ownStep calls turn step maxParallel s s'" for s'
    using that sched_measure_step [OF _ inv some] unfolding ownStep_def by blast
  with sched_enabled [OF inv] show ?thesis unfolding plainStep_def by blast
qed

section \<open>A sample schedule\<close>

text \<open>One call whose step was aborted before the scheduler ran: it is recorded and answered, not run.\<close>

definition sampleToolCall :: tool_call where
  "sampleToolCall = \<lparr>tl_id = ''c'', tl_name = ''read'', tl_arguments = ''{}''\<rparr>"

definition sampleStepLog :: "session_event list" where
  "sampleStepLog = [sampleEvent 0 (TurnStart 1) None None, sampleEvent 1 (StepStart 1 1) None None]"

definition sampleSkipped :: "session_event list" where
  "sampleSkipped = skipCall [sampleToolCall] 1 1 0 ''m'' 0 sampleStepLog"

lemma sample_schedule:
  "\<exists>s. (sched_step [sampleToolCall] 1 1 2)\<^sup>*\<^sup>* (sched_start sampleStepLog True) s
     \<and> sc_pc s = Returned \<and> sc_log s = sampleSkipped"
proof -
  let ?step = "sched_step [sampleToolCall] 1 1 2"
  let ?s0 = "sched_start sampleStepLog True"
  let ?s1 = "enterGroup 1 False ?s0"
  let ?s2 = "?s1\<lparr>sc_pc := Racing\<rparr>"
  let ?s3 = "?s2\<lparr>sc_pc := SkippingGroup 0\<rparr>"
  let ?s4 = "?s3\<lparr>sc_log := sampleSkipped, sc_pc := SkippingGroup 1\<rparr>"
  let ?s5 = "?s4\<lparr>sc_next := 1, sc_pc := SkippingRest 1\<rparr>"
  let ?s6 = "?s5\<lparr>sc_pc := Returned\<rparr>"
  have 1: "?step ?s0 ?s1"
    by (rule group [where parallel = False]) (simp_all add: sched_start_def)
  have 2: "?step ?s1 ?s2"
    by (rule pool_full) (simp_all add: sched_start_def enterGroup_def canStart_def)
  have 3: "?step ?s2 ?s3"
    using group_aborted [of ?s2 "[sampleToolCall]" 1 1 2] by (simp add: sched_start_def enterGroup_def)
  have 4: "?step ?s3 ?s4"
    using skip_group [of ?s3 0 "[sampleToolCall]" 1 1 2 0 "''m''"]
    by (simp add: sched_start_def enterGroup_def sampleSkipped_def)
  have 5: "?step ?s4 ?s5"
    using skip_group_done [of ?s4 1 "[sampleToolCall]" 1 1 2] by (simp add: sched_start_def enterGroup_def)
  have 6: "?step ?s5 ?s6"
    using skip_rest_done [of ?s5 1 "[sampleToolCall]" 1 1 2] by simp
  from 1 2 3 4 5 6 have "?step\<^sup>*\<^sup>* ?s0 ?s6"
    by (meson rtranclp.rtrancl_into_rtrancl rtranclp.rtrancl_refl)
  then show ?thesis by (intro exI [of _ ?s6]) simp
qed

theorem scheduler_refines_ledger_witness:
  "\<exists>seqs. ledger [sampleToolCall] 1 1 sampleStepLog sampleSkipped seqs 1 \<and> length seqs = 1"
proof -
  from sample_schedule obtain s where s: "(sched_step [sampleToolCall] 1 1 2)\<^sup>*\<^sup>* (sched_start sampleStepLog True) s"
    "sc_pc s = Returned" "sc_log s = sampleSkipped" by blast
  from scheduler_refines_ledger [OF s(1)] s(2,3) show ?thesis by auto
qed

theorem scheduler_log_accepted_witness:
  "\<exists>t. seedSession sampleSkipped = Inr t \<and> tc_pendingCalls t = {}"
proof -
  from sample_schedule obtain s where s: "(sched_step [sampleToolCall] 1 1 2)\<^sup>*\<^sup>* (sched_start sampleStepLog True) s"
    "sc_pc s = Returned" "sc_log s = sampleSkipped" by blast
  have "seedSession sampleStepLog = Inr (freshTrace\<lparr>tc_lastSeq := 1, tc_openTurn := Some 1, tc_openStep := Some 1\<rparr>)"
    by (simp add: sampleStepLog_def sampleEvent_def seedSession_def freshTrace_def trace_simps)
  from scheduler_log_accepted [OF s(1) _ _ this] s(2,3) show ?thesis
    by (auto simp: freshTrace_def sampleStepLog_def)
qed

theorem scheduler_progress_witness:
  "\<exists>s'. ownStep [sampleToolCall] 1 1 2 (sched_start sampleStepLog False) s'"
  using scheduler_progress [of "[sampleToolCall]" 1 1 2 sampleStepLog False "sched_start sampleStepLog False"]
  by (simp add: sched_start_def)

end
