(* ===== verification/Runtime_Context.thy ===== *)
theory Runtime_Context
  imports Surface
begin

text \<open>
  The runtime-context projection of the agent loop, \<open>core/agent-loop/src/runtime-context.ts\<close>: which
  runtime-context snapshot the model still sees, and whether the next step has to log a new one.

  The projection is restored from a log and its surface (\<open>restoreProjection\<close>) and then follows the
  events of that session (\<open>followEvent\<close>). The invariant \<open>projection_ok\<close> ties it to the surface replay:
  a retained snapshot is on the surface and no later snapshot is. So a step that logs nothing is a
  step whose rendered context the model already has.
\<close>

section \<open>The projection\<close>

definition SOURCE :: string where
  "SOURCE = ''@deepseek-ai/dsh-system-prompt''"

definition CLEARED :: string where
  "CLEARED = ''Current runtime context: none. Earlier runtime-context snapshots no longer apply.''"

text \<open>\<open>undefined\<close>, \<open>null\<close>, and a retained snapshot.\<close>

datatype retained = NeverRetained | NoneRetained | Retained int "string option"

record context_section =
  cs_name :: string
  cs_text :: string

definition isOwned :: "message \<Rightarrow> bool" where
  "isOwned m = (case msg_source m of PluginSource p _ \<Rightarrow> p = SOURCE | _ \<Rightarrow> False)"

definition textOf :: "message \<Rightarrow> string option" where
  "textOf m = (case msg_content m of [TextBlock t] \<Rightarrow> Some t | _ \<Rightarrow> None)"

fun ownedMessage :: "event_data \<Rightarrow> message option" where
  "ownedMessage (UserMessage m) = (if isOwned m then Some m else None)"
| "ownedMessage _ = None"

text \<open>The backward scan of the constructor; the list is the log from its end.\<close>

fun restoreLoop :: "int set \<Rightarrow> retained \<Rightarrow> session_event list \<Rightarrow> retained" where
  "restoreLoop surface r [] = r"
| "restoreLoop surface r (e # es) =
     (case ownedMessage (ev_data e) of
        None \<Rightarrow> restoreLoop surface r es
      | Some m \<Rightarrow>
          if ev_seq e \<in> surface then Retained (ev_seq e) (textOf m)
          else restoreLoop surface NoneRetained es)"

definition restoreProjection :: "int list \<Rightarrow> session_event list \<Rightarrow> retained" where
  "restoreProjection nodes evs = restoreLoop (set nodes) NeverRetained (rev evs)"

fun includesSeq :: "json option \<Rightarrow> int \<Rightarrow> bool" where
  "includesSeq (Some (JArr vs)) n = (JNum (of_int n) \<in> set vs)"
| "includesSeq _ _ = False"

definition followEvent :: "retained \<Rightarrow> session_event \<Rightarrow> retained" where
  "followEvent r e =
     (case ownedMessage (ev_data e) of
        Some m \<Rightarrow> Retained (ev_seq e) (textOf m)
      | None \<Rightarrow>
          (case r of
             Retained n t \<Rightarrow>
               if isReplacementSurfaceEvent e \<and> includesSeq (ev_sourceEventSeqs e) n
               then NoneRetained else r
           | _ \<Rightarrow> r))"

definition snapshotText :: "string \<Rightarrow> string" where
  "snapshotText current = (if current = [] then CLEARED else current)"

definition retainedText :: "retained \<Rightarrow> string option" where
  "retainedText r = (case r of Retained _ t \<Rightarrow> t | _ \<Rightarrow> None)"

definition section_json :: "context_section \<Rightarrow> json" where
  "section_json s = JObj [(''name'', JStr (cs_name s)), (''text'', JStr (cs_text s))]"

text \<open>The message id is what \<open>createUserMessage\<close> draws.\<close>

definition project ::
    "retained \<Rightarrow> string \<Rightarrow> context_section list \<Rightarrow> message_id \<Rightarrow> message option" where
  "project r current sections mid =
     (if r = NeverRetained \<and> current = [] then None
      else
        let snapshot = snapshotText current in
        if retainedText r = Some snapshot then None
        else Some
          \<lparr>msg_id = mid, msg_role = RoleUser, msg_content = [TextBlock snapshot],
           msg_source =
             (if sections = [] then PluginSource SOURCE (JObj [])
              else PluginSource SOURCE
                (JObj [(''form'', JStr ''snapshot''), (''sections'', JArr (map section_json sections))]))\<rparr>)"

section \<open>The projection and the surface\<close>

definition ownedAt :: "session_event list \<Rightarrow> int \<Rightarrow> message option" where
  "ownedAt evs n = Option.bind (js_index evs n) (\<lambda>e. ownedMessage (ev_data e))"

definition projection_ok :: "session_event list \<Rightarrow> int list \<Rightarrow> retained \<Rightarrow> bool" where
  "projection_ok evs nodes r =
     (case r of
        NeverRetained \<Rightarrow> \<forall>e \<in> set evs. ownedMessage (ev_data e) = None
      | NoneRetained \<Rightarrow> \<exists>e \<in> set evs. ownedMessage (ev_data e) \<noteq> None
      | Retained n t \<Rightarrow>
          n \<in> set nodes \<and> (\<exists>m. ownedAt evs n = Some m \<and> textOf m = t)
          \<and> (\<forall>k \<in> set nodes. n < k \<longrightarrow> ownedAt evs k = None))"

lemma ownedMessage_eligible: "ownedMessage (ev_data e) = Some m \<Longrightarrow> isSurfaceEligibleType (ev_type e)"
  by (cases "ev_data e") (auto simp: isSurfaceEligibleType_def SURFACE_EVENT_TYPES_def)

lemma ownedAt_snoc:
  "ownedAt (evs @ [e]) n =
     (if n = int (length evs) then ownedMessage (ev_data e) else ownedAt evs n)"
  by (auto simp: ownedAt_def js_index_def nth_append)

lemma restoreLoop_ok:
  assumes "\<And>i. i < length evs \<Longrightarrow> ev_seq (evs ! i) = int i"
    and "\<And>k. k \<in> surface \<Longrightarrow> int (length evs) \<le> k \<Longrightarrow> ownedAt (evs @ rest) k = None"
    and "r = (if \<exists>e \<in> set rest. ownedMessage (ev_data e) \<noteq> None then NoneRetained else NeverRetained)"
    and "set nodes = surface"
  shows "projection_ok (evs @ rest) nodes (restoreLoop surface r (rev evs))"
  using assms(1,2,3)
proof (induction evs arbitrary: rest r rule: rev_induct)
  case Nil
  then show ?case by (simp add: projection_ok_def)
next
  case (snoc e es)
  have seq: "ev_seq e = int (length es)" using snoc.prems(1) [of "length es"] by simp
  have seqs: "\<And>i. i < length es \<Longrightarrow> ev_seq (es ! i) = int i"
    using snoc.prems(1) by (metis length_append_singleton less_Suc_eq nth_append)
  have at: "ownedAt (es @ e # rest) (int (length es)) = ownedMessage (ev_data e)"
    by (simp add: ownedAt_def js_index_def)
  show ?case
  proof (cases "\<exists>m. ownedMessage (ev_data e) = Some m \<and> int (length es) \<in> surface")
    case True
    with seq at snoc.prems(2) assms(4) show ?thesis
      by (force simp: projection_ok_def)
  next
    case False
    have "ownedAt (es @ e # rest) k = None" if "k \<in> surface" "int (length es) \<le> k" for k
    proof (cases "k = int (length es)")
      case True
      with False that at show ?thesis by (cases "ownedMessage (ev_data e)") auto
    next
      case False
      with that snoc.prems(2) [of k] show ?thesis by simp
    qed
    from snoc.IH [OF seqs this, of "if ownedMessage (ev_data e) = None then r else NoneRetained"]
      False seq snoc.prems(3)
    show ?thesis by (cases "ownedMessage (ev_data e)") auto
  qed
qed

lemma replay_seqs:
  assumes "surfaceReplay 0 evs = Inr (evs, st, reps)" "i < length evs"
  shows "ev_seq (evs ! i) = int i"
proof -
  have split: "evs = take i evs @ evs ! i # drop (Suc i) evs"
    using assms(2) by (rule id_take_nth_drop)
  with assms(1) have "surfaceReplay 0 (take i evs @ evs ! i # drop (Suc i) evs) = Inr (evs, st, reps)"
    by simp
  then obtain s where s: "surfaceReplay 0 (take i evs) = Inr s"
    and tail: "foldE (surfaceStep 0) s (evs ! i # drop (Suc i) evs) = Inr (evs, st, reps)"
    by (drule_tac foldE_prefix) blast
  obtain st' reps' where "s = (take i evs, st', reps')"
    using s replay_log by (cases s) blast
  with tail have "planSurfaceEvent st' (evs ! i) (int (length (take i evs))) (take i evs) 0 \<noteq> Inl err" for err
    by (auto simp: surfaceStep_def applySurfaceEvent_def result_simps)
  from this [of "NotContiguous (ev_seq (evs ! i)) (int (length (take i evs)))"] assms(2) show ?thesis
    by (simp add: planSurfaceEvent_def split: if_splits)
qed

lemma restoreProjection_ok:
  assumes "surfaceReplay 0 evs = Inr (evs, st, reps)"
  shows "projection_ok evs (sf_nodes st) (restoreProjection (sf_nodes st) evs)"
proof -
  have "k < int (length evs)" if "k \<in> set (sf_nodes st)" for k
    using replay_nodes_bound [OF surface_replay.replay_inv [OF assms] that] by simp
  then show ?thesis
    using restoreLoop_ok [of evs "set (sf_nodes st)" "[]" NeverRetained "sf_nodes st"]
      replay_seqs [OF assms]
    by (force simp: restoreProjection_def)
qed

text \<open>What a replacement removes from the surface, it cites; so the projection notices.\<close>

lemma isEventSeq_value: "isEventSeq v \<Longrightarrow> v = JNum (of_int (seq_of v))"
  by (cases v) (auto simp: seq_of_def isSafeInteger_def isInteger_def)

lemma assertProvenance_includes:
  assumes "assertProvenance e sh = Inr ()" "n \<in> set sh"
  shows "includesSeq (ev_sourceEventSeqs e) n"
proof -
  from assms(1) obtain srcs where c: "citedSources e = Inr srcs"
    by (auto simp: assertProvenance_def result_simps)
  have n: "n \<in> set (sourceSeqs e)" using assertProvenance_Inr(1) [OF assms(1)] assms(2) by blast
  then obtain raw where raw: "ev_sourceEventSeqs e = Some raw"
    by (cases "ev_sourceEventSeqs e") (auto simp: sourceSeqs_def)
  with n obtain vs where vs: "ev_sourceEventSeqs e = Some (JArr vs)" "n \<in> seq_of ` set vs"
    by (cases raw) (auto simp: sourceSeqs_def)
  with c obtain out where "sourceLoop (ev_seq e) vs [] None = Inr out"
    by (auto simp: citedSources_def result_simps split: if_splits)
  then have "list_all isEventSeq vs" using sourceLoop_Inr by (cases out) blast
  with vs isEventSeq_value show ?thesis by (force simp: list_all_iff)
qed

lemma surfaceStep_replaces:
  assumes "surfaceStep base (evs, st, reps) e = Inr (evs', st', reps')" "reps' \<noteq> reps"
  shows "isReplacementSurfaceEvent e"
proof -
  from assms(1) obtain plan where p: "planSurfaceEvent st e (base + int (length evs)) evs base = Inr plan"
    by (auto simp: surfaceStep_def applySurfaceEvent_def result_simps)
  with assms have "snd (applySurfacePlan st plan) \<noteq> None"
    by (cases "snd (applySurfacePlan st plan)") (auto simp: surfaceStep_def applySurfaceEvent_def split: prod.splits)
  moreover from p obtain op where op: "surfaceOpOf e = Inr op"
    by (auto simp: planSurfaceEvent_def result_simps)
  ultimately have "op \<noteq> None \<and> op \<noteq> Some OpAppend"
    using p by (cases op) (auto simp: planSurfaceEvent_def result_simps)
  with op show ?thesis
    by (auto simp: surfaceOpOf_def isReplacementSurfaceEvent_def isSurfaceEvent_def split: if_splits option.splits)
qed

lemma projection_dropped:
  assumes "projection_ok evs nodes r" "ownedMessage (ev_data e) = None" "followEvent r e \<noteq> r"
  shows "projection_ok (evs @ [e]) nodes' (followEvent r e)"
proof -
  have "followEvent r e = NoneRetained" "\<exists>n t. r = Retained n t"
    using assms(2,3) by (auto simp: followEvent_def split: retained.splits if_splits)
  moreover have "\<exists>e \<in> set evs. ownedMessage (ev_data e) \<noteq> None" if "ownedAt evs n = Some m" for n m
    using that by (fastforce simp: ownedAt_def js_index_def bind_eq_Some_conv split: if_splits)
  ultimately show ?thesis using assms(1) by (fastforce simp: projection_ok_def)
qed

lemma projection_ok_node: "projection_ok evs nodes (Retained n t) \<Longrightarrow> n \<in> set nodes"
  by (simp add: projection_ok_def)

lemma projection_step:
  assumes inv: "surfaceInv 0 evs (evs, st, reps)" and ok: "projection_ok evs (sf_nodes st) r"
    and step: "surfaceStep 0 (evs, st, reps) e = Inr (evs', st', reps')"
  shows "projection_ok (evs @ [e]) (sf_nodes st') (followEvent r e)"
proof -
  note bound = replay_nodes_bound [OF inv]
  let ?n = "int (length evs)"
  have keep: "projection_ok (evs @ [e]) ns r"
    if "ownedMessage (ev_data e) = None" "set ns \<subseteq> insert ?n (set (sf_nodes st))"
      "\<And>k t. r = Retained k t \<Longrightarrow> k \<in> set ns" for ns
    using ok that bound by (cases r) (fastforce simp: projection_ok_def ownedAt_snoc)+
  have own: "projection_ok (evs @ [e]) ns (followEvent r e)"
    if "ownedMessage (ev_data e) = Some m" "ev_seq e = ?n" "?n \<in> set ns"
      "set ns \<subseteq> insert ?n (set (sf_nodes st))" for m ns
    using that bound by (force simp: projection_ok_def ownedAt_snoc followEvent_def)
  from step show ?thesis
  proof (cases rule: surfaceStep_cases)
    case skip
    then have "ownedMessage (ev_data e) = None" using ownedMessage_eligible by (cases "ownedMessage (ev_data e)") auto
    moreover have "followEvent r e = r"
      using calculation skip by (simp add: followEvent_def isReplacementSurfaceEvent_def isSurfaceEvent_def split: retained.split)
    moreover have "projection_ok (evs @ [e]) (sf_nodes st) r"
      using keep [OF calculation(1), of "sf_nodes st"] ok by (auto dest: projection_ok_node)
    ultimately show ?thesis using skip by simp
  next
    case append
    show ?thesis
    proof (cases "ownedMessage (ev_data e)")
      case None
      show ?thesis
      proof (cases "followEvent r e = r")
        case True
        with keep [OF None, of "sf_nodes st @ [?n]"] append ok show ?thesis
          by (auto dest: projection_ok_node)
      next
        case False
        with ok None show ?thesis by (intro projection_dropped)
      qed
    qed (use own append in auto)
  next
    case (replace a b i j sh rp)
    let ?ns = "spliceAt i (j + 1 - i) [?n] (sf_nodes st)"
    have st': "sf_nodes st' = ?ns" "reps' \<noteq> reps" using replace by auto
    have sh: "sh = splicedOut i (j + 1 - i) (sf_nodes st)"
      using replacementRange_Inr [OF replace(3)] by simp
    have sub: "set ?ns \<subseteq> insert ?n (set (sf_nodes st))" "?n \<in> set ?ns"
      using set_spliceAt_subset [of i "j + 1 - i" "[?n]" "sf_nodes st"] by (auto simp: spliceAt_def)
    have stays: "k \<in> set ?ns" if "k \<in> set (sf_nodes st)" "k \<notin> set sh" for k
      using that splice_parts [of "sf_nodes st" i "j + 1 - i"] unfolding sh
      by (metis Un_iff set_append spliceAt_def)
    show ?thesis
    proof (cases "ownedMessage (ev_data e)")
      case None
      show ?thesis
      proof (cases "followEvent r e = r")
        case True
        have "k \<notin> set sh" if "r = Retained k t" for k t
          using True None that assertProvenance_includes [OF replace(4)] surfaceStep_replaces [OF step st'(2)]
          by (auto simp: followEvent_def)
        with keep [OF None sub(1)] stays ok True st' show ?thesis by (auto dest: projection_ok_node)
      next
        case False
        with ok None show ?thesis by (intro projection_dropped)
      qed
    qed (use own replace sub st' in auto)
  qed
qed

text \<open>Restored at one moment, then following the log of the session.\<close>

definition liveProjection :: "session_event list \<Rightarrow> int list \<Rightarrow> session_event list \<Rightarrow> retained" where
  "liveProjection evs0 nodes0 evs = foldl followEvent (restoreProjection nodes0 evs0) evs"

lemma liveProjection_ok:
  assumes "surfaceReplay 0 (evs0 @ evs) = Inr (evs0 @ evs, st, reps)"
  shows "\<exists>nodes0 reps0. foldSurface evs0 = Inr (nodes0, reps0)
    \<and> projection_ok (evs0 @ evs) (sf_nodes st) (liveProjection evs0 nodes0 evs)"
  using assms
proof (induction evs arbitrary: st reps rule: rev_induct)
  case Nil
  then show ?case using restoreProjection_ok by (force simp: liveProjection_def foldSurface_Inr)
next
  case (snoc e es)
  from snoc.prems obtain s where s: "surfaceReplay 0 (evs0 @ es) = Inr s"
    and step: "surfaceStep 0 s e = Inr (evs0 @ es @ [e], st, reps)"
    unfolding append_assoc [symmetric] foldE_snoc_Inr by auto
  from s obtain st' reps' where [simp]: "s = (evs0 @ es, st', reps')"
    using replay_log by (cases s) blast
  from snoc.IH [OF s [simplified]] obtain nodes0 reps0 where n: "foldSurface evs0 = Inr (nodes0, reps0)"
    and ok: "projection_ok (evs0 @ es) (sf_nodes st') (liveProjection evs0 nodes0 es)" by blast
  have "surfaceInv 0 (evs0 @ es) (evs0 @ es, st', reps')"
    using surface_replay.replay_inv [OF s] by simp
  from projection_step [OF this ok, of e] step n show ?case
    by (auto simp: liveProjection_def)
qed

lemma textOf_Some: "textOf m = Some t \<longleftrightarrow> msg_content m = [TextBlock t]"
  by (auto simp: textOf_def split: list.splits content_block.splits)

lemma project_None:
  "project r current sections mid = None \<longleftrightarrow>
     (r = NeverRetained \<and> current = []) \<or> retainedText r = Some (snapshotText current)"
  by (auto simp: project_def Let_def retainedText_def)

lemma project_Some:
  assumes "project r current sections mid = Some m"
  shows "msg_id m = mid \<and> msg_role m = RoleUser \<and> isOwned m
    \<and> msg_content m = [TextBlock (snapshotText current)]"
  using assms by (auto simp: project_def Let_def isOwned_def split: if_splits)

section \<open>A sample log\<close>

text \<open>The second snapshot replaces the first.\<close>

definition sampleSnapshot :: "string \<Rightarrow> message" where
  "sampleSnapshot t =
     \<lparr>msg_id = t, msg_role = RoleUser, msg_content = [TextBlock t], msg_source = PluginSource SOURCE (JObj [])\<rparr>"

definition sampleContextLog :: "session_event list" where
  "sampleContextLog =
     [sampleEvent 0 (UserMessage (sampleSnapshot ''a'')) (Some op_append) None,
      sampleEvent 1 (UserMessage (sampleSnapshot ''b'')) (Some (op_replace 0 0)) (Some (seqs_json [0]))]"

lemma sampleContextLog_fold: "\<exists>reps. foldSurface sampleContextLog = Inr ([1], reps)"
  by (simp add: foldSurface_def sampleContextLog_def sampleSnapshot_def surface_eval)

section \<open>Properties\<close>

text \<open>
  C27. When the projection asks for no new snapshot, the model already has the current context: on any
  log the surface accepts, restored at any moment and followed from there, either no snapshot was ever
  logged and the context is empty, or the surface holds a snapshot with exactly the current text
  (the cleared marker for an empty context) and no later snapshot.
\<close>

theorem runtime_context_current:
  assumes "foldSurface evs0 = Inr (nodes0, reps0)" "foldSurface (evs0 @ evs) = Inr (nodes, reps)"
    and "project (liveProjection evs0 nodes0 evs) current sections mid = None"
  shows "(current = [] \<and> (\<forall>e \<in> set (evs0 @ evs). ownedMessage (ev_data e) = None))
    \<or> (\<exists>n \<in> set nodes. \<exists>m. ownedAt (evs0 @ evs) n = Some m
        \<and> msg_content m = [TextBlock (snapshotText current)]
        \<and> (\<forall>k \<in> set nodes. n < k \<longrightarrow> ownedAt (evs0 @ evs) k = None))"
proof -
  from assms(2) obtain st where "surfaceReplay 0 (evs0 @ evs) = Inr (evs0 @ evs, st, reps)"
    and [simp]: "nodes = sf_nodes st"
    by (auto simp: foldSurface_Inr)
  from liveProjection_ok [OF this(1)] assms(1)
  have "projection_ok (evs0 @ evs) nodes (liveProjection evs0 nodes0 evs)" by auto
  with assms(3) show ?thesis
    unfolding project_None
    by (cases "liveProjection evs0 nodes0 evs") (auto simp: projection_ok_def retainedText_def textOf_Some)
qed

theorem runtime_context_current_witness:
  "\<exists>m. ownedAt sampleContextLog 1 = Some m \<and> msg_content m = [TextBlock ''b'']"
proof -
  obtain reps where f: "foldSurface sampleContextLog = Inr ([1], reps)"
    using sampleContextLog_fold by blast
  have "foldSurface [] = Inr ([], [])" by (simp add: foldSurface_def createFoldState_def)
  moreover have "foldSurface ([] @ sampleContextLog) = Inr ([1], reps)" using f by simp
  moreover have "project (liveProjection [] [] sampleContextLog) ''b'' [] ''m'' = None"
    by (simp add: liveProjection_def restoreProjection_def sampleContextLog_def sampleEvent_def
        sampleSnapshot_def followEvent_def project_def isOwned_def textOf_def retainedText_def
        snapshotText_def)
  ultimately show ?thesis
    using runtime_context_current [of "[]" "[]" "[]" sampleContextLog "[1]" reps "''b''" "[]" "''m''"]
    by (auto simp: snapshotText_def)
qed

text \<open>
  A projected snapshot carries exactly the current text, and once it is logged the same context
  is not projected again, however its sections are named and whatever was retained before.
\<close>

theorem runtime_context_settles:
  assumes "project r current sections mid = Some m" "ev_data e = UserMessage m"
  shows "msg_content m = [TextBlock (snapshotText current)] \<and> isOwned m
    \<and> project (followEvent r e) current sections' mid' = None"
  using project_Some [OF assms(1)] assms(2)
  by (simp add: project_None followEvent_def retainedText_def textOf_def)

theorem runtime_context_settles_witness:
  "\<exists>m. project NeverRetained ''a'' [] ''m'' = Some m
    \<and> project (followEvent NeverRetained (sampleEvent 0 (UserMessage m) (Some op_append) None)) ''a'' [] ''n'' = None"
proof -
  obtain m where m: "project NeverRetained ''a'' [] ''m'' = Some m"
    by (simp add: project_def retainedText_def)
  from runtime_context_settles [OF m, of "sampleEvent 0 (UserMessage m) (Some op_append) None"] m
  show ?thesis by (auto simp: sampleEvent_def)
qed

end
