(* ===== verification/Agent_Request.thy ===== *)
theory Agent_Request
  imports Session_Log
begin

text \<open>
  The request an agent step sends: \<open>requestProposal\<close> and \<open>buildRequest\<close> of
  \<open>core/agent-loop/src/agent.ts\<close>, and the dispatch-time check of
  \<open>core/agent-loop/src/invariant.ts\<close> that the request can be rebuilt from the log.

  The world is a state \<open>'s\<close> with the log inside it, reached through the interface \<open>event_log\<close>. The
  request waterfall (\<open>waterfall\<close>) and the adapter lookup (\<open>prepare\<close>) are arguments and may change the
  world; \<open>aborted\<close> reads the turn's signal. \<open>requestHeader()\<close> and \<open>requestContext()\<close> are the folds
  of the log they were proved equal to (\<open>session_reads_agree\<close>). The lemmas show that the header
  and the context in the log after a build are the ones the request is made of.
\<close>

section \<open>Configuration\<close>

record agent_options =
  ao_provider :: "string option"
  ao_model :: "string option"
  ao_maxTokens :: "rat option"

definition requestProposal :: "epoch_header \<Rightarrow> call_config" where
  "requestProposal h =
     (case eh_adapterDefaults h of
        None \<Rightarrow> eh_config h
      | Some d \<Rightarrow>
          let proposal = eh_config h;
              proposal = (if ad_reasoningEffort d then proposal\<lparr>cc_reasoningEffort := None\<rparr> else proposal)
          in if ad_maxTokens d then proposal\<lparr>cc_maxTokens := None\<rparr> else proposal)"

definition orEmpty :: "string option \<Rightarrow> string" where
  "orEmpty v = (case v of Some x \<Rightarrow> x | None \<Rightarrow> [])"

definition restoredEffort :: "string \<Rightarrow> string \<Rightarrow> epoch_header option \<Rightarrow> string option" where
  "restoredEffort provider model persisted =
     (case persisted of
        None \<Rightarrow> None
      | Some h \<Rightarrow>
          if cc_provider (eh_config h) = provider \<and> cc_model (eh_config h) = model
             \<and> \<not> (case eh_adapterDefaults h of Some d \<Rightarrow> ad_reasoningEffort d | None \<Rightarrow> False)
          then cc_reasoningEffort (eh_config h) else None)"

text \<open>\<open>None\<close>: the instance logged a header, but the log holds none (the source asserts it cannot be).\<close>

definition seedConfig :: "agent_options \<Rightarrow> bool \<Rightarrow> epoch_header option \<Rightarrow> call_config option" where
  "seedConfig options logged persisted =
     (let provider = orEmpty (ao_provider options); model = orEmpty (ao_model options) in
      if logged then map_option requestProposal persisted
      else Some \<lparr>cc_provider = provider, cc_model = model,
                 cc_reasoningEffort = restoredEffort provider model persisted,
                 cc_temperature = None, cc_maxTokens = ao_maxTokens options, cc_stop = None\<rparr>)"

section \<open>Resolving the call\<close>

text \<open>The fields of a prepared call that the loop copies into the log.\<close>

record prepared_call =
  pr_config :: call_config
  pr_adapterDefaults :: adapter_defaults
  pr_contextWindow :: "rat option"

datatype 'x prepare_result = Prepared prepared_call | NoAdapter | PrepareThrew 'x

datatype ('e, 'x) request_error =
    RequestAborted
  | NoLoggedHeader
  | WaterfallThrew 'x
  | NoRoute
  | PrepareFailed 'x
  | HeaderRefused 'e
  | ContextRefused 'e

definition resolveCall ::
    "('s \<Rightarrow> call_config \<Rightarrow> 's \<times> ('x + call_config)) \<Rightarrow> ('s \<Rightarrow> call_config \<Rightarrow> 's \<times> 'x prepare_result)
      \<Rightarrow> ('s \<Rightarrow> bool) \<Rightarrow> call_config \<Rightarrow> 's
      \<Rightarrow> 's \<times> (('e, 'x) request_error + call_config \<times> prepared_call option)" where
  "resolveCall waterfall prepare aborted seed s =
     (case waterfall s seed of
        (s1, Inl x) \<Rightarrow> (s1, Inl (WaterfallThrew x))
      | (s1, Inr proposed) \<Rightarrow>
          if aborted s1 then (s1, Inl RequestAborted)
          else if cc_provider proposed = [] \<or> cc_model proposed = [] then (s1, Inl NoRoute)
          else
            (case prepare s1 proposed of
               (s2, PrepareThrew x) \<Rightarrow> (s2, Inl (PrepareFailed x))
             | (s2, Prepared p) \<Rightarrow>
                 (s2, if aborted s2 then Inl RequestAborted else Inr (pr_config p, Some p))
             | (s2, NoAdapter) \<Rightarrow>
                 (s2, if aborted s2 then Inl RequestAborted else Inr (proposed, None))))"

section \<open>Logging the header and the context\<close>

definition headerOf :: "call_config \<Rightarrow> prepared_call option \<Rightarrow> string \<Rightarrow> json list \<Rightarrow> epoch_header" where
  "headerOf config prepared system tools =
     canonicalHeader
       \<lparr>eh_config = config,
        eh_adapterDefaults = map_option pr_adapterDefaults prepared,
        eh_system = (if system = [] then None else Some system),
        eh_tools = (if tools = [] then None else Some tools)\<rparr>"

text \<open>The world together with \<open>requestHeaderLogged\<close>.\<close>

definition logHeader ::
    "('s \<Rightarrow> event_data \<Rightarrow> 's \<times> ('e + session_event)) \<Rightarrow> ('s \<Rightarrow> session_event list)
      \<Rightarrow> epoch_header \<Rightarrow> 's \<times> bool \<Rightarrow> ('s \<times> bool) \<times> (('e, 'x) request_error + unit)" where
  "logHeader app contents h = (\<lambda>(s, logged).
     let baseline = foldRequestHeader (contents s) None in
     if \<not> logged then
       (case app s (RequestHeader h (if baseline = None then ''initial'' else ''resume'')) of
          (s', Inl e) \<Rightarrow> ((s', False), Inl (HeaderRefused e))
        | (s', Inr _) \<Rightarrow> ((s', True), Inr ()))
     else if (case baseline of None \<Rightarrow> True | Some b \<Rightarrow> \<not> headerEquals b h) then
       (case app s (RequestHeader h ''change'') of
          (s', Inl e) \<Rightarrow> ((s', True), Inl (HeaderRefused e))
        | (s', Inr _) \<Rightarrow> ((s', True), Inr ()))
     else ((s, True), Inr ()))"

definition contextOf :: "call_config \<Rightarrow> prepared_call option \<Rightarrow> request_context" where
  "contextOf config prepared =
     \<lparr>rc_provider = cc_provider config, rc_model = cc_model config,
      rc_contextWindow = Option.bind prepared pr_contextWindow\<rparr>"

definition logContext ::
    "('s \<Rightarrow> event_data \<Rightarrow> 's \<times> ('e + session_event)) \<Rightarrow> ('s \<Rightarrow> session_event list)
      \<Rightarrow> request_context \<Rightarrow> 's \<Rightarrow> 's \<times> (('e, 'x) request_error + unit)" where
  "logContext app contents c s =
     (case foldl contextStep None (contents s) of
        Some previous \<Rightarrow>
          if rc_provider previous \<noteq> rc_provider c \<or> rc_model previous \<noteq> rc_model c
             \<or> rc_contextWindow previous \<noteq> rc_contextWindow c
          then (case app s (RequestContext c) of
                  (s', Inl e) \<Rightarrow> (s', Inl (ContextRefused e)) | (s', Inr _) \<Rightarrow> (s', Inr ()))
          else (s, Inr ())
      | None \<Rightarrow>
          (case app s (RequestContext c) of
             (s', Inl e) \<Rightarrow> (s', Inl (ContextRefused e)) | (s', Inr _) \<Rightarrow> (s', Inr ())))"

section \<open>The request\<close>

record loop_request =
  lr_config :: call_config
  lr_messages :: "message list"
  lr_system :: "string option"
  lr_tools :: "json list option"
  lr_sessionId :: string

definition composeRequest :: "epoch_header \<Rightarrow> message list \<Rightarrow> string \<Rightarrow> loop_request" where
  "composeRequest h boundaryMessages sid =
     \<lparr>lr_config = eh_config h, lr_messages = boundaryMessages, lr_system = eh_system h,
      lr_tools = eh_tools h, lr_sessionId = sid\<rparr>"

definition buildRequest ::
    "('s \<Rightarrow> event_data \<Rightarrow> 's \<times> ('e + session_event)) \<Rightarrow> ('s \<Rightarrow> session_event list)
      \<Rightarrow> ('s \<Rightarrow> call_config \<Rightarrow> 's \<times> ('x + call_config)) \<Rightarrow> ('s \<Rightarrow> call_config \<Rightarrow> 's \<times> 'x prepare_result)
      \<Rightarrow> ('s \<Rightarrow> bool) \<Rightarrow> agent_options \<Rightarrow> string \<Rightarrow> json list \<Rightarrow> string \<Rightarrow> message list
      \<Rightarrow> 's \<times> bool
      \<Rightarrow> ('s \<times> bool) \<times> (('e, 'x) request_error + loop_request \<times> prepared_call option)" where
  "buildRequest app contents waterfall prepare aborted options sid tools system boundaryMessages =
     (\<lambda>(s, logged).
       case seedConfig options logged (foldRequestHeader (contents s) None) of
         None \<Rightarrow> ((s, logged), Inl NoLoggedHeader)
       | Some seed \<Rightarrow>
         (case resolveCall waterfall prepare aborted seed s of
            (s1, Inl err) \<Rightarrow> ((s1, logged), Inl err)
          | (s1, Inr (config, prepared)) \<Rightarrow>
            let h = headerOf config prepared system tools in
            (case logHeader app contents h (s1, logged) of
               ((s2, logged2), Inl err) \<Rightarrow> ((s2, logged2), Inl err)
             | ((s2, logged2), Inr _) \<Rightarrow>
               (case logContext app contents (contextOf config prepared) s2 of
                  (s3, Inl err) \<Rightarrow> ((s3, logged2), Inl err)
                | (s3, Inr _) \<Rightarrow>
                    ((s3, logged2),
                     if aborted s3 then Inl RequestAborted
                     else Inr (composeRequest h boundaryMessages sid, prepared))))))"

section \<open>The dispatch-time check\<close>

datatype request_violation = NoStepStart | NoHeaderLogged | MessagesDiverge | HeaderDiverges

fun opensStep :: "event_data \<Rightarrow> bool" where
  "opensStep (StepStart _ _) = True"
| "opensStep _ = False"

definition headerMatches :: "loop_request \<Rightarrow> epoch_header \<Rightarrow> bool" where
  "headerMatches r h \<longleftrightarrow>
     cc_model (lr_config r) = cc_model (eh_config h)
     \<and> lr_system r = eh_system h
     \<and> cc_temperature (lr_config r) = cc_temperature (eh_config h)
     \<and> cc_maxTokens (lr_config r) = cc_maxTokens (eh_config h)
     \<and> cc_stop (lr_config r) = cc_stop (eh_config h)
     \<and> (case lr_tools r of Some ts \<Rightarrow> ts | None \<Rightarrow> []) = (case eh_tools h of Some ts \<Rightarrow> ts | None \<Rightarrow> [])"

text \<open>\<open>derived\<close> is what \<open>session.deriveMessages()\<close> returns at dispatch.\<close>

definition requestCheck ::
    "session_event list \<Rightarrow> message list \<Rightarrow> loop_request \<Rightarrow> request_violation option" where
  "requestCheck evs derived r =
     (if \<not> list_ex (\<lambda>e. opensStep (ev_data e)) evs then Some NoStepStart
      else case foldRequestHeader evs None of
          None \<Rightarrow> Some NoHeaderLogged
        | Some h \<Rightarrow>
            if lr_messages r \<noteq> derived then Some MessagesDiverge
            else if \<not> headerMatches r h then Some HeaderDiverges
            else None)"

section \<open>Header facts\<close>

lemma foldRequestHeader_canonical:
  "foldRequestHeader evs from = Some h \<Longrightarrow> (\<And>h'. from = Some h' \<Longrightarrow> canonicalHeader h' = h')
    \<Longrightarrow> canonicalHeader h = h"
proof (induction evs arbitrary: "from")
  case Nil
  then show ?case by simp
next
  case (Cons e es)
  from Cons.prems(1) have "foldRequestHeader es
      (case ev_data e of RequestHeader h _ \<Rightarrow> Some (canonicalHeader h) | _ \<Rightarrow> from) = Some h" by simp
  then show ?case
  proof (rule Cons.IH)
    fix h' assume "(case ev_data e of RequestHeader h _ \<Rightarrow> Some (canonicalHeader h) | _ \<Rightarrow> from) = Some h'"
    then show "canonicalHeader h' = h'"
      using Cons.prems(2) [of h'] by (cases "ev_data e") auto
  qed
qed

lemma foldRequestHeader_Some: "foldRequestHeader evs (Some h) \<noteq> None"
proof (induction evs arbitrary: h)
  case (Cons e es)
  then show ?case by (cases "ev_data e") simp_all
qed simp

lemma canonicalHeader_fix:
  "canonicalHeader h = h \<longleftrightarrow>
     (\<forall>d. eh_adapterDefaults h = Some d \<longrightarrow> ad_reasoningEffort d \<or> ad_maxTokens d)
     \<and> eh_system h \<noteq> Some [] \<and> eh_tools h \<noteq> Some []"
  by (cases h; cases "eh_adapterDefaults h"; cases "eh_system h"; cases "eh_tools h")
    (auto simp: canonicalHeader_def)

lemma headerEquals_canonical:
  assumes "headerEquals a b" "canonicalHeader a = a" "canonicalHeader b = b"
  shows "a = (b :: epoch_header)"
proof -
  note norm = canonicalHeader_fix [THEN iffD1]
  have "eh_config a = eh_config b" "eh_system a = eh_system b"
    using assms(1) by (auto simp: headerEquals_def Let_def)
  moreover have "eh_tools a = eh_tools b"
    using assms(1) norm [OF assms(2)] norm [OF assms(3)]
    by (cases "eh_tools a"; cases "eh_tools b") (auto simp: headerEquals_def Let_def list.rel_eq)
  moreover have "eh_adapterDefaults a = eh_adapterDefaults b"
    using assms(1) norm [OF assms(2)] norm [OF assms(3)]
    by (cases "eh_adapterDefaults a"; cases "eh_adapterDefaults b")
      (auto simp: headerEquals_def Let_def intro: adapter_defaults.equality)
  ultimately show ?thesis by (simp add: epoch_header.equality)
qed

lemma headerEquals_refl: "headerEquals h h"
  by (simp add: headerEquals_def Let_def list.rel_eq)

section \<open>What a build leaves in the log\<close>

definition grows :: "(event_data \<Rightarrow> bool) \<Rightarrow> session_event list \<Rightarrow> session_event list \<Rightarrow> bool" where
  "grows P evs evs' \<longleftrightarrow> (\<exists>more. evs' = evs @ more \<and> (\<forall>e \<in> set more. P (ev_data e)))"

lemma grows_refl [simp]: "grows P evs evs"
  by (simp add: grows_def)

lemma grows_trans: "grows P a b \<Longrightarrow> grows P b c \<Longrightarrow> grows P a c"
  by (fastforce simp: grows_def)

lemma grows_header: "grows P a b \<Longrightarrow> foldRequestHeader a None \<noteq> None \<Longrightarrow> foldRequestHeader b None \<noteq> None"
  unfolding grows_def by (metis foldRequestHeader_append foldRequestHeader_Some option.exhaust)

lemma canonicalHeader_headerOf [simp]: "canonicalHeader (headerOf c p system tools) = headerOf c p system tools"
  by (simp add: headerOf_def)

lemma foldRequestHeader_snoc [simp]:
  "foldRequestHeader (evs @ [e]) from =
     (case ev_data e of RequestHeader h _ \<Rightarrow> Some (canonicalHeader h) | _ \<Rightarrow> foldRequestHeader evs from)"
  by (simp add: foldRequestHeader_append)

definition hook_grows ::
    "('s \<Rightarrow> bool) \<Rightarrow> ('s \<Rightarrow> session_event list) \<Rightarrow> (event_data \<Rightarrow> bool) \<Rightarrow> ('s \<Rightarrow> call_config \<Rightarrow> 's \<times> 'r) \<Rightarrow> bool" where
  "hook_grows valid contents P hook \<longleftrightarrow>
     (\<forall>s c. valid s \<longrightarrow> valid (fst (hook s c)) \<and> grows P (contents s) (contents (fst (hook s c))))"

lemma hook_growsD:
  "hook_grows valid contents P hook \<Longrightarrow> hook s c = (s', r) \<Longrightarrow> valid s
    \<Longrightarrow> valid s' \<and> grows P (contents s) (contents s')"
  by (metis fst_conv hook_grows_def)

context event_log begin

lemma app_grows:
  assumes "valid s" "app s d = (s', r)" "P d"
  shows "valid s' \<and> grows P (contents s) (contents s')"
proof (cases r)
  case (Inl err)
  with assms app_Inl app_valid show ?thesis by fastforce
next
  case (Inr e)
  with assms app_Inr [OF assms(1), of d s' e] app_valid [OF assms(1,2)] show ?thesis
    by (auto simp: grows_def)
qed

lemma resolveCall_ok:
  assumes "valid s" "hook_grows valid contents P waterfall" "hook_grows valid contents P prepare"
    and "resolveCall waterfall prepare aborted seed s = (s', r)"
  shows "valid s' \<and> grows P (contents s) (contents s') \<and> r \<noteq> Inl NoLoggedHeader"
proof -
  obtain s1 r1 where w: "waterfall s seed = (s1, r1)" by force
  note w1 = hook_growsD [OF assms(2) w assms(1)]
  show ?thesis
  proof (cases r1)
    case (Inr proposed)
    obtain s2 r2 where p: "prepare s1 proposed = (s2, r2)" by force
    note p1 = hook_growsD [OF assms(3) p] w1
    from assms(4) w p Inr show ?thesis
      by (cases r2) (use p1 grows_trans in \<open>auto simp: resolveCall_def split: if_splits\<close>)
  qed (use assms(4) w w1 in \<open>auto simp: resolveCall_def\<close>)
qed

lemma logHeader_ok:
  assumes s: "valid s" and logged: "logged \<Longrightarrow> foldRequestHeader (contents s) None \<noteq> None"
    and P: "\<And>reason. P (RequestHeader h reason)" and h: "canonicalHeader h = h"
    and run: "logHeader app contents h (s, logged) = ((s', logged'), r)"
  shows "valid s' \<and> grows P (contents s) (contents s')
    \<and> (logged' \<longrightarrow> foldRequestHeader (contents s') None \<noteq> None) \<and> r \<noteq> Inl NoLoggedHeader
    \<and> (r = Inr () \<longrightarrow> logged' \<and> foldRequestHeader (contents s') None = Some h)"
proof -
  have wrote: "valid s' \<and> grows P (contents s) (contents s') \<and> foldRequestHeader (contents s') None = Some h"
    if "app s (RequestHeader h reason) = (s', Inr e)" for reason e
    using app_grows [where P = P, OF s that] P app_Inr [OF s that] h by simp
  have refused: "valid s' \<and> contents s' = contents s" if "app s (RequestHeader h reason) = (s', Inl err)" for reason err
    using app_Inl [OF s that] app_valid [OF s that] by simp
  show ?thesis
  proof (cases "logged \<and> (\<exists>b. foldRequestHeader (contents s) None = Some b \<and> headerEquals b h)")
    case True
    then obtain b where b: "foldRequestHeader (contents s) None = Some b" "headerEquals b h" by blast
    then have "b = h"
      using headerEquals_canonical h foldRequestHeader_canonical [OF b(1)] by blast
    with True run b s show ?thesis by (auto simp: logHeader_def)
  next
    case False
    let ?reason = "if logged then ''change''
      else if foldRequestHeader (contents s) None = None then ''initial'' else ''resume''"
    from False have "(case app s (RequestHeader h ?reason) of (s', Inl e) \<Rightarrow> ((s', logged), Inl (HeaderRefused e))
        | (s', Inr _) \<Rightarrow> ((s', True), Inr ())) = ((s', logged'), r)"
      using run False by (cases logged) (auto simp: logHeader_def Let_def split: option.splits if_splits)
    then show ?thesis
      using logged refused [of ?reason] wrote [of ?reason]
      by (cases "app s (RequestHeader h ?reason)"; cases "snd (app s (RequestHeader h ?reason))") auto
  qed
qed

lemma logContext_ok:
  assumes s: "valid s" and P: "P (RequestContext c)"
    and run: "logContext app contents c s = (s', r)"
  shows "valid s' \<and> grows P (contents s) (contents s') \<and> r \<noteq> Inl NoLoggedHeader
    \<and> foldRequestHeader (contents s') None = foldRequestHeader (contents s) None
    \<and> (r = Inr () \<longrightarrow> foldl contextStep None (contents s') = Some c)"
proof (cases "foldl contextStep None (contents s) = Some c")
  case True
  with run s show ?thesis by (auto simp: logContext_def)
next
  case False
  then have "(case app s (RequestContext c) of
      (s', Inl e) \<Rightarrow> (s', Inl (ContextRefused e)) | (s', Inr _) \<Rightarrow> (s', Inr ())) = (s', r)"
    using run by (auto simp: logContext_def intro: request_context.equality split: option.splits if_splits)
  then show ?thesis
    using app_Inl [OF s, of "RequestContext c" s'] app_Inr [OF s, of "RequestContext c" s']
      app_grows [where P = P and d = "RequestContext c", OF s] P
    by (cases "app s (RequestContext c)"; cases "snd (app s (RequestContext c))") auto
qed

lemma buildRequest_ok:
  fixes waterfall :: "'s \<Rightarrow> call_config \<Rightarrow> 's \<times> ('x + call_config)"
  assumes s: "valid s" and logged: "logged \<Longrightarrow> foldRequestHeader (contents s) None \<noteq> None"
    and hooks: "hook_grows valid contents P waterfall" "hook_grows valid contents P prepare"
    and P: "\<And>h reason. P (RequestHeader h reason)" "\<And>c. P (RequestContext c)"
    and run: "buildRequest app contents waterfall prepare aborted options sid tools system msgs (s, logged)
      = ((s', logged'), r)"
  shows "valid s' \<and> grows P (contents s) (contents s')
    \<and> (logged' \<longrightarrow> foldRequestHeader (contents s') None \<noteq> None) \<and> r \<noteq> Inl NoLoggedHeader
    \<and> (\<forall>req prepared. r = Inr (req, prepared) \<longrightarrow> logged' \<and>
        foldRequestHeader (contents s') None = Some (headerOf (lr_config req) prepared system tools)
        \<and> foldl contextStep None (contents s') = Some (contextOf (lr_config req) prepared)
        \<and> req = composeRequest (headerOf (lr_config req) prepared system tools) msgs sid)"
proof -
  obtain seed where seed: "seedConfig options logged (foldRequestHeader (contents s) None) = Some seed"
    using logged by (cases logged) (auto simp: seedConfig_def Let_def)
  obtain s1 r1 where c: "resolveCall waterfall prepare aborted seed s = (s1, r1 :: ('e, 'x) request_error + _)"
    by force
  note c1 = resolveCall_ok [OF s hooks c]
  then have keep: "foldRequestHeader (contents s1) None \<noteq> None" if logged
    using that logged grows_header by blast
  show ?thesis
  proof (cases r1)
    case (Inl err)
    with run seed c have "s' = s1" "logged' = logged" "r = Inl err"
      by (auto simp: buildRequest_def)
    with c1 keep Inl show ?thesis by auto
  next
    case (Inr cp)
    obtain config prepared where cp: "cp = (config, prepared)" by force
    let ?h = "headerOf config prepared system tools"
    obtain s2 logged2 r2 where h: "logHeader app contents ?h (s1, logged) = ((s2, logged2), r2 :: ('e, 'x) request_error + _)"
      by (metis prod.exhaust)
    note h1 = logHeader_ok [where P = P, OF conjunct1 [OF c1] keep P(1) canonicalHeader_headerOf h]
    then have g2: "grows P (contents s) (contents s2)" using c1 grows_trans by blast
    show ?thesis
    proof (cases r2)
      case Inl': (Inl err)
      with run seed c h Inr cp have "s' = s2" "logged' = logged2" "r = Inl err"
        by (auto simp: buildRequest_def Let_def)
      with h1 g2 Inl' show ?thesis by auto
    next
      case Inr': (Inr u)
      obtain s3 r3 where k: "logContext app contents (contextOf config prepared) s2 = (s3, r3 :: ('e, 'x) request_error + _)"
        by force
      note k1 = logContext_ok [where P = P, OF conjunct1 [OF h1] P(2) k]
      then have g3: "grows P (contents s) (contents s3)" using g2 grows_trans by blast
      have cfg: "eh_config ?h = config" by (simp add: headerOf_def canonicalHeader_def)
      from run seed c h k Inr Inr' cp
      have "s' = s3" "logged' = logged2"
        "r = (case r3 of Inl err \<Rightarrow> Inl err
           | Inr _ \<Rightarrow> if aborted s3 then Inl RequestAborted else Inr (composeRequest ?h msgs sid, prepared))"
        by (auto simp: buildRequest_def Let_def split: sum.splits)
      with h1 k1 g3 cfg Inr' show ?thesis
        by (auto simp: composeRequest_def split: sum.splits if_splits)
    qed
  qed
qed

end

section \<open>Derived messages\<close>

lemma foldSurface_quiet:
  assumes "foldSurface evs = Inr (nodes, reps)" "foldSurface (evs @ later) = Inr (nodes', reps')"
    and "\<forall>e \<in> set later. \<not> isSurfaceEligibleType (ev_type e)"
  shows "nodes' = nodes"
  using assms(2,3)
proof (induction later arbitrary: nodes' reps' rule: rev_induct)
  case Nil
  with assms(1) show ?case by simp
next
  case (snoc e es)
  then obtain st' where "surfaceReplay 0 ((evs @ es) @ [e]) = Inr (evs @ es @ [e], st', reps')" "nodes' = sf_nodes st'"
    by (auto simp: foldSurface_Inr)
  then obtain t where t: "surfaceReplay 0 (evs @ es) = Inr t" "surfaceStep 0 t e = Inr (evs @ es @ [e], st', reps')"
    unfolding foldE_snoc_Inr by blast
  then obtain st reps'' where [simp]: "t = (evs @ es, st, reps'')"
    using replay_log by (cases t) blast
  have "sf_nodes st = nodes"
    using snoc.IH [of "sf_nodes st" reps''] t(1) snoc.prems(2) by (auto simp: foldSurface_Inr)
  with t(2) snoc.prems(2) \<open>nodes' = sf_nodes st'\<close> show ?case
    by simp (auto elim: surfaceStep_cases)
qed

lemma derived_quiet:
  assumes "session_ok s" "session_ok s'"
    and "grows (\<lambda>d. \<not> isSurfaceEligibleType (event_type d)) (ss_log s) (ss_log s')"
  shows "snd (deriveMessages s') = snd (deriveMessages s)"
proof -
  from assms(3) obtain later where m: "ss_log s' = ss_log s @ later"
    "\<forall>e \<in> set later. \<not> isSurfaceEligibleType (ev_type e)" by (auto simp: grows_def)
  obtain nodes reps where f: "foldSurface (ss_log s) = Inr (nodes, reps)"
    by (rule session_ok_replay [OF assms(1)])
  obtain nodes' reps' where f': "foldSurface (ss_log s') = Inr (nodes', reps')"
    by (rule session_ok_replay [OF assms(2)])
  have "nodes' = nodes" using foldSurface_quiet [OF f f' [unfolded m(1)] m(2)] .
  moreover have "nodeMessages (ss_log s') nodes = nodeMessages (ss_log s) nodes"
    using nodeMessages_prefix [OF f] m(1) by simp
  ultimately show ?thesis
    by (simp only: deriveMessages_value [OF assms(1) f] deriveMessages_value [OF assms(2) f'])
qed

section \<open>A sample build\<close>

definition sampleRouteConfig :: call_config where
  "sampleRouteConfig = \<lparr>cc_provider = ''p'', cc_model = ''m'', cc_reasoningEffort = None,
     cc_temperature = None, cc_maxTokens = None, cc_stop = None\<rparr>"

definition sampleBoundaryLog :: "session_event list" where
  "sampleBoundaryLog =
     [sampleEvent 0 (TurnStart 1) None None, sampleEvent 1 (StepStart 1 1) None None]"

definition sampleStepSession :: session where
  "sampleStepSession = freshSession (minimalHeader ''s'' 0) sampleBoundaryLog (newSurfaceManager 0)"

definition sampleBuild ::
    "session \<times> bool \<Rightarrow> (session \<times> bool) \<times> ((session_error, unit) request_error + loop_request \<times> prepared_call option)" where
  "sampleBuild = buildRequest (\<lambda>s d. appendEvent s None 9 d NoIntent) ss_log
     (\<lambda>s c. (s, Inr c)) (\<lambda>s c. (s, NoAdapter)) (\<lambda>_. False)
     \<lparr>ao_provider = Some ''p'', ao_model = Some ''m'', ao_maxTokens = None\<rparr> ''s'' [] [] []"

lemma sampleStepSession_ok: "session_ok sampleStepSession"
proof -
  have "\<not> isl (foldSurface sampleBoundaryLog)"
    by (simp add: foldSurface_def sampleBoundaryLog_def surface_eval)
  then show ?thesis
    unfolding sampleStepSession_def foldSurface_ok_iff by (rule session_ok_fresh [OF manager_ok_new])
qed

lemma sampleBuild_runs:
  "\<exists>s' req. sampleBuild (sampleStepSession, False) = ((s', True), Inr (req, None))
     \<and> lr_config req = sampleRouteConfig
     \<and> map ev_data (ss_log s') = [TurnStart 1, StepStart 1 1,
         RequestHeader \<lparr>eh_config = sampleRouteConfig, eh_adapterDefaults = None, eh_system = None, eh_tools = None\<rparr> ''initial'',
         RequestContext \<lparr>rc_provider = ''p'', rc_model = ''m'', rc_contextWindow = None\<rparr>]"
  by (simp add: sampleBuild_def buildRequest_def seedConfig_def restoredEffort_def orEmpty_def resolveCall_def
      logHeader_def logContext_def contextOf_def headerOf_def canonicalHeader_def composeRequest_def
      sampleRouteConfig_def sampleStepSession_def sampleBoundaryLog_def session_eval surface_eval Let_def)

lemma sample_hooks:
  "hook_grows session_ok ss_log P (\<lambda>s c. (s, Inr c))" "hook_grows session_ok ss_log P (\<lambda>s c. (s, NoAdapter))"
  by (simp_all add: hook_grows_def)

section \<open>Properties\<close>

text \<open>C28.
  Every request the loop builds can be rebuilt from the log: whatever the request waterfall and the adapter
  lookup propose, as long as they append nothing the surface shows, the request built inside an open step
  passes the dispatch-time check, and its whole configuration, prompt, tools and route are those of the
  header and the context folded from the log.
\<close>

theorem built_request_reconstructs:
  assumes "session_ok s" "logged \<Longrightarrow> foldRequestHeader (ss_log s) None \<noteq> None"
    and "hook_grows session_ok ss_log (\<lambda>d. \<not> isSurfaceEligibleType (event_type d)) waterfall"
    and "hook_grows session_ok ss_log (\<lambda>d. \<not> isSurfaceEligibleType (event_type d)) prepare"
    and "\<exists>e \<in> set (ss_log s). opensStep (ev_data e)" "snd (deriveMessages s) = Inr msgs"
    and "buildRequest (\<lambda>s d. appendEvent s entry now d NoIntent) ss_log waterfall prepare aborted
      options sid tools system msgs (s, logged) = ((s', logged'), Inr (req, prepared))"
  shows "snd (deriveMessages s') = Inr msgs \<and> requestCheck (ss_log s') msgs req = None
    \<and> (\<exists>h. foldRequestHeader (ss_log s') None = Some h \<and> req = composeRequest h msgs sid)
    \<and> foldl contextStep None (ss_log s') = Some (contextOf (lr_config req) prepared)"
proof -
  let ?quiet = "\<lambda>d. \<not> isSurfaceEligibleType (event_type d)"
  have P: "?quiet (RequestHeader h reason)" "?quiet (RequestContext c)" for h reason c
    by (simp_all add: isSurfaceEligibleType_def SURFACE_EVENT_TYPES_def)
  note b = session_log.buildRequest_ok [where P = ?quiet, OF assms(1-4) P assms(7)]
  then obtain h where h: "foldRequestHeader (ss_log s') None = Some h" "req = composeRequest h msgs sid"
    by blast
  have d: "snd (deriveMessages s') = Inr msgs"
    using derived_quiet [OF assms(1), of s'] b assms(6) by simp
  have "list_ex (\<lambda>e. opensStep (ev_data e)) (ss_log s')"
    using b assms(5) by (auto simp: grows_def list_ex_iff)
  then have "requestCheck (ss_log s') msgs req = None"
    using h by (simp add: requestCheck_def composeRequest_def headerMatches_def)
  with b d h show ?thesis by blast
qed

theorem built_request_reconstructs_witness:
  "\<exists>s' req. sampleBuild (sampleStepSession, False) = ((s', True), Inr (req, None))
     \<and> requestCheck (ss_log s') [] req = None"
proof -
  obtain s' req where b: "sampleBuild (sampleStepSession, False) = ((s', True), Inr (req, None))"
    using sampleBuild_runs by blast
  have d: "snd (deriveMessages sampleStepSession) = Inr []"
    by (simp add: sampleStepSession_def sampleBoundaryLog_def session_eval surface_eval Let_def)
  have e: "\<exists>e \<in> set (ss_log sampleStepSession). opensStep (ev_data e)"
    by (simp add: sampleStepSession_def sampleBoundaryLog_def freshSession_def sampleEvent_def)
  have "requestCheck (ss_log s') [] req = None"
    using built_request_reconstructs [OF sampleStepSession_ok _ sample_hooks e d b [unfolded sampleBuild_def]]
    by simp
  with b show ?thesis by blast
qed

text \<open>The header anchor is never lost: once an instance has logged a header, no build (failing or not, with any
  hooks that only append) meets a log without one, so the source's non-null assertion holds; and every
  outcome leaves the instance in a state where that is still so.
\<close>

theorem header_anchor_kept:
  assumes "session_ok s" "logged \<Longrightarrow> foldRequestHeader (ss_log s) None \<noteq> None"
    and "hook_grows session_ok ss_log (\<lambda>_. True) waterfall" "hook_grows session_ok ss_log (\<lambda>_. True) prepare"
    and "buildRequest (\<lambda>s d. appendEvent s entry now d NoIntent) ss_log waterfall prepare aborted
      options sid tools system msgs (s, logged) = ((s', logged'), r)"
  shows "r \<noteq> Inl NoLoggedHeader \<and> session_ok s' \<and> (logged' \<longrightarrow> foldRequestHeader (ss_log s') None \<noteq> None)
    \<and> (\<exists>later. ss_log s' = ss_log s @ later)"
  using session_log.buildRequest_ok [where P = "\<lambda>_. True", OF assms(1-4) _ _ assms(5)]
  by (auto simp: grows_def)

theorem header_anchor_kept_witness:
  "\<exists>s' req. sampleBuild (sampleStepSession, False) = ((s', True), Inr (req, None))
     \<and> snd (sampleBuild (s', True)) \<noteq> Inl NoLoggedHeader"
proof -
  obtain s' req where b: "sampleBuild (sampleStepSession, False) = ((s', True), Inr (req, None))"
    using sampleBuild_runs by blast
  note k = header_anchor_kept [OF sampleStepSession_ok _ sample_hooks b [unfolded sampleBuild_def]]
  obtain s2 l2 r2 where b2: "sampleBuild (s', True) = ((s2, l2), r2)" by (metis prod.exhaust)
  have "r2 \<noteq> Inl NoLoggedHeader"
    using header_anchor_kept [OF _ _ sample_hooks b2 [unfolded sampleBuild_def]] k by simp
  with b b2 show ?thesis by simp
qed

text \<open>
  An unchanged configuration is logged once: a build that resolves to the call the previous build sent
  appends no header and no context event.
\<close>

theorem unchanged_request_logs_nothing:
  assumes "session_ok s" "logged \<Longrightarrow> foldRequestHeader (ss_log s) None \<noteq> None"
    and "hook_grows session_ok ss_log (\<lambda>_. True) waterfall" "hook_grows session_ok ss_log (\<lambda>_. True) prepare"
    and "buildRequest (\<lambda>s d. appendEvent s entry now d NoIntent) ss_log waterfall prepare aborted
      options sid tools system msgs (s, logged) = ((s1, logged1), Inr (req, prepared))"
    and "\<And>seed. resolveCall waterfall2 prepare2 aborted2 seed s1
      = (s1, Inr (lr_config req, prepared) :: (session_error, 'x) request_error + _)"
  shows "fst (buildRequest (\<lambda>s d. appendEvent s entry now2 d NoIntent) ss_log waterfall2 prepare2 aborted2
      options2 sid tools system msgs2 (s1, logged1)) = (s1, True)"
proof -
  note b = session_log.buildRequest_ok [where P = "\<lambda>_. True", OF assms(1-4) _ _ assms(5)]
  then have "logged1" and h: "foldRequestHeader (ss_log s1) None = Some (headerOf (lr_config req) prepared system tools)"
    and c: "foldl contextStep None (ss_log s1) = Some (contextOf (lr_config req) prepared)" by auto
  moreover from h have "\<exists>seed. seedConfig options2 True (foldRequestHeader (ss_log s1) None) = Some seed"
    by (simp add: seedConfig_def Let_def)
  ultimately show ?thesis
    using assms(6)
    by (auto simp: buildRequest_def logHeader_def logContext_def headerEquals_refl Let_def)
qed

theorem unchanged_request_logs_nothing_witness:
  "\<exists>s' req. sampleBuild (sampleStepSession, False) = ((s', True), Inr (req, None))
     \<and> fst (buildRequest (\<lambda>s d. appendEvent s None 10 d NoIntent) ss_log
         (\<lambda>s c. (s, Inr sampleRouteConfig :: unit + call_config)) (\<lambda>s c. (s, NoAdapter)) (\<lambda>_. False)
         \<lparr>ao_provider = None, ao_model = None, ao_maxTokens = None\<rparr> ''s'' [] [] [] (s', True)) = (s', True)"
proof -
  obtain s' req where b: "sampleBuild (sampleStepSession, False) = ((s', True), Inr (req, None))"
    and req: "lr_config req = sampleRouteConfig" using sampleBuild_runs by blast
  have "fst (buildRequest (\<lambda>s d. appendEvent s None 10 d NoIntent) ss_log
         (\<lambda>s c. (s, Inr sampleRouteConfig :: unit + call_config)) (\<lambda>s c. (s, NoAdapter)) (\<lambda>_. False)
         \<lparr>ao_provider = None, ao_model = None, ao_maxTokens = None\<rparr> ''s'' [] [] [] (s', True)) = (s', True)"
    by (rule unchanged_request_logs_nothing [OF sampleStepSession_ok _ sample_hooks b [unfolded sampleBuild_def]])
      (simp_all add: resolveCall_def req, simp_all add: sampleRouteConfig_def)
  with b show ?thesis by blast
qed

end
