(* ===== verification/Agent_Driver.thy ===== *)
theory Agent_Driver
  imports Tool_Scheduler Agent_Inbox Block_Assembler Agent_Request
begin

text \<open>
  The agent driver, class \<open>ReactLoopAgent\<close> of \<open>core/agent-loop/src/agent.ts\<close>: queued turns, their
  steps, the model request of a step and its tool calls.

  The object is one asynchronous activity (\<open>kick\<close>, \<open>turn\<close>, \<open>preStep\<close>, \<open>step\<close>) and the calls of others
  (\<open>send\<close>, \<open>cancel\<close>, \<open>runMaintenance\<close>, uses of the public inbox, foreign appends). It is a step relation:
  \<open>driver_step\<close> has one rule per stretch between two awaits and outcome of the stretch, \<open>dr_pc\<close> naming
  the await; \<open>outer_step\<close> has the calls of others, which may happen at any await. Inside a stretch the
  components' own functions run: the inbox operations, \<open>logHeader\<close> and \<open>logContext\<close>, the assembler, and
  steps of the tool scheduler. Answers of other packages (prompt assembly, hooks, adapters, streams) are
  rule instances; every call that may throw has a throwing rule. Every append may be refused.

  Session observers are assumed not to call back into the agent during an append, and the runtime-context
  message of \<open>preStep\<close> is any optional message (\<open>Runtime_Context\<close> says which).
\<close>

section \<open>State\<close>

datatype phase =
    Idle int
  | Maintenance int "cancel_cause option" bool
  | Running int int "cancel_cause option" bool

datatype thrown = LlmThrown llm_failure | OtherThrown string

type_synonym ending = "turn_end_reason option"
type_synonym prompt = "string \<times> json list"

text \<open>How \<open>turn\<close> leaves its loop: \<open>return false\<close>, \<open>break\<close>, or a rethrow.\<close>

datatype exit = ExitReturn | ExitBreak | ExitThrow

datatype driver_pc =
    Off
  | TurnTop
  | LoopTop inbox_target ending
  | Assembling ending "message list"
  | Proposing ending prompt "message list"
  | StepMessages ending prompt "message list"
  | Requesting ending prompt
  | Streaming ending prompt string string assembler "int list"
  | Recovering ending prompt llm_failure
  | Tools ending "tool_call list" sched
  | StepExit ending "thrown + ending"
  | AfterStep ending
  | Stopping turn_end_reason
  | Converge

text \<open>
  \<open>dr_broken\<close> is a history flag of the model, never read by a step: an append of \<open>step/end\<close> or \<open>turn/end\<close>
  was refused, or a model message repeated a tool-call id.
\<close>

record driver =
  dr_log :: "session_event list"
  dr_inbox :: inbox
  dr_phase :: phase
  dr_pc :: driver_pc
  dr_headerLogged :: bool
  dr_broken :: bool

section \<open>Appends and endings\<close>

text \<open>
  \<open>session.append\<close> as the inbox and the request use it: it adds the event at the next sequence number
  or throws and changes nothing.
\<close>

definition sound_append ::
    "(session_event list \<Rightarrow> event_data \<Rightarrow> session_event list \<times> (string + session_event)) \<Rightarrow> bool" where
  "sound_append app \<longleftrightarrow>
     (\<forall>slog d. (\<exists>err. app slog d = (slog, Inl err))
       \<or> (\<exists>now. app slog d = (slog @ [logged slog now d None], Inr (logged slog now d None))))"

definition userEvent :: "session_event list \<Rightarrow> int \<Rightarrow> message \<Rightarrow> session_event" where
  "userEvent slog now m = (logged slog now (UserMessage m) None)\<lparr>ev_surfaceOp := Some op_append\<rparr>"

fun failureOf :: "thrown \<Rightarrow> llm_failure" where
  "failureOf (LlmThrown f) = f"
| "failureOf (OtherThrown chain) =
     \<lparr>lf_message = chain, lf_code = ''UNKNOWN'', lf_status = None, lf_providerRetryAfterMs = None,
      lf_requestId = None\<rparr>"

fun abortOf :: "phase \<Rightarrow> cancel_cause option" where
  "abortOf (Idle _) = None"
| "abortOf (Maintenance _ ab _) = ab"
| "abortOf (Running _ _ ab _) = ab"

text \<open>The \<open>finally\<close> of \<open>turn\<close> with what follows it; \<open>refused\<close> is the fate of the append.\<close>

definition endTurn :: "int \<Rightarrow> bool \<Rightarrow> turn_end_reason \<Rightarrow> exit \<Rightarrow> driver \<Rightarrow> driver" where
  "endTurn now refused reason exit s =
     (case dr_phase s of
        Running turn step ab wake \<Rightarrow>
          if refused then s\<lparr>dr_pc := Converge, dr_broken := True\<rparr>
          else
            let s1 = s\<lparr>dr_log := dr_log s @ [logged (dr_log s) now (TurnEnd turn reason) None]\<rparr> in
            if exit \<noteq> ExitBreak \<or> \<not> hasPending (dr_inbox s) then s1\<lparr>dr_pc := Converge\<rparr>
            else s1\<lparr>dr_phase := Running turn 0 None False, dr_pc := TurnTop\<rparr>
      | _ \<Rightarrow> s)"

text \<open>The \<open>catch\<close> of \<open>turn\<close>.\<close>

definition caught :: "int \<Rightarrow> bool \<Rightarrow> thrown \<Rightarrow> driver \<Rightarrow> driver" where
  "caught now refused err s =
     endTurn now refused
       (case abortOf (dr_phase s) of Some cause \<Rightarrow> EndAborted cause | None \<Rightarrow> EndError (failureOf err))
       ExitThrow s"

definition nextEnding :: "ending \<Rightarrow> ending \<Rightarrow> ending" where
  "nextEnding turnEnds stepEnd = (if turnEnds = Some EndMaxTokens then turnEnds else stepEnd)"

text \<open>The \<open>finally\<close> around \<open>step\<close>: an accepted \<open>step/end\<close>, then the outcome of the step.\<close>

definition leaveStep :: "int \<Rightarrow> bool \<Rightarrow> ending \<Rightarrow> thrown + ending \<Rightarrow> driver \<Rightarrow> driver" where
  "leaveStep now refused ends outcome s =
     (case dr_phase s of
        Running turn step ab wake \<Rightarrow>
          let s1 = s\<lparr>dr_log := dr_log s @ [logged (dr_log s) now (StepEnd turn step) None]\<rparr> in
          (case outcome of
             Inl err \<Rightarrow> caught now refused err s1
           | Inr stepEnd \<Rightarrow> s1\<lparr>dr_pc := AfterStep (nextEnding ends stepEnd)\<rparr>)
      | _ \<Rightarrow> s)"

definition wakeDriver :: "bool \<Rightarrow> driver \<Rightarrow> driver" where
  "wakeDriver wakeAfterAbort s =
     (case dr_phase s of
        Idle lastTurn \<Rightarrow> s\<lparr>dr_phase := Running lastTurn 0 None False, dr_pc := TurnTop\<rparr>
      | Maintenance lastTurn ab wake \<Rightarrow>
          if ab = Some CauseDisposed then s else s\<lparr>dr_phase := Maintenance lastTurn ab True\<rparr>
      | Running turn step ab wake \<Rightarrow>
          if ab \<noteq> Some CauseDisposed \<and> wakeAfterAbort
          then s\<lparr>dr_phase := Running turn step ab True\<rparr> else s)"

text \<open>Back to idle, with the replay of a latched wake.\<close>

definition settleIdle :: "int \<Rightarrow> bool \<Rightarrow> driver \<Rightarrow> driver" where
  "settleIdle lastTurn wake s =
     (let s1 = s\<lparr>dr_phase := Idle lastTurn, dr_pc := Off\<rparr> in
      if wake \<and> hasPending (dr_inbox s1) then wakeDriver False s1 else s1)"

text \<open>The contexts of a tool result, each spliced to the end of the next-step inbox.\<close>

fun acceptContexts ::
    "(session_event list \<Rightarrow> event_data \<Rightarrow> session_event list \<times> (string + session_event))
      \<Rightarrow> session_event list \<Rightarrow> inbox \<Rightarrow> message list \<Rightarrow> (session_event list \<times> inbox) option" where
  "acceptContexts app slog ib [] = Some (slog, ib)"
| "acceptContexts app slog ib (m # ms) =
     (let o1 = inboxSplice app slog ib NextStep (natNum (length (ib_nextStep ib))) (natNum 0) [m] in
      case io_result o1 of
        Inl _ \<Rightarrow> None
      | Inr _ \<Rightarrow> acceptContexts app (io_log o1) (io_inbox o1) ms)"

section \<open>The driver\<close>

fun toolCallOf :: "content_block \<Rightarrow> tool_call option" where
  "toolCallOf (ToolCallBlock i n a) = Some \<lparr>tl_id = i, tl_name = n, tl_arguments = a\<rparr>"
| "toolCallOf _ = None"

definition toolCallsOf :: "content_block list \<Rightarrow> tool_call list" where
  "toolCallsOf bs = List.map_filter toolCallOf bs"

definition assistantMessage ::
    "message_id \<Rightarrow> content_block list \<Rightarrow> string \<Rightarrow> string \<Rightarrow> replay_envelope option \<Rightarrow> message" where
  "assistantMessage mid bs provider model state =
     \<lparr>msg_id = mid, msg_role = RoleAssistant, msg_content = bs,
      msg_source = ModelSource provider model (map_option replay_json state)\<rparr>"

text \<open>What \<open>step\<close> does after the assistant message is logged.\<close>

definition afterMessage :: "ending \<Rightarrow> finish_reason \<Rightarrow> content_block list \<Rightarrow> driver \<Rightarrow> driver" where
  "afterMessage ends reason bs s =
     (let calls = toolCallsOf bs in
      if reason = FinishMaxTokens then s\<lparr>dr_pc := StepExit ends (Inr (Some EndMaxTokens))\<rparr>
      else if calls = [] then s\<lparr>dr_pc := StepExit ends (Inr (Some EndCompleted))\<rparr>
      else s\<lparr>dr_pc := Tools ends calls (sched_start (dr_log s) (abortOf (dr_phase s) \<noteq> None)),
             dr_broken := (dr_broken s \<or> \<not> distinct (map tl_id calls))\<rparr>)"

text \<open>The scheduler sees the session's log and the turn's signal.\<close>

definition syncSched :: "driver \<Rightarrow> sched \<Rightarrow> sched" where
  "syncSched s sc = sc\<lparr>sc_log := dr_log s, sc_signal := (abortOf (dr_phase s) \<noteq> None)\<rparr>"

inductive driver_step :: "nat \<Rightarrow> driver \<Rightarrow> driver \<Rightarrow> bool"
  for maxParallel :: nat where
  turn_aborted: "\<lbrakk>dr_pc s = TurnTop; dr_phase s = Running turn step (Some cause) wake\<rbrakk>
    \<Longrightarrow> driver_step maxParallel s (s\<lparr>dr_pc := Converge\<rparr>)"
| turn_refused: "\<lbrakk>dr_pc s = TurnTop; dr_phase s = Running turn step None wake\<rbrakk>
    \<Longrightarrow> driver_step maxParallel s (s\<lparr>dr_pc := Converge\<rparr>)"
| turn_opens: "\<lbrakk>dr_pc s = TurnTop; dr_phase s = Running turn step None wake\<rbrakk>
    \<Longrightarrow> driver_step maxParallel s
         (s\<lparr>dr_log := dr_log s @ [logged (dr_log s) now (TurnStart (turn + 1)) None],
            dr_phase := Running (turn + 1) step None wake, dr_pc := LoopTop NextTurn None\<rparr>)"
| loop_aborted: "\<lbrakk>dr_pc s = LoopTop target ends; dr_phase s = Running turn step (Some cause) wake\<rbrakk>
    \<Longrightarrow> driver_step maxParallel s (caught now refused err s)"
| loop_claims: "\<lbrakk>dr_pc s = LoopTop target ends; dr_phase s = Running turn step None wake; sound_append app;
     o1 = claim app (dr_log s) (dr_inbox s) target turn; io_result o1 = Inr batch\<rbrakk>
    \<Longrightarrow> driver_step maxParallel s
         (s\<lparr>dr_log := io_log o1, dr_inbox := io_inbox o1, dr_pc := Assembling ends batch\<rparr>)"
| loop_claim_throws: "\<lbrakk>dr_pc s = LoopTop target ends; dr_phase s = Running turn step None wake; sound_append app;
     o1 = claim app (dr_log s) (dr_inbox s) target turn; io_result o1 = Inl e\<rbrakk>
    \<Longrightarrow> driver_step maxParallel s
         (caught now refused err (s\<lparr>dr_log := io_log o1, dr_inbox := io_inbox o1\<rparr>))"
| assemble_throws: "dr_pc s = Assembling ends claimed
    \<Longrightarrow> driver_step maxParallel s (caught now refused err s)"
| assemble_done: "\<lbrakk>dr_pc s = Assembling ends claimed; abortOf (dr_phase s) = None; length ctx \<le> 1\<rbrakk>
    \<Longrightarrow> driver_step maxParallel s (s\<lparr>dr_pc := Proposing ends prompt (claimed @ ctx)\<rparr>)"
| pre_step_throws: "dr_pc s = Proposing ends prompt proposed
    \<Longrightarrow> driver_step maxParallel s (caught now refused err s)"
| pre_step_rejects: "\<lbrakk>dr_pc s = Proposing ends prompt proposed; abortOf (dr_phase s) = None\<rbrakk>
    \<Longrightarrow> driver_step maxParallel s (endTurn now refused EndBlocked ExitReturn s)"
| pre_step_breaks: "\<lbrakk>dr_pc s = Proposing (Some reason) prompt proposed; abortOf (dr_phase s) = None\<rbrakk>
    \<Longrightarrow> driver_step maxParallel s (endTurn now refused reason ExitBreak s)"
| pre_step_idle: "\<lbrakk>dr_pc s = Proposing None prompt proposed; dr_phase s = Running turn 0 None wake\<rbrakk>
    \<Longrightarrow> driver_step maxParallel s (endTurn now refused EndCompleted ExitReturn s)"
| pre_step_refused: "\<lbrakk>dr_pc s = Proposing ends prompt proposed; dr_phase s = Running turn step None wake;
     (messages :: message list) \<noteq> [] \<or> ends = None \<and> step \<noteq> 0\<rbrakk>
    \<Longrightarrow> driver_step maxParallel s (caught now refused err s)"
| pre_step_enters: "\<lbrakk>dr_pc s = Proposing ends prompt proposed; dr_phase s = Running turn step None wake;
     messages \<noteq> [] \<or> ends = None \<and> step \<noteq> 0\<rbrakk>
    \<Longrightarrow> driver_step maxParallel s
         (s\<lparr>dr_log := dr_log s @ [logged (dr_log s) now (StepStart turn (step + 1)) None],
            dr_phase := Running turn (step + 1) None wake, dr_pc := StepMessages ends prompt messages\<rparr>)"
| message_logged: "dr_pc s = StepMessages ends prompt (m # ms)
    \<Longrightarrow> driver_step maxParallel s
         (s\<lparr>dr_log := dr_log s @ [userEvent (dr_log s) now m], dr_pc := StepMessages ends prompt ms\<rparr>)"
| message_refused: "dr_pc s = StepMessages ends prompt (m # ms)
    \<Longrightarrow> driver_step maxParallel s (s\<lparr>dr_pc := StepExit ends (Inl err)\<rparr>)"
| step_aborted: "\<lbrakk>dr_pc s = StepMessages ends prompt []; abortOf (dr_phase s) = Some cause\<rbrakk>
    \<Longrightarrow> driver_step maxParallel s (s\<lparr>dr_pc := StepExit ends (Inl err)\<rparr>)"
| step_begins: "\<lbrakk>dr_pc s = StepMessages ends prompt []; abortOf (dr_phase s) = None\<rbrakk>
    \<Longrightarrow> driver_step maxParallel s (s\<lparr>dr_pc := Requesting ends prompt\<rparr>)"
| request_throws: "dr_pc s = Requesting ends prompt
    \<Longrightarrow> driver_step maxParallel s (s\<lparr>dr_pc := StepExit ends (Inl err)\<rparr>)"
| header_refused: "\<lbrakk>dr_pc s = Requesting ends (system, tools); abortOf (dr_phase s) = None; sound_append app;
     h = headerOf config prepared system tools;
     logHeader app id h (dr_log s, dr_headerLogged s) = ((slog1, logged1), Inl (e :: (string, string) request_error))\<rbrakk>
    \<Longrightarrow> driver_step maxParallel s
         (s\<lparr>dr_log := slog1, dr_headerLogged := logged1, dr_pc := StepExit ends (Inl err)\<rparr>)"
| context_refused: "\<lbrakk>dr_pc s = Requesting ends (system, tools); abortOf (dr_phase s) = None; sound_append app;
     h = headerOf config prepared system tools;
     logHeader app id h (dr_log s, dr_headerLogged s) = ((slog1, logged1), Inr () :: (string, string) request_error + unit);
     logContext app id (contextOf config prepared) slog1 = (slog2, Inl (e :: (string, string) request_error))\<rbrakk>
    \<Longrightarrow> driver_step maxParallel s
         (s\<lparr>dr_log := slog2, dr_headerLogged := logged1, dr_pc := StepExit ends (Inl err)\<rparr>)"
| request_sent: "\<lbrakk>dr_pc s = Requesting ends (system, tools); abortOf (dr_phase s) = None; sound_append app;
     h = headerOf config prepared system tools;
     logHeader app id h (dr_log s, dr_headerLogged s) = ((slog1, logged1), Inr () :: (string, string) request_error + unit);
     logContext app id (contextOf config prepared) slog1 = (slog2, Inr () :: (string, string) request_error + unit)\<rbrakk>
    \<Longrightarrow> driver_step maxParallel s
         (s\<lparr>dr_log := slog2, dr_headerLogged := logged1,
            dr_pc := Streaming ends (system, tools) (cc_provider config) (cc_model config) newAssembler []\<rparr>)"
| chunk_logged: "\<lbrakk>dr_pc s = Streaming ends prompt provider model asm seqs; dr_phase s = Running turn step None wake;
     e = logged (dr_log s) now (AssistantChunk turn step chunk) None\<rbrakk>
    \<Longrightarrow> driver_step maxParallel s
         (s\<lparr>dr_log := dr_log s @ [e],
            dr_pc := Streaming ends prompt provider model (push asm chunk) (seqs @ [ev_seq e])\<rparr>)"
| stream_throws: "\<lbrakk>dr_pc s = Streaming ends prompt provider model asm seqs; abortOf (dr_phase s) = None\<rbrakk>
    \<Longrightarrow> driver_step maxParallel s (s\<lparr>dr_pc := StepExit ends (Inl err)\<rparr>)"
| stream_aborted: "\<lbrakk>dr_pc s = Streaming ends prompt provider model asm seqs; abortOf (dr_phase s) = Some cause\<rbrakk>
    \<Longrightarrow> driver_step maxParallel s (s\<lparr>dr_pc := StepExit ends (Inl err)\<rparr>)"
| stream_interrupted: "\<lbrakk>dr_pc s = Streaming ends prompt provider model asm seqs;
     dr_phase s = Running turn step (Some cause) wake; interruptedBlocks asm = Inr bs; bs \<noteq> []\<rbrakk>
    \<Longrightarrow> driver_step maxParallel s
         (s\<lparr>dr_log := dr_log s @ [logged (dr_log s) now
              (AssistantMessage turn step (assistantMessage mid bs provider model None) (as_usage asm) True) (Some seqs)],
            dr_pc := StepExit ends (Inl err)\<rparr>)"
| stream_failed: "\<lbrakk>dr_pc s = Streaming ends prompt provider model asm seqs; abortOf (dr_phase s) = None;
     finish asm = FinishError f \<or> finish asm = FinishAborted f\<rbrakk>
    \<Longrightarrow> driver_step maxParallel s (s\<lparr>dr_pc := Recovering ends prompt f\<rparr>)"
| stream_done: "\<lbrakk>dr_pc s = Streaming ends prompt provider model asm seqs; dr_phase s = Running turn step None wake;
     \<And>f. finish asm \<noteq> FinishError f \<and> finish asm \<noteq> FinishAborted f;
     blocks asm = Inr bs; replayState asm = Inr state\<rbrakk>
    \<Longrightarrow> driver_step maxParallel s
         (afterMessage ends (finish asm) bs
           (s\<lparr>dr_log := dr_log s @ [logged (dr_log s) now
              (AssistantMessage turn step (assistantMessage mid bs provider model state) (as_usage asm) False)
              (Some seqs)]\<rparr>))"
| recovery_retries: "\<lbrakk>dr_pc s = Recovering ends prompt f; abortOf (dr_phase s) = None\<rbrakk>
    \<Longrightarrow> driver_step maxParallel s (s\<lparr>dr_pc := Requesting ends prompt\<rparr>)"
| recovery_gives_up: "\<lbrakk>dr_pc s = Recovering ends prompt f; abortOf (dr_phase s) = None\<rbrakk>
    \<Longrightarrow> driver_step maxParallel s (s\<lparr>dr_pc := StepExit ends (Inl (LlmThrown f))\<rparr>)"
| recovery_throws: "dr_pc s = Recovering ends prompt f
    \<Longrightarrow> driver_step maxParallel s (s\<lparr>dr_pc := StepExit ends (Inl err)\<rparr>)"
| tools_move: "\<lbrakk>dr_pc s = Tools ends calls sc; dr_phase s = Running turn step ab wake; sound_append app;
     ownStep calls turn step maxParallel (syncSched s sc) sc'; sc_signal sc' = (ab \<noteq> None);
     sc_contexts sc' = sc_contexts sc @ ctxs;
     acceptContexts app (sc_log sc') (dr_inbox s) ctxs = Some (slog', ib')\<rbrakk>
    \<Longrightarrow> driver_step maxParallel s
         (s\<lparr>dr_log := slog', dr_inbox := ib', dr_pc := Tools ends calls sc'\<rparr>)"
| tools_returned: "\<lbrakk>dr_pc s = Tools ends calls sc; sc_pc sc = Returned\<rbrakk>
    \<Longrightarrow> driver_step maxParallel s
         (s\<lparr>dr_pc := StepExit ends (Inr (if sc_concluded sc then Some EndCompleted else None))\<rparr>)"
| tools_failed: "\<lbrakk>dr_pc s = Tools ends calls sc; sc_pc sc = Failed\<rbrakk>
    \<Longrightarrow> driver_step maxParallel s (s\<lparr>dr_pc := StepExit ends (Inl err)\<rparr>)"
| step_leaves: "dr_pc s = StepExit ends outcome
    \<Longrightarrow> driver_step maxParallel s (leaveStep now refused ends outcome s)"
| step_end_refused: "dr_pc s = StepExit ends outcome
    \<Longrightarrow> driver_step maxParallel s (caught now refused err (s\<lparr>dr_broken := True\<rparr>))"
| after_aborted: "\<lbrakk>dr_pc s = AfterStep ends; abortOf (dr_phase s) = Some cause\<rbrakk>
    \<Longrightarrow> driver_step maxParallel s (caught now refused err s)"
| after_stops: "\<lbrakk>dr_pc s = AfterStep (Some reason); abortOf (dr_phase s) = None; ib_nextStep (dr_inbox s) = []\<rbrakk>
    \<Longrightarrow> driver_step maxParallel s (s\<lparr>dr_pc := Stopping reason\<rparr>)"
| after_loops: "\<lbrakk>dr_pc s = AfterStep ends; abortOf (dr_phase s) = None;
     ends = None \<or> ib_nextStep (dr_inbox s) \<noteq> []\<rbrakk>
    \<Longrightarrow> driver_step maxParallel s (s\<lparr>dr_pc := LoopTop NextStep ends\<rparr>)"
| stopping_throws: "dr_pc s = Stopping reason
    \<Longrightarrow> driver_step maxParallel s (caught now refused err s)"
| stopping_done: "\<lbrakk>dr_pc s = Stopping reason; abortOf (dr_phase s) = None; ib_nextStep (dr_inbox s) = []\<rbrakk>
    \<Longrightarrow> driver_step maxParallel s (endTurn now refused reason ExitBreak s)"
| stopping_more: "\<lbrakk>dr_pc s = Stopping reason; abortOf (dr_phase s) = None; ib_nextStep (dr_inbox s) \<noteq> []\<rbrakk>
    \<Longrightarrow> driver_step maxParallel s (s\<lparr>dr_pc := LoopTop NextStep (Some reason)\<rparr>)"
| converge: "\<lbrakk>dr_pc s = Converge; dr_phase s = Running turn step ab wake\<rbrakk>
    \<Longrightarrow> driver_step maxParallel s (settleIdle turn wake s)"

section \<open>The calls of others\<close>

text \<open>An abort keeps its first cause; idle agents have nothing to abort.\<close>

fun abortPhase :: "cancel_cause \<Rightarrow> phase \<Rightarrow> phase" where
  "abortPhase cause (Idle n) = Idle n"
| "abortPhase cause (Maintenance n ab wake) = Maintenance n (if ab = None then Some cause else ab) wake"
| "abortPhase cause (Running turn step ab wake) = Running turn step (if ab = None then Some cause else ab) wake"

fun unwake :: "phase \<Rightarrow> phase" where
  "unwake (Idle n) = Idle n"
| "unwake (Maintenance n ab _) = Maintenance n ab False"
| "unwake (Running turn step ab _) = Running turn step ab False"

text \<open>Whether a turn is open at an await, and the foreign events the session takes outside a turn.\<close>

fun inTurn :: "driver_pc \<Rightarrow> bool" where
  "inTurn Off \<longleftrightarrow> False"
| "inTurn TurnTop \<longleftrightarrow> False"
| "inTurn Converge \<longleftrightarrow> False"
| "inTurn _ \<longleftrightarrow> True"

fun outsideData :: "event_data \<Rightarrow> bool" where
  "outsideData (UserMessage _) \<longleftrightarrow> True"
| "outsideData (InboxSpliced _) \<longleftrightarrow> True"
| "outsideData (LlmRetry _) \<longleftrightarrow> True"
| "outsideData (LlmRetryStarted _ _ _ _) \<longleftrightarrow> True"
| "outsideData (PluginEvent _ _) \<longleftrightarrow> True"
| "outsideData _ \<longleftrightarrow> False"

fun isSplice :: "event_data \<Rightarrow> bool" where
  "isSplice (InboxSpliced _) \<longleftrightarrow> True"
| "isSplice _ \<longleftrightarrow> False"

inductive outer_step :: "driver \<Rightarrow> driver \<Rightarrow> bool" where
  send: "\<lbrakk>sound_append app; late = (wakeup \<and> abortOf (dr_phase s) \<noteq> None);
     o1 = inboxSplice app (dr_log s) (dr_inbox s) (if late then NextTurn else target) PosInf (natNum 0) [m];
     io_result o1 = Inr removed; s1 = s\<lparr>dr_log := io_log o1, dr_inbox := io_inbox o1\<rparr>\<rbrakk>
    \<Longrightarrow> outer_step s (if wakeup then wakeDriver late s1 else s1)"
| send_throws: "\<lbrakk>sound_append app; late = (wakeup \<and> abortOf (dr_phase s) \<noteq> None);
     o1 = inboxSplice app (dr_log s) (dr_inbox s) (if late then NextTurn else target) PosInf (natNum 0) [m];
     io_result o1 = Inl e\<rbrakk>
    \<Longrightarrow> outer_step s (s\<lparr>dr_log := io_log o1, dr_inbox := io_inbox o1\<rparr>)"
| inbox_used: "\<lbrakk>sound_append app; o1 = inboxSplice app (dr_log s) (dr_inbox s) target start n ins\<rbrakk>
    \<Longrightarrow> outer_step s (s\<lparr>dr_log := io_log o1, dr_inbox := io_inbox o1\<rparr>)"
| cancel_keeping: "outer_step s (s\<lparr>dr_phase := abortPhase cause (dr_phase s)\<rparr>)"
| cancel_clearing: "\<lbrakk>sound_append app; o1 = clearInbox app (dr_log s) (dr_inbox s); io_result o1 = Inr ()\<rbrakk>
    \<Longrightarrow> outer_step s (s\<lparr>dr_log := io_log o1, dr_inbox := io_inbox o1,
          dr_phase := abortPhase cause (unwake (dr_phase s))\<rparr>)"
| cancel_throws: "\<lbrakk>sound_append app; o1 = clearInbox app (dr_log s) (dr_inbox s); io_result o1 = Inl e\<rbrakk>
    \<Longrightarrow> outer_step s (s\<lparr>dr_log := io_log o1, dr_inbox := io_inbox o1\<rparr>)"
| maintenance_starts: "dr_phase s = Idle lastTurn
    \<Longrightarrow> outer_step s (s\<lparr>dr_phase := Maintenance lastTurn None False\<rparr>)"
| maintenance_ends: "dr_phase s = Maintenance lastTurn ab wake
    \<Longrightarrow> outer_step s (settleIdle lastTurn wake s)"
| foreign_append: "\<lbrakk>foreignEvent e; \<not> isSplice (ev_data e); ev_seq e = int (length (dr_log s));
     inTurn (dr_pc s) \<or> outsideData (ev_data e)\<rbrakk>
    \<Longrightarrow> outer_step s (s\<lparr>dr_log := dr_log s @ [e]\<rparr>)"

section \<open>Construction\<close>

fun isTurnStart :: "event_data \<Rightarrow> bool" where
  "isTurnStart (TurnStart _) \<longleftrightarrow> True"
| "isTurnStart _ \<longleftrightarrow> False"

definition lastTurnOf :: "session_event list \<Rightarrow> int" where
  "lastTurnOf evs =
     (case map_option ev_data (findLast (\<lambda>e. isTurnStart (ev_data e)) evs) of
        Some (TurnStart n) \<Rightarrow> n | _ \<Rightarrow> 0)"

definition newDriver :: "int option \<Rightarrow> session_event list \<Rightarrow> string inbox_error + driver" where
  "newDriver seedLength evs =
     bindE (newInbox seedLength evs) (\<lambda>ib.
       Inr \<lparr>dr_log = evs, dr_inbox = ib, dr_phase = Idle (lastTurnOf evs), dr_pc = Off,
            dr_headerLogged = False, dr_broken = False\<rparr>)"

definition system_step :: "nat \<Rightarrow> driver \<Rightarrow> driver \<Rightarrow> bool" where
  "system_step maxParallel s s' \<longleftrightarrow> driver_step maxParallel s s' \<or> outer_step s s'"

abbreviation driver_reaches :: "nat \<Rightarrow> driver \<Rightarrow> driver \<Rightarrow> bool" where
  "driver_reaches maxParallel \<equiv> (system_step maxParallel)\<^sup>*\<^sup>*"

section \<open>How the log grows\<close>

definition adds :: "(session_event \<Rightarrow> bool) \<Rightarrow> session_event list \<Rightarrow> session_event list \<Rightarrow> bool" where
  "adds P a b \<longleftrightarrow> (\<exists>e. P e \<and> ev_seq e = int (length a) \<and> b = a @ [e])"

abbreviation grewBy :: "(session_event \<Rightarrow> bool) \<Rightarrow> session_event list \<Rightarrow> session_event list \<Rightarrow> bool" where
  "grewBy P \<equiv> (adds P)\<^sup>*\<^sup>*"

abbreviation spliced :: "session_event list \<Rightarrow> session_event list \<Rightarrow> bool" where
  "spliced \<equiv> grewBy (\<lambda>e. isSplice (ev_data e))"

lemma grewBy_app:
  assumes "sound_append app" "app slog d = (slog', r)" "\<And>now. P (logged slog now d None)"
  shows "grewBy P slog slog' \<and> (\<forall>e. r = Inr e \<longrightarrow> slog' = slog @ [e] \<and> ev_data e = d) \<and> (isl r \<longrightarrow> slog' = slog)"
proof -
  from assms(1) [unfolded sound_append_def, rule_format, of slog d] assms(2)
  consider (refused) err where "slog' = slog" "r = Inl err"
    | (logged) now where "slog' = slog @ [logged slog now d None]" "r = Inr (logged slog now d None)" by auto
  then show ?thesis
  proof cases
    case (logged now)
    then have "adds P slog slog'" using assms(3) by (auto simp: adds_def)
    with logged show ?thesis by auto
  qed auto
qed

lemma sound_append_log: "sound_append app \<Longrightarrow> event_log app id (\<lambda>_. True)"
proof unfold_locales
  fix s d s' e
  assume "sound_append app" "app s d = (s', Inr e)"
  then show "id s' = id s @ [e] \<and> ev_data e = d \<and> ev_seq e = int (length (id s))"
    unfolding sound_append_def by (metis Inl_Inr_False Inr_inject id_apply logged_simps prod.inject)
next
  fix s d s' err
  assume "sound_append app" "app s d = (s', Inl err)"
  then show "id s' = id s"
    unfolding sound_append_def by (metis Inl_Inr_False id_apply prod.inject)
qed simp

text \<open>Inbox operations add splices only.\<close>

lemma spliced_mutate:
  assumes "sound_append app"
  shows "spliced slog (io_log (mutate app slog ib target start n ins discard))"
proof -
  have "spliced slog slog'" if "app slog (InboxSpliced p) = (slog', r)" for p slog' r
    using grewBy_app [OF assms that] by simp
  then show ?thesis
    by (auto simp: mutate_def Let_def split: sum.splits prod.splits)
qed

lemma spliced_andThen:
  assumes "spliced slog (io_log o1)" "\<And>a s ib. spliced s (io_log (f s ib a))"
  shows "spliced slog (io_log (andThen o1 f))"
  using assms by (auto simp: andThen_def Let_def split: sum.split intro: rtranclp_trans)

lemma spliced_returning: "spliced slog (io_log (returning notes a slog ib))"
  by (simp add: returning_def)

lemma spliced_inboxSplice:
  "sound_append app \<Longrightarrow> spliced slog (io_log (inboxSplice app slog ib target start n ins))"
  unfolding inboxSplice_def by (rule spliced_mutate)

lemmas spliced_intros = spliced_andThen spliced_returning spliced_inboxSplice spliced_mutate

lemma spliced_claim: "sound_append app \<Longrightarrow> spliced slog (io_log (claim app slog ib target turn))"
  unfolding claim_def claimTurn_def by (cases target) (auto intro!: spliced_intros)

lemma spliced_clear: "sound_append app \<Longrightarrow> spliced slog (io_log (clearInbox app slog ib))"
  unfolding clearInbox_def by (auto intro!: spliced_intros)

text \<open>The live inbox is the replay of the log past the seed.\<close>

definition replays :: "nat \<Rightarrow> session_event list \<Rightarrow> inbox \<Rightarrow> bool" where
  "replays k slog ib \<longleftrightarrow> mirrors id (\<lambda>_. True) k slog ib"

lemma replays_other: "replays k slog ib \<Longrightarrow> \<not> isSplice (ev_data e) \<Longrightarrow> replays k (slog @ [e]) ib"
  by (cases "ev_data e") (auto simp: replays_def mirrors_def inboxReplays_snoc)

lemma replays_operations:
  assumes "sound_append app" "replays k slog ib"
  shows "replays k (io_log (inboxSplice app slog ib target start n ins)) (io_inbox (inboxSplice app slog ib target start n ins))"
    and "replays k (io_log (claim app slog ib target turn)) (io_inbox (claim app slog ib target turn))"
    and "replays k (io_log (clearInbox app slog ib)) (io_inbox (clearInbox app slog ib))"
  using event_log.mirrors_inboxSplice [OF sound_append_log [OF assms(1)]]
    event_log.mirrors_claim [OF sound_append_log [OF assms(1)]]
    event_log.mirrors_clear [OF sound_append_log [OF assms(1)]] assms(2)
  unfolding replays_def by blast+

lemma accept_contexts:
  assumes "sound_append app" "acceptContexts app slog ib ctxs = Some (slog', ib')"
  shows "spliced slog slog' \<and> (replays k slog ib \<longrightarrow> replays k slog' ib')"
  using assms(2)
proof (induction ctxs arbitrary: slog ib)
  case Nil
  then show ?case by simp
next
  case (Cons m ms)
  let ?o = "inboxSplice app slog ib NextStep (natNum (length (ib_nextStep ib))) (natNum 0) [m]"
  from Cons.prems obtain x where "acceptContexts app (io_log ?o) (io_inbox ?o) ms = Some (slog', ib')"
    by (auto simp: Let_def split: sum.splits)
  from Cons.IH [OF this] spliced_inboxSplice [OF assms(1), of slog ib]
    replays_operations(1) [OF assms(1)]
  show ?case by (blast intro: rtranclp_trans)
qed

text \<open>The request adds headers and contexts only.\<close>

fun isRequestData :: "event_data \<Rightarrow> bool" where
  "isRequestData (RequestHeader _ _) \<longleftrightarrow> True"
| "isRequestData (RequestContext _) \<longleftrightarrow> True"
| "isRequestData _ \<longleftrightarrow> False"

lemma request_logged:
  assumes "sound_append app"
  shows "logHeader app id h (slog, l) = ((slog', l'), r) \<Longrightarrow> grewBy (\<lambda>e. isRequestData (ev_data e)) slog slog'"
    and "logContext app id c slog = (slog', r') \<Longrightarrow> grewBy (\<lambda>e. isRequestData (ev_data e)) slog slog'"
proof -
  have g: "grewBy (\<lambda>e. isRequestData (ev_data e)) slog slog'" if "app slog d = (slog', r)" "isRequestData d" for d slog' r
    using grewBy_app [OF assms that(1), of "\<lambda>e. isRequestData (ev_data e)"] that(2) by simp
  show "logHeader app id h (slog, l) = ((slog', l'), r) \<Longrightarrow> grewBy (\<lambda>e. isRequestData (ev_data e)) slog slog'"
    by (auto simp: logHeader_def Let_def split: if_splits option.splits prod.splits sum.splits intro: g)
  show "logContext app id c slog = (slog', r') \<Longrightarrow> grewBy (\<lambda>e. isRequestData (ev_data e)) slog slog'"
    by (auto simp: logContext_def split: if_splits option.splits prod.splits sum.splits intro: g)
qed

section \<open>Where in the script the log is\<close>

definition placed :: "session_event list \<Rightarrow> (session_trace \<Rightarrow> bool) \<Rightarrow> bool" where
  "placed slog Q \<longleftrightarrow> (\<exists>t. seedSession slog = Inr t \<and> tc_lastSeq t < int (length slog) \<and> Q t)"

definition outsideAt :: "int \<Rightarrow> session_trace \<Rightarrow> bool" where
  "outsideAt n t \<longleftrightarrow> tc_openTurn t = None \<and> tc_nextTurn t = n + 1"

definition betweenAt :: "int \<Rightarrow> int \<Rightarrow> session_trace \<Rightarrow> bool" where
  "betweenAt n k t \<longleftrightarrow> tc_openTurn t = Some n \<and> tc_openStep t = None \<and> tc_nextStep t = k + 1"

definition stepAt :: "int \<Rightarrow> int \<Rightarrow> session_trace \<Rightarrow> bool" where
  "stepAt n k t \<longleftrightarrow> tc_openTurn t = Some n \<and> tc_openStep t = Some k"

definition freshStepAt :: "int \<Rightarrow> int \<Rightarrow> session_trace \<Rightarrow> bool" where
  "freshStepAt n k t \<longleftrightarrow> stepAt n k t \<and> tc_pendingCalls t = {}"

lemmas place_defs = outsideAt_def betweenAt_def stepAt_def freshStepAt_def

lemma placed_weaken: "placed slog Q \<Longrightarrow> (\<And>t. Q t \<Longrightarrow> R t) \<Longrightarrow> placed slog R"
  by (auto simp: placed_def)

lemma trace_numbers:
  assumes "traceInv evs t"
  shows "tc_openTurn t = None \<Longrightarrow> tc_openStep t = None" "tc_openTurn t = Some n \<Longrightarrow> tc_nextTurn t = n"
    "tc_openStep t = Some k \<Longrightarrow> tc_nextStep t = k" "tc_openStep t = None \<Longrightarrow> tc_pendingCalls t = {}"
  using assms by (auto simp: traceInv_def tracePos_def split: option.splits)

lemma placed_snoc:
  assumes "placed slog Q" "ev_seq e = int (length slog)"
    and "\<And>t. Q t \<Longrightarrow> traceInv slog t \<Longrightarrow> tc_lastSeq t < ev_seq e
      \<Longrightarrow> \<exists>t'. traceStep t e = Inr t' \<and> tc_lastSeq t' \<le> ev_seq e \<and> R t'"
  shows "placed (slog @ [e]) R"
proof -
  from assms(1) obtain t where t: "seedSession slog = Inr t" "tc_lastSeq t < int (length slog)" "Q t"
    by (auto simp: placed_def)
  from assms(3) [OF t(3) seedSession_inv [OF t(1)]] t(2) assms(2) obtain t' where
    "traceStep t e = Inr t'" "tc_lastSeq t' \<le> ev_seq e" "R t'" by auto
  with t(1) assms(2) show ?thesis by (auto simp: placed_def seedSession_def foldE_snoc_Inr)
qed

lemma place_turn_start:
  "placed slog (outsideAt n) \<Longrightarrow> placed (slog @ [logged slog now (TurnStart (n + 1)) None]) (betweenAt (n + 1) 0)"
  by (erule placed_snoc) (auto simp: place_defs trace_simps dest: trace_numbers)

lemma place_turn_end:
  "placed slog (betweenAt n k) \<Longrightarrow> placed (slog @ [logged slog now (TurnEnd n r) None]) (outsideAt n)"
  by (erule placed_snoc) (auto simp: place_defs trace_simps dest: trace_numbers)

lemma place_step_start:
  "placed slog (betweenAt n k) \<Longrightarrow> placed (slog @ [logged slog now (StepStart n (k + 1)) None]) (freshStepAt n (k + 1))"
  by (erule placed_snoc) (auto simp: place_defs trace_simps dest: trace_numbers)

lemma place_step_end:
  "placed slog (stepAt n k) \<Longrightarrow> placed (slog @ [logged slog now (StepEnd n k) None]) (betweenAt n k)"
  by (erule placed_snoc) (auto simp: place_defs trace_simps dest: trace_numbers)

text \<open>Events that leave the place alone.\<close>

definition placeEvent :: "(session_trace \<Rightarrow> bool) \<Rightarrow> session_event \<Rightarrow> bool" where
  "placeEvent Q e \<longleftrightarrow> (\<forall>t. Q t \<longrightarrow> tc_lastSeq t < ev_seq e \<longrightarrow>
     (\<exists>t'. traceStep t e = Inr t' \<and> tc_lastSeq t' \<le> ev_seq e \<and> Q t'))"

lemma placed_keep: "placed slog Q \<Longrightarrow> placeEvent Q e \<Longrightarrow> ev_seq e = int (length slog) \<Longrightarrow> placed (slog @ [e]) Q"
  by (erule placed_snoc) (auto simp: placeEvent_def)

lemma placed_grew:
  assumes "grewBy P slog slog'" "placed slog Q" "\<And>e. P e \<Longrightarrow> placeEvent Q e"
  shows "placed slog' Q"
  using assms(1)
proof (induction rule: rtranclp_induct)
  case (step a b)
  then show ?case using placed_keep assms(3) by (auto simp: adds_def)
qed (rule assms(2))

lemma foreign_place:
  assumes "foreignEvent e"
  shows "placeEvent (betweenAt n k) e" "placeEvent (stepAt n k) e" "placeEvent (freshStepAt n k) e"
  using foreign_trace [OF assms] by (auto simp: placeEvent_def place_defs)

lemma outside_place:
  assumes "outsideData (ev_data e)"
  shows "placeEvent (outsideAt n) e"
  using assms by (cases "ev_data e") (auto simp: placeEvent_def place_defs trace_simps)

lemma splice_foreign: "isSplice (ev_data e) \<Longrightarrow> foreignEvent e" "isSplice (ev_data e) \<Longrightarrow> outsideData (ev_data e)"
  by (cases "ev_data e"; simp add: foreignEvent_def)+

lemma request_foreign: "isRequestData (ev_data e) \<Longrightarrow> foreignEvent e \<and> \<not> isSplice (ev_data e)"
  by (cases "ev_data e") (auto simp: foreignEvent_def)

lemma step_events_place:
  "placeEvent (freshStepAt n k) (userEvent slog now m)"
  "placeEvent (freshStepAt n k) (logged slog now (AssistantChunk n k c) src)"
  "placeEvent (freshStepAt n k) (logged slog now (AssistantMessage n k m u i) src)"
  by (auto simp: placeEvent_def place_defs trace_simps userEvent_def logged_def)

section \<open>The invariant of the driver\<close>

definition toolsPlace :: "nat \<Rightarrow> int \<Rightarrow> int \<Rightarrow> tool_call list \<Rightarrow> sched \<Rightarrow> session_event list \<Rightarrow> bool" where
  "toolsPlace m n k calls sc slog \<longleftrightarrow> distinct (map tl_id calls) \<and> startedSome sc
     \<and> (\<exists>base. placed base (freshStepAt n k) \<and> sched_inv calls n k m base (sc\<lparr>sc_log := slog\<rparr>))"

fun runPlace :: "nat \<Rightarrow> int \<Rightarrow> int \<Rightarrow> driver_pc \<Rightarrow> session_event list \<Rightarrow> bool" where
  "runPlace m n k Off slog \<longleftrightarrow> False"
| "runPlace m n k TurnTop slog \<longleftrightarrow> k = 0 \<and> placed slog (outsideAt n)"
| "runPlace m n k Converge slog \<longleftrightarrow> placed slog (outsideAt n)"
| "runPlace m n k (StepMessages _ _ _) slog \<longleftrightarrow> placed slog (freshStepAt n k)"
| "runPlace m n k (Requesting _ _) slog \<longleftrightarrow> placed slog (freshStepAt n k)"
| "runPlace m n k (Streaming _ _ _ _ _ _) slog \<longleftrightarrow> placed slog (freshStepAt n k)"
| "runPlace m n k (Recovering _ _ _) slog \<longleftrightarrow> placed slog (freshStepAt n k)"
| "runPlace m n k (Tools _ calls sc) slog \<longleftrightarrow> toolsPlace m n k calls sc slog"
| "runPlace m n k (StepExit _ _) slog \<longleftrightarrow> placed slog (stepAt n k)"
| "runPlace m n k _ slog \<longleftrightarrow> placed slog (betweenAt n k)"

definition log_place :: "nat \<Rightarrow> driver \<Rightarrow> bool" where
  "log_place m s \<longleftrightarrow>
     (case dr_phase s of
        Idle n \<Rightarrow> dr_pc s = Off \<and> placed (dr_log s) (outsideAt n)
      | Maintenance n _ _ \<Rightarrow> dr_pc s = Off \<and> placed (dr_log s) (outsideAt n)
      | Running n k _ _ \<Rightarrow> runPlace m n k (dr_pc s) (dr_log s))"

fun isRunning :: "phase \<Rightarrow> bool" where
  "isRunning (Running _ _ _ _) \<longleftrightarrow> True"
| "isRunning _ \<longleftrightarrow> False"

definition driver_inv :: "nat \<Rightarrow> nat \<Rightarrow> driver \<Rightarrow> bool" where
  "driver_inv seed m s \<longleftrightarrow>
     replays seed (dr_log s) (dr_inbox s)
     \<and> (isRunning (dr_phase s) \<longleftrightarrow> dr_pc s \<noteq> Off)
     \<and> (\<not> dr_broken s \<longrightarrow> log_place m s)"

lemma toolsPlace_step: "toolsPlace m n k calls sc slog \<Longrightarrow> placed slog (stepAt n k)"
proof -
  assume tp: "toolsPlace m n k calls sc slog"
  then obtain base where b: "placed base (freshStepAt n k)" "sched_inv calls n k m base (sc\<lparr>sc_log := slog\<rparr>)"
    and d: "distinct (map tl_id calls)" by (auto simp: toolsPlace_def)
  from inv_some [OF b(2)] obtain seqs r where l: "ledger calls n k base slog seqs r"
    by (auto simp: log_some_def log_ok_def)
  from b(1) obtain t0 where "seedSession base = Inr t0" "tc_openTurn t0 = Some n" "tc_openStep t0 = Some k"
    "tc_pendingCalls t0 = {}" "tc_lastSeq t0 < int (length base)" by (auto simp: placed_def place_defs)
  from ledger_monitored [OF l d this] show ?thesis by (auto simp: placed_def place_defs)
qed

lemma toolsPlace_grew:
  assumes "grewBy foreignEvent slog slog'" "toolsPlace m n k calls sc slog"
  shows "toolsPlace m n k calls sc slog'"
  using assms(1)
proof (induction rule: rtranclp_induct)
  case (step a b)
  then obtain e base where e: "foreignEvent e" "ev_seq e = int (length a)" "b = a @ [e]"
    and base: "placed base (freshStepAt n k)" "sched_inv calls n k m base (sc\<lparr>sc_log := a\<rparr>)"
    and d: "distinct (map tl_id calls)" "startedSome sc" by (auto simp: adds_def toolsPlace_def)
  have "sched_inv calls n k m base (sc\<lparr>sc_log := b\<rparr>)"
    using inv_foreign [OF base(2) e(1)] e(2,3) by simp
  with base d show ?case by (auto simp: toolsPlace_def)
qed (rule assms(2))

lemma grewBy_mono: "grewBy P a b \<Longrightarrow> (\<And>e. P e \<Longrightarrow> Q e) \<Longrightarrow> grewBy Q a b"
  by (erule rtranclp_mono [THEN predicate2D, rotated]) (auto simp: adds_def)

lemma log_place_grew:
  assumes "log_place m s" "grewBy (\<lambda>e. foreignEvent e \<and> (inTurn (dr_pc s) \<or> outsideData (ev_data e))) (dr_log s) slog'"
  shows "log_place m (s\<lparr>dr_log := slog'\<rparr>)"
proof -
  have keep: "placed slog' Q" if "placed (dr_log s) Q"
    "\<And>e. foreignEvent e \<and> (inTurn (dr_pc s) \<or> outsideData (ev_data e)) \<Longrightarrow> placeEvent Q e" for Q
    by (rule placed_grew [OF assms(2) that])
  note foreign = grewBy_mono [OF assms(2), of foreignEvent]
  show ?thesis
    using assms(1) keep [of "outsideAt _"] keep [of "betweenAt _ _"] keep [of "stepAt _ _"] keep [of "freshStepAt _ _"]
      outside_place foreign_place toolsPlace_grew [OF foreign]
    by (cases "dr_phase s"; cases "dr_pc s") (simp_all add: log_place_def)
qed

section \<open>Every step keeps the invariant\<close>

text \<open>What is needed where a turn or a step is left.\<close>

definition leaving :: "nat \<Rightarrow> driver \<Rightarrow> (int \<Rightarrow> int \<Rightarrow> session_trace \<Rightarrow> bool) \<Rightarrow> bool" where
  "leaving seed s Q \<longleftrightarrow>
     replays seed (dr_log s) (dr_inbox s)
     \<and> (\<exists>n k ab wake. dr_phase s = Running n k ab wake \<and> (\<not> dr_broken s \<longrightarrow> placed (dr_log s) (Q n k)))"

lemma leavingI:
  "\<lbrakk>replays seed (dr_log s) (dr_inbox s); dr_phase s = Running n k ab wake;
    \<not> dr_broken s \<Longrightarrow> placed (dr_log s) (Q n k)\<rbrakk> \<Longrightarrow> leaving seed s Q"
  by (auto simp: leaving_def)

lemma driver_endTurn:
  assumes "leaving seed s betweenAt"
  shows "driver_inv seed m (endTurn now refused reason exit s)"
proof -
  from assms obtain n k ab wake where p: "dr_phase s = Running n k ab wake"
    "replays seed (dr_log s) (dr_inbox s)" "\<not> dr_broken s \<Longrightarrow> placed (dr_log s) (betweenAt n k)"
    by (auto simp: leaving_def)
  have "placed (dr_log s @ [logged (dr_log s) now (TurnEnd n reason) None]) (outsideAt n)" if "\<not> dr_broken s"
    by (rule place_turn_end [OF p(3) [OF that]])
  with p replays_other [OF p(2)] show ?thesis
    by (auto simp: endTurn_def driver_inv_def log_place_def Let_def)
qed

lemma driver_caught: "leaving seed s betweenAt \<Longrightarrow> driver_inv seed m (caught now refused err s)"
  unfolding caught_def by (rule driver_endTurn)

lemma driver_leaveStep:
  assumes "leaving seed s stepAt"
  shows "driver_inv seed m (leaveStep now refused ends outcome s)"
proof -
  from assms obtain n k ab wake where p: "dr_phase s = Running n k ab wake"
    "replays seed (dr_log s) (dr_inbox s)" "\<not> dr_broken s \<Longrightarrow> placed (dr_log s) (stepAt n k)"
    by (auto simp: leaving_def)
  let ?s1 = "s\<lparr>dr_log := dr_log s @ [logged (dr_log s) now (StepEnd n k) None]\<rparr>"
  have l: "leaving seed ?s1 betweenAt"
    using p replays_other [OF p(2)] place_step_end [OF p(3)] by (auto simp: leaving_def)
  then have "driver_inv seed m (?s1\<lparr>dr_pc := AfterStep e\<rparr>)" for e
    using p(1) by (auto simp: leaving_def driver_inv_def log_place_def)
  with driver_caught [OF l] p(1) show ?thesis
    by (cases outcome) (auto simp: leaveStep_def Let_def)
qed

lemma driver_wake: "driver_inv seed m s \<Longrightarrow> driver_inv seed m (wakeDriver b s)"
  by (cases "dr_phase s"; cases "dr_pc s") (auto simp: wakeDriver_def driver_inv_def log_place_def)

lemma driver_settle:
  assumes "replays seed (dr_log s) (dr_inbox s)" "\<not> dr_broken s \<Longrightarrow> placed (dr_log s) (outsideAt n)"
  shows "driver_inv seed m (settleIdle n wake s)"
proof -
  have "driver_inv seed m (s\<lparr>dr_phase := Idle n, dr_pc := Off\<rparr>)"
    using assms by (simp add: driver_inv_def log_place_def)
  with driver_wake [OF this] show ?thesis by (simp add: settleIdle_def Let_def)
qed

lemma driver_grew:
  assumes "driver_inv seed m s" "replays seed slog' ib'"
    and "grewBy (\<lambda>e. foreignEvent e \<and> (inTurn (dr_pc s) \<or> outsideData (ev_data e))) (dr_log s) slog'"
  shows "driver_inv seed m (s\<lparr>dr_log := slog', dr_inbox := ib'\<rparr>)"
proof -
  have "log_place m (s\<lparr>dr_log := slog', dr_inbox := ib'\<rparr>) = log_place m (s\<lparr>dr_log := slog'\<rparr>)"
    by (simp add: log_place_def split: phase.split)
  with assms log_place_grew [OF _ assms(3)] show ?thesis by (auto simp: driver_inv_def)
qed

lemma driver_spliced:
  assumes "driver_inv seed m s" "replays seed slog' ib'" "spliced (dr_log s) slog'"
  shows "driver_inv seed m (s\<lparr>dr_log := slog', dr_inbox := ib'\<rparr>)"
  using splice_foreign by (intro driver_grew [OF assms(1,2) grewBy_mono [OF assms(3)]]) blast

lemma driver_phase:
  assumes "driver_inv seed m s" "isRunning p = isRunning (dr_phase s)"
    and "\<And>n k. log_place m s \<Longrightarrow> log_place m (s\<lparr>dr_phase := p\<rparr>)"
  shows "driver_inv seed m (s\<lparr>dr_phase := p\<rparr>)"
  using assms by (auto simp: driver_inv_def)

lemma abortPhase_inv: "driver_inv seed m s \<Longrightarrow> driver_inv seed m (s\<lparr>dr_phase := abortPhase cause (dr_phase s)\<rparr>)"
  by (rule driver_phase; cases "dr_phase s") (auto simp: log_place_def)

lemma unwake_inv: "driver_inv seed m s \<Longrightarrow> driver_inv seed m (s\<lparr>dr_phase := unwake (dr_phase s)\<rparr>)"
  by (rule driver_phase; cases "dr_phase s") (auto simp: log_place_def)

lemma outer_keeps:
  assumes "outer_step s s'" "driver_inv seed m s"
  shows "driver_inv seed m s'"
proof -
  have r: "replays seed (dr_log s) (dr_inbox s)" using assms(2) by (simp add: driver_inv_def)
  have op: "driver_inv seed m (s\<lparr>dr_log := io_log o1, dr_inbox := io_inbox o1\<rparr>)"
    if "sound_append app" "o1 = inboxSplice app (dr_log s) (dr_inbox s) target start n ins" for app o1 target start n ins
    using driver_spliced [OF assms(2) _ spliced_inboxSplice [OF that(1)]]
      replays_operations(1) [OF that(1) r] that(2) by simp
  have clear: "driver_inv seed m (s\<lparr>dr_log := io_log o1, dr_inbox := io_inbox o1\<rparr>)"
    if "sound_append app" "o1 = clearInbox app (dr_log s) (dr_inbox s)" for app o1
    using driver_spliced [OF assms(2) _ spliced_clear [OF that(1)]]
      replays_operations(3) [OF that(1) r] that(2) by simp
  from assms(1) show ?thesis
  proof cases
    case (send app late wakeup o1 target m' removed s1)
    have "driver_inv seed m s1" unfolding send(6) by (rule op [OF send(2,4)])
    with driver_wake show ?thesis unfolding send(1) by simp
  next
    case (send_throws app late wakeup o1 target m' e)
    with op show ?thesis by blast
  next
    case (inbox_used app o1 target start n ins)
    with op show ?thesis by blast
  next
    case (cancel_keeping cause)
    with abortPhase_inv [OF assms(2)] show ?thesis by blast
  next
    case (cancel_clearing app o1 cause)
    with abortPhase_inv [OF unwake_inv [OF clear [OF cancel_clearing(2,3)]]] show ?thesis by simp
  next
    case (cancel_throws app o1 e)
    with clear show ?thesis by blast
  next
    case (maintenance_starts n)
    with assms(2) show ?thesis by (simp add: driver_inv_def log_place_def)
  next
    case (maintenance_ends n ab wake)
    have "placed (dr_log s) (outsideAt n)" if "\<not> dr_broken s"
      using assms(2) maintenance_ends(2) that by (simp add: driver_inv_def log_place_def)
    with driver_settle [OF r] show ?thesis unfolding maintenance_ends(1) by blast
  next
    case (foreign_append e)
    then have "grewBy (\<lambda>e. foreignEvent e \<and> (inTurn (dr_pc s) \<or> outsideData (ev_data e))) (dr_log s) (dr_log s @ [e])"
      by (auto simp: adds_def)
    from driver_grew [OF assms(2) replays_other [OF r] this] foreign_append show ?thesis by simp
  qed
qed

text \<open>What the invariant says at each await.\<close>

lemma at_between:
  assumes "driver_inv seed m s" "dr_pc s \<in> {LoopTop tg ends, Assembling ends cl, Proposing ends pr ms, AfterStep ends, Stopping rs}"
  shows "leaving seed s betweenAt"
  using assms by (cases "dr_phase s") (auto simp: driver_inv_def log_place_def leaving_def)

lemma at_step:
  assumes "driver_inv seed m s" "dr_phase s = Running n k ab wake"
    "dr_pc s \<in> {StepMessages ends pr ms, Requesting ends pr, Streaming ends pr pv md asm seqs, Recovering ends pr f}"
  shows "\<not> dr_broken s \<Longrightarrow> placed (dr_log s) (freshStepAt n k)"
  using assms by (auto simp: driver_inv_def log_place_def)

lemma at_running:
  assumes "driver_inv seed m s" "dr_pc s \<noteq> Off"
  shows "\<exists>n k ab wake. dr_phase s = Running n k ab wake"
  using assms by (cases "dr_phase s") (auto simp: driver_inv_def)

text \<open>From inside a step to its exit.\<close>

lemma driver_exit:
  assumes "driver_inv seed m s"
    "dr_pc s \<in> {StepMessages ends pr ms, Requesting ends pr, Streaming ends pr pv md asm seqs, Recovering ends pr f, Tools ends calls sc}"
  shows "driver_inv seed m (s\<lparr>dr_pc := StepExit ends2 outcome\<rparr>)"
proof -
  obtain n k ab wake where r: "dr_phase s = Running n k ab wake" using at_running [OF assms(1)] assms(2) by auto
  have "placed (dr_log s) (stepAt n k)" if "\<not> dr_broken s"
  proof (cases "dr_pc s = Tools ends calls sc")
    case True
    with assms(1) r that show ?thesis by (auto simp: driver_inv_def log_place_def intro: toolsPlace_step)
  next
    case False
    with assms r that have "placed (dr_log s) (freshStepAt n k)"
      by (auto simp: driver_inv_def log_place_def)
    then show ?thesis by (rule placed_weaken) (simp add: freshStepAt_def)
  qed
  with assms(1) r show ?thesis by (simp add: driver_inv_def log_place_def)
qed

lemma driver_log_step:
  assumes "driver_inv seed m s" "dr_phase s = Running n k ab wake"
    and "dr_pc s \<in> {StepMessages ends pr ms, Requesting ends pr, Streaming ends pr pv md asm seqs, Recovering ends pr f}"
    and "ev_seq e = int (length (dr_log s))" "\<not> isSplice (ev_data e)" "placeEvent (freshStepAt n k) e"
  shows "driver_inv seed m (s\<lparr>dr_log := dr_log s @ [e]\<rparr>)"
proof -
  have "placed (dr_log s @ [e]) (freshStepAt n k)" if "\<not> dr_broken s"
    by (rule placed_keep [OF at_step [OF assms(1-3) that] assms(6,4)])
  with assms(1,2,3) replays_other [of seed "dr_log s" "dr_inbox s" e] assms(5) show ?thesis
    by (auto simp: driver_inv_def log_place_def)
qed

text \<open>Moving between the awaits of one step.\<close>

lemma driver_move:
  assumes "driver_inv seed m s"
    "dr_pc s \<in> {StepMessages ends pr ms, Requesting ends pr, Streaming ends pr pv md asm seqs, Recovering ends pr f}"
    "pc' \<in> {StepMessages ends' pr' ms', Requesting ends' pr', Streaming ends' pr' pv' md' asm' seqs', Recovering ends' pr' f'}"
  shows "driver_inv seed m (s\<lparr>dr_pc := pc'\<rparr>)"
  using assms by (cases "dr_phase s") (auto simp: driver_inv_def log_place_def)

lemma driver_afterMessage:
  assumes "driver_inv seed m s" "dr_pc s = Streaming ends pr pv md asm seqs"
  shows "driver_inv seed m (afterMessage ends2 reason bs s)"
proof -
  obtain n k ab wake where r: "dr_phase s = Running n k ab wake" using at_running [OF assms(1)] assms(2) by auto
  let ?calls = "toolCallsOf bs"
  have "toolsPlace m n k ?calls (sched_start (dr_log s) b) (dr_log s)"
    if "placed (dr_log s) (freshStepAt n k)" "distinct (map tl_id ?calls)" for b
    using that
    by (auto simp: toolsPlace_def startedSome_def sched_inv_def sched_start_def log_ok_def intro: ledger_base)
  then have "driver_inv seed m (s\<lparr>dr_pc := Tools ends2 ?calls (sched_start (dr_log s) b),
       dr_broken := (dr_broken s \<or> \<not> distinct (map tl_id ?calls))\<rparr>)" for b
    using at_step [OF assms(1) r] assms r by (auto simp: driver_inv_def log_place_def)
  with driver_exit [OF assms(1)] assms(2) show ?thesis
    unfolding afterMessage_def by (simp add: Let_def)
qed

lemma replays_append:
  "replays k slog ib \<Longrightarrow> (\<forall>e \<in> set es. \<not> isSplice (ev_data e)) \<Longrightarrow> replays k (slog @ es) ib"
proof (induction es arbitrary: slog)
  case (Cons e es)
  then have "replays k (slog @ [e]) ib" by (simp add: replays_other)
  from Cons.IH [OF this] Cons.prems(2) show ?case by simp
qed simp

lemma replays_grew: "grewBy P a b \<Longrightarrow> replays k a ib \<Longrightarrow> (\<And>e. P e \<Longrightarrow> \<not> isSplice (ev_data e)) \<Longrightarrow> replays k b ib"
proof (induction rule: rtranclp_induct)
  case (step y z)
  then show ?case using replays_other by (auto simp: adds_def)
qed

lemma driver_requested:
  assumes "driver_inv seed m s" "dr_pc s = Requesting ends pr" "grewBy (\<lambda>e. isRequestData (ev_data e)) (dr_log s) slog'"
  shows "driver_inv seed m (s\<lparr>dr_log := slog', dr_headerLogged := l\<rparr>)"
proof -
  have "replays seed slog' (dr_inbox s)"
    using assms(1) by (intro replays_grew [OF assms(3)]) (auto simp: driver_inv_def dest: request_foreign)
  moreover have "grewBy (\<lambda>e. foreignEvent e \<and> (inTurn (dr_pc s) \<or> outsideData (ev_data e))) (dr_log s) slog'"
    using assms(2) by (intro grewBy_mono [OF assms(3)]) (simp add: request_foreign)
  ultimately have "driver_inv seed m (s\<lparr>dr_log := slog', dr_inbox := dr_inbox s\<rparr>)"
    by (rule driver_grew [OF assms(1)])
  then show ?thesis by (simp add: driver_inv_def log_place_def split: phase.splits)
qed

fun isToolData :: "event_data \<Rightarrow> bool" where
  "isToolData (ToolCall _ _ _ _ _) \<longleftrightarrow> True"
| "isToolData (ToolResult _ _ _ _ _) \<longleftrightarrow> True"
| "isToolData _ \<longleftrightarrow> False"

lemma toolData_splice: "isToolData d \<Longrightarrow> \<not> isSplice d"
  by (cases d) auto

lemma own_log:
  assumes "ownStep calls turn step m s s'"
  shows "\<exists>es. sc_log s' = sc_log s @ es \<and> (\<forall>e \<in> set es. isToolData (ev_data e))"
proof -
  from assms have step: "sched_step calls turn step m s s'"
    and own: "\<not> (\<exists>e. foreignEvent e \<and> s' = s\<lparr>sc_log := sc_log s @ [e]\<rparr>)"
    by (auto simp: ownStep_def)
  note d = callEvent_def resultEvent_def toolCallData_def toolResultData_def skipCall_def
    enterGroup_def failing_def noteFailure_def afterContexts_def commitResult_def Let_def
  from step show ?thesis
  proof cases
    case (foreign e)
    with own show ?thesis by blast
  qed (auto simp: d)
qed

lemma driver_tools:
  assumes inv: "driver_inv seed m s" and pc: "dr_pc s = Tools ends calls sc"
    and run: "dr_phase s = Running n k ab wake" and app: "sound_append app"
    and own: "ownStep calls n k m (syncSched s sc) sc'" and pos: "0 < m"
    and acc: "acceptContexts app (sc_log sc') (dr_inbox s) ctxs = Some (slog', ib')"
  shows "driver_inv seed m (s\<lparr>dr_log := slog', dr_inbox := ib', dr_pc := Tools ends calls sc'\<rparr>)"
proof -
  from own_log [OF own] obtain es where es: "sc_log sc' = dr_log s @ es" "\<forall>e \<in> set es. \<not> isSplice (ev_data e)"
    using toolData_splice by (auto simp: syncSched_def)
  have "replays seed (dr_log s) (dr_inbox s)" using inv by (simp add: driver_inv_def)
  with es have "replays seed (sc_log sc') (dr_inbox s)" by (simp add: replays_append)
  with accept_contexts [OF app acc, of seed] have rep: "replays seed slog' ib'" and sp: "spliced (sc_log sc') slog'"
    by blast+
  have "toolsPlace m n k calls sc' slog'" if nb: "\<not> dr_broken s"
  proof -
    from inv pc run nb obtain base where b: "placed base (freshStepAt n k)"
      "sched_inv calls n k m base (sc\<lparr>sc_log := dr_log s\<rparr>)" "distinct (map tl_id calls)" "startedSome sc"
      by (auto simp: driver_inv_def log_place_def toolsPlace_def)
    from inv_abort [OF b(2)] have i: "sched_inv calls n k m base (syncSched s sc)"
      by (simp add: syncSched_def)
    have "startedSome (syncSched s sc)" using b(4) by (simp add: syncSched_def startedSome_def)
    with own i pos have "sched_inv calls n k m base sc'" "startedSome sc'"
      unfolding ownStep_def by (blast intro: sched_inv_step startedSome_step)+
    then have "toolsPlace m n k calls sc' (sc_log sc')" using b by (auto simp: toolsPlace_def)
    then show ?thesis by (rule toolsPlace_grew [OF grewBy_mono [OF sp], rotated]) (rule splice_foreign)
  qed
  with rep run show ?thesis by (simp add: driver_inv_def log_place_def)
qed

lemma driver_keeps:
  assumes "driver_step m s s'" and inv: "driver_inv seed m s" and pos: "0 < m"
  shows "driver_inv seed m s'"
proof -
  have r: "replays seed (dr_log s) (dr_inbox s)" using inv by (simp add: driver_inv_def)
  note between = at_between [OF inv]
  note out = driver_caught driver_endTurn
  have claimed: "driver_inv seed m (s\<lparr>dr_log := io_log o1, dr_inbox := io_inbox o1\<rparr>)"
    if "sound_append app" "o1 = claim app (dr_log s) (dr_inbox s) target turn" for app o1 target turn
    using driver_spliced [OF inv _ spliced_claim [OF that(1)]]
      replays_operations(2) [OF that(1) r] that(2) by simp
  note exit = driver_exit [OF inv]
  from assms(1) show ?thesis
  proof cases
    case (turn_aborted turn step cause wake)
    with inv show ?thesis by (simp add: driver_inv_def log_place_def)
  next
    case (turn_refused turn step wake)
    with inv show ?thesis by (simp add: driver_inv_def log_place_def)
  next
    case (turn_opens turn step wake now)
    with inv replays_other [OF r] place_turn_start show ?thesis by (simp add: driver_inv_def log_place_def)
  next
    case (loop_claims target ends turn step wake app o1 batch)
    with claimed [OF loop_claims(4,5)] show ?thesis by (simp add: driver_inv_def log_place_def)
  next
    case (loop_claim_throws target ends turn step wake app o1 e now refused err)
    with at_between [OF claimed [OF loop_claim_throws(4,5)]] show ?thesis by (auto intro: out)
  next
    case (assemble_done ends claimed ctx prompt)
    with between [of _ ends claimed] inv show ?thesis by (auto simp: leaving_def driver_inv_def log_place_def)
  next
    case (pre_step_enters ends prompt proposed turn step wake messages now)
    with inv replays_other [OF r] place_step_start show ?thesis by (simp add: driver_inv_def log_place_def)
  next
    case (message_logged ends prompt m' ms now)
    obtain n k ab wake where run: "dr_phase s = Running n k ab wake" using at_running [OF inv] message_logged by auto
    let ?s = "s\<lparr>dr_log := dr_log s @ [userEvent (dr_log s) now m']\<rparr>"
    have "driver_inv seed m ?s"
      by (rule driver_log_step [OF inv run, of ends prompt "m' # ms"])
        (use message_logged step_events_place in \<open>auto simp: userEvent_def\<close>)
    from driver_move [OF this] show ?thesis using message_logged by simp
  next
    case (step_begins ends prompt)
    with driver_move [OF inv, of ends prompt "[]"] show ?thesis by simp
  next
    case (header_refused ends system tools app h config prepared slog1 logged1 e err)
    from driver_exit [OF driver_requested [OF inv header_refused(2) request_logged(1) [OF header_refused(4,6)]]]
    show ?thesis using header_refused by simp
  next
    case (context_refused ends system tools app h config prepared slog1 logged1 slog2 e err)
    from rtranclp_trans [OF request_logged(1) [OF context_refused(4,6)] request_logged(2) [OF context_refused(4,7)]]
    have "driver_inv seed m (s\<lparr>dr_log := slog2, dr_headerLogged := logged1\<rparr>)"
      by (rule driver_requested [OF inv context_refused(2)])
    from driver_exit [OF this] show ?thesis using context_refused by simp
  next
    case (request_sent ends system tools app h config prepared slog1 logged1 slog2)
    from rtranclp_trans [OF request_logged(1) [OF request_sent(4,6)] request_logged(2) [OF request_sent(4,7)]]
    have "driver_inv seed m (s\<lparr>dr_log := slog2, dr_headerLogged := logged1\<rparr>)"
      by (rule driver_requested [OF inv request_sent(2)])
    from driver_move [OF this] show ?thesis using request_sent by simp
  next
    case (chunk_logged ends prompt provider model asm seqs turn step wake e now chunk)
    have "driver_inv seed m (s\<lparr>dr_log := dr_log s @ [e]\<rparr>)"
      by (rule driver_log_step [OF inv chunk_logged(3), of ends prompt _ provider model asm seqs])
        (use chunk_logged step_events_place in auto)
    from driver_move [OF this] show ?thesis using chunk_logged by simp
  next
    case (stream_interrupted ends prompt provider model asm seqs turn step cause wake bs err now mid)
    let ?e = "logged (dr_log s) now
              (AssistantMessage turn step (assistantMessage mid bs provider model None) (as_usage asm) True) (Some seqs)"
    have "driver_inv seed m (s\<lparr>dr_log := dr_log s @ [?e]\<rparr>)"
      by (rule driver_log_step [OF inv stream_interrupted(3), of ends prompt _ provider model asm seqs])
        (use stream_interrupted step_events_place in auto)
    from driver_exit [OF this] show ?thesis using stream_interrupted by simp
  next
    case (stream_done ends prompt provider model asm seqs turn step wake bs state now mid)
    let ?e = "logged (dr_log s) now
              (AssistantMessage turn step (assistantMessage mid bs provider model state) (as_usage asm) False) (Some seqs)"
    have "driver_inv seed m (s\<lparr>dr_log := dr_log s @ [?e]\<rparr>)"
      by (rule driver_log_step [OF inv stream_done(3), of ends prompt _ provider model asm seqs])
        (use stream_done step_events_place in auto)
    from driver_afterMessage [OF this] show ?thesis using stream_done by simp
  next
    case (tools_move ends calls sc turn step ab wake app sc' ctxs slog' ib')
    from driver_tools [OF inv tools_move(2-5) pos tools_move(8)] show ?thesis using tools_move by simp
  next
    case (step_leaves ends outcome now refused)
    obtain n k ab wake where run: "dr_phase s = Running n k ab wake" using at_running [OF inv] step_leaves by auto
    then have "leaving seed s stepAt"
      using inv step_leaves by (intro leavingI [OF r run]) (simp add: driver_inv_def log_place_def)
    with step_leaves show ?thesis by (simp add: driver_leaveStep)
  next
    case (step_end_refused ends outcome now refused err)
    obtain n k ab wake where run: "dr_phase s = Running n k ab wake" using at_running [OF inv] step_end_refused by auto
    then have "leaving seed (s\<lparr>dr_broken := True\<rparr>) betweenAt" using r by (simp add: leaving_def)
    with step_end_refused show ?thesis by (simp add: driver_caught)
  next
    case (converge turn step ab wake)
    then have "\<not> dr_broken s \<Longrightarrow> placed (dr_log s) (outsideAt turn)"
      using inv by (simp add: driver_inv_def log_place_def)
    with driver_settle [OF r] converge show ?thesis by simp
  next
    case (after_stops reason)
    with between [of _ "Some reason"] inv show ?thesis by (auto simp: leaving_def driver_inv_def log_place_def)
  next
    case (after_loops ends)
    with between [of _ ends] inv show ?thesis by (auto simp: leaving_def driver_inv_def log_place_def)
  next
    case (stopping_more reason)
    with between inv show ?thesis by (auto simp: leaving_def driver_inv_def log_place_def)
  qed (use between exit driver_move [OF inv] in \<open>(auto intro: out; fail)+\<close>)
qed

section \<open>Reachable states\<close>

lemma lastTurnOf_snoc:
  "lastTurnOf (evs @ [e]) = (case ev_data e of TurnStart n \<Rightarrow> n | _ \<Rightarrow> lastTurnOf evs)"
  by (cases "ev_data e") (simp_all add: lastTurnOf_def)

lemma lastTurn_next:
  assumes "seedSession evs = Inr t"
  shows "lastTurnOf evs = (case tc_openTurn t of Some n \<Rightarrow> n | None \<Rightarrow> tc_nextTurn t - 1)"
  using assms
proof (induction evs arbitrary: t rule: rev_induct)
  case Nil
  then show ?case by (auto simp: seedSession_def freshTrace_def lastTurnOf_def)
next
  case (snoc e es)
  then obtain u where u: "seedSession es = Inr u" "traceStep u e = Inr t"
    by (auto simp: seedSession_def foldE_snoc_Inr)
  note IH = snoc.IH [OF u(1)] and nums = trace_numbers(2) [OF seedSession_inv [OF u(1)]]
  have quiet: ?case if "data_marks (ev_data e) = []"
    using traceStep_quiet [OF u(2) that] IH that
    by (cases "tc_openTurn u"; cases "ev_data e") (simp_all add: lastTurnOf_snoc)
  show ?case
  proof (cases "ev_data e")
    case (TurnStart n)
    from traceStep_TurnStart [OF this u(2)] TurnStart show ?thesis by (simp add: lastTurnOf_snoc)
  next
    case (TurnEnd n r)
    from traceStep_TurnEnd [OF this u(2)] TurnEnd IH nums show ?thesis by (simp add: lastTurnOf_snoc)
  next
    case (StepStart n m)
    from traceStep_StepStart [OF this u(2)] StepStart IH show ?thesis by (simp add: lastTurnOf_snoc)
  next
    case (StepEnd n m)
    from traceStep_StepEnd [OF this u(2)] StepEnd IH show ?thesis by (simp add: lastTurnOf_snoc)
  qed (use quiet in simp_all)
qed

abbreviation seedStart :: "int option \<Rightarrow> nat" where
  "seedStart seedLength \<equiv> (case seedLength of Some n \<Rightarrow> nat n | None \<Rightarrow> 0)"

lemma driver_reach:
  assumes "newDriver seedLength evs = Inr s0" "seedStart seedLength \<le> length evs"
    and "seedSession evs = Inr t0" "tc_openTurn t0 = None" "tc_lastSeq t0 < int (length evs)"
    and "driver_reaches m s0 s" "0 < m"
  shows "driver_inv (seedStart seedLength) m s"
  using assms(6)
proof (induction rule: rtranclp_induct)
  case base
  from assms(1) obtain ib where "newInbox seedLength evs = (Inr ib :: string inbox_error + inbox)"
    "s0 = \<lparr>dr_log = evs, dr_inbox = ib, dr_phase = Idle (lastTurnOf evs), dr_pc = Off,
            dr_headerLogged = False, dr_broken = False\<rparr>"
    by (auto simp: newDriver_def result_simps)
  with assms(2-5) lastTurn_next [OF assms(3)] show ?case
    by (auto simp: driver_inv_def log_place_def placed_def outsideAt_def replays_def mirrors_def newInbox_Inr)
next
  case (step y z)
  then show ?case using driver_keeps [OF _ _ assms(7)] outer_keeps by (auto simp: system_step_def)
qed

fun inStep :: "driver_pc \<Rightarrow> bool" where
  "inStep (StepMessages _ _ _) \<longleftrightarrow> True"
| "inStep (Requesting _ _) \<longleftrightarrow> True"
| "inStep (Streaming _ _ _ _ _ _) \<longleftrightarrow> True"
| "inStep (Recovering _ _ _) \<longleftrightarrow> True"
| "inStep (Tools _ _ _) \<longleftrightarrow> True"
| "inStep (StepExit _ _) \<longleftrightarrow> True"
| "inStep _ \<longleftrightarrow> False"

fun turnOf :: "phase \<Rightarrow> int" where
  "turnOf (Idle n) = n"
| "turnOf (Maintenance n _ _) = n"
| "turnOf (Running n _ _ _) = n"

fun stepOf :: "phase \<Rightarrow> int" where
  "stepOf (Running _ k _ _) = k"
| "stepOf _ = 0"

lemma place_monitored:
  assumes "log_place m s" "isRunning (dr_phase s) \<longleftrightarrow> dr_pc s \<noteq> Off"
  shows "\<exists>t. seedSession (dr_log s) = Inr t
    \<and> tc_openTurn t = (if inTurn (dr_pc s) then Some (turnOf (dr_phase s)) else None)
    \<and> tc_openStep t = (if inStep (dr_pc s) then Some (stepOf (dr_phase s)) else None)
    \<and> tc_nextTurn t = turnOf (dr_phase s) + (if inTurn (dr_pc s) then 0 else 1)"
proof -
  have outside: ?thesis if "placed (dr_log s) (outsideAt (turnOf (dr_phase s)))"
    "\<not> inTurn (dr_pc s)" "\<not> inStep (dr_pc s)"
    using that trace_numbers [OF seedSession_inv] by (auto simp: placed_def outsideAt_def)
  have between: ?thesis if "placed (dr_log s) (betweenAt (turnOf (dr_phase s)) k)"
    "inTurn (dr_pc s)" "\<not> inStep (dr_pc s)" for k
    using that trace_numbers [OF seedSession_inv] by (auto simp: placed_def betweenAt_def)
  have inside: ?thesis if "placed (dr_log s) (stepAt (turnOf (dr_phase s)) (stepOf (dr_phase s)))"
    "inTurn (dr_pc s)" "inStep (dr_pc s)"
    using that trace_numbers [OF seedSession_inv] by (auto simp: placed_def stepAt_def)
  have fresh: "placed slog (freshStepAt n k) \<Longrightarrow> placed slog (stepAt n k)" for slog n k
    by (erule placed_weaken) (simp add: freshStepAt_def)
  show ?thesis
  proof (cases "dr_phase s")
    case (Running n k ab wake)
    with assms have "runPlace m n k (dr_pc s) (dr_log s)" by (simp add: log_place_def)
    with Running show ?thesis
      using outside between inside fresh toolsPlace_step by (cases "dr_pc s") auto
  qed (use assms outside in \<open>auto simp: log_place_def\<close>)
qed

section \<open>Progress\<close>

definition acceptAll ::
    "session_event list \<Rightarrow> event_data \<Rightarrow> session_event list \<times> (string + session_event)" where
  "acceptAll slog d = (slog @ [logged slog 0 d None], Inr (logged slog 0 d None))"

lemma acceptAll_sound: "sound_append acceptAll"
  by (auto simp: sound_append_def acceptAll_def)

lemma driver_enabled:
  assumes inv: "driver_inv seed m s" and ok: "\<not> dr_broken s" and live: "dr_pc s \<noteq> Off"
  shows "\<exists>s'. driver_step m s s'"
proof -
  obtain n k ab wake where run: "dr_phase s = Running n k ab wake" using at_running [OF inv live] by blast
  show ?thesis
  proof (cases "dr_pc s")
    case (LoopTop target ends)
    show ?thesis
    proof (cases ab)
      case None
      let ?o = "claim acceptAll (dr_log s) (dr_inbox s) target n"
      show ?thesis
        using loop_claims [OF LoopTop run [unfolded None] acceptAll_sound refl]
          loop_claim_throws [OF LoopTop run [unfolded None] acceptAll_sound refl]
        by (cases "io_result ?o") blast+
    next
      case (Some cause)
      from loop_aborted [OF LoopTop run [unfolded Some]] show ?thesis by blast
    qed
  next
    case TurnTop
    then show ?thesis using turn_refused run turn_aborted by (cases ab) blast+
  next
    case (StepMessages ends prompt ms)
    then show ?thesis
      using message_refused step_begins step_aborted by (cases ms; cases "abortOf (dr_phase s)") blast+
  next
    case (Streaming ends prompt provider model asm seqs)
    then show ?thesis using stream_throws stream_aborted by (cases "abortOf (dr_phase s)") blast+
  next
    case (AfterStep ends)
    then show ?thesis
      using after_aborted after_loops after_stops
      by (cases "abortOf (dr_phase s)"; cases ends; cases "ib_nextStep (dr_inbox s) = []") blast+
  next
    case (Tools ends calls sc)
    show ?thesis
    proof (cases "sc_pc sc \<in> {Returned, Failed}")
      case True
      with Tools show ?thesis using tools_returned tools_failed by blast
    next
      case False
      from inv ok Tools run obtain base where "sched_inv calls n k m base (sc\<lparr>sc_log := dr_log s\<rparr>)"
        by (auto simp: driver_inv_def log_place_def toolsPlace_def)
      from inv_abort [OF this] have "sched_inv calls n k m base (syncSched s sc)" by (simp add: syncSched_def)
      from sched_enabled [OF this] False obtain sc' where "plainStep calls n k m (syncSched s sc) sc'"
        by (auto simp: syncSched_def)
      then have "ownStep calls n k m (syncSched s sc) sc'" "sc_signal sc' = (ab \<noteq> None)"
        "sc_contexts sc' = sc_contexts sc @ []"
        using run by (simp_all add: plainStep_def syncSched_def)
      from tools_move [OF Tools run acceptAll_sound this] show ?thesis by auto
    qed
  next
    case (Assembling ends claimed)
    show ?thesis by (rule exI, rule assemble_throws [OF Assembling])
  next
    case (Proposing ends prompt proposed)
    show ?thesis by (rule exI, rule pre_step_throws [OF Proposing])
  next
    case (Requesting ends prompt)
    show ?thesis by (rule exI, rule request_throws [OF Requesting])
  next
    case (Recovering ends prompt f)
    show ?thesis by (rule exI, rule recovery_throws [OF Recovering])
  next
    case (StepExit ends outcome)
    show ?thesis by (rule exI, rule step_leaves [OF StepExit])
  next
    case (Stopping reason)
    show ?thesis by (rule exI, rule stopping_throws [OF Stopping])
  next
    case Converge
    show ?thesis by (rule exI, rule converge [OF Converge run])
  qed (use live in simp)
qed

section \<open>Cancellation\<close>

definition cancelRank :: "driver \<Rightarrow> nat" where
  "cancelRank s =
     (case dr_pc s of
        Off \<Rightarrow> 0
      | Converge \<Rightarrow> 0
      | StepExit _ _ \<Rightarrow> 2
      | StepMessages _ _ ms \<Rightarrow> 4 + length ms
      | Requesting _ _ \<Rightarrow> 3
      | Streaming _ _ _ _ _ _ \<Rightarrow> 3
      | Recovering _ _ _ \<Rightarrow> 3
      | Tools _ calls sc \<Rightarrow> 3 + sched_measure calls (syncSched s sc)
      | _ \<Rightarrow> 1)"

text \<open>What a cancelled turn may still log.\<close>

fun closing :: "cancel_cause \<Rightarrow> event_data \<Rightarrow> bool" where
  "closing cause (TurnEnd _ reason) \<longleftrightarrow> reason = EndAborted cause"
| "closing cause (StepEnd _ _) \<longleftrightarrow> True"
| "closing cause (UserMessage _) \<longleftrightarrow> True"
| "closing cause (AssistantMessage _ _ _ _ interrupted) \<longleftrightarrow> interrupted"
| "closing cause (ToolCall _ _ _ _ _) \<longleftrightarrow> True"
| "closing cause (ToolResult _ _ _ _ _) \<longleftrightarrow> True"
| "closing cause (InboxSpliced _) \<longleftrightarrow> True"
| "closing cause _ \<longleftrightarrow> False"

definition closes :: "cancel_cause \<Rightarrow> driver \<Rightarrow> driver \<Rightarrow> bool" where
  "closes cause s s' \<longleftrightarrow> dr_phase s' = dr_phase s \<and> cancelRank s' < cancelRank s
     \<and> (\<exists>later. dr_log s' = dr_log s @ later \<and> (\<forall>e \<in> set later. closing cause (ev_data e)))"

lemma grewBy_later: "grewBy P a b \<Longrightarrow> \<exists>later. b = a @ later \<and> (\<forall>e \<in> set later. P e)"
proof (induction rule: rtranclp_induct)
  case (step y z)
  then show ?case by (auto simp: adds_def)
qed simp

lemma closes_caught:
  assumes "dr_phase s = Running n k (Some cause) wake" "dr_log s = dr_log s0" "dr_phase s0 = dr_phase s"
    "0 < cancelRank s0"
  shows "closes cause s0 (caught now refused err s)"
  using assms by (auto simp: closes_def caught_def endTurn_def cancelRank_def)

lemma sched_measure_log [simp]: "sched_measure calls (sc\<lparr>sc_log := slog\<rparr>) = sched_measure calls sc"
  by (cases "sc_pc sc") (simp_all add: sched_measure_def Let_def)

lemma cancelled_step:
  assumes step: "driver_step m s s'" and inv: "driver_inv seed m s" and ok: "\<not> dr_broken s"
    and run: "dr_phase s = Running n k (Some cause) wake" and pc: "dr_pc s \<noteq> Converge"
  shows "closes cause s s'"
  using step
proof cases
  case (tools_move ends calls sc turn step ab wake' app sc' ctxs slog' ib')
  have [simp]: "turn = n" "step = k" "ab = Some cause" using run tools_move(3) by simp_all
  from own_log [OF tools_move(5)] obtain es where es: "sc_log sc' = dr_log s @ es" "\<forall>e \<in> set es. isToolData (ev_data e)"
    by (auto simp: syncSched_def)
  from accept_contexts [OF tools_move(4,8)] obtain later where "slog' = sc_log sc' @ later"
    "\<forall>e \<in> set later. isSplice (ev_data e)" by (blast dest: grewBy_later)
  moreover have "closing cause d" if "isToolData d \<or> isSplice d" for d
    using that by (cases d) auto
  ultimately have log: "\<exists>later. slog' = dr_log s @ later \<and> (\<forall>e \<in> set later. closing cause (ev_data e))"
    using es by (intro exI [of _ "es @ later"]) auto
  from inv ok tools_move(2) run obtain base where b: "sched_inv calls n k m base (sc\<lparr>sc_log := dr_log s\<rparr>)" "startedSome sc"
    by (auto simp: driver_inv_def log_place_def toolsPlace_def)
  from inv_abort [OF b(1)] have "sched_inv calls n k m base (syncSched s sc)" by (simp add: syncSched_def)
  moreover have "startedSome (syncSched s sc)" using b(2) by (simp add: syncSched_def startedSome_def)
  ultimately have "sched_measure calls sc' < sched_measure calls (syncSched s sc)"
    using sched_measure_step tools_move(5) by (fastforce simp: ownStep_def)
  moreover have "syncSched s' sc' = sc'\<lparr>sc_log := slog'\<rparr>"
    using tools_move(1,6) run by (simp add: syncSched_def)
  ultimately show ?thesis using tools_move(1,2) log by (simp add: closes_def cancelRank_def)
next
  case (step_leaves ends outcome now refused)
  let ?e = "logged (dr_log s) now (StepEnd n k) None"
  show ?thesis
    using step_leaves run
    by (cases outcome) (auto simp: leaveStep_def Let_def closes_def caught_def endTurn_def cancelRank_def)
next
  case (step_end_refused ends outcome now refused err)
  then show ?thesis using run by (auto intro!: closes_caught [where n = n and k = k and wake = wake] simp: cancelRank_def)
next
  case (stream_interrupted ends prompt provider model asm seqs turn step cause' wake' bs err now mid)
  then show ?thesis using run by (auto simp: closes_def cancelRank_def)
qed (insert run pc, ((simp; fail) | (simp add: closes_def cancelRank_def caught_def endTurn_def userEvent_def; fail))+)

section \<open>A sample run\<close>

text \<open>A waking message opens turn 1; then the user cancels.\<close>

definition sampleIdle :: driver where
  "sampleIdle = \<lparr>dr_log = [], dr_inbox = emptyInbox, dr_phase = Idle 0, dr_pc = Off,
     dr_headerLogged = False, dr_broken = False\<rparr>"

definition sampleSplice :: inbox_splice where
  "sampleSplice = \<lparr>sp_target = NextTurn, sp_start = 0, sp_removedCount = None,
     sp_inserted = [sampleMessage ''a''], sp_canceled = False\<rparr>"

definition sampleTurnLog :: "session_event list" where
  "sampleTurnLog = [logged [] 0 (InboxSpliced sampleSplice) None,
     logged [logged [] 0 (InboxSpliced sampleSplice) None] 0 (TurnStart 1) None]"

definition sampleOpened :: "cancel_cause option \<Rightarrow> driver" where
  "sampleOpened ab = \<lparr>dr_log = sampleTurnLog, dr_inbox = \<lparr>ib_nextTurn = [sampleMessage ''a''], ib_nextStep = []\<rparr>,
     dr_phase = Running 1 0 ab False, dr_pc = LoopTop NextTurn None, dr_headerLogged = False, dr_broken = False\<rparr>"

lemma sampleOpened_simps [simp]:
  "dr_phase (sampleOpened ab) = Running 1 0 ab False" "dr_pc (sampleOpened ab) = LoopTop NextTurn None"
  "\<not> dr_broken (sampleOpened ab)" "dr_log (sampleOpened ab) = sampleTurnLog"
  by (simp_all add: sampleOpened_def)

lemma sampleIdle_new: "newDriver None [] = Inr sampleIdle"
  by (simp add: newDriver_def newInbox_def sampleIdle_def lastTurnOf_def)

lemma sample_driver_run: "driver_reaches 1 sampleIdle (sampleOpened ab)"
proof -
  let ?slog = "[logged [] 0 (InboxSpliced sampleSplice) None]"
  let ?ib = "\<lparr>ib_nextTurn = [sampleMessage ''a''], ib_nextStep = []\<rparr>"
  let ?d1 = "sampleIdle\<lparr>dr_log := ?slog, dr_inbox := ?ib, dr_phase := Running 0 0 None False, dr_pc := TurnTop\<rparr>"
  let ?o = "inboxSplice acceptAll [] emptyInbox NextTurn PosInf (natNum 0) [sampleMessage ''a'']"
  have o: "io_log ?o = ?slog" "io_inbox ?o = ?ib" "io_result ?o = Inr []"
    by (simp_all add: inbox_eval acceptAll_def sampleSplice_def)
  have "outer_step sampleIdle ?d1"
    using send [where s = sampleIdle and wakeup = True and m = "sampleMessage ''a''" and target = NextTurn,
        OF acceptAll_sound refl refl _ refl] o
    by (simp add: sampleIdle_def wakeDriver_def)
  then have 1: "system_step 1 sampleIdle ?d1" by (simp add: system_step_def)
  have "driver_step 1 ?d1 (sampleOpened None)"
    using turn_opens [of ?d1 0 0 False 1 0] by (simp add: sampleOpened_def sampleIdle_def sampleTurnLog_def)
  then have 2: "system_step 1 ?d1 (sampleOpened None)" by (simp add: system_step_def)
  have 3: "system_step 1 (sampleOpened None) (sampleOpened (Some c))" for c
    using cancel_keeping [of "sampleOpened None" c] by (simp add: sampleOpened_def system_step_def)
  have "driver_reaches 1 sampleIdle (sampleOpened None)"
    by (rule rtranclp.rtrancl_into_rtrancl [OF r_into_rtranclp [of "system_step 1", OF 1] 2])
  then show ?thesis using 3 by (cases ab) (auto elim: rtranclp.rtrancl_into_rtrancl)
qed

lemma sample_driver_trace: "seedSession [] = Inr freshTrace" "tc_openTurn freshTrace = None" "tc_lastSeq freshTrace < int (length [])"
  by (simp_all add: seedSession_def freshTrace_def)

section \<open>Properties\<close>

text \<open>C30.
  The driver's log is always one the trace monitor accepts, whatever messages arrive, hooks answer, appends
  are refused and cancels fall in between: turns and steps are numbered consecutively and nest, and the await
  the driver is at says exactly which turn and step are open. (Unless an append of \<open>step/end\<close> or \<open>turn/end\<close> was
  refused, or a model message repeated a tool-call id.)
\<close>

theorem driver_log_accepted:
  assumes "newDriver seedLength evs = Inr s0" "seedStart seedLength \<le> length evs"
    and "seedSession evs = Inr t0" "tc_openTurn t0 = None" "tc_lastSeq t0 < int (length evs)"
    and "(system_step maxParallel)\<^sup>*\<^sup>* s0 s" "0 < maxParallel" "\<not> dr_broken s"
  shows "\<exists>t. seedSession (dr_log s) = Inr t
    \<and> tc_openTurn t = (if inTurn (dr_pc s) then Some (turnOf (dr_phase s)) else None)
    \<and> tc_openStep t = (if inStep (dr_pc s) then Some (stepOf (dr_phase s)) else None)
    \<and> tc_nextTurn t = turnOf (dr_phase s) + (if inTurn (dr_pc s) then 0 else 1)"
  using driver_reach [OF assms(1-7)] assms(8) by (intro place_monitored) (auto simp: driver_inv_def)

theorem driver_log_accepted_witness:
  "\<exists>t. seedSession sampleTurnLog = Inr t \<and> tc_openTurn t = Some 1 \<and> tc_openStep t = None"
  using driver_log_accepted [OF sampleIdle_new _ sample_driver_trace sample_driver_run [of None]]
  by (auto simp: sampleOpened_def)

text \<open>C31.
  The durable inbox cannot be lost: in every reachable state, broken log or not, replaying the log from the
  seed boundary yields exactly the live inbox, so a restart finds every pending message, once; and a driver
  is running if and only if it is at one of its awaits (there is at most one).
\<close>

theorem driver_inbox_durable:
  assumes "newDriver seedLength evs = Inr s0" "seedStart seedLength \<le> length evs"
    and "seedSession evs = Inr t0" "tc_openTurn t0 = None" "tc_lastSeq t0 < int (length evs)"
    and "(system_step maxParallel)\<^sup>*\<^sup>* s0 s" "0 < maxParallel"
  shows "newInbox seedLength (dr_log s) = (Inr (dr_inbox s) :: string inbox_error + inbox)
    \<and> distinct (map msg_id (ib_nextTurn (dr_inbox s) @ ib_nextStep (dr_inbox s)))
    \<and> (isRunning (dr_phase s) \<longleftrightarrow> dr_pc s \<noteq> Off)"
proof -
  note inv = driver_reach [OF assms]
  then have r: "inboxReplays (drop (seedStart seedLength) (dr_log s)) (dr_inbox s)"
    by (simp add: driver_inv_def replays_def mirrors_def)
  from inboxReplays_ok(1) [OF r] have "distinct (map msg_id (ib_nextTurn (dr_inbox s) @ ib_nextStep (dr_inbox s)))"
    by (simp add: inbox_ok_def pendingMessages_def)
  with r inv show ?thesis by (simp add: newInbox_Inr driver_inv_def)
qed

theorem driver_inbox_durable_witness:
  "newInbox None sampleTurnLog = (Inr \<lparr>ib_nextTurn = [sampleMessage ''a''], ib_nextStep = []\<rparr> :: string inbox_error + inbox)"
  using driver_inbox_durable [OF sampleIdle_new _ sample_driver_trace sample_driver_run [of None]]
  by (simp add: sampleOpened_def)





end
