(* ===== verification/Tool_Pairing.thy ===== *)
theory Tool_Pairing
  imports Session_Log Runtime_Context
begin

text \<open>
  Tool-pairing balance over a session surface: \<open>compaction/compaction/src/tool-pairing.ts\<close>. A cut of the surface
  is balanced when no unanswered tool call crosses it; compaction replaces only what lies between balanced cuts.

  The surface and the generation of a session are read as the replay of its log, which is what the manager
  reports (\<open>surfaceManager_refines_foldSurface\<close>). The cache of the module, one per session, is an argument and a
  result. A query against it is specified by a count over the surface, \<open>pairingAnswer\<close>.
\<close>

section \<open>The balance cache\<close>

datatype pairing_error = NoSuchEvent int | UnmatchedResult int | NotOnSurface int

record balance_cache =
  bc_generation :: nat
  bc_cutBalanced :: "bool list"
  bc_indexBySeq :: "int \<rightharpoonup> nat"
  bc_inProgress :: int

definition eventDelta :: "session_event \<Rightarrow> int" where
  "eventDelta e =
     (case ev_data e of
        AssistantMessage _ _ m _ _ \<Rightarrow> int (length (filter is_tool_call (msg_content m)))
      | ToolResult _ _ _ _ _ \<Rightarrow> - 1
      | _ \<Rightarrow> 0)"

definition eventForSeq :: "session_event list \<Rightarrow> int \<Rightarrow> pairing_error + session_event" where
  "eventForSeq evs seq =
     (case js_index evs seq of
        None \<Rightarrow> Inl (NoSuchEvent seq)
      | Some e \<Rightarrow> if ev_seq e \<noteq> seq then Inl (NoSuchEvent seq) else Inr e)"

definition balanceStep :: "session_event list \<Rightarrow> int \<times> bool list \<Rightarrow> int \<Rightarrow> pairing_error + int \<times> bool list" where
  "balanceStep evs = (\<lambda>(inProgress, cuts) seq.
     bindE (eventForSeq evs seq) (\<lambda>e.
       let n = inProgress + eventDelta e in
       if n < 0 then Inl (UnmatchedResult seq) else Inr (n, cuts @ [n = 0])))"

definition extendCache :: "session_event list \<Rightarrow> balance_cache \<Rightarrow> int list \<Rightarrow> pairing_error + balance_cache" where
  "extendCache evs cache seqs =
     (let processed = length (bc_cutBalanced cache) - 1;
          tail = drop processed seqs in
      bindE (foldE (balanceStep evs) (bc_inProgress cache, []) tail) (\<lambda>(n, pendingCuts).
        Inr (cache\<lparr>bc_indexBySeq := (bc_indexBySeq cache)(tail [\<mapsto>] [processed..<processed + length tail]),
                   bc_cutBalanced := bc_cutBalanced cache @ pendingCuts,
                   bc_inProgress := n\<rparr>)))"

definition emptyCache :: "nat \<Rightarrow> balance_cache" where
  "emptyCache generation =
     \<lparr>bc_generation = generation, bc_cutBalanced = [True], bc_indexBySeq = Map.empty, bc_inProgress = 0\<rparr>"

definition balanceCache ::
    "session_event list \<Rightarrow> int list \<Rightarrow> nat \<Rightarrow> balance_cache option \<Rightarrow> balance_cache option \<times> (pairing_error + balance_cache)" where
  "balanceCache evs seqs generation cached =
     (let settle = (\<lambda>r. case r of Inl e \<Rightarrow> (cached, Inl e) | Inr c \<Rightarrow> (Some c, Inr c));
          rebuilt = settle (extendCache evs (emptyCache generation) seqs) in
      case cached of
        None \<Rightarrow> rebuilt
      | Some c \<Rightarrow>
          if bc_generation c \<noteq> generation \<or> length seqs < length (bc_cutBalanced c) - 1 then rebuilt
          else if length (bc_cutBalanced c) - 1 < length seqs then settle (extendCache evs c seqs)
          else (cached, Inr c))"

definition cutBalance :: "balance_cache \<Rightarrow> int \<Rightarrow> nat \<Rightarrow> pairing_error + bool" where
  "cutBalance c seq offset =
     (case bc_indexBySeq c seq of
        None \<Rightarrow> Inl (NotOnSurface seq)
      | Some i \<Rightarrow>
          if i + offset < length (bc_cutBalanced c) then Inr (bc_cutBalanced c ! (i + offset))
          else Inl (NotOnSurface seq))"

definition surfaceOf :: "session_event list \<Rightarrow> int list \<times> nat" where
  "surfaceOf slog = (case foldSurface slog of Inr (nodes, reps) \<Rightarrow> (nodes, length reps) | Inl _ \<Rightarrow> ([], 0))"

definition pairingQuery ::
    "session_event list \<Rightarrow> balance_cache option \<Rightarrow> int \<Rightarrow> nat \<Rightarrow> balance_cache option \<times> (pairing_error + bool)" where
  "pairingQuery slog cached seq offset =
     (case balanceCache slog (fst (surfaceOf slog)) (snd (surfaceOf slog)) cached of
        (cached', r) \<Rightarrow> (cached', bindE r (\<lambda>c. cutBalance c seq offset)))"

definition toolPairingBalancedBefore ::
    "session_event list \<Rightarrow> balance_cache option \<Rightarrow> int \<Rightarrow> balance_cache option \<times> (pairing_error + bool)" where
  "toolPairingBalancedBefore slog cached seq = pairingQuery slog cached seq 0"

definition toolPairingBalancedAfter ::
    "session_event list \<Rightarrow> balance_cache option \<Rightarrow> int \<Rightarrow> balance_cache option \<times> (pairing_error + bool)" where
  "toolPairingBalancedAfter slog cached seq = pairingQuery slog cached seq 1"

section \<open>The count behind the cache\<close>

definition openCalls :: "session_event list \<Rightarrow> int list \<Rightarrow> int" where
  "openCalls slog ns = (\<Sum>n\<leftarrow>ns. eventDelta (eventAt 0 slog n))"

definition firstUnmatched :: "session_event list \<Rightarrow> int list \<Rightarrow> nat option" where
  "firstUnmatched slog ns = find (\<lambda>k. openCalls slog (take (Suc k) ns) < 0) [0..<length ns]"

definition pairingAnswer :: "session_event list \<Rightarrow> int \<Rightarrow> nat \<Rightarrow> pairing_error + bool" where
  "pairingAnswer slog seq offset =
     (let nodes = fst (surfaceOf slog) in
      case firstUnmatched slog nodes of
        Some k \<Rightarrow> Inl (UnmatchedResult (nodes ! k))
      | None \<Rightarrow>
          (case indexOf nodes seq of
             None \<Rightarrow> Inl (NotOnSurface seq)
           | Some i \<Rightarrow> Inr (openCalls slog (take (i + offset) nodes) = 0)))"

lemma openCalls_simps [simp]:
  "openCalls slog [] = 0"
  "openCalls slog (n # ns) = eventDelta (eventAt 0 slog n) + openCalls slog ns"
  "openCalls slog (ns @ ms) = openCalls slog ns + openCalls slog ms"
  by (simp_all add: openCalls_def)

lemma openCalls_later:
  assumes "\<And>n. n \<in> set ns \<Longrightarrow> 0 \<le> n \<and> n < int (length slog)"
  shows "openCalls (slog @ later) ns = openCalls slog ns"
  using assms by (induction ns) auto

lemma find_upt_Suc: "find P [0..<Suc n] = (if P 0 then Some 0 else map_option Suc (find (\<lambda>k. P (Suc k)) [0..<n]))"
proof -
  have "find P (map Suc ks) = map_option Suc (find (\<lambda>k. P (Suc k)) ks)" for ks by (induction ks) auto
  then show ?thesis by (simp add: upt_conv_Cons map_Suc_upt [symmetric] del: upt_Suc)
qed

lemma balance_loop:
  assumes "\<And>n. n \<in> set ns \<Longrightarrow> eventForSeq slog n = Inr (eventAt 0 slog n)"
  shows "foldE (balanceStep slog) (c, cuts) ns =
    (case find (\<lambda>k. c + openCalls slog (take (Suc k) ns) < 0) [0..<length ns] of
       Some k \<Rightarrow> Inl (UnmatchedResult (ns ! k))
     | None \<Rightarrow> Inr (c + openCalls slog ns, cuts @ map (\<lambda>k. c + openCalls slog (take (Suc k) ns) = 0) [0..<length ns]))"
  using assms
proof (induction ns arbitrary: c cuts)
  case Nil
  then show ?case by simp
next
  case (Cons n ns)
  let ?c = "c + eventDelta (eventAt 0 slog n)"
  have step: "balanceStep slog (c, cuts) n = (if ?c < 0 then Inl (UnmatchedResult n) else Inr (?c, cuts @ [?c = 0]))"
    using Cons.prems by (simp add: balanceStep_def Let_def)
  have cuts: "map (\<lambda>k. c + openCalls slog (take (Suc k) (n # ns)) = 0) [0..<length (n # ns)]
      = (?c = 0) # map (\<lambda>k. ?c + openCalls slog (take (Suc k) ns) = 0) [0..<length ns]"
    by (simp add: upt_conv_Cons map_Suc_upt [symmetric] add.assoc del: upt_Suc)
  have search: "find (\<lambda>k. c + openCalls slog (take (Suc k) (n # ns)) < 0) [0..<length (n # ns)]
      = (if ?c < 0 then Some 0 else map_option Suc (find (\<lambda>k. ?c + openCalls slog (take (Suc k) ns) < 0) [0..<length ns]))"
    by (simp only: length_Cons find_upt_Suc) (simp add: add.assoc)
  show ?case
    unfolding search cuts using Cons.IH [of ?c "cuts @ [?c = 0]"] Cons.prems
    by (simp add: step split: option.split del: upt_Suc)
qed

lemma index_upds: "distinct ns \<Longrightarrow> [ns [\<mapsto>] [0..<length ns]] n = indexOf ns n"
proof (induction ns rule: rev_induct)
  case Nil
  then show ?case by simp
next
  case (snoc m ns)
  have idx: "indexOf (xs @ [y]) x = (case indexOf xs x of Some i \<Rightarrow> Some i | None \<Rightarrow> if y = x then Some (length xs) else None)"
    for xs and x y :: 'a by (induction xs) (auto split: option.split)
  have "[ns @ [m] [\<mapsto>] [0..<length (ns @ [m])]] = [ns [\<mapsto>] [0..<length ns]](m \<mapsto> length ns)"
    by (simp add: map_upds_append1 nth_append)
  with snoc show ?case by (auto simp: idx array_simps split: option.split)
qed

section \<open>What a cache holds\<close>

definition cache_of :: "session_event list \<Rightarrow> int list \<Rightarrow> balance_cache \<Rightarrow> bool" where
  "cache_of slog ns c \<longleftrightarrow>
     firstUnmatched slog ns = None
     \<and> bc_cutBalanced c = map (\<lambda>k. openCalls slog (take k ns) = 0) [0..<Suc (length ns)]
     \<and> bc_indexBySeq c = [ns [\<mapsto>] [0..<length ns]]
     \<and> bc_inProgress c = openCalls slog ns"

definition cache_ok :: "session_event list \<Rightarrow> balance_cache option \<Rightarrow> bool" where
  "cache_ok slog cached \<longleftrightarrow>
     (\<forall>c. cached = Some c \<longrightarrow> bc_generation c \<le> snd (surfaceOf slog)
        \<and> (bc_generation c = snd (surfaceOf slog)
             \<longrightarrow> (\<exists>k \<le> length (fst (surfaceOf slog)). cache_of slog (take k (fst (surfaceOf slog))) c)))"

lemma surface_nodes:
  assumes "foldSurface slog = Inr (nodes, reps)" "n \<in> set nodes"
  shows "0 \<le> n \<and> n < int (length slog)" "eventForSeq slog n = Inr (eventAt 0 slog n)"
proof -
  from assms(1) obtain st where r: "surfaceReplay 0 slog = Inr (slog, st, reps)" "nodes = sf_nodes st"
    by (auto simp: foldSurface_Inr)
  have inv: "surfaceInv 0 slog (slog, st, reps)" by (rule surface_replay.replay_inv [OF r(1)])
  show n: "0 \<le> n \<and> n < int (length slog)"
    using surfaceInv_nodes(2) [OF inv] assms(2) r(2) by (force simp: eligibleSeqs_range)
  have "ev_seq (slog ! i) = int i" if "i < length slog" for i
    by (rule replay_seqs [OF r(1) that])
  with n show "eventForSeq slog n = Inr (eventAt 0 slog n)"
    by (auto simp: eventForSeq_def eventAt_def js_index_def)
qed

lemma find_parts: "find P (xs @ ys) = (case find P xs of Some x \<Rightarrow> Some x | None \<Rightarrow> find P ys)"
  by (induction xs) auto

lemma find_shift: "find P (map f xs) = map_option f (find (\<lambda>x. P (f x)) xs)"
  by (induction xs) auto

lemma upt_parts: "k \<le> n \<Longrightarrow> [0..<n] = [0..<k] @ map (\<lambda>j. k + j) [0..<n - k]"
  using upt_add_eq_append [of 0 k "n - k"] map_add_upt [of k "n - k"] by (simp add: add.commute)

lemma take_beyond: "k \<le> length ns \<Longrightarrow> take (k + j) ns = take k ns @ take j (drop k ns)"
  by (rule take_add)

lemma firstUnmatched_parts:
  assumes "k \<le> length ns" "firstUnmatched slog (take k ns) = None"
  shows "firstUnmatched slog ns = map_option (\<lambda>j. k + j)
    (find (\<lambda>j. openCalls slog (take k ns) + openCalls slog (take (Suc j) (drop k ns)) < 0) [0..<length ns - k])"
proof -
  have same: "find (\<lambda>j. openCalls slog (take (Suc j) ns) < 0) [0..<k] = firstUnmatched slog (take k ns)"
    unfolding firstUnmatched_def using assms(1) by (intro find_cong) (auto simp: min_def split: if_splits)
  have "openCalls slog (take (Suc (k + j)) ns) = openCalls slog (take k ns) + openCalls slog (take (Suc j) (drop k ns))" for j
    using take_add [of k "Suc j" ns] by simp
  with same assms show ?thesis
    unfolding firstUnmatched_def upt_parts [OF assms(1)] find_parts find_shift by simp
qed

lemma cuts_parts:
  assumes "k \<le> length ns"
  shows "map (\<lambda>j. openCalls slog (take j ns) = 0) [0..<Suc (length ns)] =
    map (\<lambda>j. openCalls slog (take j (take k ns)) = 0) [0..<Suc (length (take k ns))]
    @ map (\<lambda>j. openCalls slog (take k ns) + openCalls slog (take (Suc j) (drop k ns)) = 0) [0..<length (drop k ns)]"
proof -
  have "[0..<Suc (length ns)] = [0..<Suc k] @ map (\<lambda>j. Suc k + j) [0..<length ns - k]"
    using upt_parts [of "Suc k" "Suc (length ns)"] assms by simp
  moreover have "openCalls slog (take (Suc k + j) ns) = openCalls slog (take k ns) + openCalls slog (take (Suc j) (drop k ns))" for j
    using take_add [of k "Suc j" ns] by simp
  ultimately show ?thesis using assms by (simp add: min_def del: upt_Suc)
qed

lemma upds_append: "length xs = length ks \<Longrightarrow> m(xs [\<mapsto>] ks, ys [\<mapsto>] js) = m(xs @ ys [\<mapsto>] ks @ js)"
  by (simp add: map_upds_def)

lemma extend_exact:
  assumes c: "cache_of slog (take k nodes) c" "k \<le> length nodes"
    and good: "\<And>n. n \<in> set nodes \<Longrightarrow> eventForSeq slog n = Inr (eventAt 0 slog n)"
  shows "case firstUnmatched slog nodes of
      Some j \<Rightarrow> extendCache slog c nodes = Inl (UnmatchedResult (nodes ! j))
    | None \<Rightarrow> \<exists>c'. extendCache slog c nodes = Inr c' \<and> cache_of slog nodes c' \<and> bc_generation c' = bc_generation c"
proof -
  have processed: "length (bc_cutBalanced c) = Suc k" using c by (simp add: cache_of_def min_def)
  have loop: "foldE (balanceStep slog) (bc_inProgress c, []) (drop k nodes) =
    (case firstUnmatched slog nodes of
       Some j \<Rightarrow> Inl (UnmatchedResult (nodes ! j))
     | None \<Rightarrow> Inr (openCalls slog nodes,
         map (\<lambda>j. openCalls slog (take k nodes) + openCalls slog (take (Suc j) (drop k nodes)) = 0) [0..<length (drop k nodes)]))"
  proof -
    have "openCalls slog (take k nodes) + openCalls slog (drop k nodes) = openCalls slog nodes"
      using openCalls_simps(3) [of slog "take k nodes" "drop k nodes"] by simp
    moreover have "firstUnmatched slog (take k nodes) = None" using c(1) by (simp add: cache_of_def)
    ultimately show ?thesis
      using balance_loop [of "drop k nodes" slog "openCalls slog (take k nodes)" "[]", OF good [OF in_set_dropD]] c
      by (auto simp: firstUnmatched_parts [OF c(2)] cache_of_def split: option.split)
  qed
  show ?thesis
  proof (cases "firstUnmatched slog nodes")
    case (Some j)
    with loop show ?thesis by (simp add: extendCache_def processed Let_def)
  next
    case None
    have index: "[take k nodes [\<mapsto>] [0..<k]](drop k nodes [\<mapsto>] [k..<length nodes]) = [nodes [\<mapsto>] [0..<length nodes]]"
      using upds_append [of "take k nodes" "[0..<k]" Map.empty "drop k nodes" "[k..<length nodes]"] c(2)
        upt_add_eq_append [of 0 k "length nodes - k"] by simp
    from None loop cuts_parts [OF c(2), of slog] c index show ?thesis
      by (simp add: extendCache_def processed Let_def cache_of_def min_def del: upt_Suc)
  qed
qed

lemma surface_later:
  assumes "foldSurface slog = Inr (nodes, reps)" "foldSurface (slog @ [e]) = Inr (nodes', reps')"
  shows "length reps \<le> length reps' \<and> (length reps' = length reps \<longrightarrow> (\<exists>ns. nodes' = nodes @ ns))"
proof -
  from assms obtain st st' where "surfaceReplay 0 slog = Inr (slog, st, reps)" "nodes = sf_nodes st"
    "surfaceReplay 0 (slog @ [e]) = Inr (slog @ [e], st', reps')" "nodes' = sf_nodes st'"
    by (auto simp: foldSurface_Inr)
  then show ?thesis using replay_prefix_nodes by blast
qed

lemma cache_of_later:
  assumes "cache_of slog ns c" "\<And>n. n \<in> set ns \<Longrightarrow> 0 \<le> n \<and> n < int (length slog)"
  shows "cache_of (slog @ later) ns c"
proof -
  have "openCalls (slog @ later) (take k ns) = openCalls slog (take k ns)" for k
    using assms(2) by (intro openCalls_later) (auto dest: in_set_takeD)
  moreover from this [of "length ns"] have "openCalls (slog @ later) ns = openCalls slog ns" by simp
  ultimately show ?thesis using assms(1) by (simp add: cache_of_def firstUnmatched_def)
qed

lemma cache_ok_append:
  assumes "foldSurface slog = Inr (nodes, reps)" "foldSurface (slog @ [e]) = Inr (nodes', reps')" "cache_ok slog cached"
  shows "cache_ok (slog @ [e]) cached"
  unfolding cache_ok_def
proof (intro allI impI)
  fix c assume c: "cached = Some c"
  note grow = surface_later [OF assms(1,2)]
  have old: "bc_generation c \<le> length reps"
    "bc_generation c = length reps \<Longrightarrow> \<exists>k \<le> length nodes. cache_of slog (take k nodes) c"
    using assms(1,3) c by (auto simp: cache_ok_def surfaceOf_def)
  have "\<exists>k \<le> length nodes'. cache_of (slog @ [e]) (take k nodes') c" if g: "bc_generation c = length reps'"
  proof -
    from grow old g have same: "length reps' = length reps" by simp
    then obtain ns where ns: "nodes' = nodes @ ns" using grow by blast
    obtain k where k: "k \<le> length nodes" "cache_of slog (take k nodes) c" using old(2) g same by auto
    have "cache_of (slog @ [e]) (take k nodes) c"
      by (rule cache_of_later [OF k(2)]) (auto dest!: in_set_takeD surface_nodes(1) [OF assms(1)])
    with k(1) ns show ?thesis by (intro exI [of _ k]) simp
  qed
  with old(1) grow show "bc_generation c \<le> snd (surfaceOf (slog @ [e])) \<and>
      (bc_generation c = snd (surfaceOf (slog @ [e])) \<longrightarrow>
        (\<exists>k \<le> length (fst (surfaceOf (slog @ [e]))). cache_of (slog @ [e]) (take k (fst (surfaceOf (slog @ [e])))) c))"
    using assms(2) by (auto simp: surfaceOf_def)
qed

text \<open>Rebuilt, extended or reused, the cache ends up being that of the current surface, or an unmatched result is found.\<close>

lemma balanceCache_exact:
  assumes s: "foldSurface slog = Inr (nodes, reps)" and ok: "cache_ok slog cached"
    and b: "balanceCache slog nodes (length reps) cached = (cached', r)"
  shows "cache_ok slog cached' \<and>
    (case firstUnmatched slog nodes of
       Some j \<Rightarrow> r = Inl (UnmatchedResult (nodes ! j))
     | None \<Rightarrow> \<exists>c. r = Inr c \<and> cache_of slog nodes c)"
proof -
  note good = surface_nodes(2) [OF s]
  have view: "surfaceOf slog = (nodes, length reps)" using s by (simp add: surfaceOf_def)
  have settled: ?thesis
    if c: "cache_of slog (take k nodes) c" "k \<le> length nodes" "bc_generation c = length reps"
      and x: "balanceCache slog nodes (length reps) cached = (case extendCache slog c nodes of Inl e \<Rightarrow> (cached, Inl e) | Inr c' \<Rightarrow> (Some c', Inr c'))" for k c
  proof (cases "firstUnmatched slog nodes")
    case (Some j)
    with extend_exact [OF c(1,2) good] x b ok show ?thesis by simp
  next
    case None
    with extend_exact [OF c(1,2) good] obtain c' where "extendCache slog c nodes = Inr c'" "cache_of slog nodes c'"
      "bc_generation c' = length reps" using c(3) by auto
    with x b None view show ?thesis by (auto simp: cache_ok_def)
  qed
  have empty: "cache_of slog (take 0 nodes) (emptyCache (length reps))"
    by (simp add: cache_of_def emptyCache_def firstUnmatched_def)
  have fresh: ?thesis if "balanceCache slog nodes (length reps) cached =
      (case extendCache slog (emptyCache (length reps)) nodes of Inl e \<Rightarrow> (cached, Inl e) | Inr c' \<Rightarrow> (Some c', Inr c'))"
    by (rule settled [OF empty]) (use that in \<open>simp_all add: emptyCache_def\<close>)
  show ?thesis
  proof (cases cached)
    case None
    then show ?thesis by (intro fresh) (simp add: balanceCache_def Let_def split: sum.split)
  next
    case (Some c)
    show ?thesis
    proof (cases "bc_generation c \<noteq> length reps \<or> length nodes < length (bc_cutBalanced c) - 1")
      case True
      with Some show ?thesis by (intro fresh) (simp add: balanceCache_def Let_def split: sum.split)
    next
      case False
      with ok Some view obtain k where k: "k \<le> length nodes" "cache_of slog (take k nodes) c" by (auto simp: cache_ok_def)
      then have len: "length (bc_cutBalanced c) = Suc k" by (simp add: cache_of_def min_def)
      show ?thesis
      proof (cases "k < length nodes")
        case True
        with False Some len have "balanceCache slog nodes (length reps) cached =
            (case extendCache slog c nodes of Inl e \<Rightarrow> (cached, Inl e) | Inr c' \<Rightarrow> (Some c', Inr c'))"
          by (simp add: balanceCache_def Let_def split: sum.split)
        from settled [OF k(2,1) _ this] False show ?thesis by simp
      next
        case at_end: False
        with b False Some len have "cached' = cached" "r = Inr c" by (auto simp: balanceCache_def Let_def)
        with ok k at_end show ?thesis by (auto simp: cache_of_def split: option.split)
      qed
    qed
  qed
qed

lemma pairingQuery_exact:
  assumes s: "foldSurface slog = Inr (nodes, reps)" and ok: "cache_ok slog cached"
    and q: "pairingQuery slog cached seq offset = (cached', r)" and o: "offset \<le> 1"
  shows "cache_ok slog cached' \<and> r = pairingAnswer slog seq offset"
proof -
  have view: "surfaceOf slog = (nodes, length reps)" using s by (simp add: surfaceOf_def)
  obtain r' where b: "balanceCache slog nodes (length reps) cached = (cached', r')" "r = bindE r' (\<lambda>c. cutBalance c seq offset)"
    using q view by (auto simp: pairingQuery_def split: prod.splits)
  note exact = balanceCache_exact [OF s ok b(1)]
  show ?thesis
  proof (cases "firstUnmatched slog nodes")
    case (Some j)
    with exact b(2) view show ?thesis by (simp add: pairingAnswer_def)
  next
    case None
    with exact obtain c where c: "r' = Inr c" "cache_of slog nodes c" by auto
    have "distinct nodes"
      using s surfaceInv_nodes(1) [OF surface_replay.replay_inv] by (auto simp: foldSurface_Inr)
    then have index: "bc_indexBySeq c seq = indexOf nodes seq"
      using c(2) by (simp add: cache_of_def index_upds)
    have "indexOf nodes seq = Some i \<Longrightarrow> i < length nodes" for i by (simp add: array_simps)
    with None exact b(2) c index view o show ?thesis
      by (auto simp: pairingAnswer_def cutBalance_def cache_of_def simp del: upt_Suc split: option.split)
  qed
qed

section \<open>Properties\<close>

text \<open>Any use of a session and its cache: appends, of which the surface refuses some, and queries.\<close>

datatype pairing_call = LogAppend session_event | AskBefore int | AskAfter int

fun pairingCall :: "session_event list \<times> balance_cache option \<Rightarrow> pairing_call \<Rightarrow> session_event list \<times> balance_cache option" where
  "pairingCall (slog, cached) (LogAppend e) =
     (case foldSurface (slog @ [e]) of Inr _ \<Rightarrow> (slog @ [e], cached) | Inl _ \<Rightarrow> (slog, cached))"
| "pairingCall (slog, cached) (AskBefore seq) = (slog, fst (toolPairingBalancedBefore slog cached seq))"
| "pairingCall (slog, cached) (AskAfter seq) = (slog, fst (toolPairingBalancedAfter slog cached seq))"

lemma pairingCalls_ok:
  assumes "\<not> isl (foldSurface slog)" "cache_ok slog cached" "foldl pairingCall (slog, cached) calls = (slog', cached')"
  shows "\<not> isl (foldSurface slog') \<and> cache_ok slog' cached'"
  using assms
proof (induction calls arbitrary: slog cached)
  case (Cons c calls)
  obtain slog1 cached1 where c: "pairingCall (slog, cached) c = (slog1, cached1)" by fastforce
  obtain nodes reps where s: "foldSurface slog = Inr (nodes, reps)" using Cons.prems(1) by (cases "foldSurface slog") auto
  have query: "cache_ok slog (fst (pairingQuery slog cached seq offset))" if "offset \<le> 1" for seq offset
    using pairingQuery_exact [OF s Cons.prems(2) _ that] by (metis prod.collapse)
  have "\<not> isl (foldSurface slog1) \<and> cache_ok slog1 cached1"
    using c Cons.prems(1,2) query [of 0] query [of 1] cache_ok_append [OF s]
    by (cases c) (auto simp: toolPairingBalancedBefore_def toolPairingBalancedAfter_def isl_def split: sum.splits)
  with Cons.IH [of slog1 cached1] Cons.prems(3) c show ?case by simp
qed simp

text \<open>C29.
  The balance cache never drifts. However appends, surface rewrites and queries alternate, a query through the
  cache gives what a count over the current surface gives: the error of the first unmatched result, an error for
  an event that is not on the surface, and otherwise whether the calls before the cut were all answered.
\<close>

theorem pairing_cache_exact:
  assumes "\<not> isl (foldSurface start)" "foldl pairingCall (start, None) calls = (slog, cached)"
  shows "snd (toolPairingBalancedBefore slog cached seq) = pairingAnswer slog seq 0
    \<and> snd (toolPairingBalancedAfter slog cached seq) = pairingAnswer slog seq 1"
proof -
  have "cache_ok start None" by (simp add: cache_ok_def)
  from pairingCalls_ok [OF assms(1) this assms(2)] obtain nodes reps where s: "foldSurface slog = Inr (nodes, reps)"
    and ok: "cache_ok slog cached" by (cases "foldSurface slog") auto
  have "snd (pairingQuery slog cached seq offset) = pairingAnswer slog seq offset" if "offset \<le> 1" for offset
    using pairingQuery_exact [OF s ok _ that] by (metis prod.collapse)
  then show ?thesis by (simp add: toolPairingBalancedBefore_def toolPairingBalancedAfter_def)
qed

text \<open>A step with one answered call, asked before and after the answer.\<close>

definition samplePairing :: "session_event list" where
  "samplePairing =
     [sampleEvent 0 (UserMessage (sampleMessage ''a'')) (Some op_append) None,
      sampleEvent 1 (AssistantMessage 1 1 (sampleMessage ''m''\<lparr>msg_content := [ToolCallBlock ''c'' ''read'' ''{}'']\<rparr>) None False)
        (Some op_append) (Some (JArr []))]"

lemma samplePairing_fold: "foldSurface samplePairing = Inr ([0, 1], [])"
  by (simp add: foldSurface_def samplePairing_def surface_eval)

lemma sample_delta: "eventDelta (eventAt 0 samplePairing 0) = 0" "eventDelta (eventAt 0 samplePairing 1) = 1"
  by (simp_all add: samplePairing_def eventAt_def eventDelta_def sampleEvent_def)

theorem pairing_cache_exact_witness:
  "\<exists>slog cached. foldl pairingCall (samplePairing, None) [AskAfter 1, AskBefore 1] = (slog, cached)
    \<and> snd (toolPairingBalancedBefore slog cached 1) = Inr True
    \<and> snd (toolPairingBalancedAfter slog cached 1) = Inr False"
proof -
  obtain slog cached where run: "foldl pairingCall (samplePairing, None) [AskAfter 1, AskBefore 1] = (slog, cached)" by fastforce
  then have log: "slog = samplePairing" by auto
  have "\<not> isl (foldSurface samplePairing)" by (simp add: samplePairing_fold)
  from pairing_cache_exact [OF this run, of 1] show ?thesis
    using run unfolding log
    by (simp add: pairingAnswer_def surfaceOf_def samplePairing_fold firstUnmatched_def sample_delta Let_def upt_rec)
qed

end
