(* ===== verification/Compaction.thy ===== *)
theory Compaction
  imports Tool_Pairing
begin

text \<open>
  Compaction of a session surface: the transaction of \<open>compaction/compaction-basic/src/region.ts\<close>, its framing in
  \<open>summarizer.ts\<close>, the checkpoint source of \<open>compaction/compaction/src/checkpoint.ts\<close> and the durable invariant of
  \<open>compaction/compaction/src/invariant.ts\<close>.

  A transaction selects a balanced span of the surface, logs \<open>compaction/start\<close>, waits for a summary, and replaces
  the span by one checkpoint message; every later failure closes the bracket with an error. The token meter, the
  summarizer, the flush, the abort signal, clock and ids are the environment (\<open>compaction_env\<close>). While the
  summarizer and the flush run, others may append: each answers with the appends that happened meanwhile.
  The payload of a compaction event is its JSON record, and the fields of a checkpoint source are the JSON of
  \<open>PluginSource\<close>. Causes inside errors and the text of a recorded error are left out.
\<close>

section \<open>Selecting a span\<close>

record priced_node =
  pn_seq :: int
  pn_tokens :: int

datatype region_error =
    MeterMismatch
  | Pairing pairing_error
  | SpanStartMissing int
  | SpanEndMissing int
  | SpanReversed int int
  | SpanStartUnbalanced int
  | SpanEndUnbalanced int
  | CompactionBusy
  | SessionBusy
  | NoOpenTurn
  | SurfaceChanged
  | SummaryNotSmaller
  | SummarizerFailed
  | CompactionAborted
  | AppendRejected session_error
  | ManualCommitFailed
  | ManualSummaryFailed
  | ManualSurfaceChanged
  | FlushFailed

definition balancedBefore :: "session_event list \<Rightarrow> int \<Rightarrow> region_error + bool" where
  "balancedBefore slog seq = map_sum Pairing id (snd (toolPairingBalancedBefore slog None seq))"

definition balancedAfter :: "session_event list \<Rightarrow> int \<Rightarrow> region_error + bool" where
  "balancedAfter slog seq = map_sum Pairing id (snd (toolPairingBalancedAfter slog None seq))"

text \<open>The two loops of \<open>selectCompactableRange\<close>; the argument is \<open>keepFromIdx\<close>.\<close>

fun keepFrom :: "priced_node list \<Rightarrow> int \<Rightarrow> nat \<Rightarrow> int \<Rightarrow> nat" where
  "keepFrom priced retain 0 accumulated = 0"
| "keepFrom priced retain (Suc i) accumulated =
     (let accumulated' = accumulated + pn_tokens (priced ! i) in
      if retain \<le> accumulated' then i else keepFrom priced retain i accumulated')"

fun alignDown :: "session_event list \<Rightarrow> int list \<Rightarrow> nat \<Rightarrow> region_error + nat" where
  "alignDown slog nodes 0 = Inr 0"
| "alignDown slog nodes (Suc i) =
     bindE (balancedBefore slog (nodes ! Suc i)) (\<lambda>balanced.
       if balanced then Inr (Suc i) else alignDown slog nodes i)"

definition selectCompactableRange ::
    "session_event list \<Rightarrow> priced_node list \<Rightarrow> int \<Rightarrow> region_error + (int \<times> int) option" where
  "selectCompactableRange slog priced retain =
     (let nodes = fst (surfaceOf slog) in
      if priced = [] then Inr None
      else if length nodes \<noteq> length priced \<or> nodes \<noteq> map pn_seq priced then Inl MeterMismatch
      else
        let keep = keepFrom priced retain (length priced) 0 in
        if keep = 0 then Inr None
        else bindE (alignDown slog nodes keep) (\<lambda>keep'.
          if keep' = 0 then Inr None else Inr (Some (nodes ! 0, nodes ! (keep' - 1)))))"

record surface_selection =
  sn_start :: int
  sn_end :: int
  sn_startIdx :: nat
  sn_endIdx :: nat
  sn_shadowed :: "int list"

definition validateSurfaceRegion :: "session_event list \<Rightarrow> int \<Rightarrow> int \<Rightarrow> region_error + surface_selection" where
  "validateSurfaceRegion slog a b =
     (let nodes = fst (surfaceOf slog) in
      case indexOf nodes a of
        None \<Rightarrow> Inl (SpanStartMissing a)
      | Some i \<Rightarrow>
          (case indexOf nodes b of
             None \<Rightarrow> Inl (SpanEndMissing b)
           | Some j \<Rightarrow>
               if j < i then Inl (SpanReversed a b)
               else
                 bindE (balancedBefore slog (nodes ! i)) (\<lambda>before.
                 if \<not> before then Inl (SpanStartUnbalanced a)
                 else
                   bindE (balancedAfter slog (nodes ! j)) (\<lambda>after.
                   if \<not> after then Inl (SpanEndUnbalanced b)
                   else Inr \<lparr>sn_start = a, sn_end = b, sn_startIdx = i, sn_endIdx = j,
                             sn_shadowed = splicedOut i (j + 1 - i) nodes\<rparr>))))"

section \<open>The compaction lock in the log\<close>

record entry_scan =
  es_openTurn :: "int option"
  es_turnKnown :: bool
  es_unmatched :: "int option"
  es_bracketKnown :: bool
  es_latestEndSeed :: "int option"

definition scanEvent :: "session_event \<Rightarrow> entry_scan \<Rightarrow> entry_scan" where
  "scanEvent e sc =
     (let sc1 = (if es_latestEndSeed sc = None \<and> ev_data e = EndSeed
                 then sc\<lparr>es_latestEndSeed := Some (ev_seq e)\<rparr> else sc);
          sc2 = (if es_bracketKnown sc1 then sc1
                 else if ev_type e = ''compaction/start'' then sc1\<lparr>es_unmatched := Some (ev_seq e), es_bracketKnown := True\<rparr>
                 else if ev_type e = ''compaction/end'' then sc1\<lparr>es_bracketKnown := True\<rparr>
                 else sc1) in
      if es_turnKnown sc2 then sc2
      else
        (case ev_data e of
           TurnStart t \<Rightarrow> sc2\<lparr>es_openTurn := Some t, es_turnKnown := True\<rparr>
         | TurnEnd _ _ \<Rightarrow> sc2\<lparr>es_turnKnown := True\<rparr>
         | _ \<Rightarrow> sc2))"

fun scanBack :: "session_event list \<Rightarrow> entry_scan \<Rightarrow> entry_scan" where
  "scanBack [] sc = sc"
| "scanBack (e # es) sc =
     (let sc' = scanEvent e sc in
      if es_turnKnown sc' \<and> es_bracketKnown sc' \<and> es_latestEndSeed sc' \<noteq> None then sc' else scanBack es sc')"

definition inspectCompactionEntryState :: "session_event list \<Rightarrow> entry_scan" where
  "inspectCompactionEntryState slog =
     scanBack (rev slog)
       \<lparr>es_openTurn = None, es_turnKnown = False, es_unmatched = None, es_bracketKnown = False, es_latestEndSeed = None\<rparr>"

definition assertCompactionInactive :: "int option \<Rightarrow> int option \<Rightarrow> region_error + unit" where
  "assertCompactionInactive unmatched latestEndSeed =
     (case unmatched of
        None \<Rightarrow> Inr ()
      | Some start \<Rightarrow>
          if (case latestEndSeed of Some n \<Rightarrow> start < n | None \<Rightarrow> False) then Inr () else Inl CompactionBusy)"

definition assertNoActiveCompaction :: "session_event list \<Rightarrow> region_error + unit" where
  "assertNoActiveCompaction slog =
     (let sc = inspectCompactionEntryState slog in assertCompactionInactive (es_unmatched sc) (es_latestEndSeed sc))"

section \<open>The environment\<close>

record foreign_append =
  fa_entry :: "attachment option"
  fa_now :: int
  fa_data :: event_data
  fa_intent :: surface_intent

record summarization_input =
  si_system :: "string option"
  si_tools :: "json list option"
  si_messages :: "message list"

record summary_result =
  sr_summary :: "content_block list"
  sr_provider :: string
  sr_model :: string
  sr_maxTokens :: "json option"
  sr_usage :: "json option"
  sr_rawOutput :: "content_block list option"
  sr_llmStreamCall :: bool

record compaction_env =
  ce_measure :: "session_event list \<Rightarrow> priced_node list"
  ce_estimate :: "message \<Rightarrow> int"
  ce_summarize :: "summarization_input \<Rightarrow> session_event list \<Rightarrow> foreign_append list \<times> summary_result option"
  ce_flush :: "(session_event list \<Rightarrow> foreign_append list \<times> bool) option"
  ce_aborted :: "nat \<Rightarrow> bool"
  ce_now :: "nat \<Rightarrow> int"
  ce_entry :: "attachment option"
  ce_compactionId :: string
  ce_messageId :: string

record compaction_options =
  co_currentTurn :: bool
  co_wholeSurface :: bool
  co_sourceCommandId :: "string option"

definition applyForeign :: "session \<Rightarrow> foreign_append \<Rightarrow> session" where
  "applyForeign s f = fst (appendEvent s (fa_entry f) (fa_now f) (fa_data f) (fa_intent f))"

definition ownAppend :: "compaction_env \<Rightarrow> session \<Rightarrow> event_data \<Rightarrow> surface_intent \<Rightarrow> session \<times> (region_error + session_event)" where
  "ownAppend env s d intent =
     (case appendEvent s (ce_entry env) (ce_now env (length (ss_log s))) d intent of
        (s', Inl e) \<Rightarrow> (s', Inl (AppendRejected e))
      | (s', Inr e) \<Rightarrow> (s', Inr e))"

section \<open>The payloads\<close>

definition commandProp :: "compaction_options \<Rightarrow> (string \<times> json) list" where
  "commandProp opts = opt_prop ''sourceCommandId'' (map_option JStr (co_sourceCommandId opts))"

definition lifecycle :: "compaction_env \<Rightarrow> compaction_options \<Rightarrow> int option \<Rightarrow> json option \<Rightarrow> json" where
  "lifecycle env opts owner err =
     JObj ([(''compactionId'', JStr (ce_compactionId env))] @ commandProp opts
           @ [(''turn'', case owner of None \<Rightarrow> JNull | Some t \<Rightarrow> num_json t)] @ opt_prop ''error'' err)"

definition shadowProps :: "surface_selection \<Rightarrow> int \<Rightarrow> (string \<times> json) list" where
  "shadowProps sel tokens =
     [(''shadowedRange'', JObj [(''start'', num_json (sn_start sel)), (''end'', num_json (sn_end sel))]),
      (''shadowedSeqs'', JArr (map num_json (sn_shadowed sel))),
      (''shadowedTokenCount'', num_json tokens)]"

definition summaryData :: "compaction_env \<Rightarrow> compaction_options \<Rightarrow> surface_selection \<Rightarrow> int \<Rightarrow> summary_result \<Rightarrow> json" where
  "summaryData env opts sel tokens r =
     JObj ([(''compactionId'', JStr (ce_compactionId env))] @ commandProp opts
           @ [(''summary'', JArr (map content_block_json (sr_summary r)))]
           @ opt_prop ''rawOutput'' (map_option (\<lambda>bs. JArr (map content_block_json bs)) (sr_rawOutput r))
           @ (if sr_llmStreamCall r then [(''llmStreamCall'', JBool True)] else [])
           @ shadowProps sel tokens
           @ [(''provider'', JStr (sr_provider r)), (''model'', JStr (sr_model r))]
           @ opt_prop ''maxTokens'' (sr_maxTokens r) @ opt_prop ''usage'' (sr_usage r))"

definition compactCheckpointSource :: "compaction_env \<Rightarrow> compaction_options \<Rightarrow> message_source" where
  "compactCheckpointSource env opts =
     PluginSource ''compact'' (JObj ([(''compactionId'', JStr (ce_compactionId env))] @ commandProp opts))"

fun isCompactCheckpointSource :: "message_source \<Rightarrow> bool" where
  "isCompactCheckpointSource (PluginSource plugin _) \<longleftrightarrow> plugin = ''compact''"
| "isCompactCheckpointSource _ \<longleftrightarrow> False"

definition CHECKPOINT_PREAMBLE :: string where
  "CHECKPOINT_PREAMBLE =
     ''This is an automatically generated checkpoint condensing an earlier span of the conversation to free up context. ''
     @ ''Treat the captured context as established background and build on it without restating it. ''
     @ ''Continue the task directly from the messages that follow, without acknowledging this checkpoint.''"

definition frameSummary :: "content_block list \<Rightarrow> content_block list" where
  "frameSummary summary =
     [TextBlock (CHECKPOINT_PREAMBLE @ [CHR 0x0A, CHR 0x0A] @ ''<compacted-summary>'')] @ summary
     @ [TextBlock ''</compacted-summary>'']"

definition checkpointMessage :: "compaction_env \<Rightarrow> compaction_options \<Rightarrow> summary_result \<Rightarrow> message" where
  "checkpointMessage env opts r =
     \<lparr>msg_id = ce_messageId env, msg_role = RoleUser, msg_content = frameSummary (sr_summary r),
      msg_source = compactCheckpointSource env opts\<rparr>"

section \<open>The transaction\<close>

record prepared_compaction =
  pc_selection :: surface_selection
  pc_measurement :: "priced_node list"
  pc_selected :: "priced_node list"
  pc_tokens :: int
  pc_input :: summarization_input

definition buildSummarizationInput :: "session_event list \<Rightarrow> int list \<Rightarrow> summarization_input" where
  "buildSummarizationInput slog shadowed =
     (let header = foldRequestHeader slog None in
      \<lparr>si_system = Option.bind header eh_system, si_tools = Option.bind header eh_tools,
       si_messages = nodeMessages slog shadowed\<rparr>)"

definition prepareCompaction :: "compaction_env \<Rightarrow> session_event list \<Rightarrow> surface_selection \<Rightarrow> region_error + prepared_compaction" where
  "prepareCompaction env slog sel =
     (let measurement = ce_measure env slog;
          selected = splicedOut (sn_startIdx sel) (sn_endIdx sel + 1 - sn_startIdx sel) measurement in
      if length selected \<noteq> length (sn_shadowed sel) \<or> map pn_seq selected \<noteq> sn_shadowed sel then Inl SurfaceChanged
      else Inr \<lparr>pc_selection = sel, pc_measurement = measurement, pc_selected = selected,
                pc_tokens = sum_list (map pn_tokens selected), pc_input = buildSummarizationInput slog (sn_shadowed sel)\<rparr>)"

definition summarizeCompaction ::
    "compaction_env \<Rightarrow> compaction_options \<Rightarrow> prepared_compaction \<Rightarrow> session \<Rightarrow> session \<times> (region_error + summary_result)" where
  "summarizeCompaction env opts p s =
     (let (others, answer) = ce_summarize env (pc_input p) (ss_log s);
          s' = foldl applyForeign s others in
      (s', case answer of
             None \<Rightarrow> Inl SummarizerFailed
           | Some r \<Rightarrow>
               if pc_tokens p \<le> ce_estimate env (checkpointMessage env opts r) then Inl SummaryNotSmaller else Inr r))"

definition assertWholeSurfaceUnchanged :: "compaction_env \<Rightarrow> session_event list \<Rightarrow> prepared_compaction \<Rightarrow> region_error + unit" where
  "assertWholeSurfaceUnchanged env slog p =
     (if ce_measure env slog \<noteq> pc_measurement p then Inl SurfaceChanged else Inr ())"

definition assertSelectedSpanStable :: "compaction_env \<Rightarrow> session_event list \<Rightarrow> prepared_compaction \<Rightarrow> region_error + unit" where
  "assertSelectedSpanStable env slog p =
     (case validateSurfaceRegion slog (sn_start (pc_selection p)) (sn_end (pc_selection p)) of
        Inl _ \<Rightarrow> Inl SurfaceChanged
      | Inr current \<Rightarrow>
          if sn_shadowed current \<noteq> sn_shadowed (pc_selection p) then Inl SurfaceChanged
          else if splicedOut (sn_startIdx current) (sn_endIdx current + 1 - sn_startIdx current) (ce_measure env slog)
                 \<noteq> pc_selected p then Inl SurfaceChanged
          else Inr ())"

definition commitCompactionBody ::
    "compaction_env \<Rightarrow> compaction_options \<Rightarrow> session_event \<Rightarrow> prepared_compaction \<Rightarrow> summary_result \<Rightarrow> session
      \<Rightarrow> session \<times> (region_error + session_event)" where
  "commitCompactionBody env opts startEvent p r s =
     (let sel = pc_selection p in
      case ownAppend env s (PluginEvent ''compaction/summary'' (summaryData env opts sel (pc_tokens p) r)) NoIntent of
        (s1, Inl e) \<Rightarrow> (s1, Inl e)
      | (s1, Inr summaryEvent) \<Rightarrow>
          (case ownAppend env s1 (UserMessage (checkpointMessage env opts r))
                  (Intent (Some (op_replace (sn_start sel) (sn_end sel)))
                     (Some (seqs_json ([ev_seq startEvent, ev_seq summaryEvent] @ sn_shadowed sel)))) of
             (s2, Inl e) \<Rightarrow> (s2, Inl e)
           | (s2, Inr _) \<Rightarrow> (s2, Inr summaryEvent)))"

record compaction_result =
  cr_compactionId :: string
  cr_sourceCommandId :: "string option"
  cr_startSeq :: int
  cr_summarySeq :: int
  cr_endSeq :: int
  cr_summary :: "content_block list"
  cr_range :: "int \<times> int"
  cr_shadowed :: "int list"
  cr_tokens :: int

datatype compaction_stage = SummaryStage | CommitStage

text \<open>The failure of the \<open>try\<close> block with its stage, and whether its \<open>compaction/end\<close> was already attempted.\<close>

type_synonym attempt_failure = "region_error \<times> compaction_stage \<times> bool"

definition attemptCompaction ::
    "compaction_env \<Rightarrow> compaction_options \<Rightarrow> int option \<Rightarrow> session_event \<Rightarrow> surface_selection \<Rightarrow> session
      \<Rightarrow> session \<times> (attempt_failure + compaction_result)" where
  "attemptCompaction env opts owner startEvent sel s =
     (case prepareCompaction env (ss_log s) sel of
        Inl e \<Rightarrow> (s, Inl (e, SummaryStage, False))
      | Inr p \<Rightarrow>
          (case summarizeCompaction env opts p s of
             (s1, Inl e) \<Rightarrow> (s1, Inl (e, SummaryStage, False))
           | (s1, Inr r) \<Rightarrow>
               if \<not> co_currentTurn opts \<and> ce_aborted env 1 then (s1, Inl (CompactionAborted, SummaryStage, False))
               else
                 (case (if co_wholeSurface opts then assertWholeSurfaceUnchanged env (ss_log s1) p
                        else assertSelectedSpanStable env (ss_log s1) p) of
                    Inl e \<Rightarrow> (s1, Inl (e, SummaryStage, False))
                  | Inr _ \<Rightarrow>
                      (case commitCompactionBody env opts startEvent p r s1 of
                         (s2, Inl e) \<Rightarrow> (s2, Inl (e, CommitStage, False))
                       | (s2, Inr summaryEvent) \<Rightarrow>
                           (case ownAppend env s2 (PluginEvent ''compaction/end'' (lifecycle env opts owner None)) NoIntent of
                              (s3, Inl e) \<Rightarrow> (s3, Inl (e, CommitStage, True))
                            | (s3, Inr endEvent) \<Rightarrow>
                                (s3, Inr \<lparr>cr_compactionId = ce_compactionId env, cr_sourceCommandId = co_sourceCommandId opts,
                                          cr_startSeq = ev_seq startEvent, cr_summarySeq = ev_seq summaryEvent,
                                          cr_endSeq = ev_seq endEvent, cr_summary = sr_summary r,
                                          cr_range = (sn_start sel, sn_end sel), cr_shadowed = sn_shadowed sel,
                                          cr_tokens = pc_tokens p\<rparr>))))))"

text \<open>The \<open>catch\<close> block: it closes the bracket unless that was what failed.\<close>

definition closeCompaction ::
    "compaction_env \<Rightarrow> compaction_options \<Rightarrow> int option \<Rightarrow> session \<times> (attempt_failure + compaction_result)
      \<Rightarrow> session \<times> bool \<times> ((region_error \<times> compaction_stage) + compaction_result)" where
  "closeCompaction env opts owner attempt =
     (case attempt of
        (s, Inr result) \<Rightarrow> (s, True, Inr result)
      | (s, Inl (e, stage, True)) \<Rightarrow> (s, False, Inl (e, CommitStage))
      | (s, Inl (e, stage, False)) \<Rightarrow>
          (case ownAppend env s (PluginEvent ''compaction/end'' (lifecycle env opts owner (Some (JStr ''error'')))) NoIntent of
             (s', Inl e') \<Rightarrow> (s', False, Inl (e', CommitStage))
           | (s', Inr _) \<Rightarrow> (s', True, Inl (e, stage))))"

fun manualFailure :: "region_error \<times> compaction_stage \<Rightarrow> region_error" where
  "manualFailure (e, CommitStage) = ManualCommitFailed"
| "manualFailure (e, SummaryStage) = (if e = SurfaceChanged then ManualSurfaceChanged else ManualSummaryFailed)"

definition settleCompaction ::
    "compaction_env \<Rightarrow> compaction_options \<Rightarrow> session \<times> bool \<times> ((region_error \<times> compaction_stage) + compaction_result)
      \<Rightarrow> session \<times> (region_error + compaction_result)" where
  "settleCompaction env opts = (\<lambda>(s, closed, outcome).
     let (s', flushed) =
       (case ce_flush env of
          Some flush \<Rightarrow>
            if closed then (let (others, ok) = flush (ss_log s) in (foldl applyForeign s others, ok)) else (s, True)
        | None \<Rightarrow> (s, True)) in
     (s', if \<not> co_currentTurn opts \<and> ce_aborted env 2 then Inl CompactionAborted
          else
            (case outcome of
               Inl (e, stage) \<Rightarrow> Inl (if co_currentTurn opts then e else manualFailure (e, stage))
             | Inr result \<Rightarrow> if flushed then Inr result else Inl FlushFailed)))"

definition compactionOwner :: "compaction_options \<Rightarrow> int option \<Rightarrow> region_error + int option" where
  "compactionOwner opts openTurn =
     (if \<not> co_currentTurn opts then (if openTurn \<noteq> None then Inl SessionBusy else Inr None)
      else (case openTurn of None \<Rightarrow> Inl NoOpenTurn | Some t \<Rightarrow> Inr (Some t)))"

definition compactSurfaceRegion ::
    "compaction_env \<Rightarrow> compaction_options \<Rightarrow> int \<Rightarrow> int \<Rightarrow> session \<Rightarrow> session \<times> (region_error + compaction_result)" where
  "compactSurfaceRegion env opts a b s =
     (if \<not> co_currentTurn opts \<and> ce_aborted env 0 then (s, Inl CompactionAborted)
      else
        (case bindE (validateSurfaceRegion (ss_log s) a b) (\<lambda>sel.
                bindE (assertNoActiveCompaction (ss_log s)) (\<lambda>_.
                bindE (compactionOwner opts (es_openTurn (inspectCompactionEntryState (ss_log s)))) (\<lambda>owner.
                  Inr (sel, owner)))) of
           Inl e \<Rightarrow> (s, Inl e)
         | Inr (sel, owner) \<Rightarrow>
             (case ownAppend env s (PluginEvent ''compaction/start'' (lifecycle env opts owner None)) NoIntent of
                (s1, Inl e) \<Rightarrow> (s1, Inl e)
              | (s1, Inr startEvent) \<Rightarrow>
                  settleCompaction env opts
                    (closeCompaction env opts owner (attemptCompaction env opts owner startEvent sel s1)))))"

section \<open>Balanced spans\<close>

lemma balanced_at:
  assumes s: "foldSurface slog = Inr (nodes, reps)" and i: "i < length nodes"
  shows "balancedBefore slog (nodes ! i) =
      (case firstUnmatched slog nodes of
         Some k \<Rightarrow> Inl (Pairing (UnmatchedResult (nodes ! k)))
       | None \<Rightarrow> Inr (openCalls slog (take i nodes) = 0))"
    and "balancedAfter slog (nodes ! i) =
      (case firstUnmatched slog nodes of
         Some k \<Rightarrow> Inl (Pairing (UnmatchedResult (nodes ! k)))
       | None \<Rightarrow> Inr (openCalls slog (take (Suc i) nodes) = 0))"
proof -
  have "cache_ok slog None" by (simp add: cache_ok_def)
  then have q: "snd (pairingQuery slog None seq offset) = pairingAnswer slog seq offset" if "offset \<le> 1" for seq offset
    using pairingQuery_exact [OF s _ _ that] by (metis prod.collapse)
  have "distinct nodes" using s surfaceInv_nodes(1) [OF surface_replay.replay_inv] by (auto simp: foldSurface_Inr)
  then have "indexOf nodes (nodes ! i) = Some i" using i by (rule indexOf_distinct)
  with q [of 0] q [of 1] s show
    "balancedBefore slog (nodes ! i) =
      (case firstUnmatched slog nodes of
         Some k \<Rightarrow> Inl (Pairing (UnmatchedResult (nodes ! k)))
       | None \<Rightarrow> Inr (openCalls slog (take i nodes) = 0))"
    "balancedAfter slog (nodes ! i) =
      (case firstUnmatched slog nodes of
         Some k \<Rightarrow> Inl (Pairing (UnmatchedResult (nodes ! k)))
       | None \<Rightarrow> Inr (openCalls slog (take (Suc i) nodes) = 0))"
    by (simp_all add: balancedBefore_def balancedAfter_def toolPairingBalancedBefore_def toolPairingBalancedAfter_def
        pairingAnswer_def surfaceOf_def split: option.split)
qed

definition balanced_span :: "session_event list \<Rightarrow> int list \<Rightarrow> surface_selection \<Rightarrow> bool" where
  "balanced_span slog nodes sel \<longleftrightarrow>
     sn_startIdx sel \<le> sn_endIdx sel \<and> sn_endIdx sel < length nodes
     \<and> nodes ! sn_startIdx sel = sn_start sel \<and> nodes ! sn_endIdx sel = sn_end sel
     \<and> sn_shadowed sel = splicedOut (sn_startIdx sel) (sn_endIdx sel + 1 - sn_startIdx sel) nodes
     \<and> firstUnmatched slog nodes = None
     \<and> openCalls slog (take (sn_startIdx sel) nodes) = 0 \<and> openCalls slog (take (Suc (sn_endIdx sel)) nodes) = 0"

lemma validate_span:
  assumes s: "foldSurface slog = Inr (nodes, reps)"
  shows "validateSurfaceRegion slog a b = Inr sel \<longleftrightarrow> balanced_span slog nodes sel \<and> sn_start sel = a \<and> sn_end sel = b"
    (is "?v = _ \<longleftrightarrow> ?r")
proof -
  have d: "distinct nodes" using s surfaceInv_nodes(1) [OF surface_replay.replay_inv] by (auto simp: foldSurface_Inr)
  have view: "fst (surfaceOf slog) = nodes" using s by (simp add: surfaceOf_def)
  show ?thesis
  proof
    assume v: "?v = Inr sel"
    then obtain i j where ij: "indexOf nodes a = Some i" "indexOf nodes b = Some j" "i \<le> j"
      by (auto simp: validateSurfaceRegion_def view Let_def split: option.splits if_splits)
    then have at: "i < length nodes" "j < length nodes" "nodes ! i = a" "nodes ! j = b" by (auto simp: array_simps)
    with v ij balanced_at(1) [OF s at(1)] balanced_at(2) [OF s at(2)] show ?r
      by (auto simp: validateSurfaceRegion_def view Let_def result_simps balanced_span_def split: option.splits if_splits)
  next
    assume r: ?r
    then have ij: "indexOf nodes a = Some (sn_startIdx sel)" "indexOf nodes b = Some (sn_endIdx sel)"
      using indexOf_distinct [OF d, of "sn_startIdx sel"] indexOf_distinct [OF d, of "sn_endIdx sel"]
      by (auto simp: balanced_span_def)
    from r have at: "sn_startIdx sel < length nodes" "sn_endIdx sel < length nodes" by (auto simp: balanced_span_def)
    show "?v = Inr sel"
      using r ij balanced_at(1) [OF s at(1)] balanced_at(2) [OF s at(2)]
      by (cases sel) (simp add: validateSurfaceRegion_def view balanced_span_def)
  qed
qed

lemma keepFrom_tail:
  assumes "keepFrom priced retain i acc = k" "0 < k" "i \<le> length priced"
  shows "k < i \<and> retain \<le> acc + sum_list (map pn_tokens (take (i - k) (drop k priced)))"
  using assms
proof (induction i arbitrary: acc)
  case 0
  then show ?case by simp
next
  case (Suc i)
  let ?t = "pn_tokens (priced ! i)"
  show ?case
  proof (cases "retain \<le> acc + ?t")
    case True
    with Suc.prems have "k = i" "i < length priced" by (simp_all add: Let_def)
    with True show ?thesis by (simp add: take_Suc_conv_app_nth)
  next
    case False
    with Suc have ih: "k < i" "retain \<le> acc + ?t + sum_list (map pn_tokens (take (i - k) (drop k priced)))"
      by (auto simp: Let_def)
    have "take (Suc i - k) (drop k priced) = take (i - k) (drop k priced) @ [priced ! i]"
      using ih(1) Suc.prems(3) by (simp add: Suc_diff_le take_Suc_conv_app_nth)
    with ih show ?thesis by simp
  qed
qed

lemma alignDown_balanced:
  assumes s: "foldSurface slog = Inr (nodes, reps)" and "i < length nodes" "alignDown slog nodes i = Inr k"
  shows "k \<le> i \<and> (0 < k \<longrightarrow> firstUnmatched slog nodes = None \<and> openCalls slog (take k nodes) = 0)"
  using assms(2,3)
proof (induction i)
  case (Suc i)
  then show ?case
    using balanced_at(1) [OF s Suc.prems(1)] by (auto simp: result_simps split: option.splits if_splits)
qed simp

text \<open>
  A selected range is a balanced span from the head of the surface, and what stays behind it is not empty and
  was priced at no less than the retention budget.
\<close>

lemma selected_range:
  assumes s: "foldSurface slog = Inr (nodes, reps)"
    and sel: "selectCompactableRange slog priced retain = Inr (Some (a, b))"
    and tokens: "\<forall>p \<in> set priced. 0 \<le> pn_tokens p"
  shows "\<exists>k. 0 < k \<and> k < length nodes \<and> retain \<le> sum_list (map pn_tokens (drop k priced))
    \<and> validateSurfaceRegion slog a b =
        Inr \<lparr>sn_start = a, sn_end = b, sn_startIdx = 0, sn_endIdx = k - 1, sn_shadowed = take k nodes\<rparr>"
proof -
  have view: "fst (surfaceOf slog) = nodes" using s by (simp add: surfaceOf_def)
  define i where "i = keepFrom priced retain (length priced) 0"
  from sel view obtain k where k: "nodes = map pn_seq priced" "0 < i" "alignDown slog nodes i = Inr k" "0 < k"
      "a = nodes ! 0" "b = nodes ! (k - 1)"
    by (auto simp: selectCompactableRange_def Let_def result_simps i_def split: if_splits)
  have tail: "i < length priced" "retain \<le> sum_list (map pn_tokens (drop i priced))"
    using keepFrom_tail [of priced retain "length priced" 0 i] k(2) by (simp_all add: i_def)
  then have len: "i < length nodes" using k(1) by simp
  from alignDown_balanced [OF s len k(3)] k(4) have b: "k \<le> i" "firstUnmatched slog nodes = None" "openCalls slog (take k nodes) = 0"
    by auto
  have "drop k priced = take (i - k) (drop k priced) @ drop i priced"
    using b(1) by (metis append_take_drop_id drop_drop le_add_diff_inverse2)
  then have "sum_list (map pn_tokens (drop k priced))
      = sum_list (map pn_tokens (take (i - k) (drop k priced))) + sum_list (map pn_tokens (drop i priced))"
    by (metis map_append sum_list_append)
  moreover have "0 \<le> sum_list (map pn_tokens (take (i - k) (drop k priced)))"
    using tokens by (intro sum_list_nonneg) (auto dest: in_set_takeD in_set_dropD)
  ultimately have "retain \<le> sum_list (map pn_tokens (drop k priced))" using tail(2) by linarith
  moreover have "validateSurfaceRegion slog a b =
      Inr \<lparr>sn_start = a, sn_end = b, sn_startIdx = 0, sn_endIdx = k - 1, sn_shadowed = take k nodes\<rparr>"
    unfolding validate_span [OF s] using b k len by (auto simp: balanced_span_def splicedOut_def)
  ultimately show ?thesis using k(4) b(1) len by (intro exI [of _ k]) auto
qed

section \<open>What an append does\<close>

lemma own_append:
  assumes "session_ok s" "ownAppend env s d intent = (s', r)"
  shows "session_ok s'"
    and "r = Inl e \<Longrightarrow> ss_log s' = ss_log s"
    and "r = Inr ev \<Longrightarrow> ss_log s' = ss_log s @ [ev] \<and> ev_data ev = d \<and> ev_seq ev = int (length (ss_log s))
      \<and> surfaceMetadataSnapshot intent = Some (ev_surfaceOp ev, ev_sourceEventSeqs ev)"
proof -
  obtain r0 where a: "appendEvent s (ce_entry env) (ce_now env (length (ss_log s))) d intent = (s', r0)"
    "r = (case r0 of Inl e \<Rightarrow> Inl (AppendRejected e) | Inr ev \<Rightarrow> Inr ev)"
    using assms(2) by (auto simp: ownAppend_def split: prod.splits sum.splits)
  show "session_ok s'" by (rule append_ok [OF assms(1) a(1)])
  show "ss_log s' = ss_log s" if "r = Inl e"
    using a(1) that a(2) by (cases rule: append_cases) auto
  show "ss_log s' = ss_log s @ [ev] \<and> ev_data ev = d \<and> ev_seq ev = int (length (ss_log s))
      \<and> surfaceMetadataSnapshot intent = Some (ev_surfaceOp ev, ev_sourceEventSeqs ev)" if "r = Inr ev"
    using a(1) that a(2) by (cases rule: append_cases) auto
qed

definition fromForeign :: "foreign_append list \<Rightarrow> session_event \<Rightarrow> bool" where
  "fromForeign fs e \<longleftrightarrow> (\<exists>f \<in> set fs. ev_data e = fa_data f)"

lemma foreign_appends:
  assumes "session_ok s"
  shows "session_ok (foldl applyForeign s fs) \<and>
    (\<exists>es. ss_log (foldl applyForeign s fs) = ss_log s @ es \<and> (\<forall>e \<in> set es. fromForeign fs e))"
  using assms
proof (induction fs arbitrary: s)
  case Nil
  then show ?case by simp
next
  case (Cons f fs)
  obtain s1 r where a: "appendEvent s (fa_entry f) (fa_now f) (fa_data f) (fa_intent f) = (s1, r)" by fastforce
  then have s1: "applyForeign s f = s1" by (simp add: applyForeign_def)
  have ok: "session_ok s1" by (rule append_ok [OF Cons.prems a])
  from a obtain e1 where e1: "ss_log s1 = ss_log s @ e1" "\<forall>e \<in> set e1. ev_data e = fa_data f"
  proof (cases rule: append_cases)
    case (rejected err m)
    with that [of "[]"] show thesis by simp
  next
    case (accepted e op srcs m)
    with that [of "[e]"] show thesis by simp
  qed
  from Cons.IH [OF ok] obtain es where es: "session_ok (foldl applyForeign s1 fs)"
    "ss_log (foldl applyForeign s1 fs) = ss_log s1 @ es" "\<forall>e \<in> set es. fromForeign fs e" by blast
  from es e1 s1 show ?case by (auto simp: fromForeign_def intro!: exI [of _ "e1 @ es"])
qed

lemma surface_step:
  assumes "surfaceReplay 0 slog = Inr s" "\<not> isl (foldSurface (slog @ [e]))"
  obtains t where "surfaceStep 0 s e = Inr t" "surfaceReplay 0 (slog @ [e]) = Inr t"
proof -
  have "surfaceReplay 0 (slog @ [e]) = surfaceStep 0 s e"
    using assms(1) by (cases "surfaceStep 0 s e") (simp_all add: foldE_append)
  with assms(2) that show thesis by (cases "surfaceStep 0 s e") (auto simp: foldSurface_ok_iff)
qed

lemma surface_skips:
  assumes "foldSurface slog = Inr (nodes, reps)" "\<not> isl (foldSurface (slog @ [e]))" "\<not> isSurfaceEligibleType (ev_type e)"
  shows "foldSurface (slog @ [e]) = Inr (nodes, reps)"
proof -
  from assms(1) obtain st where r: "surfaceReplay 0 slog = Inr (slog, st, reps)" "nodes = sf_nodes st"
    by (auto simp: foldSurface_Inr)
  obtain t where t: "surfaceStep 0 (slog, st, reps) e = Inr t" "surfaceReplay 0 (slog @ [e]) = Inr t"
    by (rule surface_step [OF r(1) assms(2)])
  from t(1) show ?thesis
    by (cases rule: surfaceStep_cases) (use r(2) t(2) assms(3) in \<open>auto simp: foldSurface_replay\<close>)
qed

lemma surface_replaces:
  assumes s: "foldSurface slog = Inr (nodes, reps)" and ok: "\<not> isl (foldSurface (slog @ [e]))"
    and e: "ev_data e = UserMessage m" "ev_surfaceOp e = Some (op_replace a b)"
    and at: "i \<le> j" "j < length nodes" "nodes ! i = a" "nodes ! j = b"
  shows "\<exists>reps'. foldSurface (slog @ [e]) = Inr (take i nodes @ [ev_seq e] @ drop (Suc j) nodes, reps')"
proof -
  from s obtain st where r: "surfaceReplay 0 slog = Inr (slog, st, reps)" "nodes = sf_nodes st"
    by (auto simp: foldSurface_Inr)
  obtain t where t: "surfaceStep 0 (slog, st, reps) e = Inr t" "surfaceReplay 0 (slog @ [e]) = Inr t"
    by (rule surface_step [OF r(1) ok])
  have "op_replace a b \<noteq> op_append" by (simp add: op_replace_def op_append_def)
  then have op: "surfaceOpOf e = Inr (Some (OpReplace a b)) \<or> isl (surfaceOpOf e)"
    using e by (auto simp: surfaceOpOf_def isSurfaceEligibleType_def SURFACE_EVENT_TYPES_def op_replace_def)
  have d: "distinct nodes" using s surfaceInv_nodes(1) [OF surface_replay.replay_inv] by (auto simp: foldSurface_Inr)
  have "indexOf nodes a = Some i" "indexOf nodes b = Some j"
    using indexOf_distinct [OF d, of i] indexOf_distinct [OF d, of j] at by auto
  then have range: "replacementRange st a b = Inr (i, j, splicedOut i (j + 1 - i) nodes)"
    using at(1) r(2) by (simp add: replacementRange_def)
  from t(1) op range obtain st' reps' where "t = (slog @ [e], st', reps')" "sf_nodes st' = spliceAt i (j + 1 - i) [ev_seq e] nodes"
    using r(2) by (auto simp: surfaceStep_def applySurfaceEvent_def planSurfaceEvent_def result_simps isl_def)
  then show ?thesis unfolding foldSurface_replay t(2) using at(1) by (simp add: spliceAt_def)
qed

section \<open>A committed compaction\<close>

lemma firstUnmatched_None: "firstUnmatched slog ns = None \<longleftrightarrow> (\<forall>k < length ns. 0 \<le> openCalls slog (take (Suc k) ns))"
  by (simp add: firstUnmatched_def find_None_iff not_less) (meson not_le)

lemma span_later:
  assumes "foldSurface slog = Inr (nodes, reps)" "balanced_span slog nodes sel"
  shows "balanced_span (slog @ es) nodes sel"
proof -
  have "openCalls (slog @ es) (take k nodes) = openCalls slog (take k nodes)" for k
    by (rule openCalls_later) (auto dest!: in_set_takeD surface_nodes(1) [OF assms(1)])
  with assms(2) show ?thesis by (simp add: balanced_span_def firstUnmatched_def)
qed

definition commits ::
    "compaction_env \<Rightarrow> compaction_options \<Rightarrow> session_event list \<Rightarrow> session_event list \<Rightarrow> compaction_result \<Rightarrow> bool" where
  "commits env opts slog entries result \<longleftrightarrow>
     (\<exists>nodes reps reps' sel summary checkpoint closing r.
        entries = [summary, checkpoint, closing]
        \<and> foldSurface slog = Inr (nodes, reps) \<and> balanced_span slog nodes sel
        \<and> (sn_start sel, sn_end sel) = cr_range result \<and> sn_shadowed sel = cr_shadowed result
        \<and> ev_type summary = ''compaction/summary'' \<and> ev_type closing = ''compaction/end''
        \<and> ev_data checkpoint = UserMessage (checkpointMessage env opts r)
        \<and> ev_seq checkpoint = int (Suc (length slog))
        \<and> foldSurface (slog @ entries) =
            Inr (take (sn_startIdx sel) nodes @ [ev_seq checkpoint] @ drop (Suc (sn_endIdx sel)) nodes, reps'))"

lemma stable_span:
  assumes meter: "\<And>slog. map pn_seq (ce_measure env slog) = fst (surfaceOf slog)"
    and old: "foldSurface slog = Inr (nodes, reps)" "balanced_span slog nodes sel" "prepareCompaction env slog sel = Inr p"
    and new: "foldSurface (slog @ es) = Inr (nodes', reps')"
    and stable: "(if whole then assertWholeSurfaceUnchanged env (slog @ es) p else assertSelectedSpanStable env (slog @ es) p) = Inr ()"
  shows "\<exists>sel'. balanced_span (slog @ es) nodes' sel' \<and> sn_start sel' = sn_start sel \<and> sn_end sel' = sn_end sel
    \<and> sn_shadowed sel' = sn_shadowed sel"
proof -
  have p: "pc_selection p = sel" "pc_measurement p = ce_measure env slog"
    using old(3) by (auto simp: prepareCompaction_def Let_def split: if_splits)
  show ?thesis
  proof (cases whole)
    case True
    with stable p have "ce_measure env (slog @ es) = ce_measure env slog"
      by (auto simp: assertWholeSurfaceUnchanged_def split: if_splits)
    with meter [of "slog @ es"] meter [of slog] old(1) new have "nodes' = nodes" by (simp add: surfaceOf_def)
    with span_later [OF old(1,2)] show ?thesis by blast
  next
    case False
    with stable p obtain sel' where "validateSurfaceRegion (slog @ es) (sn_start sel) (sn_end sel) = Inr sel'"
      "sn_shadowed sel' = sn_shadowed sel"
      by (auto simp: assertSelectedSpanStable_def split: sum.splits if_splits)
    with validate_span [OF new] show ?thesis by blast
  qed
qed

lemma plugin_skips:
  assumes "foldSurface slog = Inr (nodes, reps)" "session_ok s" "ss_log s = slog @ [e]"
    "ev_type e \<in> {''compaction/start'', ''compaction/summary'', ''compaction/end''}"
  shows "foldSurface (slog @ [e]) = Inr (nodes, reps)"
  by (rule surface_skips [OF assms(1)])
     (use assms in \<open>auto simp: session_ok_def isSurfaceEligibleType_def SURFACE_EVENT_TYPES_def\<close>)

lemma attempt_commits:
  assumes meter: "\<And>slog. map pn_seq (ce_measure env slog) = fst (surfaceOf slog)"
    and ok: "session_ok s" and start: "foldSurface (ss_log s) = Inr (nodes, reps)" "balanced_span (ss_log s) nodes sel"
    and a: "attemptCompaction env opts owner startEvent sel s = (s', Inr result)"
  shows "session_ok s' \<and> cr_range result = (sn_start sel, sn_end sel)
    \<and> (\<exists>slog entries. ss_log s' = slog @ entries \<and> commits env opts slog entries result)"
proof -
  obtain p where p: "prepareCompaction env (ss_log s) sel = Inr p"
    using a by (auto simp: attemptCompaction_def split: sum.splits)
  then have sel: "pc_selection p = sel" by (auto simp: prepareCompaction_def Let_def split: if_splits)
  obtain s1 r where s1: "summarizeCompaction env opts p s = (s1, Inr r)"
    using a p by (auto simp: attemptCompaction_def split: sum.splits prod.splits)
  then obtain others where "s1 = foldl applyForeign s others"
    by (auto simp: summarizeCompaction_def Let_def split: prod.splits)
  with foreign_appends [OF ok, of others] obtain es where es: "session_ok s1" "ss_log s1 = ss_log s @ es" by blast
  obtain nodes1 reps1 where f1: "foldSurface (ss_log s1) = Inr (nodes1, reps1)"
    using session_ok_replay [OF es(1)] by blast
  have stable: "(if co_wholeSurface opts then assertWholeSurfaceUnchanged env (ss_log s @ es) p
      else assertSelectedSpanStable env (ss_log s @ es) p) = Inr ()"
    using a p s1 es(2) by (auto simp: attemptCompaction_def split: sum.splits prod.splits if_splits)
  obtain sel' where span: "balanced_span (ss_log s1) nodes1 sel'" "sn_start sel' = sn_start sel" "sn_end sel' = sn_end sel"
      "sn_shadowed sel' = sn_shadowed sel"
    using stable_span [OF meter start p f1 [unfolded es(2)] stable] unfolding es(2) by blast
  obtain s2 summary where c: "commitCompactionBody env opts startEvent p r s1 = (s2, Inr summary)"
      and fin: "\<exists>closing. ownAppend env s2 (PluginEvent ''compaction/end'' (lifecycle env opts owner None)) NoIntent = (s', Inr closing)"
      and result: "cr_range result = (sn_start sel, sn_end sel)" "cr_shadowed result = sn_shadowed sel"
    using a p s1 by (auto simp: attemptCompaction_def split: sum.splits prod.splits if_splits)
  obtain s1' checkpoint where
    body: "ownAppend env s1 (PluginEvent ''compaction/summary'' (summaryData env opts sel (pc_tokens p) r)) NoIntent = (s1', Inr summary)"
      "ownAppend env s1' (UserMessage (checkpointMessage env opts r))
         (Intent (Some (op_replace (sn_start sel) (sn_end sel)))
            (Some (seqs_json ([ev_seq startEvent, ev_seq summary] @ sn_shadowed sel)))) = (s2, Inr checkpoint)"
    using c sel by (auto simp: commitCompactionBody_def Let_def split: sum.splits prod.splits)
  obtain closing where fin: "ownAppend env s2 (PluginEvent ''compaction/end'' (lifecycle env opts owner None)) NoIntent = (s', Inr closing)"
    using fin by blast
  note a1 = own_append(1) [OF es(1) body(1)] own_append(3) [OF es(1) body(1) refl]
  note a2 = own_append(1) [OF a1(1) body(2)] own_append(3) [OF a1(1) body(2) refl]
  note a3 = own_append(1) [OF a2(1) fin] own_append(3) [OF a2(1) fin refl]
  have f2: "foldSurface (ss_log s1') = Inr (nodes1, reps1)"
    using plugin_skips [OF f1 a1(1)] a1(2) by simp
  from span have at: "sn_startIdx sel' \<le> sn_endIdx sel'" "sn_endIdx sel' < length nodes1"
    "nodes1 ! sn_startIdx sel' = sn_start sel" "nodes1 ! sn_endIdx sel' = sn_end sel" by (auto simp: balanced_span_def)
  have log2: "ss_log s2 = ss_log s1' @ [checkpoint]" "ev_data checkpoint = UserMessage (checkpointMessage env opts r)"
    "ev_surfaceOp checkpoint = Some (op_replace (sn_start sel) (sn_end sel))"
    using a2(2) by simp_all
  obtain folded where "foldSurface (ss_log s2) = Inr folded" using session_ok_replay [OF a2(1)] by blast
  then have "\<not> isl (foldSurface (ss_log s1' @ [checkpoint]))" unfolding log2(1) by simp
  from surface_replaces [OF f2 this log2(2,3) at] obtain reps2 where f3: "foldSurface (ss_log s2) =
      Inr (take (sn_startIdx sel') nodes1 @ [ev_seq checkpoint] @ drop (Suc (sn_endIdx sel')) nodes1, reps2)"
    unfolding log2(1) by blast
  have f4: "foldSurface (ss_log s') =
      Inr (take (sn_startIdx sel') nodes1 @ [ev_seq checkpoint] @ drop (Suc (sn_endIdx sel')) nodes1, reps2)"
    using plugin_skips [OF f3 a3(1)] a3(2) by simp
  have log: "ss_log s' = ss_log s1 @ [summary, checkpoint, closing]" using a1 a2 a3 by simp
  have "commits env opts (ss_log s1) [summary, checkpoint, closing] result"
    unfolding commits_def
    using f1 span result f4 [unfolded log] a1(2) a2(2) a3(2)
    by (intro exI [of _ nodes1] exI [of _ reps1] exI [of _ reps2] exI [of _ sel'] exI [of _ summary] exI [of _ checkpoint]
        exI [of _ closing] exI [of _ r]) simp
  with a3(1) result(1) log show ?thesis by blast
qed


text \<open>A successful transaction opens its bracket, commits the attempt, and appends nothing of its own afterwards.\<close>

lemma compaction_success:
  assumes c: "compactSurfaceRegion env opts a b s = (s', Inr result)"
  obtains sel owner s1 startEvent s2 others where
    "validateSurfaceRegion (ss_log s) a b = Inr sel"
    "ownAppend env s (PluginEvent ''compaction/start'' (lifecycle env opts owner None)) NoIntent = (s1, Inr startEvent)"
    "attemptCompaction env opts owner startEvent sel s1 = (s2, Inr result)"
    "s' = foldl applyForeign s2 others"
proof -
  from c obtain sel owner where sel: "validateSurfaceRegion (ss_log s) a b = Inr sel"
    and run: "(case ownAppend env s (PluginEvent ''compaction/start'' (lifecycle env opts owner None)) NoIntent of
        (s1, Inl e) \<Rightarrow> (s1, Inl e)
      | (s1, Inr startEvent) \<Rightarrow>
          settleCompaction env opts (closeCompaction env opts owner (attemptCompaction env opts owner startEvent sel s1)))
      = (s', Inr result)"
    by (auto simp: compactSurfaceRegion_def result_simps split: if_splits sum.splits prod.splits)
  from run obtain s1 startEvent where start:
      "ownAppend env s (PluginEvent ''compaction/start'' (lifecycle env opts owner None)) NoIntent = (s1, Inr startEvent)"
    and settle: "settleCompaction env opts (closeCompaction env opts owner (attemptCompaction env opts owner startEvent sel s1))
      = (s', Inr result)"
    by (auto split: sum.splits prod.splits)
  obtain s2 closed outcome where close: "closeCompaction env opts owner (attemptCompaction env opts owner startEvent sel s1)
      = (s2, closed, outcome)" by (metis prod_cases3)
  from settle close have out: "outcome = Inr result" and others: "\<exists>others. s' = foldl applyForeign s2 others"
    by (auto simp: settleCompaction_def Let_def intro: exI [of _ "[]"]
        split: if_splits option.splits sum.splits prod.splits)
  from close out have "attemptCompaction env opts owner startEvent sel s1 = (s2, Inr result)"
    by (auto simp: closeCompaction_def split: sum.splits prod.splits bool.splits)
  with that sel start others show thesis by blast
qed

lemma span_parts:
  assumes "balanced_span slog nodes sel"
  shows "nodes = take (sn_startIdx sel) nodes @ sn_shadowed sel @ drop (Suc (sn_endIdx sel)) nodes"
    and "openCalls slog (sn_shadowed sel) = 0"
    and "sn_shadowed sel \<noteq> []" and "hd (sn_shadowed sel) = sn_start sel" and "last (sn_shadowed sel) = sn_end sel"
proof -
  let ?i = "sn_startIdx sel" and ?j = "sn_endIdx sel"
  have ij: "?i \<le> ?j" "?j < length nodes" "sn_shadowed sel = take (Suc ?j - ?i) (drop ?i nodes)"
    "nodes ! ?i = sn_start sel" "nodes ! ?j = sn_end sel"
    using assms by (auto simp: balanced_span_def splicedOut_def)
  have upto: "take (Suc ?j) nodes = take ?i nodes @ sn_shadowed sel"
    using ij(1) take_add [of ?i "Suc ?j - ?i" nodes] by (simp add: ij(3))
  then show "nodes = take ?i nodes @ sn_shadowed sel @ drop (Suc ?j) nodes"
    by (metis append.assoc append_take_drop_id)
  have "openCalls slog (take ?i nodes @ sn_shadowed sel) = 0" "openCalls slog (take ?i nodes) = 0"
    using assms unfolding upto [symmetric] by (simp_all add: balanced_span_def)
  then show "openCalls slog (sn_shadowed sel) = 0" by simp
  show "sn_shadowed sel \<noteq> []" using ij by simp
  show "hd (sn_shadowed sel) = sn_start sel" using ij by (simp add: hd_conv_nth)
  show "last (sn_shadowed sel) = sn_end sel" using ij by (simp add: last_conv_nth)
qed

text \<open>An append nobody else takes part in is accepted when the surface can be replayed with it.\<close>

lemma own_accepts:
  assumes "session_ok s" "ce_entry env = None" "data_json d = Some j" "assertSupportedRequestHeader (event_type d) j = Inr ()"
    "surfaceMetadataSnapshot intent = Some (op, srcs)"
    "e = \<lparr>ev_seq = int (length (ss_log s)), ev_time = ce_now env (length (ss_log s)), ev_data = d,
          ev_surfaceOp = op, ev_sourceEventSeqs = srcs, ev_ignorable = False\<rparr>"
    "foldSurface (ss_log s @ [e]) = Inr folded"
  obtains s' where "ownAppend env s d intent = (s', Inr e)" "ss_log s' = ss_log s @ [e]" "session_ok s'"
proof -
  have ok: "manager_ok 0 (ss_log s) (ss_surface s)" using assms(1) by (simp add: session_ok_def)
  have "\<not> isl (surfaceReplay 0 (ss_log s @ [e]))" using assms(7) foldSurface_ok_iff [of "ss_log s @ [e]"] by simp
  then have "snd (validateNext (ss_log s) 0 (ss_surface s) e) = None"
    unfolding validateNext_tracks(2) [OF ok] by (auto simp: isl_def split: sum.splits)
  then obtain m where "validateNext (ss_log s) 0 (ss_surface s) e = (m, None)"
    by (cases "validateNext (ss_log s) 0 (ss_surface s) e") auto
  with assms(2-6) have "ownAppend env s d intent
      = (s\<lparr>ss_surface := m, ss_log := ss_log s @ [e], ss_eventsSnapshot := None\<rparr>, Inr e)"
    by (simp add: ownAppend_def appendEvent_def Let_def)
  with that own_append(1) [OF assms(1) this] show thesis by simp
qed

section \<open>A sample\<close>

text \<open>Two prompts of an idle session, the first of which is compacted by hand.\<close>

definition sampleIdleLog :: "session_event list" where
  "sampleIdleLog =
     [sampleEvent 0 (UserMessage (sampleMessage ''a'')) (Some op_append) None,
      sampleEvent 1 (UserMessage (sampleMessage ''b'')) (Some op_append) None]"

definition sampleIdleSession :: session where
  "sampleIdleSession =
     freshSession (minimalHeader ''s'' 0) sampleIdleLog (newSurfaceManager 0)"

definition sampleSummary :: summary_result where
  "sampleSummary = \<lparr>sr_summary = [TextBlock ''short''], sr_provider = ''p'', sr_model = ''m'', sr_maxTokens = None,
     sr_usage = None, sr_rawOutput = None, sr_llmStreamCall = False\<rparr>"

definition sampleCompaction :: compaction_env where
  "sampleCompaction =
     \<lparr>ce_measure = (\<lambda>slog. map (\<lambda>n. \<lparr>pn_seq = n, pn_tokens = 100\<rparr>) (fst (surfaceOf slog))),
      ce_estimate = (\<lambda>_. 10), ce_summarize = (\<lambda>_ _. ([], Some sampleSummary)), ce_flush = None, ce_aborted = (\<lambda>_. False),
      ce_now = (\<lambda>_. 0), ce_entry = None, ce_compactionId = ''k'', ce_messageId = ''m''\<rparr>"

definition sampleManual :: compaction_options where
  "sampleManual = \<lparr>co_currentTurn = False, co_wholeSurface = True, co_sourceCommandId = None\<rparr>"

lemma sampleIdle_fold: "foldSurface sampleIdleLog = Inr ([0, 1], [])"
  by (simp add: foldSurface_def sampleIdleLog_def surface_eval)

lemma sampleIdle_ok: "session_ok sampleIdleSession" "ss_log sampleIdleSession = sampleIdleLog"
proof -
  have "\<not> isl (surfaceReplay 0 sampleIdleLog)" using sampleIdle_fold foldSurface_ok_iff [of sampleIdleLog] by simp
  then show "session_ok sampleIdleSession"
    unfolding sampleIdleSession_def by (rule session_ok_fresh [OF manager_ok_new])
  show "ss_log sampleIdleSession = sampleIdleLog" by (simp add: sampleIdleSession_def)
qed


lemma sampleIdle_selected:
  "validateSurfaceRegion sampleIdleLog 0 0 =
     Inr \<lparr>sn_start = 0, sn_end = 0, sn_startIdx = 0, sn_endIdx = 0, sn_shadowed = [0]\<rparr>"
proof -
  have "eventDelta (eventAt 0 sampleIdleLog 0) = 0" "eventDelta (eventAt 0 sampleIdleLog 1) = 0"
    by (simp_all add: sampleIdleLog_def eventAt_def eventDelta_def sampleEvent_def)
  then have "balanced_span sampleIdleLog [0, 1] \<lparr>sn_start = 0, sn_end = 0, sn_startIdx = 0, sn_endIdx = 0, sn_shadowed = [0]\<rparr>"
    by (simp add: balanced_span_def splicedOut_def firstUnmatched_None less_Suc_eq)
  then show ?thesis using validate_span [OF sampleIdle_fold] by simp
qed

lemma sampleIdle_unlocked:
  "inspectCompactionEntryState sampleIdleLog =
     \<lparr>es_openTurn = None, es_turnKnown = False, es_unmatched = None, es_bracketKnown = False, es_latestEndSeed = None\<rparr>"
  by (simp add: inspectCompactionEntryState_def sampleIdleLog_def sampleEvent_def scanEvent_def)

text \<open>The log of the sample transaction, whatever its payloads are.\<close>

definition sampleTransaction :: "json \<Rightarrow> json \<Rightarrow> message \<Rightarrow> json \<Rightarrow> session_event list" where
  "sampleTransaction start summary m closing = sampleIdleLog @
     [sampleEvent 2 (PluginEvent ''compaction/start'' start) None None,
      sampleEvent 3 (PluginEvent ''compaction/summary'' summary) None None,
      sampleEvent 4 (UserMessage m) (Some (op_replace 0 0)) (Some (seqs_json [2, 3, 0])),
      sampleEvent 5 (PluginEvent ''compaction/end'' closing) None None]"

lemma sampleTransaction_folds:
  "foldSurface (take 3 (sampleTransaction a b m c)) = Inr ([0, 1], [])"
  "foldSurface (take 4 (sampleTransaction a b m c)) = Inr ([0, 1], [])"
  "\<exists>reps. foldSurface (take 5 (sampleTransaction a b m c)) = Inr ([4, 1], reps)"
  "\<exists>reps. foldSurface (sampleTransaction a b m c) = Inr ([4, 1], reps)"
  by (simp_all add: foldSurface_def sampleTransaction_def sampleIdleLog_def surface_eval)

lemma sampleCompaction_simps:
  "ce_entry sampleCompaction = None" "ce_now sampleCompaction = (\<lambda>_. 0)" "ce_aborted sampleCompaction = (\<lambda>_. False)"
  "ce_measure sampleCompaction slog = map (\<lambda>n. \<lparr>pn_seq = n, pn_tokens = 100\<rparr>) (fst (surfaceOf slog))"
  "ce_estimate sampleCompaction m = 10" "ce_summarize sampleCompaction input slog = ([], Some sampleSummary)"
  "ce_flush sampleCompaction = None" "co_currentTurn sampleManual = False" "co_wholeSurface sampleManual = True"
  by (simp_all add: sampleCompaction_def sampleManual_def)

lemma sample_append:
  assumes "session_ok s" "data_json d = Some j" "assertSupportedRequestHeader (event_type d) j = Inr ()"
    "surfaceMetadataSnapshot intent = Some (op, srcs)"
    "foldSurface (ss_log s @ [sampleEvent (int (length (ss_log s))) d op srcs]) = Inr folded"
  obtains s' where "ownAppend sampleCompaction s d intent = (s', Inr (sampleEvent (int (length (ss_log s))) d op srcs))"
    "ss_log s' = ss_log s @ [sampleEvent (int (length (ss_log s))) d op srcs]" "session_ok s'"
proof -
  have "sampleEvent (int (length (ss_log s))) d op srcs =
      \<lparr>ev_seq = int (length (ss_log s)), ev_time = ce_now sampleCompaction (length (ss_log s)), ev_data = d,
       ev_surfaceOp = op, ev_sourceEventSeqs = srcs, ev_ignorable = False\<rparr>"
    by (simp add: sampleCompaction_simps sampleEvent_def)
  from own_accepts [OF assms(1) sampleCompaction_simps(1) assms(2,3,4) this assms(5)] that show thesis by blast
qed

lemma sample_compacts:
  "\<exists>s' result. compactSurfaceRegion sampleCompaction sampleManual 0 0 sampleIdleSession = (s', Inr result)
    \<and> cr_shadowed result = [0]"
proof -
  let ?sel = "\<lparr>sn_start = 0, sn_end = 0, sn_startIdx = 0, sn_endIdx = 0, sn_shadowed = [0]\<rparr> :: surface_selection"
  let ?env = sampleCompaction and ?opts = sampleManual
  let ?a = "lifecycle ?env ?opts None None" and ?b = "summaryData ?env ?opts ?sel 100 sampleSummary"
    and ?m = "checkpointMessage ?env ?opts sampleSummary"
  let ?log = "sampleTransaction ?a ?b ?m ?a"
  note folds = sampleTransaction_folds [of ?a ?b ?m ?a]
  have header: "assertSupportedRequestHeader t j = Inr ()" if "t \<noteq> ''request/header-delta''" "t \<noteq> ''request/header''" for t j
    using that by (simp add: assertSupportedRequestHeader_def)
  have log: "take 3 ?log = sampleIdleLog @ [sampleEvent 2 (PluginEvent ''compaction/start'' ?a) None None]"
    "take 4 ?log = take 3 ?log @ [sampleEvent 3 (PluginEvent ''compaction/summary'' ?b) None None]"
    "take 5 ?log = take 4 ?log @ [sampleEvent 4 (UserMessage ?m) (Some (op_replace 0 0)) (Some (seqs_json [2, 3, 0]))]"
    "?log = take 5 ?log @ [sampleEvent 5 (PluginEvent ''compaction/end'' ?a) None None]"
    "length sampleIdleLog = 2"
    by (simp_all add: sampleTransaction_def sampleIdleLog_def)
  obtain s1 where s1: "ownAppend ?env sampleIdleSession (PluginEvent ''compaction/start'' ?a) NoIntent
      = (s1, Inr (sampleEvent 2 (PluginEvent ''compaction/start'' ?a) None None))" "ss_log s1 = take 3 ?log" "session_ok s1"
    by (rule sample_append [OF sampleIdle_ok(1), of "PluginEvent ''compaction/start'' ?a" ?a NoIntent None None])
       (use folds(1) log in \<open>simp_all add: header sampleIdle_ok(2)\<close>)
  obtain s2 where s2: "ownAppend ?env s1 (PluginEvent ''compaction/summary'' ?b) NoIntent
      = (s2, Inr (sampleEvent 3 (PluginEvent ''compaction/summary'' ?b) None None))" "ss_log s2 = take 4 ?log" "session_ok s2"
    by (rule sample_append [OF s1(3), of "PluginEvent ''compaction/summary'' ?b" ?b NoIntent None None])
       (use folds(2) log s1(2) in \<open>simp_all add: header\<close>)
  obtain reps3 reps4 where folds': "foldSurface (take 5 ?log) = Inr ([4, 1], reps3)" "foldSurface ?log = Inr ([4, 1], reps4)"
    using folds(3,4) by blast
  obtain s3 where s3: "ownAppend ?env s2 (UserMessage ?m) (Intent (Some (op_replace 0 0)) (Some (seqs_json [2, 3, 0])))
      = (s3, Inr (sampleEvent 4 (UserMessage ?m) (Some (op_replace 0 0)) (Some (seqs_json [2, 3, 0]))))"
      "ss_log s3 = take 5 ?log" "session_ok s3"
    by (rule sample_append [OF s2(3), of "UserMessage ?m" "message_json ?m" "Intent (Some (op_replace 0 0)) (Some (seqs_json [2, 3, 0]))"
          "Some (op_replace 0 0)" "Some (seqs_json [2, 3, 0])"])
       (use folds'(1) log s2(2) in \<open>simp_all add: header\<close>)
  obtain s4 where s4: "ownAppend ?env s3 (PluginEvent ''compaction/end'' ?a) NoIntent
      = (s4, Inr (sampleEvent 5 (PluginEvent ''compaction/end'' ?a) None None))" "ss_log s4 = ?log" "session_ok s4"
    by (rule sample_append [OF s3(3), of "PluginEvent ''compaction/end'' ?a" ?a NoIntent None None])
       (use folds'(2) log s3(2) in \<open>simp_all add: header\<close>)
  have meter: "ce_measure ?env (ss_log s1) = [\<lparr>pn_seq = 0, pn_tokens = 100\<rparr>, \<lparr>pn_seq = 1, pn_tokens = 100\<rparr>]"
    by (simp only: sampleCompaction_simps surfaceOf_def s1(2) folds(1)) simp
  then obtain p where p: "prepareCompaction ?env (ss_log s1) ?sel = Inr p" "pc_selection p = ?sel" "pc_tokens p = 100"
      "pc_measurement p = ce_measure ?env (ss_log s1)"
    by (simp add: prepareCompaction_def splicedOut_def)
  have r: "summarizeCompaction ?env ?opts p s1 = (s1, Inr sampleSummary)"
    by (simp add: summarizeCompaction_def sampleCompaction_simps p(3))
  have stable: "assertWholeSurfaceUnchanged ?env (ss_log s1) p = Inr ()"
    by (simp add: assertWholeSurfaceUnchanged_def p(4))
  have commit: "commitCompactionBody ?env ?opts (sampleEvent 2 (PluginEvent ''compaction/start'' ?a) None None) p sampleSummary s1
      = (s3, Inr (sampleEvent 3 (PluginEvent ''compaction/summary'' ?b) None None))"
    using s2(1) s3(1) by (simp add: commitCompactionBody_def p Let_def) (simp add: sampleEvent_def)
  obtain result where "attemptCompaction ?env ?opts None (sampleEvent 2 (PluginEvent ''compaction/start'' ?a) None None) ?sel s1
      = (s4, Inr result)" "cr_shadowed result = [0]"
    using s4(1) by (simp add: attemptCompaction_def p r stable commit sampleCompaction_simps)
  moreover have "validateSurfaceRegion (ss_log sampleIdleSession) 0 0 = Inr ?sel"
    by (simp add: sampleIdle_ok(2) sampleIdle_selected)
  moreover have "assertNoActiveCompaction (ss_log sampleIdleSession) = Inr ()"
    "compactionOwner ?opts (es_openTurn (inspectCompactionEntryState (ss_log sampleIdleSession))) = Inr None"
    by (simp_all add: sampleIdle_ok(2) sampleIdle_unlocked assertNoActiveCompaction_def assertCompactionInactive_def
        compactionOwner_def sampleCompaction_simps)
  ultimately show ?thesis
    using s1(1) by (simp add: compactSurfaceRegion_def closeCompaction_def settleCompaction_def sampleCompaction_simps)
qed

section \<open>Properties\<close>

text \<open>C9.
  A successful compaction replaces exactly the reported span and splits no tool exchange. Whatever others append
  meanwhile, the three closing events are adjacent in the log; over them the surface changes from \<open>before\<close>, the
  reported span and \<open>after\<close> to \<open>before\<close>, the checkpoint and \<open>after\<close>. The span runs from the requested start to the
  requested end, its calls are answered within it, and behind it every cut has as many open calls as it had.
\<close>

theorem compaction_keeps_pairs:
  assumes meter: "\<And>slog. map pn_seq (ce_measure env slog) = fst (surfaceOf slog)"
    and ok: "session_ok s" and c: "compactSurfaceRegion env opts a b s = (s', Inr result)"
  shows "\<exists>slog summary checkpoint closing later before after.
    ss_log s' = slog @ [summary, checkpoint, closing] @ later
    \<and> ev_type summary = ''compaction/summary'' \<and> ev_type closing = ''compaction/end''
    \<and> (\<exists>r. ev_data checkpoint = UserMessage (checkpointMessage env opts r))
    \<and> fst (surfaceOf slog) = before @ cr_shadowed result @ after
    \<and> fst (surfaceOf (slog @ [summary, checkpoint, closing])) = before @ [ev_seq checkpoint] @ after
    \<and> cr_shadowed result \<noteq> [] \<and> hd (cr_shadowed result) = a \<and> last (cr_shadowed result) = b
    \<and> openCalls slog before = 0 \<and> openCalls slog (cr_shadowed result) = 0
    \<and> (\<forall>k. openCalls (slog @ [summary, checkpoint, closing]) (before @ [ev_seq checkpoint] @ take k after)
          = openCalls slog (before @ cr_shadowed result @ take k after))"
proof -
  from c obtain sel owner s1 startEvent s2 others where run: "validateSurfaceRegion (ss_log s) a b = Inr sel"
    "ownAppend env s (PluginEvent ''compaction/start'' (lifecycle env opts owner None)) NoIntent = (s1, Inr startEvent)"
    "attemptCompaction env opts owner startEvent sel s1 = (s2, Inr result)" "s' = foldl applyForeign s2 others"
    by (rule compaction_success)
  obtain nodes reps where f: "foldSurface (ss_log s) = Inr (nodes, reps)" by (rule session_ok_replay [OF ok])
  note sel = validate_span [OF f, of a b sel, THEN iffD1, OF run(1)]
  note a1 = own_append(1) [OF ok run(2)] own_append(3) [OF ok run(2) refl]
  have f1: "foldSurface (ss_log s1) = Inr (nodes, reps)" using plugin_skips [OF f a1(1)] a1(2) by simp
  have span1: "balanced_span (ss_log s1) nodes sel" using span_later [OF f] sel a1(2) by simp
  from attempt_commits [OF meter a1(1) f1 span1 run(3)] obtain slog entries where
    fin: "session_ok s2" "cr_range result = (a, b)" "ss_log s2 = slog @ entries" "commits env opts slog entries result"
    using sel by auto
  from foreign_appends [OF fin(1), of others] run(4) obtain later where later: "ss_log s' = slog @ entries @ later"
    using fin(3) by auto
  from fin(4) obtain nodes reps reps' sel summary checkpoint closing r where
    e: "entries = [summary, checkpoint, closing]" and g: "foldSurface slog = Inr (nodes, reps)" "balanced_span slog nodes sel"
    and r: "(sn_start sel, sn_end sel) = cr_range result" "sn_shadowed sel = cr_shadowed result"
    and t: "ev_type summary = ''compaction/summary''" "ev_type closing = ''compaction/end''"
      "ev_data checkpoint = UserMessage (checkpointMessage env opts r)" "ev_seq checkpoint = int (Suc (length slog))"
    and g': "foldSurface (slog @ entries) =
        Inr (take (sn_startIdx sel) nodes @ [ev_seq checkpoint] @ drop (Suc (sn_endIdx sel)) nodes, reps')"
    unfolding commits_def by blast
  let ?before = "take (sn_startIdx sel) nodes" and ?after = "drop (Suc (sn_endIdx sel)) nodes"
  note parts = span_parts [OF g(2)]
  have zero: "openCalls slog ?before = 0" using g(2) by (simp add: balanced_span_def)
  have same: "openCalls (slog @ entries) ns = openCalls slog ns" if "set ns \<subseteq> set nodes" for ns
    by (rule openCalls_later) (use that surface_nodes(1) [OF g(1)] in auto)
  have "openCalls (slog @ entries) ?before = 0" using same [OF set_take_subset] zero by simp
  moreover have "openCalls (slog @ entries) (take k ?after) = openCalls slog (take k ?after)" for k
    by (rule same) (auto dest: in_set_takeD in_set_dropD)
  moreover have "nat (ev_seq checkpoint) = Suc (length slog)" using t(4) by simp
  then have "eventDelta (eventAt 0 (slog @ entries) (ev_seq checkpoint)) = 0"
    using t(3) by (simp add: e eventAt_def nth_append eventDelta_def del: of_nat_Suc)
  ultimately have cuts: "openCalls (slog @ entries) (?before @ [ev_seq checkpoint] @ take k ?after)
      = openCalls slog (?before @ cr_shadowed result @ take k ?after)" for k
    using zero parts(2) r(2) by simp
  show ?thesis
    by (rule exI [of _ slog], rule exI [of _ summary], rule exI [of _ checkpoint], rule exI [of _ closing],
        rule exI [of _ later], rule exI [of _ ?before], rule exI [of _ ?after])
       (use later t parts r fin(2) zero cuts g(1) g' in \<open>simp add: e surfaceOf_def, metis\<close>)
qed


theorem compaction_keeps_pairs_witness:
  "\<exists>s' result. compactSurfaceRegion sampleCompaction sampleManual 0 0 sampleIdleSession = (s', Inr result)
    \<and> (\<exists>slog summary checkpoint closing later before after.
        ss_log s' = slog @ [summary, checkpoint, closing] @ later
        \<and> fst (surfaceOf slog) = before @ [0] @ after
        \<and> fst (surfaceOf (slog @ [summary, checkpoint, closing])) = before @ [ev_seq checkpoint] @ after)"
proof -
  obtain s' result where run: "compactSurfaceRegion sampleCompaction sampleManual 0 0 sampleIdleSession = (s', Inr result)"
    "cr_shadowed result = [0]" using sample_compacts by blast
  have "map pn_seq (ce_measure sampleCompaction slog) = fst (surfaceOf slog)" for slog
    by (simp add: sampleCompaction_simps comp_def)
  from compaction_keeps_pairs [OF this sampleIdle_ok(1) run(1)] run(1) show ?thesis
    unfolding run(2) by (elim exE conjE) (rule exI conjI | assumption)+
qed

end
