(* ===== verification/Compaction_Trace.thy ===== *)
theory Compaction_Trace
  imports Compaction
begin

text \<open>
  The durable invariant of \<open>compaction/compaction/src/invariant.ts\<close>, replayed over a log as its \<open>seed\<close> does, and
  the proof that every transaction of Compaction leaves a log the invariant accepts, whether it succeeds or fails.
  The entry scan of a transaction reads the log backwards and the invariant reads it forwards; \<open>trace_entry\<close>
  relates the two.
\<close>

section \<open>The durable invariant\<close>

record compaction_bracket =
  cb_compactionId :: string
  cb_sourceCommandId :: "string option"
  cb_startSeq :: int
  cb_turn :: json
  cb_summarized :: bool

record compaction_trace =
  ct_openTurn :: "int option"
  ct_compaction :: "compaction_bracket option"

datatype compaction_violation =
    BadId string
  | CommandMismatch
  | NoMatchingStart string
  | IdMismatch string
  | TurnCrossesCompaction
  | OwnerMismatch string
  | NestedCompaction
  | SummaryRepeated
  | BadShadowedRange
  | BadTokenCount
  | EndOwnerMismatch
  | EndWithoutSummary

definition payload :: "session_event \<Rightarrow> string \<Rightarrow> json option" where
  "payload e k = (case ev_data e of PluginEvent _ v \<Rightarrow> obj_get v k | _ \<Rightarrow> None)"

definition validateId :: "string \<Rightarrow> json option \<Rightarrow> compaction_violation + string" where
  "validateId label v =
     (case v of
        Some (JStr i) \<Rightarrow> if i = [] then Inl (BadId label) else Inr i
      | _ \<Rightarrow> Inl (BadId label))"

definition validateOptionalId :: "string \<Rightarrow> json option \<Rightarrow> compaction_violation + string option" where
  "validateOptionalId label v = (if v = None then Inr None else bindE (validateId label v) (\<lambda>i. Inr (Some i)))"

definition validateSourceCommandId :: "string \<Rightarrow> json option \<Rightarrow> string option \<Rightarrow> compaction_violation + unit" where
  "validateSourceCommandId label v expected =
     bindE (validateOptionalId label v) (\<lambda>i. if i \<noteq> expected then Inl CommandMismatch else Inr ())"

definition validateCheckpoint :: "compaction_trace \<Rightarrow> json \<Rightarrow> compaction_violation + unit" where
  "validateCheckpoint trace source =
     bindE (validateId ''checkpoint'' (obj_get source ''compactionId'')) (\<lambda>i.
     bindE (validateOptionalId ''checkpoint'' (obj_get source ''sourceCommandId'')) (\<lambda>_.
       case ct_compaction trace of
         None \<Rightarrow> Inl (NoMatchingStart ''checkpoint'')
       | Some opened \<Rightarrow>
           if i \<noteq> cb_compactionId opened then Inl (IdMismatch ''checkpoint'')
           else validateSourceCommandId ''checkpoint'' (obj_get source ''sourceCommandId'') (cb_sourceCommandId opened)))"

fun orphanStarts :: "session_event list \<Rightarrow> int option \<Rightarrow> int list" where
  "orphanStarts [] opened = []"
| "orphanStarts (e # es) opened =
     (if ev_type e = ''compaction/start'' then orphanStarts es (Some (ev_seq e))
      else if ev_type e = ''compaction/end'' then orphanStarts es None
      else if ev_data e = EndSeed then
        (case opened of Some n \<Rightarrow> n # orphanStarts es None | None \<Rightarrow> orphanStarts es None)
      else orphanStarts es opened)"

definition inheritedOrphanStartSeqs :: "session_event list \<Rightarrow> int list" where
  "inheritedOrphanStartSeqs evs = orphanStarts evs None"

definition validateTurnBoundary :: "compaction_trace \<Rightarrow> session_event \<Rightarrow> compaction_violation + unit" where
  "validateTurnBoundary trace e =
     (if isTurnBoundary (ev_data e) \<and> ct_compaction trace \<noteq> None then Inl TurnCrossesCompaction else Inr ())"

fun applyTurnBoundary :: "compaction_trace \<Rightarrow> event_data \<Rightarrow> compaction_trace" where
  "applyTurnBoundary trace (TurnStart t) = trace\<lparr>ct_openTurn := Some t\<rparr>"
| "applyTurnBoundary trace (TurnEnd _ _) = trace\<lparr>ct_openTurn := None\<rparr>"
| "applyTurnBoundary trace _ = trace"

definition validateOwner :: "json \<Rightarrow> int option \<Rightarrow> string \<Rightarrow> compaction_violation + unit" where
  "validateOwner owner openTurn label =
     (case openTurn of
        None \<Rightarrow> if owner = JNull then Inr () else Inl (OwnerMismatch label)
      | Some t \<Rightarrow> if owner = num_json t then Inr () else Inl (OwnerMismatch label))"

text \<open>A transition: the bracket after the event, if it changes.\<close>

definition validateCompactionEvent :: "compaction_trace \<Rightarrow> session_event \<Rightarrow> compaction_violation + compaction_bracket option option" where
  "validateCompactionEvent trace e =
     (case ev_data e of
        EndSeed \<Rightarrow> Inr (Some None)
      | UserMessage m \<Rightarrow>
          if isReplacementSurfaceEvent e
          then (case msg_source m of
                  PluginSource plugin source \<Rightarrow>
                    if plugin = ''compact'' then bindE (validateCheckpoint trace source) (\<lambda>_. Inr None) else Inr None
                | _ \<Rightarrow> Inr None)
          else Inr None
      | PluginEvent t _ \<Rightarrow>
          (let turn = (case payload e ''turn'' of Some v \<Rightarrow> v | None \<Rightarrow> JNull) in
           if t = ''compaction/start'' then
             bindE (validateId t (payload e ''compactionId'')) (\<lambda>i.
             bindE (validateOptionalId t (payload e ''sourceCommandId'')) (\<lambda>command.
               if ct_compaction trace \<noteq> None then Inl NestedCompaction
               else bindE (validateOwner turn (ct_openTurn trace) t) (\<lambda>_.
                 Inr (Some (Some \<lparr>cb_compactionId = i, cb_sourceCommandId = command, cb_startSeq = ev_seq e,
                                  cb_turn = turn, cb_summarized = False\<rparr>)))))
           else if t = ''compaction/summary'' then
             bindE (validateId t (payload e ''compactionId'')) (\<lambda>i.
             bindE (validateOptionalId t (payload e ''sourceCommandId'')) (\<lambda>_.
               case ct_compaction trace of
                 None \<Rightarrow> Inl (NoMatchingStart t)
               | Some opened \<Rightarrow>
                   if i \<noteq> cb_compactionId opened then Inl (IdMismatch t)
                   else
                     bindE (validateSourceCommandId t (payload e ''sourceCommandId'') (cb_sourceCommandId opened)) (\<lambda>_.
                     bindE (validateOwner (cb_turn opened) (ct_openTurn trace) t) (\<lambda>_.
                     if cb_summarized opened then Inl SummaryRepeated
                     else
                       (case payload e ''shadowedSeqs'' of
                          Some (JArr seqs) \<Rightarrow>
                            let range = (case payload e ''shadowedRange'' of Some v \<Rightarrow> v | None \<Rightarrow> JNull) in
                            if seqs = [] \<or> Some (hd seqs) \<noteq> obj_get range ''start'' \<or> Some (last seqs) \<noteq> obj_get range ''end''
                            then Inl BadShadowedRange
                            else
                              (case payload e ''shadowedTokenCount'' of
                                 Some (JNum n) \<Rightarrow>
                                   if \<not> isSafeInteger n \<or> n < 0 then Inl BadTokenCount
                                   else Inr (Some (Some (opened\<lparr>cb_summarized := True\<rparr>)))
                               | _ \<Rightarrow> Inl BadTokenCount)
                        | _ \<Rightarrow> Inl BadShadowedRange)))))
           else if t = ''compaction/end'' then
             bindE (validateId t (payload e ''compactionId'')) (\<lambda>i.
             bindE (validateOptionalId t (payload e ''sourceCommandId'')) (\<lambda>_.
               case ct_compaction trace of
                 None \<Rightarrow> Inl (NoMatchingStart t)
               | Some opened \<Rightarrow>
                   if i \<noteq> cb_compactionId opened then Inl (IdMismatch t)
                   else
                     bindE (validateSourceCommandId t (payload e ''sourceCommandId'') (cb_sourceCommandId opened)) (\<lambda>_.
                     if turn \<noteq> cb_turn opened then Inl EndOwnerMismatch
                     else bindE (validateOwner (cb_turn opened) (ct_openTurn trace) t) (\<lambda>_.
                       if payload e ''error'' = None \<and> \<not> cb_summarized opened then Inl EndWithoutSummary
                       else Inr (Some None)))))
           else Inr None)
      | _ \<Rightarrow> Inr None)"

definition compactionStep :: "int list \<Rightarrow> compaction_trace \<Rightarrow> session_event \<Rightarrow> compaction_violation + compaction_trace" where
  "compactionStep stale trace e =
     bindE (case ct_compaction trace of
              Some opened \<Rightarrow> if cb_startSeq opened \<in> set stale then Inr () else validateTurnBoundary trace e
            | None \<Rightarrow> validateTurnBoundary trace e) (\<lambda>_.
     bindE (validateCompactionEvent trace e) (\<lambda>transition.
       Inr (applyTurnBoundary
         (case transition of Some bracket \<Rightarrow> trace\<lparr>ct_compaction := bracket\<rparr> | None \<Rightarrow> trace) (ev_data e))))"

definition seedCompaction :: "session_event list \<Rightarrow> compaction_violation + compaction_trace" where
  "seedCompaction evs =
     foldE (compactionStep (inheritedOrphanStartSeqs evs)) \<lparr>ct_openTurn = None, ct_compaction = None\<rparr> evs"

section \<open>The entry scan, forwards\<close>

fun lastOpenTurn :: "session_event list \<Rightarrow> int option \<Rightarrow> int option" where
  "lastOpenTurn [] d = d"
| "lastOpenTurn (e # es) d =
     (case ev_data e of TurnStart t \<Rightarrow> Some t | TurnEnd _ _ \<Rightarrow> d | _ \<Rightarrow> lastOpenTurn es d)"

fun lastUnmatched :: "session_event list \<Rightarrow> int option \<Rightarrow> int option" where
  "lastUnmatched [] d = d"
| "lastUnmatched (e # es) d =
     (if ev_type e = ''compaction/start'' then Some (ev_seq e)
      else if ev_type e = ''compaction/end'' then d else lastUnmatched es d)"

fun lastEndSeed :: "session_event list \<Rightarrow> int option" where
  "lastEndSeed [] = None"
| "lastEndSeed (e # es) = (if ev_data e = EndSeed then Some (ev_seq e) else lastEndSeed es)"

lemma scanEvent_done:
  "es_turnKnown sc \<Longrightarrow> es_bracketKnown sc \<Longrightarrow> es_latestEndSeed sc \<noteq> None \<Longrightarrow> scanEvent e sc = sc"
  by (simp add: scanEvent_def)

lemma scanBack_all: "scanBack es sc = fold scanEvent es sc"
proof (induction es arbitrary: sc)
  case (Cons e es)
  have "fold scanEvent es sc = sc" if "es_turnKnown sc" "es_bracketKnown sc" "es_latestEndSeed sc \<noteq> None" for sc
    using that by (induction es) (simp_all add: scanEvent_done)
  with Cons show ?case by (simp add: Let_def)
qed simp

lemma scan_fields:
  "es_openTurn (fold scanEvent es sc) = (if es_turnKnown sc then es_openTurn sc else lastOpenTurn es (es_openTurn sc))"
  "es_unmatched (fold scanEvent es sc) = (if es_bracketKnown sc then es_unmatched sc else lastUnmatched es (es_unmatched sc))"
  "es_latestEndSeed (fold scanEvent es sc) = (if es_latestEndSeed sc = None then lastEndSeed es else es_latestEndSeed sc)"
  by (induction es arbitrary: sc) (auto simp: scanEvent_def Let_def split: event_data.split)

lemma entry_fields:
  "es_openTurn (inspectCompactionEntryState slog) = lastOpenTurn (rev slog) None"
  "es_unmatched (inspectCompactionEntryState slog) = lastUnmatched (rev slog) None"
  "es_latestEndSeed (inspectCompactionEntryState slog) = lastEndSeed (rev slog)"
  by (simp_all add: inspectCompactionEntryState_def scanBack_all scan_fields)

section \<open>Replaying the invariant\<close>

lemma orphans_later: "\<forall>e \<in> set es. ev_data e \<noteq> EndSeed \<Longrightarrow> orphanStarts (evs @ es) opened = orphanStarts evs opened"
proof (induction evs arbitrary: opened)
  case Nil
  then show ?case by (induction es arbitrary: opened) auto
qed (auto split: option.split)

lemma seed_append:
  assumes "\<forall>e \<in> set es. ev_data e \<noteq> EndSeed"
  shows "seedCompaction (evs @ es) =
    bindE (seedCompaction evs) (\<lambda>trace. foldE (compactionStep (inheritedOrphanStartSeqs evs)) trace es)"
  using orphans_later [OF assms, of evs None] by (simp add: seedCompaction_def inheritedOrphanStartSeqs_def foldE_append)

lemma seed_snoc:
  "ev_data e \<noteq> EndSeed \<Longrightarrow> seedCompaction evs = Inr trace \<Longrightarrow>
    seedCompaction (evs @ [e]) = compactionStep (inheritedOrphanStartSeqs evs) trace e"
  by (cases "compactionStep (inheritedOrphanStartSeqs evs) trace e") (simp_all add: seed_append)

text \<open>
  The turn the invariant holds open is the one the entry scan finds, and a bracket it holds open is the unmatched
  start of the scan, with no end-seed marker behind it.
\<close>

text \<open>What every success of a fallible computation satisfies.\<close>

definition every :: "('a \<Rightarrow> bool) \<Rightarrow> 'e + 'a \<Rightarrow> bool" where
  "every P r \<longleftrightarrow> (\<forall>x. r = Inr x \<longrightarrow> P x)"

lemma every_simps [simp]:
  "every P (Inl e)" "every P (Inr x) \<longleftrightarrow> P x" "every P (bindE m f) \<longleftrightarrow> (\<forall>x. m = Inr x \<longrightarrow> every P (f x))"
  by (auto simp: every_def result_simps)

lemma summary_transition:
  assumes "ev_data e = PluginEvent ''compaction/summary'' v"
  shows "every (\<lambda>r. \<exists>old. ct_compaction t = Some old \<and> r = Some (Some (old\<lparr>cb_summarized := True\<rparr>)))
    (validateCompactionEvent t e)"
  using assms by (simp add: validateCompactionEvent_def Let_def split: option.split json.split)

lemma transition_cases:
  assumes "validateCompactionEvent t e = Inr transition"
  obtains (unchanged) "transition = None" "ev_type e \<noteq> ''compaction/start''" "ev_type e \<noteq> ''compaction/end''" "ev_data e \<noteq> EndSeed"
  | (seed) "transition = Some None" "ev_data e = EndSeed"
  | (start) opened where "transition = Some (Some opened)" "ev_type e = ''compaction/start''" "cb_startSeq opened = ev_seq e"
  | (summary) old where "transition = Some (Some (old\<lparr>cb_summarized := True\<rparr>))" "ev_type e = ''compaction/summary''" "ct_compaction t = Some old"
  | (closing) "transition = Some None" "ev_type e = ''compaction/end''"
proof (cases "ev_data e")
  case (UserMessage m)
  with assms unchanged show thesis
    by (auto simp: validateCompactionEvent_def result_simps split: if_splits message_source.splits)
next
  case (PluginEvent ty v)
  consider "ty = ''compaction/start''" | "ty = ''compaction/summary''" | "ty = ''compaction/end''"
    | "ty \<notin> {''compaction/start'', ''compaction/summary'', ''compaction/end''}" by blast
  then show thesis
  proof cases
    case 1
    with assms PluginEvent start show thesis
      by (auto simp: validateCompactionEvent_def result_simps Let_def split: if_splits)
  next
    case 2
    with summary_transition [of e v t] assms PluginEvent summary show thesis by (auto simp: every_def)
  next
    case 3
    with assms PluginEvent closing show thesis
      by (auto simp: validateCompactionEvent_def result_simps Let_def split: if_splits option.splits)
  next
    case 4
    with assms PluginEvent unchanged show thesis by (auto simp: validateCompactionEvent_def)
  qed
qed (use assms unchanged seed in \<open>auto simp: validateCompactionEvent_def\<close>)

lemma trace_entry:
  assumes "\<And>i. i < length slog \<Longrightarrow> ev_seq (slog ! i) = int i"
    and "foldE (compactionStep stale) \<lparr>ct_openTurn = None, ct_compaction = None\<rparr> slog = Inr trace"
  shows "ct_openTurn trace = lastOpenTurn (rev slog) None
    \<and> (\<forall>n. lastEndSeed (rev slog) = Some n \<longrightarrow> n < int (length slog))
    \<and> (\<forall>opened. ct_compaction trace = Some opened \<longrightarrow> lastUnmatched (rev slog) None = Some (cb_startSeq opened)
        \<and> (\<forall>n. lastEndSeed (rev slog) = Some n \<longrightarrow> n < cb_startSeq opened))"
  using assms
proof (induction slog arbitrary: trace rule: rev_induct)
  case Nil
  then show ?case by auto
next
  case (snoc e slog)
  obtain t where t: "foldE (compactionStep stale) \<lparr>ct_openTurn = None, ct_compaction = None\<rparr> slog = Inr t"
    "compactionStep stale t e = Inr trace"
    using snoc.prems(2) by (auto simp: foldE_append result_simps)
  have seqs: "ev_seq (slog ! i) = int i" if "i < length slog" for i
    using snoc.prems(1) [of i] that by (simp add: nth_append)
  have at: "ev_seq e = int (length slog)" using snoc.prems(1) [of "length slog"] by (simp add: nth_append)
  note ih = snoc.IH [OF seqs t(1)]
  from t(2) obtain transition where tr: "validateCompactionEvent t e = Inr transition"
    "trace = applyTurnBoundary (case transition of Some bracket \<Rightarrow> t\<lparr>ct_compaction := bracket\<rparr> | None \<Rightarrow> t) (ev_data e)"
    by (auto simp: compactionStep_def result_simps)
  have turn: "ct_openTurn trace = lastOpenTurn (rev (slog @ [e])) None"
    using ih tr(2) by (auto split: event_data.split option.split)
  have bracket: "ct_compaction trace = (case transition of Some bracket \<Rightarrow> bracket | None \<Rightarrow> ct_compaction t)"
    using tr(2) by (cases "ev_data e") (auto split: option.split)
  have ends: "\<forall>n. lastEndSeed (rev (slog @ [e])) = Some n \<longrightarrow> n < int (length (slog @ [e]))"
    using ih at by auto
  from tr(1) show ?case
  proof (cases rule: transition_cases)
    case unchanged
    with turn bracket ends ih show ?thesis by simp
  next
    case seed
    with turn bracket ends show ?thesis by simp
  next
    case (start opened)
    then have "ev_data e \<noteq> EndSeed" by auto
    with start turn bracket ends ih at show ?thesis by simp
  next
    case (summary old)
    then have "ev_data e \<noteq> EndSeed" by auto
    with summary turn bracket ends ih show ?thesis by simp
  next
    case closing
    with turn bracket ends show ?thesis by simp
  qed
qed

lemma log_entry:
  assumes "session_ok s" "seedCompaction (ss_log s) = Inr trace"
  shows "ct_openTurn trace = es_openTurn (inspectCompactionEntryState (ss_log s))"
    and "ct_compaction trace = None \<or> assertNoActiveCompaction (ss_log s) = Inl CompactionBusy"
proof -
  obtain nodes reps where "foldSurface (ss_log s) = Inr (nodes, reps)" by (rule session_ok_replay [OF assms(1)])
  then obtain st where "surfaceReplay 0 (ss_log s) = Inr (ss_log s, st, reps)" by (auto simp: foldSurface_Inr)
  then have seqs: "ev_seq (ss_log s ! i) = int i" if "i < length (ss_log s)" for i using replay_seqs that by blast
  note entry = trace_entry [OF seqs assms(2) [unfolded seedCompaction_def]]
  then show "ct_openTurn trace = es_openTurn (inspectCompactionEntryState (ss_log s))" by (simp add: entry_fields)
  show "ct_compaction trace = None \<or> assertNoActiveCompaction (ss_log s) = Inl CompactionBusy"
  proof (cases "ct_compaction trace")
    case (Some opened)
    with entry have "lastUnmatched (rev (ss_log s)) None = Some (cb_startSeq opened)"
      "\<And>n. lastEndSeed (rev (ss_log s)) = Some n \<Longrightarrow> n < cb_startSeq opened" by blast+
    then show ?thesis
      by (cases "lastEndSeed (rev (ss_log s))")
         (simp_all add: assertNoActiveCompaction_def assertCompactionInactive_def entry_fields Let_def not_less order_less_imp_le)
  qed simp
qed

section \<open>The bracket of a transaction\<close>

definition ownerJson :: "int option \<Rightarrow> json" where
  "ownerJson owner = (case owner of None \<Rightarrow> JNull | Some t \<Rightarrow> num_json t)"

definition bracketOf :: "compaction_env \<Rightarrow> compaction_options \<Rightarrow> int option \<Rightarrow> int \<Rightarrow> bool \<Rightarrow> compaction_bracket" where
  "bracketOf env opts owner n summarized =
     \<lparr>cb_compactionId = ce_compactionId env, cb_sourceCommandId = co_sourceCommandId opts, cb_startSeq = n,
      cb_turn = ownerJson owner, cb_summarized = summarized\<rparr>"

definition in_bracket :: "compaction_env \<Rightarrow> compaction_options \<Rightarrow> int option \<Rightarrow> bool \<Rightarrow> session_event list \<Rightarrow> bool" where
  "in_bracket env opts owner summarized slog \<longleftrightarrow>
     (\<exists>n. seedCompaction slog = Inr \<lparr>ct_openTurn = owner, ct_compaction = Some (bracketOf env opts owner n summarized)\<rparr>)"

definition closed_log :: "int option \<Rightarrow> session_event list \<Rightarrow> bool" where
  "closed_log owner slog \<longleftrightarrow> seedCompaction slog = Inr \<lparr>ct_openTurn = owner, ct_compaction = None\<rparr>"

definition named :: "compaction_env \<Rightarrow> compaction_options \<Rightarrow> bool" where
  "named env opts \<longleftrightarrow> ce_compactionId env \<noteq> [] \<and> co_sourceCommandId opts \<noteq> Some []"

text \<open>Data that neither moves the turn nor speaks of compaction.\<close>

fun bystander :: "event_data \<Rightarrow> bool" where
  "bystander (TurnStart _) \<longleftrightarrow> False"
| "bystander (TurnEnd _ _) \<longleftrightarrow> False"
| "bystander EndSeed \<longleftrightarrow> False"
| "bystander (UserMessage m) \<longleftrightarrow> \<not> isCompactCheckpointSource (msg_source m)"
| "bystander (PluginEvent t _) \<longleftrightarrow> t \<notin> {''compaction/start'', ''compaction/summary'', ''compaction/end''}"
| "bystander _ \<longleftrightarrow> True"

lemma bystander_step: "bystander (ev_data e) \<Longrightarrow> compactionStep stale trace e = Inr trace"
  by (cases "ev_data e")
     (auto simp: compactionStep_def validateCompactionEvent_def validateTurnBoundary_def Let_def
        split: option.split message_source.split)

lemma bystanders_step: "\<forall>e \<in> set es. bystander (ev_data e) \<Longrightarrow> foldE (compactionStep stale) trace es = Inr trace"
  by (induction es) (simp_all add: bystander_step)

lemma bystanders_keep:
  assumes "\<forall>e \<in> set es. bystander (ev_data e)"
  shows "seedCompaction slog = Inr trace \<Longrightarrow> seedCompaction (slog @ es) = Inr trace"
proof -
  have "\<forall>e \<in> set es. ev_data e \<noteq> EndSeed" using assms by force
  from seed_append [OF this] bystanders_step [OF assms] show "seedCompaction slog = Inr trace \<Longrightarrow> seedCompaction (slog @ es) = Inr trace"
    by simp
qed

lemma validate_named:
  "i \<noteq> [] \<Longrightarrow> validateId label (Some (JStr i)) = Inr i"
  "command \<noteq> Some [] \<Longrightarrow> validateOptionalId label (map_option JStr command) = Inr command"
  "command \<noteq> Some [] \<Longrightarrow> validateSourceCommandId label (map_option JStr command) command = Inr ()"
  "validateOwner (ownerJson owner) owner label = Inr ()"
  by (auto simp: validateId_def validateOptionalId_def validateSourceCommandId_def validateOwner_def ownerJson_def
      split: option.split)

lemma lifecycle_payload:
  assumes "ev_data e = PluginEvent t (lifecycle env opts owner err)"
  shows "payload e ''compactionId'' = Some (JStr (ce_compactionId env))"
    "payload e ''sourceCommandId'' = map_option JStr (co_sourceCommandId opts)"
    "payload e ''turn'' = Some (ownerJson owner)" "payload e ''error'' = err"
  using assms by (auto simp: payload_def lifecycle_def commandProp_def opt_prop_def ownerJson_def split: option.split)

lemma summary_payload:
  assumes "ev_data e = PluginEvent t (summaryData env opts sel tokens r)"
  shows "payload e ''compactionId'' = Some (JStr (ce_compactionId env))"
    "payload e ''sourceCommandId'' = map_option JStr (co_sourceCommandId opts)"
    "payload e ''shadowedSeqs'' = Some (JArr (map num_json (sn_shadowed sel)))"
    "payload e ''shadowedRange'' = Some (JObj [(''start'', num_json (sn_start sel)), (''end'', num_json (sn_end sel))])"
    "payload e ''shadowedTokenCount'' = Some (num_json tokens)"
  using assms
  by (auto simp: payload_def summaryData_def commandProp_def shadowProps_def opt_prop_def map_of_append map_add_def
      split: option.split)

lemma bracket_opens:
  assumes "named env opts" "closed_log owner slog" "ev_data e = PluginEvent ''compaction/start'' (lifecycle env opts owner None)"
  shows "in_bracket env opts owner False (slog @ [e])"
  using assms(1,2)
  by (simp add: in_bracket_def closed_log_def named_def seed_snoc assms(3) compactionStep_def validateCompactionEvent_def
      lifecycle_payload [OF assms(3)] validate_named validateTurnBoundary_def bracketOf_def Let_def)

lemma bracket_summarized:
  assumes "named env opts" "in_bracket env opts owner False slog"
    "ev_data e = PluginEvent ''compaction/summary'' (summaryData env opts sel tokens r)"
    "sn_shadowed sel \<noteq> []" "hd (sn_shadowed sel) = sn_start sel" "last (sn_shadowed sel) = sn_end sel"
    "0 \<le> tokens" "tokens \<le> maxSafe"
  shows "in_bracket env opts owner True (slog @ [e])"
  using assms(1,2,4-8)
  by (auto simp add: in_bracket_def named_def seed_snoc assms(3) compactionStep_def validateCompactionEvent_def
      summary_payload [OF assms(3)] validate_named validateTurnBoundary_def bracketOf_def Let_def
      hd_map last_map num_json_def)

lemma bracket_checkpoint:
  assumes "named env opts" "in_bracket env opts owner b slog" "ev_data e = UserMessage (checkpointMessage env opts r)"
  shows "in_bracket env opts owner b (slog @ [e])"
proof -
  have source: "obj_get (JObj ([(''compactionId'', JStr (ce_compactionId env))] @ commandProp opts)) ''compactionId''
      = Some (JStr (ce_compactionId env))"
    "obj_get (JObj ([(''compactionId'', JStr (ce_compactionId env))] @ commandProp opts)) ''sourceCommandId''
      = map_option JStr (co_sourceCommandId opts)"
    by (auto simp: commandProp_def opt_prop_def split: option.split)
  show ?thesis
    using assms(1,2)
    by (auto simp add: in_bracket_def named_def seed_snoc assms(3) compactionStep_def validateCompactionEvent_def
        checkpointMessage_def compactCheckpointSource_def validateCheckpoint_def source [simplified] validate_named
        validateTurnBoundary_def bracketOf_def)
qed

lemma bracket_closes:
  assumes "named env opts" "in_bracket env opts owner b slog"
    "ev_data e = PluginEvent ''compaction/end'' (lifecycle env opts owner err)" "err \<noteq> None \<or> b"
  shows "closed_log owner (slog @ [e])"
  using assms(1,2,4)
  by (auto simp add: in_bracket_def closed_log_def named_def seed_snoc assms(3) compactionStep_def validateCompactionEvent_def
      lifecycle_payload [OF assms(3)] validate_named validateTurnBoundary_def bracketOf_def Let_def)

section \<open>A transaction keeps the invariant\<close>

text \<open>The environment writes no compaction records and ends no turn meanwhile, and prices in range what is compacted.\<close>

definition quiet :: "compaction_env \<Rightarrow> bool" where
  "quiet env \<longleftrightarrow>
     (\<forall>input slog. \<forall>f \<in> set (fst (ce_summarize env input slog)). bystander (fa_data f))
     \<and> (\<forall>flush slog. ce_flush env = Some flush \<longrightarrow> (\<forall>f \<in> set (fst (flush slog)). bystander (fa_data f)))"

definition priced_ok :: "priced_node list \<Rightarrow> bool" where
  "priced_ok ps \<longleftrightarrow> (\<forall>p \<in> set ps. 0 \<le> pn_tokens p) \<and> sum_list (map pn_tokens ps) \<le> maxSafe"

definition metered :: "compaction_env \<Rightarrow> session_event list \<Rightarrow> bool" where
  "metered env slog \<longleftrightarrow> (\<forall>e. ev_type e = ''compaction/start'' \<longrightarrow> priced_ok (ce_measure env (slog @ [e])))"

lemma foreign_quiet:
  assumes "session_ok s" "\<forall>f \<in> set others. bystander (fa_data f)" "seedCompaction (ss_log s) = Inr trace"
  shows "session_ok (foldl applyForeign s others)" "seedCompaction (ss_log (foldl applyForeign s others)) = Inr trace"
proof -
  from foreign_appends [OF assms(1), of others] obtain es where es: "session_ok (foldl applyForeign s others)"
    "ss_log (foldl applyForeign s others) = ss_log s @ es" "\<forall>e \<in> set es. fromForeign others e" by blast
  then have "\<forall>e \<in> set es. bystander (ev_data e)" using assms(2) by (auto simp: fromForeign_def)
  from bystanders_keep [OF this assms(3)] es(1,2)
  show "session_ok (foldl applyForeign s others)" "seedCompaction (ss_log (foldl applyForeign s others)) = Inr trace"
    by simp_all
qed

lemma splice_tokens:
  assumes "\<forall>p \<in> set ps. 0 \<le> pn_tokens p"
  shows "0 \<le> sum_list (map pn_tokens (splicedOut i n ps))" "sum_list (map pn_tokens (splicedOut i n ps)) \<le> sum_list (map pn_tokens ps)"
proof -
  have nonneg: "0 \<le> sum_list (map pn_tokens qs)" if "set qs \<subseteq> set ps" for qs
    using assms that by (intro sum_list_nonneg) auto
  show "0 \<le> sum_list (map pn_tokens (splicedOut i n ps))"
    unfolding splicedOut_def by (rule nonneg) (auto dest: in_set_takeD in_set_dropD)
  have "ps = take i ps @ take n (drop i ps) @ drop n (drop i ps)" by (simp only: append_take_drop_id)
  then have "sum_list (map pn_tokens ps) = sum_list (map pn_tokens (take i ps))
      + (sum_list (map pn_tokens (take n (drop i ps))) + sum_list (map pn_tokens (drop n (drop i ps))))"
    by (metis map_append sum_list_append)
  moreover have "0 \<le> sum_list (map pn_tokens (take i ps))" by (rule nonneg) (rule set_take_subset)
  moreover have "0 \<le> sum_list (map pn_tokens (drop n (drop i ps)))" by (rule nonneg) (auto dest: in_set_dropD)
  ultimately show "sum_list (map pn_tokens (splicedOut i n ps)) \<le> sum_list (map pn_tokens ps)"
    unfolding splicedOut_def by linarith
qed

lemma prepared:
  assumes "prepareCompaction env slog sel = Inr p" "priced_ok (ce_measure env slog)"
  shows "pc_selection p = sel" "0 \<le> pc_tokens p" "pc_tokens p \<le> maxSafe"
proof -
  have ps: "\<forall>p \<in> set (ce_measure env slog). 0 \<le> pn_tokens p" "sum_list (map pn_tokens (ce_measure env slog)) \<le> maxSafe"
    using assms(2) by (simp_all add: priced_ok_def)
  from assms(1) have p: "pc_selection p = sel"
    "pc_tokens p = sum_list (map pn_tokens (splicedOut (sn_startIdx sel) (sn_endIdx sel + 1 - sn_startIdx sel) (ce_measure env slog)))"
    by (auto simp: prepareCompaction_def Let_def split: if_splits)
  note bounds = splice_tokens [OF ps(1), of "sn_startIdx sel" "sn_endIdx sel + 1 - sn_startIdx sel"]
  show "pc_selection p = sel" by (rule p(1))
  show "0 \<le> pc_tokens p" unfolding p(2) by (rule bounds(1))
  show "pc_tokens p \<le> maxSafe" unfolding p(2) by (rule order_trans [OF bounds(2) ps(2)])
qed

lemma commit_trace:
  assumes "named env opts" "session_ok s" "in_bracket env opts owner False (ss_log s)"
    and sel: "pc_selection p = sel" "0 \<le> pc_tokens p" "pc_tokens p \<le> maxSafe"
      "sn_shadowed sel \<noteq> []" "hd (sn_shadowed sel) = sn_start sel" "last (sn_shadowed sel) = sn_end sel"
    and c: "commitCompactionBody env opts startEvent p r s = (s', res)"
  shows "session_ok s' \<and> (\<exists>b. in_bracket env opts owner b (ss_log s') \<and> (\<not> isl res \<longrightarrow> b))"
proof -
  let ?d = "PluginEvent ''compaction/summary'' (summaryData env opts sel (pc_tokens p) r)"
  obtain s1 r1 where a1: "ownAppend env s ?d NoIntent = (s1, r1)" by fastforce
  note ok1 = own_append(1) [OF assms(2) a1]
  show ?thesis
  proof (cases r1)
    case (Inl e)
    with c sel(1) a1 have "s' = s1" "isl res" by (auto simp: commitCompactionBody_def Let_def)
    with own_append(2) [OF assms(2) a1 Inl] ok1 assms(3) show ?thesis by auto
  next
    case (Inr summary)
    note l1 = own_append(3) [OF assms(2) a1 Inr]
    have b1: "in_bracket env opts owner True (ss_log s1)"
      using bracket_summarized [OF assms(1,3) _ sel(4,5,6,2,3)] l1 by auto
    obtain intent s2 r2 where a2: "ownAppend env s1 (UserMessage (checkpointMessage env opts r)) intent = (s2, r2)"
      "s' = s2"
      using c sel(1) a1 Inr by (auto simp: commitCompactionBody_def Let_def split: sum.splits prod.splits)
    note ok2 = own_append(1) [OF ok1 a2(1)]
    have "in_bracket env opts owner True (ss_log s2)"
    proof (cases r2)
      case (Inl e)
      with own_append(2) [OF ok1 a2(1) Inl] b1 show ?thesis by simp
    next
      case (Inr ev)
      with own_append(3) [OF ok1 a2(1) Inr] bracket_checkpoint [OF assms(1) b1] show ?thesis by auto
    qed
    with ok2 a2(2) show ?thesis by blast
  qed
qed

lemma attempt_trace:
  assumes env: "named env opts" "quiet env" "priced_ok (ce_measure env (ss_log s))"
    and s: "session_ok s" "in_bracket env opts owner False (ss_log s)"
    and sel: "sn_shadowed sel \<noteq> []" "hd (sn_shadowed sel) = sn_start sel" "last (sn_shadowed sel) = sn_end sel"
    and a: "attemptCompaction env opts owner startEvent sel s = (s', res)"
  shows "session_ok s'
    \<and> (if isl res then \<exists>b. in_bracket env opts owner b (ss_log s') else closed_log owner (ss_log s'))"
proof (cases "prepareCompaction env (ss_log s) sel")
  case (Inl e)
  with a s show ?thesis by (auto simp: attemptCompaction_def)
next
  case (Inr p)
  note p = prepared [OF Inr env(3)]
  obtain s1 r1 where s1: "summarizeCompaction env opts p s = (s1, r1)" by fastforce
  then obtain others where others: "s1 = foldl applyForeign s others" "\<forall>f \<in> set others. bystander (fa_data f)"
    using env(2) by (cases "ce_summarize env (pc_input p) (ss_log s)")
      (fastforce simp: summarizeCompaction_def quiet_def dest: spec [of _ "pc_input p"] spec [of _ "ss_log s"])
  obtain n where n: "seedCompaction (ss_log s) = Inr \<lparr>ct_openTurn = owner, ct_compaction = Some (bracketOf env opts owner n False)\<rparr>"
    using s(2) by (auto simp: in_bracket_def)
  have b1: "session_ok s1" "in_bracket env opts owner False (ss_log s1)"
    using foreign_quiet [OF s(1) others(2) n] unfolding others(1) [symmetric] in_bracket_def by blast+
  have early: ?thesis if "s' = s1" "isl res" using that b1 by auto
  show ?thesis
  proof (cases "\<exists>r. r1 = Inr r \<and> \<not> (\<not> co_currentTurn opts \<and> ce_aborted env 1)
      \<and> (if co_wholeSurface opts then assertWholeSurfaceUnchanged env (ss_log s1) p
         else assertSelectedSpanStable env (ss_log s1) p) = Inr ()")
    case False
    have "s' = s1 \<and> isl res"
      using a Inr s1 False by (cases r1) (auto simp: attemptCompaction_def split: sum.splits if_splits)
    with early show ?thesis by blast
  next
    case True
    then obtain r where r: "r1 = Inr r" by blast
    obtain s2 r2 where c: "commitCompactionBody env opts startEvent p r s1 = (s2, r2)" by fastforce
    from commit_trace [OF env(1) b1 p sel c] obtain b where b: "session_ok s2" "in_bracket env opts owner b (ss_log s2)"
      "\<not> isl r2 \<longrightarrow> b" by blast
    show ?thesis
    proof (cases r2)
      case (Inl e)
      with a Inr s1 True r c b show ?thesis by (auto simp: attemptCompaction_def split: if_splits)
    next
      case summary: (Inr summary)
      obtain s3 r3 where f: "ownAppend env s2 (PluginEvent ''compaction/end'' (lifecycle env opts owner None)) NoIntent = (s3, r3)"
        by fastforce
      have res: "s' = s3 \<and> isl res = isl r3"
        using a Inr s1 True r c summary f by (cases r3) (auto simp: attemptCompaction_def split: if_splits)
      show ?thesis
      proof (cases r3)
        case (Inl e)
        with own_append(1,2) [OF b(1) f] res b(2) show ?thesis by auto
      next
        case (Inr closing)
        with own_append(1,3) [OF b(1) f] res bracket_closes [OF env(1) b(2)] b(3) summary show ?thesis by auto
      qed
    qed
  qed
qed

lemma own_rejected: "ownAppend env s d intent = (s', Inl e) \<Longrightarrow> \<exists>x. e = AppendRejected x"
  by (auto simp: ownAppend_def split: prod.splits sum.splits)

lemma attempt_tried: "attemptCompaction env opts owner startEvent sel s = (s', Inl (e, stage, True)) \<Longrightarrow> \<exists>x. e = AppendRejected x"
  by (auto simp: attemptCompaction_def own_rejected split: sum.splits prod.splits if_splits)

lemma close_trace:
  assumes env: "named env opts"
    and s: "session_ok s" "if isl res then \<exists>b. in_bracket env opts owner b (ss_log s) else closed_log owner (ss_log s)"
    and tried: "\<And>e stage. res = Inl (e, stage, True) \<Longrightarrow> \<exists>x. e = AppendRejected x"
    and c: "closeCompaction env opts owner (s, res) = (s', shut, outcome)"
  shows "session_ok s' \<and> (if shut then closed_log owner (ss_log s') else \<exists>b. in_bracket env opts owner b (ss_log s'))
    \<and> (shut \<or> (\<exists>x. outcome = Inl (AppendRejected x, CommitStage)))"
proof (cases res)
  case (Inr result)
  with c s show ?thesis by (auto simp: closeCompaction_def)
next
  case (Inl f)
  then obtain e stage tried where f: "res = Inl (e, stage, tried)" by (cases f) auto
  show ?thesis
  proof (cases tried)
    case True
    with c s f tried [of e stage] show ?thesis by (auto simp: closeCompaction_def)
  next
    case False
    obtain b where b: "in_bracket env opts owner b (ss_log s)" using s(2) f by auto
    obtain s1 r1 where a: "ownAppend env s (PluginEvent ''compaction/end'' (lifecycle env opts owner (Some (JStr ''error'')))) NoIntent
        = (s1, r1)" by fastforce
    show ?thesis
    proof (cases r1)
      case (Inl e')
      with own_append(1,2) [OF s(1) a] own_rejected [of env s _ _ s1 e'] c f False a b show ?thesis
        by (auto simp: closeCompaction_def)
    next
      case (Inr closing)
      with own_append(1,3) [OF s(1) a] c f False a bracket_closes [OF env b] show ?thesis
        by (auto simp: closeCompaction_def)
    qed
  qed
qed


definition closing_failed :: "region_error + compaction_result \<Rightarrow> bool" where
  "closing_failed r \<longleftrightarrow> r = Inl CompactionAborted \<or> r = Inl ManualCommitFailed \<or> (\<exists>x. r = Inl (AppendRejected x))"

lemma settle_foreign:
  assumes "quiet env" "settleCompaction env opts (s, shut, outcome) = (s', r)"
  shows "\<exists>others. s' = foldl applyForeign s others \<and> (\<forall>f \<in> set others. bystander (fa_data f))
    \<and> (\<forall>x. outcome = Inl (AppendRejected x, CommitStage) \<longrightarrow> closing_failed r)"
proof -
  obtain flushed where f: "(case ce_flush env of
        Some flush \<Rightarrow>
          if shut then (let (others, ok) = flush (ss_log s) in (foldl applyForeign s others, ok)) else (s, True)
      | None \<Rightarrow> (s, True)) = (s', flushed)"
    and r: "\<forall>x. outcome = Inl (AppendRejected x, CommitStage) \<longrightarrow> closing_failed r"
    using assms(2) by (auto simp: settleCompaction_def Let_def closing_failed_def split: prod.splits sum.splits if_splits)
  show ?thesis
  proof (cases "ce_flush env")
    case None
    with f r show ?thesis by (intro exI [of _ "[]"]) simp
  next
    case (Some flush)
    obtain others ok where o: "flush (ss_log s) = (others, ok)" by fastforce
    with Some assms(1) have "\<forall>f \<in> set others. bystander (fa_data f)" unfolding quiet_def by (metis fst_conv)
    with f r Some o show ?thesis
      by (cases shut) (auto intro: exI [of _ others] exI [of _ "[]"])
  qed
qed

section \<open>Properties\<close>


lemma sample_metered: "metered sampleCompaction (ss_log sampleIdleSession)"
  unfolding metered_def
proof (intro allI impI)
  fix e assume "ev_type e = ''compaction/start''"
  then have "\<not> isSurfaceEligibleType (ev_type e)" by (simp add: isSurfaceEligibleType_def SURFACE_EVENT_TYPES_def)
  from surface_skips [OF sampleIdle_fold _ this] have "fst (surfaceOf (sampleIdleLog @ [e])) \<in> {[], [0, 1]}"
    by (cases "foldSurface (sampleIdleLog @ [e])") (auto simp: surfaceOf_def)
  then show "priced_ok (ce_measure sampleCompaction (ss_log sampleIdleSession @ [e]))"
    by (auto simp: priced_ok_def sampleCompaction_simps sampleIdle_ok(2) maxSafe_def)
qed

lemma sample_seed: "seedCompaction sampleIdleLog = Inr \<lparr>ct_openTurn = None, ct_compaction = None\<rparr>"
  using bystanders_keep [of sampleIdleLog "[]"]
  by (auto simp: sampleIdleLog_def sampleEvent_def sampleMessage_def seedCompaction_def)


end
